(* ===== verification/GoBase.thy ===== *)
theory GoBase imports Main "HOL-Library.Sublist" "HOL-Library.Char_ord" begin

section \<open>The Go values the components share\<close>

text \<open>
  The prelude of the development: strings, integers and results as the Go code uses them.
  A Go \<open>string\<close> is a list of bytes (\<open>char list\<close>), an \<open>int\<close> is a 64-bit signed integer,
  an \<open>(v, error)\<close> pair is a value of \<open>'e + 'v\<close> (\<open>Inl\<close> the error), and a nil pointer is
  \<open>None\<close>. Only the parts of the standard library the modelled code calls are here:
  \<open>strings.TrimSpace\<close>, \<open>Fields\<close>, \<open>Split\<close>, \<open>Join\<close>, \<open>ToLower\<close>, \<open>EqualFold\<close>,
  \<open>Contains\<close>, and \<open>strconv.Atoi\<close>, \<open>Itoa\<close>. White space is Unicode white space in
  UTF-8, as \<open>TrimSpace\<close> and \<open>Fields\<close> have it; case mapping is the ASCII part of
  \<open>ToLower\<close> and \<open>EqualFold\<close> (bytes from 128 on are left alone).
\<close>

named_theorems go_defs "unfolding equations of the shared Go operations"

subsection \<open>Bounds and wrap-around of int\<close>

definition max_int64 :: int where
  "max_int64 = 9223372036854775807"

definition min_int64 :: int where
  "min_int64 = - 9223372036854775808"

definition int64_ok :: "int \<Rightarrow> bool" where
  "int64_ok x \<longleftrightarrow> min_int64 \<le> x \<and> x \<le> max_int64"

text \<open>The value an int holds after an operation whose exact result is \<open>x\<close>.\<close>

definition wrap64 :: "int \<Rightarrow> int" where
  "wrap64 x = (x + 9223372036854775808) mod 18446744073709551616 - 9223372036854775808"

lemma wrap64_ok [simp]: "int64_ok (wrap64 x)"
proof -
  have "0 \<le> (x + 9223372036854775808) mod 18446744073709551616"
    and "(x + 9223372036854775808) mod 18446744073709551616 < 18446744073709551616"
    by simp_all
  then show ?thesis by (simp add: int64_ok_def wrap64_def min_int64_def max_int64_def)
qed

lemma wrap64_id: "int64_ok x \<Longrightarrow> wrap64 x = x"
  by (simp add: int64_ok_def wrap64_def min_int64_def max_int64_def)

lemma wrap64_id_iff: "wrap64 x = x \<longleftrightarrow> int64_ok x"
  using wrap64_id wrap64_ok by metis

lemma wrap64_overflow:
  assumes "max_int64 < x" and "x \<le> 2 * max_int64 + 1"
  shows "wrap64 x < 0"
proof -
  have "(x + 9223372036854775808) mod 18446744073709551616 = x + 9223372036854775808 - 18446744073709551616"
    using assms by (simp add: max_int64_def flip: minus_mod_self2 [of "x + 9223372036854775808"])
  then show ?thesis using assms by (simp add: wrap64_def max_int64_def)
qed

subsection \<open>White space\<close>

text \<open>The UTF-8 encodings of the code points for which \<open>unicode.IsSpace\<close> is true.\<close>

definition go_spaces :: "string list" where
  "go_spaces =
     [[CHR 0x09], [CHR 0x0A], [CHR 0x0B], [CHR 0x0C], [CHR 0x0D], [CHR 0x20],
      [CHR 0xC2, CHR 0x85], [CHR 0xC2, CHR 0xA0], [CHR 0xE1, CHR 0x9A, CHR 0x80]] @
     map (\<lambda>c. [CHR 0xE2, CHR 0x80, c])
       [CHR 0x80, CHR 0x81, CHR 0x82, CHR 0x83, CHR 0x84, CHR 0x85, CHR 0x86, CHR 0x87,
        CHR 0x88, CHR 0x89, CHR 0x8A, CHR 0xA8, CHR 0xA9, CHR 0xAF] @
     [[CHR 0xE2, CHR 0x81, CHR 0x9F], [CHR 0xE3, CHR 0x80, CHR 0x80]]"

text \<open>The white-space encoding at the head of a string, if there is one.\<close>

definition space_at :: "string list \<Rightarrow> string \<Rightarrow> string option" where
  "space_at ws s = List.find (\<lambda>w. w \<noteq> [] \<and> prefix w s) ws"

lemma space_at_Some:
  "space_at ws s = Some w \<Longrightarrow> w \<in> set ws \<and> w \<noteq> [] \<and> prefix w s"
  by (auto simp: space_at_def find_Some_iff)

lemma space_at_Nil [simp]: "space_at ws [] = None"
  by (auto simp: space_at_def find_None_iff)

lemma space_at_shrinks:
  assumes "space_at ws s = Some w"
  shows "length s - length w < length s"
proof -
  have "0 < length w" "length w \<le> length s"
    using space_at_Some [OF assms] by (auto simp: prefix_length_le)
  then show ?thesis by linarith
qed

function trim_front :: "string list \<Rightarrow> string \<Rightarrow> string" where
  "trim_front ws s = (case space_at ws s of
     None \<Rightarrow> s
   | Some w \<Rightarrow> trim_front ws (drop (length w) s))"
  by pat_completeness auto
termination
proof (relation "measure (\<lambda>(ws, s). length s)", goal_cases)
  case (2 ws s w)
  then show ?case by (simp add: space_at_shrinks)
qed simp

declare trim_front.simps [simp del]

definition trim_space :: "string \<Rightarrow> string" where
  "trim_space s = rev (trim_front (map rev go_spaces) (rev (trim_front go_spaces s)))"

lemma trim_front_Nil [simp]: "trim_front ws [] = []"
  by (simp add: trim_front.simps)

lemma trim_space_Nil [simp]: "trim_space [] = []"
  by (simp add: trim_space_def)

lemma trim_front_no_space: "space_at ws (trim_front ws s) = None"
proof (induction ws s rule: trim_front.induct)
  case (1 ws s)
  show ?case
  proof (cases "space_at ws s")
    case None
    then show ?thesis by (simp add: trim_front.simps [of ws s])
  next
    case (Some w)
    with 1 show ?thesis by (simp add: trim_front.simps [of ws s])
  qed
qed

lemma trim_front_suffix: "suffix (trim_front ws s) s"
proof (induction ws s rule: trim_front.induct)
  case (1 ws s)
  show ?case
  proof (cases "space_at ws s")
    case None
    then show ?thesis by (simp add: trim_front.simps [of ws s])
  next
    case (Some w)
    with 1 have "suffix (trim_front ws (drop (length w) s)) (drop (length w) s)" by simp
    then show ?thesis using Some
      by (simp add: trim_front.simps [of ws s]) (meson suffix_drop suffix_order.trans)
  qed
qed

lemma trim_front_id: "space_at ws s = None \<Longrightarrow> trim_front ws s = s"
  by (simp add: trim_front.simps)

lemma space_at_prefix_None:
  assumes "space_at ws s = None" and "prefix t s"
  shows "space_at ws t = None"
  using assms by (auto simp: space_at_def find_None_iff intro: prefix_order.trans)

text \<open>Trimming twice is trimming once.\<close>

lemma trim_space_idem [simp]: "trim_space (trim_space s) = trim_space s"
proof -
  define u where "u = trim_front go_spaces s"
  define v where "v = trim_front (map rev go_spaces) (rev u)"
  have "suffix v (rev u)" by (simp add: v_def trim_front_suffix)
  then have pre: "prefix (rev v) u" by (metis rev_rev_ident suffix_to_prefix)
  have "space_at go_spaces u = None" by (simp add: u_def trim_front_no_space)
  then have "space_at go_spaces (rev v) = None" using pre by (rule space_at_prefix_None)
  then have "trim_front go_spaces (rev v) = rev v" by (rule trim_front_id)
  moreover have "space_at (map rev go_spaces) v = None" by (simp add: v_def trim_front_no_space)
  then have "trim_front (map rev go_spaces) v = v" by (rule trim_front_id)
  ultimately show ?thesis by (simp add: trim_space_def flip: u_def v_def)
qed

text \<open>\<open>strings.Fields\<close>: the maximal runs of bytes that are not white space.\<close>

function fields_from :: "string \<Rightarrow> string \<Rightarrow> string list" where
  "fields_from cur [] = (if cur = [] then [] else [cur])"
| "fields_from cur (c # cs) = (case space_at go_spaces (c # cs) of
     Some w \<Rightarrow> (if cur = [] then [] else [cur]) @ fields_from [] (drop (length w) (c # cs))
   | None \<Rightarrow> fields_from (cur @ [c]) cs)"
  by pat_completeness auto
termination
  by (relation "measure (\<lambda>(cur, s). length s)") (auto dest: space_at_shrinks)

definition go_fields :: "string \<Rightarrow> string list" where
  "go_fields s = fields_from [] s"

subsection \<open>Splitting, joining, case and containment\<close>

text \<open>\<open>strings.Split\<close> with a separator of one byte: never the empty list.\<close>

fun split_on :: "char \<Rightarrow> string \<Rightarrow> string list" where
  "split_on d [] = [[]]"
| "split_on d (c # cs) =
     (if c = d then [] # split_on d cs
      else case split_on d cs of [] \<Rightarrow> [[c]] | p # ps \<Rightarrow> (c # p) # ps)"

fun join_with :: "char \<Rightarrow> string list \<Rightarrow> string" where
  "join_with d [] = []"
| "join_with d [p] = p"
| "join_with d (p # q # ps) = p @ d # join_with d (q # ps)"

lemma split_on_not_Nil [simp]: "split_on d s \<noteq> []"
  by (induction s) (auto split: list.splits)

lemma split_on_no_sep: "p \<in> set (split_on d s) \<Longrightarrow> d \<notin> set p"
  by (induction s arbitrary: p) (auto split: if_splits list.splits)

lemma join_split [simp]: "join_with d (split_on d s) = s"
proof (induction s)
  case (Cons c cs)
  show ?case
  proof (cases "split_on d cs")
    case (Cons p ps)
    then show ?thesis using Cons.IH by (cases ps) auto
  qed simp
qed simp

lemma split_on_free: "d \<notin> set s \<Longrightarrow> split_on d s = [s]"
  by (induction s) auto

lemma split_on_append:
  "d \<notin> set p \<Longrightarrow> split_on d (p @ d # s) = p # split_on d s"
  by (induction p) auto

lemma split_join:
  "ps \<noteq> [] \<Longrightarrow> (\<forall>p\<in>set ps. d \<notin> set p) \<Longrightarrow> split_on d (join_with d ps) = ps"
  by (induction d ps rule: join_with.induct) (auto simp: split_on_free split_on_append)

definition ascii_lower :: "char \<Rightarrow> char" where
  "ascii_lower c =
     (if 65 \<le> (of_char c :: nat) \<and> (of_char c :: nat) \<le> 90 then char_of ((of_char c :: nat) + 32) else c)"

definition to_lower :: "string \<Rightarrow> string" where
  "to_lower s = map ascii_lower s"

definition equal_fold :: "string \<Rightarrow> string \<Rightarrow> bool" where
  "equal_fold a b \<longleftrightarrow> to_lower a = to_lower b"

lemma ascii_lower_idem [simp]: "ascii_lower (ascii_lower c) = ascii_lower c"
  by (auto simp: ascii_lower_def)

lemma to_lower_idem [simp]: "to_lower (to_lower s) = to_lower s"
  by (simp add: to_lower_def)

lemma to_lower_Nil [simp]: "to_lower [] = []" "to_lower s = [] \<longleftrightarrow> s = []"
  by (simp_all add: to_lower_def)

lemma equal_fold_refl [simp]: "equal_fold s s"
  by (simp add: equal_fold_def)

lemma equal_fold_sym: "equal_fold a b \<longleftrightarrow> equal_fold b a"
  by (auto simp: equal_fold_def)

lemma equal_fold_trans: "equal_fold a b \<Longrightarrow> equal_fold b c \<Longrightarrow> equal_fold a c"
  by (simp add: equal_fold_def)

subsection \<open>Decimal numbers\<close>

definition digit_val :: "char \<Rightarrow> int option" where
  "digit_val c =
     (let n = (of_char c :: nat) in if 48 \<le> n \<and> n \<le> 57 then Some (int n - 48) else None)"

fun digits_val :: "int \<Rightarrow> string \<Rightarrow> int option" where
  "digits_val acc [] = Some acc"
| "digits_val acc (c # cs) = (case digit_val c of
     None \<Rightarrow> None
   | Some v \<Rightarrow> digits_val (10 * acc + v) cs)"

text \<open>
  \<open>strconv.Atoi\<close>: an optional sign and at least one digit, in the range of int;
  \<open>None\<close> is a syntax or a range error.
\<close>

definition atoi :: "string \<Rightarrow> int option" where
  "atoi s =
     (let (neg, body) = (case s of
            [] \<Rightarrow> (False, [])
          | c # cs \<Rightarrow> (if c = CHR ''-'' then (True, cs)
                      else if c = CHR ''+'' then (False, cs) else (False, s)))
      in if body = [] then None
         else case digits_val 0 body of
           None \<Rightarrow> None
         | Some v \<Rightarrow> (let n = (if neg then - v else v) in if int64_ok n then Some n else None))"

lemma atoi_ok: "atoi s = Some n \<Longrightarrow> int64_ok n"
  by (auto simp: atoi_def Let_def split: if_splits option.splits prod.splits)

lemma atoi_Nil [simp]: "atoi [] = None"
  by (simp add: atoi_def)

definition digit_char :: "nat \<Rightarrow> char" where
  "digit_char n = char_of (n mod 10 + 48)"

text \<open>\<open>strconv.Itoa\<close> and the verb \<open>%d\<close>.\<close>

fun itoa_nat :: "nat \<Rightarrow> string" where
  "itoa_nat n = (if n < 10 then [digit_char n] else itoa_nat (n div 10) @ [digit_char n])"

declare itoa_nat.simps [simp del]

definition itoa :: "int \<Rightarrow> string" where
  "itoa n = (if n < 0 then CHR ''-'' # itoa_nat (nat (- n)) else itoa_nat (nat n))"

lemma digit_val_digit_char [simp]: "digit_val (digit_char n) = Some (int (n mod 10))"
proof -
  have "n mod 10 < 10" by simp
  then have "n mod 10 + 48 < 256" by linarith
  then show ?thesis by (simp add: digit_val_def digit_char_def Let_def)
qed

lemma digits_val_append:
  "digits_val acc (xs @ ys) = (case digits_val acc xs of None \<Rightarrow> None | Some a \<Rightarrow> digits_val a ys)"
  by (induction xs arbitrary: acc) (auto split: option.splits)

lemma digits_val_itoa_nat: "digits_val 0 (itoa_nat n) = Some (int n)"
proof (induction n rule: itoa_nat.induct)
  case (1 n)
  show ?case
  proof (cases "n < 10")
    case True
    then show ?thesis by (simp add: itoa_nat.simps [of n])
  next
    case False
    with 1 have "digits_val 0 (itoa_nat (n div 10)) = Some (int (n div 10))" by simp
    moreover have "10 * int (n div 10) + int (n mod 10) = int n" by presburger
    ultimately show ?thesis using False
      by (simp add: itoa_nat.simps [of n] digits_val_append)
  qed
qed

lemma itoa_nat_not_Nil [simp]: "itoa_nat n \<noteq> []"
  by (subst itoa_nat.simps) simp

lemma digit_char_not_sign: "digit_char n \<noteq> CHR ''-''" "digit_char n \<noteq> CHR ''+''"
proof -
  have "digit_val (digit_char n) \<noteq> None" by simp
  moreover have "digit_val (CHR ''-'') = None" "digit_val (CHR ''+'') = None"
    by (simp_all add: digit_val_def)
  ultimately show "digit_char n \<noteq> CHR ''-''" "digit_char n \<noteq> CHR ''+''" by metis+
qed

lemma hd_itoa_nat: "\<exists>k cs. itoa_nat n = digit_char k # cs"
proof (induction n rule: itoa_nat.induct)
  case (1 n)
  show ?case
  proof (cases "n < 10")
    case True
    then show ?thesis by (subst itoa_nat.simps) auto
  next
    case False
    with 1 obtain k cs where "itoa_nat (n div 10) = digit_char k # cs" by blast
    then show ?thesis using False by (subst itoa_nat.simps) auto
  qed
qed

text \<open>Reading back what \<open>Itoa\<close> writes.\<close>

lemma atoi_itoa: "int64_ok n \<Longrightarrow> atoi (itoa n) = Some n"
proof (cases "n < 0")
  case True
  assume "int64_ok n"
  with True show ?thesis
    by (simp add: itoa_def atoi_def digits_val_itoa_nat Let_def)
next
  case False
  assume ok: "int64_ok n"
  obtain k cs where "itoa_nat (nat n) = digit_char k # cs" using hd_itoa_nat by blast
  moreover have "digits_val 0 (itoa_nat (nat n)) = Some n"
    using False by (simp add: digits_val_itoa_nat)
  ultimately show ?thesis using False ok
    by (auto simp: itoa_def atoi_def digit_char_not_sign)
qed

subsection \<open>Results\<close>

text \<open>The early return \<open>if err != nil { return err }\<close>.\<close>

definition bind_res :: "'e + 'a \<Rightarrow> ('a \<Rightarrow> 'e + 'b) \<Rightarrow> 'e + 'b" where
  "bind_res r f = (case r of Inl e \<Rightarrow> Inl e | Inr v \<Rightarrow> f v)"

lemma bind_res_simps [simp]:
  "bind_res (Inl e) f = Inl e" "bind_res (Inr v) f = f v"
  by (simp_all add: bind_res_def)

lemma bind_res_Inr_iff: "bind_res r f = Inr y \<longleftrightarrow> (\<exists>x. r = Inr x \<and> f x = Inr y)"
  by (cases r) auto

text \<open>\<open>if err != nil { return wrap(err) }\<close>.\<close>

definition map_err :: "('e \<Rightarrow> 'f) \<Rightarrow> 'e + 'a \<Rightarrow> 'f + 'a" where
  "map_err w r = (case r of Inl e \<Rightarrow> Inl (w e) | Inr v \<Rightarrow> Inr v)"

lemma map_err_simps [simp]:
  "map_err w (Inl e) = Inl (w e)" "map_err w (Inr v) = Inr v"
  by (simp_all add: map_err_def)

lemma map_err_Inr_iff [simp]: "map_err w r = Inr y \<longleftrightarrow> r = Inr y"
  by (cases r) auto

definition is_ok :: "'e + 'a \<Rightarrow> bool" where
  "is_ok r \<longleftrightarrow> (case r of Inl _ \<Rightarrow> False | Inr _ \<Rightarrow> True)"

lemma is_ok_iff: "is_ok r \<longleftrightarrow> (\<exists>v. r = Inr v)"
  by (cases r) (auto simp: is_ok_def)

subsection \<open>Unsigned counters, prefixes\<close>

text \<open>\<open>x++\<close> on a \<open>uint64\<close>.\<close>

definition max_uint64 :: nat where
  "max_uint64 = 18446744073709551615"

definition inc64 :: "nat \<Rightarrow> nat" where
  "inc64 n = (n + 1) mod 18446744073709551616"

lemma inc64_small: "n < max_uint64 \<Longrightarrow> inc64 n = Suc n"
  by (simp add: inc64_def max_uint64_def)

lemma inc64_neq [simp]: "inc64 n \<noteq> n" "n \<noteq> inc64 n"
proof -
  show "inc64 n \<noteq> n"
  proof (cases "n < 18446744073709551615")
    case True
    then show ?thesis by (simp add: inc64_def)
  next
    case False
    then show ?thesis
    proof (cases "n = 18446744073709551615")
      case True
      then show ?thesis by (simp add: inc64_def)
    next
      case other: False
      have "inc64 n < 18446744073709551616" by (simp add: inc64_def)
      then show ?thesis using False other by linarith
    qed
  qed
  then show "n \<noteq> inc64 n" by simp
qed

definition has_prefix :: "string \<Rightarrow> string \<Rightarrow> bool" where
  "has_prefix s p \<longleftrightarrow> take (length p) s = p"

abbreviation blank :: "string \<Rightarrow> bool" where
  "blank s \<equiv> trim_space s = []"

end
