(* ===== verification/GoTime.thy ===== *)
theory GoTime imports GoBase begin

section \<open>Instants, durations and the calendar\<close>

text \<open>
  The part of package \<open>time\<close> the schedulers use. A \<open>time.Time\<close> is an instant, the
  number of nanoseconds since the Unix epoch, and a \<open>time.Duration\<close> a number of
  nanoseconds. A \<open>*time.Location\<close> is the function from a Unix second to the offset from
  UTC in seconds that holds there; what \<open>time.LoadLocation\<close> returns for a zone name comes
  from the zone database of the machine and is a parameter of the functions that use it.
  The calendar fields of an instant in a location are computed by the 400-year cycle of the
  proleptic Gregorian calendar, counted from 1 March.
\<close>

type_synonym instant = int
type_synonym duration = int
type_synonym location = "int \<Rightarrow> int"

definition second_ns :: duration where "second_ns = 1000000000"
definition minute_ns :: duration where "minute_ns = 60 * second_ns"
definition hour_ns :: duration where "hour_ns = 60 * minute_ns"

definition utc :: location where "utc = (\<lambda>_. 0)"

text \<open>\<open>IsZero\<close> holds of the first instant of the year 1 only.\<close>

definition zero_time :: instant where
  "zero_time = - 62135596800 * second_ns"

definition is_zero :: "instant \<Rightarrow> bool" where
  "is_zero t \<longleftrightarrow> t = zero_time"

text \<open>\<open>t.Truncate(d)\<close> for a positive \<open>d\<close>: down to a multiple of \<open>d\<close> since the zero time.\<close>

definition truncate_time :: "instant \<Rightarrow> duration \<Rightarrow> instant" where
  "truncate_time t d = t - (t - zero_time) mod d"

lemma minute_ns_pos [simp]: "0 < minute_ns"
  by (simp add: minute_ns_def second_ns_def)

lemma truncate_le: "0 < d \<Longrightarrow> truncate_time t d \<le> t"
  by (simp add: truncate_time_def)

lemma truncate_gt: "0 < d \<Longrightarrow> t < truncate_time t d + d"
  by (simp add: truncate_time_def)

text \<open>A whole minute of the Unix clock is a whole minute since the zero time.\<close>

lemma truncate_minute: "truncate_time t minute_ns = t div minute_ns * minute_ns"
proof -
  have "zero_time = - 1035593280 * minute_ns"
    by (simp add: zero_time_def minute_ns_def)
  then have "(t - zero_time) mod minute_ns = t mod minute_ns"
    by (metis diff_minus_eq_add minus_mult_minus mod_mult_self2 mult.commute mult_minus_left)
  then show ?thesis by (simp add: truncate_time_def minus_mod_eq_div_mult)
qed

subsection \<open>Calendar fields\<close>

record civil =
  civ_year :: int
  civ_month :: int
  civ_day :: int
  civ_weekday :: int
  civ_hour :: int
  civ_minute :: int

text \<open>Year, month and day of a day number counted from 1 January 1970.\<close>

definition cycle_parts :: "int \<Rightarrow> int \<times> int" where
  "cycle_parts doe =
     (let c = min (doe div 36524) 3; r = doe - 36524 * c; y = min (r mod 1461 div 365) 3
      in (100 * c + 4 * (r div 1461) + y, r mod 1461 - 365 * y))"

definition month_day :: "int \<Rightarrow> int \<times> int" where
  "month_day doy =
     (let mp = (5 * doy + 2) div 153
      in (if mp < 10 then mp + 3 else mp - 9, doy - (153 * mp + 2) div 5 + 1))"

definition civil_from_days :: "int \<Rightarrow> int \<times> int \<times> int" where
  "civil_from_days z =
     (let n = z + 719468;
          (yoe, doy) = cycle_parts (n mod 146097);
          (m, d) = month_day doy
      in (400 * (n div 146097) + yoe + (if m \<le> 2 then 1 else 0), m, d))"

definition days_from_civil :: "int \<Rightarrow> int \<Rightarrow> int \<Rightarrow> int" where
  "days_from_civil y m d =
     (let y' = (if m \<le> 2 then y - 1 else y);
          mp = (if m > 2 then m - 3 else m + 9);
          doy = (153 * mp + 2) div 5 + d - 1
      in (y' div 400) * 146097 + y' mod 400 * 365 + y' mod 400 div 4 - y' mod 400 div 100
         + doy - 719468)"

lemma month_day_bounds:
  assumes "month_day doy = (m, d)" "0 \<le> doy" "doy \<le> 365"
  shows "1 \<le> m" "m \<le> 12" "1 \<le> d" "d \<le> 31"
    "(153 * (if m > 2 then m - 3 else m + 9) + 2) div 5 + d - 1 = doy"
proof -
  define mp where "mp = (5 * doy + 2) div 153"
  have mp: "0 \<le> mp" "mp \<le> 11" using assms(2,3) by (simp_all add: mp_def)
  have m: "m = (if mp < 10 then mp + 3 else mp - 9)" and d: "d = doy - (153 * mp + 2) div 5 + 1"
    using assms(1) unfolding month_day_def Let_def mp_def by auto
  show "1 \<le> m" "m \<le> 12" using mp by (simp_all add: m)
  have low: "153 * mp \<le> 5 * doy + 2" and high: "5 * doy + 2 < 153 * mp + 153"
    unfolding mp_def by linarith+
  define e where "e = (153 * mp + 2) div 5"
  have e: "5 * e \<le> 153 * mp + 2" "153 * mp + 2 < 5 * e + 5" unfolding e_def by linarith+
  show "1 \<le> d" "d \<le> 31" using low high e unfolding d e_def [symmetric] by linarith+
  have "(if m > 2 then m - 3 else m + 9) = mp" using mp by (simp add: m)
  then show "(153 * (if m > 2 then m - 3 else m + 9) + 2) div 5 + d - 1 = doy"
    by (simp add: d)
qed

lemma cycle_parts_bounds:
  assumes "cycle_parts doe = (yoe, doy)" "0 \<le> doe" "doe \<le> 146096"
  shows "0 \<le> yoe" "yoe \<le> 399" "0 \<le> doy" "doy \<le> 365"
    "yoe * 365 + yoe div 4 - yoe div 100 + doy = doe"
proof -
  define c where "c = min (doe div 36524) 3"
  define r where "r = doe - 36524 * c"
  define q where "q = r div 1461"
  define r4 where "r4 = r mod 1461"
  define y where "y = min (r4 div 365) 3"
  have yoe: "yoe = 100 * c + 4 * q + y" and doy: "doy = r4 - 365 * y"
    using assms(1) by (simp_all add: cycle_parts_def Let_def c_def r_def q_def r4_def y_def)
  have c: "0 \<le> c" "c \<le> 3" using assms(2,3) by (simp_all add: c_def)
  have r: "0 \<le> r" "r \<le> 36524" using assms(2,3) by (auto simp: r_def c_def min_def)
  have q: "0 \<le> q" "q \<le> 24" using r unfolding q_def by linarith+
  have r4: "0 \<le> r4" "r4 \<le> 1460" by (simp_all add: r4_def)
  have y: "0 \<le> y" "y \<le> 3" using r4 by (simp_all add: y_def)
  show "0 \<le> yoe" "yoe \<le> 399" using c q y unfolding yoe by linarith+
  show "0 \<le> doy" "doy \<le> 365" using r4 by (auto simp: doy y_def min_def)
  have "yoe div 4 = 25 * c + q" "yoe div 100 = c" using c q y unfolding yoe by linarith+
  moreover have "r = 1461 * q + r4" by (simp add: q_def r4_def)
  ultimately show "yoe * 365 + yoe div 4 - yoe div 100 + doy = doe"
    by (simp add: yoe doy r_def)
qed

lemma civil_from_days_bounds:
  assumes "civil_from_days z = (yr, m, d)"
  shows "1 \<le> m" "m \<le> 12" "1 \<le> d" "d \<le> 31"
proof -
  obtain yoe doy where c: "cycle_parts ((z + 719468) mod 146097) = (yoe, doy)" by fastforce
  have "0 \<le> (z + 719468) mod 146097" "(z + 719468) mod 146097 \<le> 146096" by simp_all
  note cyc = cycle_parts_bounds [OF c this]
  have "month_day doy = (m, d)"
    using assms c by (auto simp: civil_from_days_def Let_def split: prod.splits)
  then show "1 \<le> m" "m \<le> 12" "1 \<le> d" "d \<le> 31"
    using month_day_bounds cyc(3,4) by blast+
qed

text \<open>The calendar date determines the day: reading the date back gives the day number.\<close>

lemma days_from_civil_from_days:
  assumes "civil_from_days z = (yr, m, d)"
  shows "days_from_civil yr m d = z"
proof -
  define n where "n = z + 719468"
  obtain yoe doy where c: "cycle_parts (n mod 146097) = (yoe, doy)" by fastforce
  have "0 \<le> n mod 146097" "n mod 146097 \<le> 146096" by simp_all
  note cyc = cycle_parts_bounds [OF c this]
  have md: "month_day doy = (m, d)"
    and yr: "yr = 400 * (n div 146097) + yoe + (if m \<le> 2 then 1 else 0)"
    using assms c by (auto simp: civil_from_days_def Let_def n_def split: prod.splits)
  note mdb = month_day_bounds [OF md cyc(3,4)]
  have y': "(if m \<le> 2 then yr - 1 else yr) = yoe + 400 * (n div 146097)" by (simp add: yr)
  have "(yoe + 400 * (n div 146097)) div 400 = n div 146097"
    and "(yoe + 400 * (n div 146097)) mod 400 = yoe"
    using cyc(1,2) by simp_all
  then have "days_from_civil yr m d =
      n div 146097 * 146097 + yoe * 365 + yoe div 4 - yoe div 100
      + ((153 * (if m > 2 then m - 3 else m + 9) + 2) div 5 + d - 1) - 719468"
    unfolding days_from_civil_def Let_def y' by simp
  also have "\<dots> = n div 146097 * 146097 + n mod 146097 - 719468"
    unfolding mdb(5) using cyc(5) by linarith
  also have "\<dots> = z" by (simp add: n_def)
  finally show ?thesis .
qed

definition civil_of :: "location \<Rightarrow> instant \<Rightarrow> civil" where
  "civil_of loc t =
     (let s = t div second_ns; l = s + loc s; z = l div 86400; sod = l mod 86400;
          (y, m, d) = civil_from_days z
      in \<lparr>civ_year = y, civ_month = m, civ_day = d, civ_weekday = (z + 4) mod 7,
          civ_hour = sod div 3600, civ_minute = sod mod 3600 div 60\<rparr>)"

lemma civil_of_bounds:
  shows "1 \<le> civ_month (civil_of loc t)" "civ_month (civil_of loc t) \<le> 12"
    "1 \<le> civ_day (civil_of loc t)" "civ_day (civil_of loc t) \<le> 31"
    "0 \<le> civ_weekday (civil_of loc t)" "civ_weekday (civil_of loc t) \<le> 6"
    "0 \<le> civ_hour (civil_of loc t)" "civ_hour (civil_of loc t) \<le> 23"
    "0 \<le> civ_minute (civil_of loc t)" "civ_minute (civil_of loc t) \<le> 59"
proof -
  define z where "z = (t div second_ns + loc (t div second_ns)) div 86400"
  obtain y m d where ymd: "civil_from_days z = (y, m, d)" by (metis prod_cases3)
  have "civ_month (civil_of loc t) = m" "civ_day (civil_of loc t) = d"
    using ymd by (simp_all add: civil_of_def Let_def z_def)
  then show "1 \<le> civ_month (civil_of loc t)" "civ_month (civil_of loc t) \<le> 12"
    "1 \<le> civ_day (civil_of loc t)" "civ_day (civil_of loc t) \<le> 31"
    using civil_from_days_bounds [OF ymd] by simp_all
  define sod where "sod = (t div second_ns + loc (t div second_ns)) mod 86400"
  have sod: "0 \<le> sod" "sod < 86400" by (simp_all add: sod_def)
  have "civ_hour (civil_of loc t) = sod div 3600" "civ_minute (civil_of loc t) = sod mod 3600 div 60"
    "civ_weekday (civil_of loc t) = (z + 4) mod 7"
    by (simp_all add: civil_of_def Let_def sod_def z_def split: prod.split)
  then show "0 \<le> civ_weekday (civil_of loc t)" "civ_weekday (civil_of loc t) \<le> 6"
    "0 \<le> civ_hour (civil_of loc t)" "civ_hour (civil_of loc t) \<le> 23"
    "0 \<le> civ_minute (civil_of loc t)" "civ_minute (civil_of loc t) \<le> 59"
    using sod by (simp_all add: div_int_pos_iff)
qed

text \<open>\<open>t.Sub(u)\<close> saturates at the bounds of a \<open>Duration\<close>, \<open>Milliseconds\<close> truncates toward zero.\<close>

definition time_sub :: "instant \<Rightarrow> instant \<Rightarrow> duration" where
  "time_sub t u = max min_int64 (min max_int64 (t - u))"

definition millisecond_ns :: duration where "millisecond_ns = 1000000"

definition milliseconds :: "duration \<Rightarrow> int" where
  "milliseconds d = (if 0 \<le> d then d div millisecond_ns else - (- d div millisecond_ns))"

lemma milliseconds_nonneg: "0 \<le> d \<Longrightarrow> 0 \<le> milliseconds d"
  by (simp add: milliseconds_def millisecond_ns_def pos_imp_zdiv_nonneg_iff)

end
