(* ===== verification/Cron.thy ===== *)
theory Cron imports GoTime begin

section \<open>Event fabric: the cron scheduler\<close>

text \<open>
  \<open>internal/service/event_fabric/scheduler\<close>: \<open>cron_parser.go\<close> (the five-field cron
  expression, its field parser, the search for the next run) and \<open>service.go\<close>
  (\<open>ComputeNextRun\<close> with the misfire policies). The fixed arrays of \<open>cronSpec\<close> are
  lists of bool of the same lengths, and a write outside an array is the value
  \<open>IndexPanic\<close>. Errors keep the constructor for the \<open>fmt.Errorf\<close> that makes them.
\<close>

subsection \<open>State and errors\<close>

record cron_spec =
  minutes :: "bool list"
  hours :: "bool list"
  days :: "bool list"
  months :: "bool list"
  weekdays :: "bool list"
  day_wildcard :: bool
  dow_wildcard :: bool

definition empty_spec :: cron_spec where
  "empty_spec = \<lparr>minutes = replicate 60 False, hours = replicate 24 False,
     days = replicate 32 False, months = replicate 13 False, weekdays = replicate 7 False,
     day_wildcard = False, dow_wildcard = False\<rparr>"

datatype field_error =
    EmptySegment
  | InvalidStepSegment string
  | InvalidStepValue string
  | InvalidRange string
  | InvalidRangeStart string
  | InvalidRangeEnd string
  | InvalidValue string
  | ValueOutOfRange int int string
  | IndexPanic int
  | NotAPositiveInt

datatype cron_error =
    NotFiveFields string
  | MinuteField field_error
  | HourField field_error
  | DayField field_error
  | MonthField field_error
  | WeekdayField field_error
  | CronPanic int

subsection \<open>Parsing one field\<close>

text \<open>
  The parameter \<open>slots\<close> or \<open>setter\<close> of \<open>parseCronField\<close>: an array that is written at
  the value itself, or the callback for the weekdays, which folds 7 to 0. Both fail on an
  index outside the array.
\<close>

datatype slot_writer = Direct | SundaySeven

definition set_value :: "slot_writer \<Rightarrow> int \<Rightarrow> bool list \<Rightarrow> field_error + bool list" where
  "set_value w v slots =
     (let i = (if w = SundaySeven \<and> v = 7 then 0 else v)
      in if 0 \<le> i \<and> i < int (length slots) then Inr (slots[nat i := True]) else Inl (IndexPanic i))"

text \<open>
  \<open>for value := start; value <= end; value += step\<close>, with the addition on 64 bits. A step
  that is not a positive int never reaches the loop (\<open>parse_step\<close> below refuses it); the
  guard only makes the function total.
\<close>

function fill_slots :: "slot_writer \<Rightarrow> int \<Rightarrow> int \<Rightarrow> int \<Rightarrow> bool list \<Rightarrow> field_error + bool list" where
  "fill_slots w v e st slots =
     (if v \<le> e then
        if st \<le> 0 \<or> max_int64 < st then Inl NotAPositiveInt
        else case set_value w v slots of
          Inl err \<Rightarrow> Inl err
        | Inr slots' \<Rightarrow> fill_slots w (wrap64 (v + st)) e st slots'
      else Inr slots)"
  by pat_completeness auto

lemma wrap64_add_cases:
  assumes "v \<le> max_int64" "st \<le> max_int64" "0 \<le> v" "0 < st"
  shows "wrap64 (v + st) < 0 \<or> wrap64 (v + st) = v + st"
proof (cases "v + st \<le> max_int64")
  case True
  then have "int64_ok (v + st)" using assms by (simp add: int64_ok_def min_int64_def)
  then show ?thesis by (simp add: wrap64_id)
next
  case False
  have "v + st \<le> 2 * max_int64 + 1" using assms by simp
  with False show ?thesis by (simp add: wrap64_overflow)
qed

lemma set_value_Inr_nonneg: "set_value w v slots = Inr slots' \<Longrightarrow> 0 \<le> v"
  by (auto simp: set_value_def Let_def split: if_splits)

lemma wrap64_le_max: "wrap64 x \<le> max_int64"
  using wrap64_ok [of x] by (simp add: int64_ok_def)

text \<open>
  The loop ends: a value that wraps around is negative and fails at its write, and a value
  that does not wrap has moved up. (A start above 64 bits, which no int has, is brought into
  range by the first round.)
\<close>

termination fill_slots
proof (relation "measure (\<lambda>(w, v, e, st, slots).
    if v < 0 \<or> e < v then 0 else if max_int64 < v then nat max_int64 + 3 else nat (max_int64 - v) + 2)",
    goal_cases)
  case (2 w v e st slots slots')
  then have v: "0 \<le> v" and st: "0 < st" "st \<le> max_int64" and e: "v \<le> e"
    by (auto dest: set_value_Inr_nonneg)
  show ?case
  proof (cases "max_int64 < v")
    case True
    have "nat (max_int64 - wrap64 (v + st)) + 2 < nat max_int64 + 3" if "0 \<le> wrap64 (v + st)"
      using that by linarith
    then show ?thesis using True v e wrap64_le_max [of "v + st"] by auto
  next
    case False
    then have "wrap64 (v + st) < 0 \<or> wrap64 (v + st) = v + st"
      using wrap64_add_cases v st by simp
    then show ?thesis using v st e False wrap64_le_max [of "v + st"] by auto
  qed
qed simp

declare fill_slots.simps [simp del]

text \<open>The pieces of one comma-separated segment: its step, then its range.\<close>

definition parse_step :: "string \<Rightarrow> field_error + (string \<times> int)" where
  "parse_step part =
     (if CHR ''/'' \<in> set part then
        (case split_on (CHR ''/'') part of
           [base, st] \<Rightarrow>
             (case atoi (trim_space st) of
                None \<Rightarrow> Inl (InvalidStepValue part)
              | Some n \<Rightarrow> (if n \<le> 0 then Inl (InvalidStepValue part) else Inr (trim_space base, n)))
         | _ \<Rightarrow> Inl (InvalidStepSegment part))
      else Inr (part, 1))"

definition parse_range :: "int \<Rightarrow> int \<Rightarrow> string \<Rightarrow> field_error + (int \<times> int)" where
  "parse_range lo hi base =
     (if base = [] \<or> base = ''*'' then Inr (lo, hi)
      else if CHR ''-'' \<in> set base then
        (case split_on (CHR ''-'') base of
           [l, r] \<Rightarrow>
             (case atoi (trim_space l) of
                None \<Rightarrow> Inl (InvalidRangeStart base)
              | Some left \<Rightarrow>
                  (case atoi (trim_space r) of
                     None \<Rightarrow> Inl (InvalidRangeEnd base)
                   | Some right \<Rightarrow> Inr (left, right)))
         | _ \<Rightarrow> Inl (InvalidRange base))
      else (case atoi base of
              None \<Rightarrow> Inl (InvalidValue base)
            | Some single \<Rightarrow> Inr (single, single)))"

fun parse_segments :: "slot_writer \<Rightarrow> int \<Rightarrow> int \<Rightarrow> string list \<Rightarrow> bool list \<Rightarrow> field_error + bool list" where
  "parse_segments w lo hi [] slots = Inr slots"
| "parse_segments w lo hi (p # ps) slots =
     (let part = trim_space p
      in if part = [] then Inl EmptySegment
         else bind_res (parse_step part) (\<lambda>(base, st).
              bind_res (parse_range lo hi base) (\<lambda>(start, end).
                if start < lo \<or> hi < end \<or> end < start then Inl (ValueOutOfRange lo hi part)
                else bind_res (fill_slots w start end st slots) (\<lambda>slots'.
                  parse_segments w lo hi ps slots'))))"

definition parse_cron_field :: "slot_writer \<Rightarrow> string \<Rightarrow> int \<Rightarrow> int \<Rightarrow> bool list \<Rightarrow> field_error + bool list" where
  "parse_cron_field w field lo hi slots =
     (if field = ''*'' then fill_slots w lo hi 1 slots
      else parse_segments w lo hi (split_on (CHR '','') field) slots)"

subsection \<open>Parsing an expression\<close>

text \<open>An error is wrapped with the name of its field; a panic passes through.\<close>

definition in_field :: "(field_error \<Rightarrow> cron_error) \<Rightarrow> field_error + 'a \<Rightarrow> cron_error + 'a" where
  "in_field name r = (case r of
     Inl (IndexPanic i) \<Rightarrow> Inl (CronPanic i)
   | Inl e \<Rightarrow> Inl (name e)
   | Inr v \<Rightarrow> Inr v)"

lemma in_field_Inr [simp]: "in_field name (Inr v) = Inr v" "in_field name r = Inr v \<longleftrightarrow> r = Inr v"
  by (auto simp: in_field_def split: sum.splits field_error.splits)

definition parse_cron_spec :: "string \<Rightarrow> cron_error + cron_spec" where
  "parse_cron_spec expr =
     (case go_fields (trim_space expr) of
        [mi, ho, da, mo, wd] \<Rightarrow>
          bind_res (in_field MinuteField (parse_cron_field Direct mi 0 59 (minutes empty_spec))) (\<lambda>mins.
          bind_res (in_field HourField (parse_cron_field Direct ho 0 23 (hours empty_spec))) (\<lambda>hrs.
          bind_res (in_field DayField (parse_cron_field Direct da 1 31 (days empty_spec))) (\<lambda>dys.
          bind_res (in_field MonthField (parse_cron_field Direct mo 1 12 (months empty_spec))) (\<lambda>mons.
          bind_res (in_field WeekdayField (parse_cron_field SundaySeven wd 0 7 (weekdays empty_spec))) (\<lambda>wds.
            Inr \<lparr>minutes = mins, hours = hrs, days = dys, months = mons, weekdays = wds,
                 day_wildcard = (da = ''*''), dow_wildcard = (wd = ''*'')\<rparr>)))))
      | _ \<Rightarrow> Inl (NotFiveFields expr))"

subsection \<open>Matching and the next run\<close>

definition slot :: "bool list \<Rightarrow> int \<Rightarrow> bool" where
  "slot slots i \<longleftrightarrow> 0 \<le> i \<and> i < int (length slots) \<and> slots ! nat i"

definition cron_match :: "cron_spec \<Rightarrow> location \<Rightarrow> instant \<Rightarrow> bool" where
  "cron_match c loc ts =
     (let f = civil_of loc ts
      in if \<not> slot (minutes c) (civ_minute f) \<or> \<not> slot (hours c) (civ_hour f)
            \<or> \<not> slot (months c) (civ_month f) then False
         else
           let day_match = slot (days c) (civ_day f); dow_match = slot (weekdays c) (civ_weekday f)
           in if day_wildcard c \<and> dow_wildcard c then day_match \<and> dow_match
              else if day_wildcard c then dow_match
              else if dow_wildcard c then day_match
              else day_match \<or> dow_match)"

definition max_cron_search_minutes :: nat where
  "max_cron_search_minutes = 60 * 24 * 366 * 2"

fun cron_search :: "(instant \<Rightarrow> bool) \<Rightarrow> nat \<Rightarrow> instant \<Rightarrow> instant option" where
  "cron_search m n t = (if n = 0 then None else if m t then Some t else cron_search m (n - 1) (t + minute_ns))"

declare cron_search.simps [simp del]

lemma cron_search_hit: "0 < n \<Longrightarrow> m t \<Longrightarrow> cron_search m n t = Some t"
  by (simp add: cron_search.simps)

lemma cron_search_miss:
  "0 < n \<Longrightarrow> \<not> m t \<Longrightarrow> cron_search m n t = cron_search m (n - 1) (t + minute_ns)"
  by (simp add: cron_search.simps [of m n])

definition cron_next :: "cron_spec \<Rightarrow> location \<Rightarrow> instant \<Rightarrow> instant option" where
  "cron_next c loc after =
     cron_search (cron_match c loc) max_cron_search_minutes (truncate_time after minute_ns + minute_ns)"

subsection \<open>What a field parses to\<close>

text \<open>
  The slots that are set, the values of the loop as an arithmetic progression, and the
  index a value is written at.
\<close>

definition on :: "bool list \<Rightarrow> int set" where
  "on slots = {i. slot slots i}"

definition progression :: "int \<Rightarrow> int \<Rightarrow> int \<Rightarrow> int set" where
  "progression v e st = {x. v \<le> x \<and> x \<le> e \<and> (x - v) mod st = 0}"

definition slot_of :: "slot_writer \<Rightarrow> int \<Rightarrow> int" where
  "slot_of w v = (if w = SundaySeven \<and> v = 7 then 0 else v)"

lemma set_value_Inr:
  "set_value w v slots = Inr slots' \<longleftrightarrow>
     0 \<le> slot_of w v \<and> slot_of w v < int (length slots) \<and> slots' = slots[nat (slot_of w v) := True]"
  by (auto simp: set_value_def slot_of_def Let_def)

lemma on_update:
  "0 \<le> i \<Longrightarrow> i < int (length slots) \<Longrightarrow> on (slots[nat i := True]) = insert i (on slots)"
  by (auto simp: on_def slot_def nth_list_update)

lemma progression_empty [simp]: "e < v \<Longrightarrow> progression v e st = {}"
  by (auto simp: progression_def)

lemma progression_step:
  assumes "v \<le> e" "0 < st"
  shows "progression v e st = insert v (progression (v + st) e st)"
proof (rule set_eqI)
  fix x
  have eq: "(x - v) mod st = (x - (v + st)) mod st"
    by (metis diff_diff_eq minus_mod_self2)
  have "v + st \<le> x \<or> x = v" if "v \<le> x" "(x - v) mod st = 0"
  proof (rule disjCI)
    assume "x \<noteq> v"
    then have "st \<le> x - v" using that zdvd_imp_le [of st "x - v"] by (auto simp: dvd_eq_mod_eq_0)
    then show "v + st \<le> x" by simp
  qed
  then show "x \<in> progression v e st \<longleftrightarrow> x \<in> insert v (progression (v + st) e st)"
    using assms eq by (auto simp: progression_def)
qed

lemma fill_slots_length:
  "fill_slots w v e st slots = Inr slots' \<Longrightarrow> length slots' = length slots"
proof (induction w v e st slots rule: fill_slots.induct)
  case (1 w v e st slots)
  show ?case
  proof (cases "set_value w v slots")
    case (Inl err)
    with 1 show ?thesis by (auto simp: fill_slots.simps [of w v e st slots] split: if_splits)
  next
    case (Inr sl)
    then have "length sl = length slots" by (auto simp: set_value_Inr)
    with 1 Inr show ?thesis
      by (auto simp: fill_slots.simps [of w v e st slots] split: if_splits)
  qed
qed

lemma fill_slots_on:
  assumes "fill_slots w v e st slots = Inr slots'" "e < max_int64" "v \<le> max_int64"
  shows "on slots' = on slots \<union> slot_of w ` progression v e st"
  using assms
proof (induction w v e st slots rule: fill_slots.induct)
  case (1 w v e st slots)
  show ?case
  proof (cases "v \<le> e")
    case False
    with "1.prems" show ?thesis by (simp add: fill_slots.simps [of w v e st slots])
  next
    case True
    with "1.prems" obtain sl where st: "0 < st" "st \<le> max_int64"
      and sl: "set_value w v slots = Inr sl"
      and rest: "fill_slots w (wrap64 (v + st)) e st sl = Inr slots'"
      by (auto simp: fill_slots.simps [of w v e st slots] split: if_splits sum.splits)
    have v: "0 \<le> v" using sl by (rule set_value_Inr_nonneg)
    have "wrap64 (v + st) = v + st"
    proof (rule ccontr)
      assume "wrap64 (v + st) \<noteq> v + st"
      then have neg: "wrap64 (v + st) < 0" using wrap64_add_cases v st "1.prems"(3) by blast
      then have "wrap64 (v + st) \<le> e" using v True by simp
      then have "set_value w (wrap64 (v + st)) sl \<noteq> Inr sl'" for sl'
        using set_value_Inr_nonneg neg by fastforce
      then show False using rest \<open>wrap64 (v + st) \<le> e\<close> st
        by (auto simp: fill_slots.simps [of w "wrap64 (v + st)"] split: sum.splits)
    qed
    then have "on slots' = on sl \<union> slot_of w ` progression (v + st) e st"
      using "1.IH" True st sl rest "1.prems"(2) wrap64_le_max [of "v + st"] by auto
    also have "on sl = insert (slot_of w v) (on slots)"
      using sl by (auto simp: set_value_Inr on_update)
    finally show ?thesis using progression_step [OF True st(1)] by auto
  qed
qed

text \<open>The values one segment asks for, read off its text.\<close>

definition segment_values :: "int \<Rightarrow> int \<Rightarrow> string \<Rightarrow> int set" where
  "segment_values lo hi p =
     (case parse_step (trim_space p) of
        Inl _ \<Rightarrow> {}
      | Inr (base, st) \<Rightarrow>
          (case parse_range lo hi base of Inl _ \<Rightarrow> {} | Inr (s, e) \<Rightarrow> progression s e st))"

lemma parse_segments_on:
  assumes "parse_segments w lo hi ps slots = Inr slots'" "hi < max_int64"
  shows "length slots' = length slots \<and>
    on slots' = on slots \<union> (\<Union>p\<in>set ps. slot_of w ` segment_values lo hi p) \<and>
    (\<forall>p\<in>set ps. segment_values lo hi p \<subseteq> {lo..hi} \<and> segment_values lo hi p \<noteq> {})"
  using assms
proof (induction ps arbitrary: slots)
  case (Cons p ps)
  from Cons.prems obtain base st s e sl where
    step: "parse_step (trim_space p) = Inr (base, st)"
    and range: "parse_range lo hi base = Inr (s, e)"
    and bounds: "lo \<le> s" "e \<le> hi" "s \<le> e"
    and fill: "fill_slots w s e st slots = Inr sl"
    and rest: "parse_segments w lo hi ps sl = Inr slots'"
    by (auto simp: Let_def bind_res_Inr_iff split: if_splits)
  have vals: "segment_values lo hi p = progression s e st"
    by (simp add: segment_values_def step range)
  have "on sl = on slots \<union> slot_of w ` progression s e st"
    using fill_slots_on [OF fill] bounds Cons.prems(2) by simp
  moreover have "s \<in> progression s e st" using bounds by (simp add: progression_def)
  moreover have "progression s e st \<subseteq> {lo..hi}" using bounds by (auto simp: progression_def)
  ultimately show ?case
    using Cons.IH [OF rest Cons.prems(2)] fill_slots_length [OF fill] by (auto simp: vals)
qed simp

definition field_values :: "string \<Rightarrow> int \<Rightarrow> int \<Rightarrow> int set" where
  "field_values field lo hi =
     (if field = ''*'' then {lo..hi} else (\<Union>p\<in>set (split_on (CHR '','') field). segment_values lo hi p))"

lemma progression_one: "progression lo hi 1 = {lo..hi}"
  by (auto simp: progression_def)

lemma parse_cron_field_values:
  assumes "parse_cron_field w field lo hi slots = Inr slots'" "lo \<le> hi" "hi < max_int64"
  shows "length slots' = length slots" "on slots' = on slots \<union> slot_of w ` field_values field lo hi"
    "field_values field lo hi \<subseteq> {lo..hi}" "field_values field lo hi \<noteq> {}"
proof -
  have "length slots' = length slots \<and> on slots' = on slots \<union> slot_of w ` field_values field lo hi \<and>
    field_values field lo hi \<subseteq> {lo..hi} \<and> field_values field lo hi \<noteq> {}"
  proof (cases "field = ''*''")
    case True
    then show ?thesis using assms fill_slots_on [of w lo hi 1 slots slots'] fill_slots_length
      by (auto simp: parse_cron_field_def field_values_def progression_one)
  next
    case False
    then have "parse_segments w lo hi (split_on (CHR '','') field) slots = Inr slots'"
      using assms by (simp add: parse_cron_field_def)
    from parse_segments_on [OF this assms(3)] False show ?thesis
      by (simp add: field_values_def image_UN UN_subset_iff)
  qed
  then show "length slots' = length slots" "on slots' = on slots \<union> slot_of w ` field_values field lo hi"
    "field_values field lo hi \<subseteq> {lo..hi}" "field_values field lo hi \<noteq> {}" by blast+
qed

lemma on_replicate [simp]: "on (replicate n False) = {}"
  by (auto simp: on_def slot_def)

subsection \<open>The search\<close>

lemma cron_search_Some:
  assumes "cron_search m n t = Some r"
  shows "\<exists>k<n. r = t + int k * minute_ns \<and> m r \<and> (\<forall>j<k. \<not> m (t + int j * minute_ns))"
  using assms
proof (induction m n t rule: cron_search.induct)
  case (1 m n t)
  show ?case
  proof (cases "m t")
    case True
    with 1 show ?thesis by (intro exI [of _ 0]) (auto simp: cron_search.simps [of m n] split: if_splits)
  next
    case False
    with "1.prems" have n: "n \<noteq> 0" and rest: "cron_search m (n - 1) (t + minute_ns) = Some r"
      by (auto simp: cron_search.simps [of m n] split: if_splits)
    from "1.IH" [OF n False rest] obtain k where k: "k < n - 1"
      "r = t + minute_ns + int k * minute_ns" "m r" "\<forall>j<k. \<not> m (t + minute_ns + int j * minute_ns)"
      by blast
    have "\<not> m (t + int j * minute_ns)" if "j < Suc k" for j
      using that k(4) False by (cases j) (auto simp: algebra_simps)
    then show ?thesis using k n by (intro exI [of _ "Suc k"]) (auto simp: algebra_simps)
  qed
qed

lemma cron_search_None:
  "cron_search m n t = None \<longleftrightarrow> (\<forall>k<n. \<not> m (t + int k * minute_ns))"
proof (induction m n t rule: cron_search.induct)
  case (1 m n t)
  show ?case
  proof (cases "n = 0 \<or> m t")
    case True
    then show ?thesis by (subst cron_search.simps) (auto intro: exI [of _ 0])
  next
    case False
    then have "cron_search m n t = None \<longleftrightarrow> (\<forall>k<n - 1. \<not> m (t + minute_ns + int k * minute_ns))"
      using 1 by (subst cron_search.simps) simp
    also have "\<dots> \<longleftrightarrow> (\<forall>k<n. \<not> m (t + int k * minute_ns))"
    proof (intro iffI allI impI)
      fix k assume all: "\<forall>k<n - 1. \<not> m (t + minute_ns + int k * minute_ns)" and "k < n"
      then show "\<not> m (t + int k * minute_ns)" using False
        by (cases k) (auto simp: algebra_simps dest!: spec [of _ "k - 1"])
    next
      fix k assume "\<forall>k<n. \<not> m (t + int k * minute_ns)" and "k < n - 1"
      then show "\<not> m (t + minute_ns + int k * minute_ns)"
        by (auto simp: algebra_simps dest!: spec [of _ "Suc k"])
    qed
    finally show ?thesis .
  qed
qed

lemma truncate_mod_minute: "truncate_time t minute_ns mod minute_ns = 0"
  by (simp add: truncate_minute)

text \<open>
  What \<open>next\<close> promises, over the parsed expression: the answer is the first whole minute
  after \<open>after\<close> that matches, and there is no answer only when no minute of the two-year
  window matches.
\<close>

lemma cron_next_Some:
  assumes "cron_next c loc after = Some t"
  shows "after < t" "t mod minute_ns = 0" "cron_match c loc t"
    "\<And>u. after < u \<Longrightarrow> u < t \<Longrightarrow> u mod minute_ns = 0 \<Longrightarrow> \<not> cron_match c loc u"
proof -
  define base where "base = truncate_time after minute_ns + minute_ns"
  from cron_search_Some [OF assms [unfolded cron_next_def]] obtain k where
    t: "t = base + int k * minute_ns" and m: "cron_match c loc t"
    and least: "\<forall>j<k. \<not> cron_match c loc (base + int j * minute_ns)"
    unfolding base_def by blast
  have base: "after < base" "base mod minute_ns = 0" "base \<le> after + minute_ns"
    by (simp_all add: base_def truncate_gt truncate_le truncate_mod_minute)
  show "after < t" using base(1) by (simp add: t minute_ns_def second_ns_def)
  show "t mod minute_ns = 0" using base(2) by (simp add: t)
  show "cron_match c loc t" by (rule m)
  fix u assume u: "after < u" "u < t" "u mod minute_ns = 0"
  obtain i where i: "base = i * minute_ns" using base(2) by (metis mod_0_imp_dvd dvd_def mult.commute)
  obtain j where j: "u = j * minute_ns" using u(3) by (metis mod_0_imp_dvd dvd_def mult.commute)
  have "(i - 1) * minute_ns < j * minute_ns"
    using base(3) u(1) by (simp add: i j algebra_simps)
  then have "i \<le> j" using minute_ns_pos by (simp add: mult_less_cancel_right_disj)
  moreover have "j * minute_ns < (i + int k) * minute_ns" using u(2) by (simp add: t i j algebra_simps)
  then have "j < i + int k" using minute_ns_pos by (simp add: mult_less_cancel_right_disj)
  ultimately have "nat (j - i) < k" "u = base + int (nat (j - i)) * minute_ns"
    by (simp_all add: i j algebra_simps)
  then show "\<not> cron_match c loc u" using least by blast
qed

lemma cron_next_None_iff:
  "cron_next c loc after = None \<longleftrightarrow>
     (\<forall>k<max_cron_search_minutes. \<not> cron_match c loc (truncate_time after minute_ns + int (Suc k) * minute_ns))"
  by (simp add: cron_next_def cron_search_None algebra_simps)

subsection \<open>ComputeNextRun\<close>

definition misfire_skip :: string where "misfire_skip = ''skip''"
definition misfire_fire_now :: string where "misfire_fire_now = ''fire_now''"
definition misfire_catch_up :: string where "misfire_catch_up = ''catch_up''"

record next_run_input =
  cron_expr :: string
  run_timezone :: string
  misfire_policy :: string
  run_now :: instant
  last_run_at :: "instant option"
  prev_next_run_at :: "instant option"

record next_run_result =
  next_run_at :: "instant option"
  should_run_now :: bool

datatype next_run_error = InvalidTimezone string | InvalidCron cron_error | NoRunInWindow

definition resolve_location :: "(string \<Rightarrow> location option) \<Rightarrow> string \<Rightarrow> next_run_error + location" where
  "resolve_location load tz0 =
     (let tz = trim_space tz0
      in if tz = [] then Inr utc
         else case load tz of None \<Rightarrow> Inl (InvalidTimezone tz0) | Some loc \<Rightarrow> Inr loc)"

definition normalize_misfire_policy :: "string \<Rightarrow> string" where
  "normalize_misfire_policy p =
     (let q = trim_space p
      in if q = misfire_fire_now \<or> q = misfire_catch_up \<or> q = misfire_skip then q else misfire_skip)"

definition after_next :: "cron_spec \<Rightarrow> location \<Rightarrow> instant \<Rightarrow> bool \<Rightarrow> next_run_error + next_run_result" where
  "after_next c loc t run = (case cron_next c loc t of
     None \<Rightarrow> Inl NoRunInWindow
   | Some n \<Rightarrow> Inr \<lparr>next_run_at = Some n, should_run_now = run\<rparr>)"

text \<open>
  \<open>ComputeNextRun\<close>. The instants are the same in every location, so \<open>In(location)\<close> only
  selects the location the calendar fields are read in. \<open>clock\<close> is \<open>time.Now()\<close>, used for
  a zero \<open>Now\<close>; \<open>load\<close> is \<open>time.LoadLocation\<close>.
\<close>

definition compute_next_run ::
  "(string \<Rightarrow> location option) \<Rightarrow> instant \<Rightarrow> next_run_input \<Rightarrow> next_run_error + next_run_result" where
  "compute_next_run load clock inp =
     bind_res (resolve_location load (run_timezone inp)) (\<lambda>loc.
       let now = (if is_zero (run_now inp) then clock else run_now inp)
       in bind_res (map_err InvalidCron (parse_cron_spec (cron_expr inp))) (\<lambda>c.
            let policy = normalize_misfire_policy (misfire_policy inp);
                overdue = (case prev_next_run_at inp of
                  None \<Rightarrow> None | Some due \<Rightarrow> if \<not> is_zero due \<and> due < now then Some due else None)
            in case overdue of
                 Some due \<Rightarrow>
                   if policy = misfire_fire_now then after_next c loc now True
                   else if policy = misfire_catch_up then after_next c loc due True
                   else after_next c loc now False
               | None \<Rightarrow>
                   let base = (case last_run_at inp of
                         None \<Rightarrow> now
                       | Some l \<Rightarrow> if \<not> is_zero l \<and> now < l then l else now)
                   in after_next c loc base False))"

subsection \<open>Well-formed expressions\<close>

text \<open>The array lengths, and the values each field can hold.\<close>

definition spec_wf :: "cron_spec \<Rightarrow> bool" where
  "spec_wf c \<longleftrightarrow>
     length (minutes c) = 60 \<and> length (hours c) = 24 \<and> length (days c) = 32 \<and>
     length (months c) = 13 \<and> length (weekdays c) = 7 \<and>
     on (minutes c) \<subseteq> {0..59} \<and> on (hours c) \<subseteq> {0..23} \<and> on (days c) \<subseteq> {1..31} \<and>
     on (months c) \<subseteq> {1..12} \<and> on (weekdays c) \<subseteq> {0..6} \<and>
     on (minutes c) \<noteq> {} \<and> on (hours c) \<noteq> {} \<and> on (days c) \<noteq> {} \<and>
     on (months c) \<noteq> {} \<and> on (weekdays c) \<noteq> {}"

definition spec_denotes :: "string list \<Rightarrow> cron_spec \<Rightarrow> bool" where
  "spec_denotes parts c \<longleftrightarrow> length parts = 5 \<and>
     on (minutes c) = field_values (parts ! 0) 0 59 \<and>
     on (hours c) = field_values (parts ! 1) 0 23 \<and>
     on (days c) = field_values (parts ! 2) 1 31 \<and>
     on (months c) = field_values (parts ! 3) 1 12 \<and>
     on (weekdays c) = (\<lambda>v. if v = 7 then 0 else v) ` field_values (parts ! 4) 0 7 \<and>
     (day_wildcard c \<longleftrightarrow> parts ! 2 = ''*'') \<and> (dow_wildcard c \<longleftrightarrow> parts ! 4 = ''*'')"

lemma slot_of_Direct [simp]: "slot_of Direct ` A = A"
  by (auto simp: slot_of_def)

lemma slot_of_Sunday: "slot_of SundaySeven = (\<lambda>v. if v = 7 then 0 else v)"
  by (auto simp: slot_of_def)

lemma parse_cron_spec_Inr:
  assumes "parse_cron_spec e = Inr c"
  obtains mi ho da mo wd where "go_fields (trim_space e) = [mi, ho, da, mo, wd]"
    "parse_cron_field Direct mi 0 59 (replicate 60 False) = Inr (minutes c)"
    "parse_cron_field Direct ho 0 23 (replicate 24 False) = Inr (hours c)"
    "parse_cron_field Direct da 1 31 (replicate 32 False) = Inr (days c)"
    "parse_cron_field Direct mo 1 12 (replicate 13 False) = Inr (months c)"
    "parse_cron_field SundaySeven wd 0 7 (replicate 7 False) = Inr (weekdays c)"
    "day_wildcard c \<longleftrightarrow> da = ''*''" "dow_wildcard c \<longleftrightarrow> wd = ''*''"
  using assms
  by (auto simp: parse_cron_spec_def empty_spec_def bind_res_Inr_iff split: list.splits)

lemma parse_cron_spec_denotes:
  assumes "parse_cron_spec e = Inr c"
  shows "spec_wf c" "spec_denotes (go_fields (trim_space e)) c"
proof -
  obtain mi ho da mo wd where parts: "go_fields (trim_space e) = [mi, ho, da, mo, wd]"
    and mi: "parse_cron_field Direct mi 0 59 (replicate 60 False) = Inr (minutes c)"
    and ho: "parse_cron_field Direct ho 0 23 (replicate 24 False) = Inr (hours c)"
    and da: "parse_cron_field Direct da 1 31 (replicate 32 False) = Inr (days c)"
    and mo: "parse_cron_field Direct mo 1 12 (replicate 13 False) = Inr (months c)"
    and wd: "parse_cron_field SundaySeven wd 0 7 (replicate 7 False) = Inr (weekdays c)"
    and wild: "day_wildcard c \<longleftrightarrow> da = ''*''" "dow_wildcard c \<longleftrightarrow> wd = ''*''"
    using assms by (rule parse_cron_spec_Inr)
  note big = max_int64_def
  have vals: "on (minutes c) = field_values mi 0 59" "on (hours c) = field_values ho 0 23"
    "on (days c) = field_values da 1 31" "on (months c) = field_values mo 1 12"
    "on (weekdays c) = (\<lambda>v. if v = 7 then 0 else v) ` field_values wd 0 7"
    using parse_cron_field_values(2) [OF mi] parse_cron_field_values(2) [OF ho]
      parse_cron_field_values(2) [OF da] parse_cron_field_values(2) [OF mo]
      parse_cron_field_values(2) [OF wd] by (simp_all add: big slot_of_Sunday)
  then show "spec_denotes (go_fields (trim_space e)) c" by (simp add: spec_denotes_def parts wild)
  have len: "length (minutes c) = 60" "length (hours c) = 24" "length (days c) = 32"
    "length (months c) = 13" "length (weekdays c) = 7"
    using parse_cron_field_values(1) [OF mi] parse_cron_field_values(1) [OF ho]
      parse_cron_field_values(1) [OF da] parse_cron_field_values(1) [OF mo]
      parse_cron_field_values(1) [OF wd] by (simp_all add: big)
  have sub: "field_values mi 0 59 \<subseteq> {0..59}" "field_values ho 0 23 \<subseteq> {0..23}"
    "field_values da 1 31 \<subseteq> {1..31}" "field_values mo 1 12 \<subseteq> {1..12}" "field_values wd 0 7 \<subseteq> {0..7}"
    using parse_cron_field_values(3) [OF mi] parse_cron_field_values(3) [OF ho]
      parse_cron_field_values(3) [OF da] parse_cron_field_values(3) [OF mo]
      parse_cron_field_values(3) [OF wd] by (simp_all add: big)
  have ne: "field_values mi 0 59 \<noteq> {}" "field_values ho 0 23 \<noteq> {}"
    "field_values da 1 31 \<noteq> {}" "field_values mo 1 12 \<noteq> {}" "field_values wd 0 7 \<noteq> {}"
    using parse_cron_field_values(4) [OF mi] parse_cron_field_values(4) [OF ho]
      parse_cron_field_values(4) [OF da] parse_cron_field_values(4) [OF mo]
      parse_cron_field_values(4) [OF wd] by (simp_all add: big)
  have wdays: "on (weekdays c) \<subseteq> {0..6}" using sub(5) by (auto simp: vals)
  have "on (weekdays c) \<noteq> {}" using ne(5) by (simp add: vals del: if_image_distrib)
  then show "spec_wf c" using vals(1-4) wdays len sub ne by (simp add: spec_wf_def)
qed

text \<open>The indices \<open>match\<close> reads at are inside the arrays, whatever the instant.\<close>

lemma match_reads_in_range:
  assumes "spec_wf c"
  shows "nat (civ_minute (civil_of loc t)) < length (minutes c)"
    "nat (civ_hour (civil_of loc t)) < length (hours c)"
    "nat (civ_day (civil_of loc t)) < length (days c)"
    "nat (civ_month (civil_of loc t)) < length (months c)"
    "nat (civ_weekday (civil_of loc t)) < length (weekdays c)"
  using civil_of_bounds [of loc t] assms by (auto simp: spec_wf_def)

text \<open>C36: A parsed expression denotes exactly the values its five fields ask for (each segment
  the values from its start to its end in steps, Sunday as 0 or 7, every value inside the
  field's range and no field empty), and \<open>match\<close> then never reads outside an array.\<close>

theorem cron_parse_denotes:
  assumes "parse_cron_spec e = Inr c"
  shows "spec_wf c \<and> spec_denotes (go_fields (trim_space e)) c \<and>
    nat (civ_minute (civil_of loc t)) < length (minutes c) \<and>
    nat (civ_hour (civil_of loc t)) < length (hours c) \<and>
    nat (civ_day (civil_of loc t)) < length (days c) \<and>
    nat (civ_month (civil_of loc t)) < length (months c) \<and>
    nat (civ_weekday (civil_of loc t)) < length (weekdays c)"
  using parse_cron_spec_denotes [OF assms] match_reads_in_range by blast

text \<open>The running example: every quarter of an hour from 9 to 17, Monday to Friday.\<close>

definition work_hours :: string where
  "work_hours = ''*/15 9-17 * * 1-5''"

definition work_spec :: cron_spec where
  "work_spec = \<lparr>minutes = map (\<lambda>i. i mod 15 = 0) [0..<60], hours = map (\<lambda>i. 9 \<le> i \<and> i \<le> 17) [0..<24],
     days = False # replicate 31 True, months = False # replicate 12 True,
     weekdays = map (\<lambda>i. 1 \<le> i \<and> i \<le> 5) [0..<7], day_wildcard = True, dow_wildcard = False\<rparr>"

lemma work_hours_parse: "parse_cron_spec work_hours = Inr work_spec"
  by code_simp

theorem cron_parse_denotes_witness:
  "spec_wf work_spec \<and> spec_denotes [''*/15'', ''9-17'', ''*'', ''*'', ''1-5''] work_spec"
proof -
  have "go_fields (trim_space work_hours) = [''*/15'', ''9-17'', ''*'', ''*'', ''1-5'']" by code_simp
  then show ?thesis using cron_parse_denotes [OF work_hours_parse] by simp
qed

text \<open>The whole minutes of the window are those the search visits.\<close>

lemma whole_minutes:
  "after < u \<and> u \<le> after + int n * minute_ns \<and> u mod minute_ns = 0 \<longleftrightarrow>
     (\<exists>k<n. u = truncate_time after minute_ns + int (Suc k) * minute_ns)" (is "?l \<longleftrightarrow> ?r")
proof -
  define b where "b = truncate_time after minute_ns"
  have b: "b \<le> after" "after < b + minute_ns" "b mod minute_ns = 0"
    by (simp_all add: b_def truncate_gt truncate_le truncate_mod_minute)
  obtain i where i: "b = i * minute_ns" using b(3) by (metis mod_0_imp_dvd dvd_def mult.commute)
  show ?thesis
  proof
    assume l: ?l
    then obtain j where j: "u = j * minute_ns" by (metis mod_0_imp_dvd dvd_def mult.commute)
    have "i * minute_ns < j * minute_ns" using b(1) l unfolding i j by linarith
    then have "i < j" using minute_ns_pos by (simp add: mult_less_cancel_right_disj)
    moreover have "j * minute_ns < (i + 1 + int n) * minute_ns" using b(2) l by (simp add: i j algebra_simps)
    then have "j < i + 1 + int n" using minute_ns_pos by (simp add: mult_less_cancel_right_disj)
    ultimately have "nat (j - i - 1) < n" "u = b + int (Suc (nat (j - i - 1))) * minute_ns" by (simp_all add: i j algebra_simps)
    then show ?r unfolding b_def by blast
  next
    assume ?r
    then obtain k where k: "k < n" "u = b + int (Suc k) * minute_ns" unfolding b_def by blast
    have "minute_ns \<le> int (Suc k) * minute_ns" using mult_right_mono [of 1 "int (Suc k)" minute_ns] minute_ns_pos by simp
    moreover have "int (Suc k) * minute_ns \<le> int n * minute_ns" using k(1) less_imp_le [OF minute_ns_pos] by (intro mult_right_mono) simp_all
    moreover have "u mod minute_ns = 0" using b(3) by (simp add: k(2))
    ultimately show ?l using b(1,2) unfolding k(2) by linarith
  qed
qed

text \<open>The first whole minute after an instant that matches, and the window of the search, two years of 366 days.\<close>

definition first_match :: "cron_spec \<Rightarrow> location \<Rightarrow> instant \<Rightarrow> instant \<Rightarrow> bool" where
  "first_match c loc after t \<longleftrightarrow> after < t \<and> t mod minute_ns = 0 \<and> cron_match c loc t \<and>
     (\<forall>u. after < u \<and> u < t \<and> u mod minute_ns = 0 \<longrightarrow> \<not> cron_match c loc u)"

definition no_match :: "cron_spec \<Rightarrow> location \<Rightarrow> instant \<Rightarrow> bool" where
  "no_match c loc after \<longleftrightarrow> (\<forall>u. after < u \<and> u \<le> after + 2 * 366 * 24 * 60 * minute_ns \<and> u mod minute_ns = 0 \<longrightarrow> \<not> cron_match c loc u)"

lemma first_match_le:
  assumes "first_match c loc after t" "first_match c loc after u" shows "t \<le> u"
proof (rule ccontr)
  assume "\<not> t \<le> u"
  then have "u < t" by simp
  moreover have "after < u" "u mod minute_ns = 0" "cron_match c loc u" using assms(2) by (simp_all add: first_match_def)
  moreover have "after < u \<and> u < t \<and> u mod minute_ns = 0 \<longrightarrow> \<not> cron_match c loc u" using assms(1) unfolding first_match_def by (elim conjE allE)
  ultimately show False by simp
qed

lemma window_minutes: "2 * 366 * 24 * 60 * minute_ns = int max_cron_search_minutes * minute_ns"
  by (simp add: max_cron_search_minutes_def)

lemma cron_next_first: "cron_next c loc after = Some t \<Longrightarrow> first_match c loc after t"
  unfolding first_match_def by (intro conjI allI impI; (elim conjE)?) (rule cron_next_Some; assumption)+

lemma cron_next_none: "cron_next c loc after = None \<longleftrightarrow> no_match c loc after"
  unfolding cron_next_None_iff no_match_def window_minutes whole_minutes by blast

text \<open>C37: The search answers with the first matching minute: the instant it returns is after
  \<open>after\<close>, lies on a whole minute, matches the expression, and no whole minute between
  \<open>after\<close> and it matches; and it fails exactly when none of the whole minutes of the two years of 366 days after
  \<open>after\<close> matches.\<close>

theorem cron_next_is_first_match:
  "(\<forall>t. cron_next c loc after = Some t \<longleftrightarrow> first_match c loc after t \<and> t \<le> after + 2 * 366 * 24 * 60 * minute_ns) \<and>
   (cron_next c loc after = None \<longleftrightarrow> no_match c loc after)"
proof (intro conjI allI iffI)
  fix t assume n: "cron_next c loc after = Some t"
  then show first: "first_match c loc after t" by (rule cron_next_first)
  from cron_search_Some [OF n [unfolded cron_next_def]] obtain k where
    "k < max_cron_search_minutes" "t = truncate_time after minute_ns + int (Suc k) * minute_ns" by (auto simp: algebra_simps)
  then have "after < t \<and> t \<le> after + int max_cron_search_minutes * minute_ns \<and> t mod minute_ns = 0"
    unfolding whole_minutes by (intro exI [of _ k] conjI)
  then show "t \<le> after + 2 * 366 * 24 * 60 * minute_ns" unfolding window_minutes by (elim conjE)
next
  fix t assume t: "first_match c loc after t \<and> t \<le> after + 2 * 366 * 24 * 60 * minute_ns"
  then have "cron_match c loc t" "after < t \<and> t \<le> after + 2 * 366 * 24 * 60 * minute_ns \<and> t mod minute_ns = 0"
    by (simp_all add: first_match_def)
  then have "\<exists>u. (after < u \<and> u \<le> after + 2 * 366 * 24 * 60 * minute_ns \<and> u mod minute_ns = 0) \<and> cron_match c loc u"
    by (intro exI [of _ t] conjI; elim conjE)
  then have "\<not> no_match c loc after" unfolding no_match_def by (simp only: not_all not_imp not_not)
  then obtain t' where n: "cron_next c loc after = Some t'" unfolding cron_next_none [symmetric] by blast
  then have "first_match c loc after t'" by (rule cron_next_first)
  then have "t = t'" using t first_match_le by (metis order_antisym)
  then show "cron_next c loc after = Some t" using n by simp
qed (simp_all add: cron_next_none)

lemma work_hours_next:
  "cron_next work_spec utc 1700040480000000000 = Some 1700040600000000000"
proof -
  have start: "truncate_time 1700040480000000000 minute_ns + minute_ns = 1700040540000000000"
    by code_simp
  have miss: "\<not> cron_match work_spec utc 1700040540000000000" by code_simp
  have hit: "cron_match work_spec utc 1700040600000000000" by code_simp
  have step: "(1700040540000000000 :: int) + minute_ns = 1700040600000000000" by code_simp
  show ?thesis unfolding cron_next_def start
    by (subst cron_search_miss) (simp_all add: miss step cron_search_hit hit max_cron_search_minutes_def)
qed

theorem cron_next_is_first_match_witness:
  "first_match work_spec utc 1700040480000000000 1700040600000000000 \<and> \<not> cron_match work_spec utc 1700040540000000000"
proof -
  have "(1700040540000000000 :: int) mod minute_ns = 0" by (simp add: minute_ns_def second_ns_def)
  moreover have "first_match work_spec utc 1700040480000000000 1700040600000000000"
    using cron_next_is_first_match [of work_spec utc 1700040480000000000] work_hours_next by blast
  ultimately show ?thesis unfolding first_match_def by auto
qed

text \<open>A step can be so large that the loop variable wraps around: the field \<open>1-5/9223372036854775807\<close>
  is accepted by every check, and the second value the loop writes at is the smallest int, an
  index outside the array, so parsing the expression panics.\<close>

theorem cron_step_overflow_panics:
  "parse_cron_spec ''1-5/9223372036854775807 * * * *'' = Inl (CronPanic (- 9223372036854775808))"
  by code_simp

text \<open>The panic needs a wrap-around: with steps up to the field's range there is none.\<close>

lemma fill_slots_no_panic:
  assumes "0 \<le> v" "e < int (length slots) \<or> (w = SundaySeven \<and> e = 7 \<and> length slots = 7)"
    "0 < st" "e + st \<le> max_int64"
  shows "\<exists>slots'. fill_slots w v e st slots = Inr slots'"
  using assms
proof (induction w v e st slots rule: fill_slots.induct)
  case (1 w v e st slots)
  show ?case
  proof (cases "v \<le> e")
    case False
    then show ?thesis by (simp add: fill_slots.simps [of w v e st slots])
  next
    case True
    have st: "\<not> (st \<le> 0 \<or> max_int64 < st)" using "1.prems" True by linarith
    have "0 \<le> slot_of w v" "slot_of w v < int (length slots)"
      using "1.prems"(1,2) True by (auto simp: slot_of_def)
    then obtain sl where sl: "set_value w v slots = Inr sl" "length sl = length slots"
      using set_value_Inr [of w v slots "slots[nat (slot_of w v) := True]"] by simp
    have "int64_ok (v + st)" using "1.prems" True by (auto simp: int64_ok_def min_int64_def)
    then have "wrap64 (v + st) = v + st" by (rule wrap64_id)
    then have "\<exists>slots'. fill_slots w (wrap64 (v + st)) e st sl = Inr slots'"
      using "1.IH" [OF True st sl(1)] "1.prems" sl(2) by simp
    then show ?thesis using True st sl(1) by (subst fill_slots.simps) simp
  qed
qed

text \<open>C39: The panic is the only way a well-ranged segment fails: a loop over the minutes from
  \<open>v\<close> to \<open>e\<close> with a step that keeps \<open>e + st\<close> within int sets exactly the values
  \<open>v, v + st, ...\<close> up to \<open>e\<close> and returns.\<close>

theorem cron_fill_total:
  assumes "0 \<le> v" "e < int (length slots)" "0 < st" "e + st \<le> max_int64"
  shows "\<exists>slots'. fill_slots Direct v e st slots = Inr slots' \<and>
    on slots' = on slots \<union> {x. v \<le> x \<and> x \<le> e \<and> (x - v) mod st = 0}"
proof (cases "v \<le> e")
  case True
  obtain slots' where f: "fill_slots Direct v e st slots = Inr slots'"
    using fill_slots_no_panic assms by blast
  then show ?thesis using fill_slots_on [OF f] assms True by (auto simp: progression_def slot_of_def)
next
  case False
  then show ?thesis by (auto simp: fill_slots.simps [of Direct v e st slots])
qed

theorem cron_fill_total_witness:
  "\<exists>slots'. fill_slots Direct 5 59 20 (replicate 60 False) = Inr slots' \<and>
    on slots' = {} \<union> {x. 5 \<le> x \<and> x \<le> 59 \<and> (x - 5) mod 20 = 0}"
  using cron_fill_total [of 5 59 "replicate 60 False" 20] by (simp add: max_int64_def)

definition leap_day :: string where
  "leap_day = ''0 0 29 2 *''"

definition leap_spec :: cron_spec where
  "leap_spec = \<lparr>minutes = True # replicate 59 False, hours = True # replicate 23 False,
     days = replicate 29 False @ [True, False, False],
     months = [False, False, True] @ replicate 10 False, weekdays = replicate 7 True,
     day_wildcard = False, dow_wildcard = True\<rparr>"

lemma leap_day_parse: "parse_cron_spec leap_day = Inr leap_spec"
  by code_simp

definition not_leap_day :: "int \<Rightarrow> bool" where
  "not_leap_day z \<longleftrightarrow> (case civil_from_days z of (y, m, d) \<Rightarrow> \<not> (m = 2 \<and> d = 29))"

lemma no_leap_day_two_years:
  assumes "20148 \<le> z" "z \<le> 20880"
  shows "not_leap_day z"
proof (rule ccontr)
  assume "\<not> not_leap_day z"
  then obtain y where civ: "civil_from_days z = (y, 2, 29)"
    by (auto simp: not_leap_day_def split: prod.splits)
  define a where "a = (y - 1) div 400"
  define b where "b = (y - 1) mod 400"
  have z: "z = a * 146097 + b * 365 + b div 4 - b div 100 + 365 - 719468"
    using days_from_civil_from_days [OF civ] by (simp add: days_from_civil_def Let_def a_def b_def)
  have b: "0 \<le> b" "b < 400" "0 \<le> b div 4" "b div 4 \<le> 99" "0 \<le> b div 100" "b div 100 \<le> 3"
    by (auto simp: b_def)
  have "a = 5" using assms b unfolding z by linarith
  then have "b = 24 \<or> b = 25 \<or> b = 26" using assms b unfolding z by linarith
  then have "z = 20148 \<or> z = 20513 \<or> z = 20878" using \<open>a = 5\<close> unfolding z by auto
  moreover have "civil_from_days 20148 = (2025, 3, 1)" "civil_from_days 20513 = (2026, 3, 1)"
    "civil_from_days 20878 = (2027, 3, 1)" by code_simp+
  ultimately show False using civ by auto
qed

lemma slot_in_filter: "slot xs i \<Longrightarrow> nat i \<in> set (filter (\<lambda>k. xs ! k) [0..<length xs])"
  by (auto simp: slot_def)

lemma leap_match_date:
  assumes "cron_match leap_spec utc t"
  shows "\<not> not_leap_day (t div second_ns div 86400)"
proof -
  obtain y m d where c: "civil_from_days (t div second_ns div 86400) = (y, m, d)" by (metis prod_cases3)
  then have "civ_month (civil_of utc t) = m" "civ_day (civil_of utc t) = d"
    by (simp_all add: civil_of_def utc_def Let_def)
  then have sm: "slot (months leap_spec) m" and sd: "slot (days leap_spec) d"
    using assms by (auto simp: cron_match_def Let_def leap_spec_def split: if_splits)
  have "filter (\<lambda>k. months leap_spec ! k) [0..<length (months leap_spec)] = [2]"
    "filter (\<lambda>k. days leap_spec ! k) [0..<length (days leap_spec)] = [29]" by code_simp+
  then have "nat m = 2" "nat d = 29" using slot_in_filter [OF sm] slot_in_filter [OF sd] by simp_all
  then have "m = 2" "d = 29" by simp_all
  then show ?thesis by (simp add: not_leap_day_def c)
qed

lemma leap_day_no_run: "cron_next leap_spec utc 1740787200000000000 = None"
  unfolding cron_next_None_iff
proof (intro allI impI notI)
  fix k assume k: "k < max_cron_search_minutes"
  define t where "t = truncate_time 1740787200000000000 minute_ns + int (Suc k) * minute_ns"
  assume "cron_match leap_spec utc (truncate_time 1740787200000000000 minute_ns + int (Suc k) * minute_ns)"
  then have leap: "\<not> not_leap_day (t div second_ns div 86400)" by (simp add: leap_match_date t_def)
  have "truncate_time 1740787200000000000 minute_ns = 1740787200000000000" by code_simp
  then have "t div second_ns = 1740787200 + 60 * int (Suc k)"
    by (simp add: t_def minute_ns_def second_ns_def)
  then have day: "t div second_ns div 86400 = 20148 + int (Suc k) div 1440" by simp
  have "Suc k div 1440 < 733" using k by (simp add: max_cron_search_minutes_def)
  then have "not_leap_day (20148 + int (Suc k div 1440))"
    by (intro no_leap_day_two_years) linarith+
  then show False using leap unfolding day by (simp only: zdiv_int of_nat_numeral)
qed

text \<open>The two-year window is too short for a leap day: an expression for 29 February, asked
  on 1 March 2025, has no next run within the window and \<open>ComputeNextRun\<close> fails, although
  29 February 2028 matches it.\<close>

theorem cron_leap_day_lost:
  "compute_next_run (\<lambda>_. None) clock
     \<lparr>cron_expr = leap_day, run_timezone = [], misfire_policy = misfire_skip,
      run_now = 1740787200000000000, last_run_at = None, prev_next_run_at = None\<rparr> = Inl NoRunInWindow
   \<and> cron_match leap_spec utc 1835395200000000000"
proof -
  have "\<not> is_zero 1740787200000000000" by code_simp
  then have "compute_next_run (\<lambda>_. None) clock
     \<lparr>cron_expr = leap_day, run_timezone = [], misfire_policy = misfire_skip,
      run_now = 1740787200000000000, last_run_at = None, prev_next_run_at = None\<rparr> = Inl NoRunInWindow"
    by (simp add: compute_next_run_def resolve_location_def leap_day_parse Let_def after_next_def
        leap_day_no_run)
  moreover have "cron_match leap_spec utc 1835395200000000000" by code_simp
  ultimately show ?thesis ..
qed

lemma after_next_Inr:
  "after_next c loc t run = Inr r \<longleftrightarrow>
     (\<exists>n. cron_next c loc t = Some n \<and> r = \<lparr>next_run_at = Some n, should_run_now = run\<rparr>)"
  by (auto simp: after_next_def split: option.splits)

text \<open>An overdue task: it has a previous due time and that time has passed.\<close>

definition overdue :: "instant \<Rightarrow> next_run_input \<Rightarrow> bool" where
  "overdue now inp \<longleftrightarrow> (\<exists>d. prev_next_run_at inp = Some d \<and> \<not> is_zero d \<and> d < now)"

text \<open>The instant the next run is counted from: a missed due time that is to be caught up, else now, but not before
  the last run.\<close>

definition run_base :: "instant \<Rightarrow> string \<Rightarrow> next_run_input \<Rightarrow> instant" where
  "run_base now policy inp =
     (if overdue now inp then (if policy = misfire_catch_up then the (prev_next_run_at inp) else now)
      else case last_run_at inp of Some l \<Rightarrow> (if is_zero l then now else max now l) | None \<Rightarrow> now)"

lemma compute_next_run_cases:
  assumes "resolve_location load (run_timezone inp) = Inr loc" "parse_cron_spec (cron_expr inp) = Inr c"
    and "now = (if is_zero (run_now inp) then clock else run_now inp)" "policy = normalize_misfire_policy (misfire_policy inp)"
  shows "compute_next_run load clock inp =
    after_next c loc (run_base now policy inp) (overdue now inp \<and> policy \<in> {misfire_fire_now, misfire_catch_up})"
proof -
  have distinct: "misfire_fire_now \<noteq> misfire_catch_up" by (simp add: misfire_fire_now_def misfire_catch_up_def)
  define due where "due = (case prev_next_run_at inp of None \<Rightarrow> None | Some d \<Rightarrow> if \<not> is_zero d \<and> d < now then Some d else None)"
  have due: "overdue now inp \<longleftrightarrow> due \<noteq> None" "\<And>d. due = Some d \<Longrightarrow> prev_next_run_at inp = Some d"
    by (auto simp: due_def overdue_def split: option.splits if_splits)
  have "compute_next_run load clock inp = (case due of
       Some d \<Rightarrow> if policy = misfire_fire_now then after_next c loc now True
         else if policy = misfire_catch_up then after_next c loc d True else after_next c loc now False
     | None \<Rightarrow> after_next c loc (case last_run_at inp of None \<Rightarrow> now | Some l \<Rightarrow> if \<not> is_zero l \<and> now < l then l else now) False)"
    unfolding compute_next_run_def assms(1,2) due_def by (simp add: Let_def assms(3,4) [symmetric])
  moreover have "(case last_run_at inp of None \<Rightarrow> now | Some l \<Rightarrow> if \<not> is_zero l \<and> now < l then l else now) =
      (case last_run_at inp of Some l \<Rightarrow> (if is_zero l then now else max now l) | None \<Rightarrow> now)"
    by (auto split: option.splits)
  ultimately show ?thesis using due distinct by (cases due) (auto simp: run_base_def)
qed


definition overdue_task :: next_run_input where
  "overdue_task = \<lparr>cron_expr = work_hours, run_timezone = [], misfire_policy = '' fire_now '',
     run_now = 1700040480000000000, last_run_at = None, prev_next_run_at = Some 1700039700000000000\<rparr>"

lemma overdue_task_next:
  "compute_next_run (\<lambda>_. None) 0 overdue_task
     = Inr \<lparr>next_run_at = Some 1700040600000000000, should_run_now = True\<rparr>"
proof -
  have "normalize_misfire_policy (misfire_policy overdue_task) = misfire_fire_now" by code_simp
  moreover have "\<not> is_zero 1700040480000000000" "\<not> is_zero 1700039700000000000" by code_simp+
  ultimately show ?thesis
    by (simp add: compute_next_run_def overdue_task_def resolve_location_def work_hours_parse
        Let_def after_next_def work_hours_next)
qed


end
