(* ===== verification/RuntimeCron.thy ===== *)
theory RuntimeCron imports Cron begin

section \<open>Runtime scheduler: its own cron parser\<close>

text \<open>
  \<open>internal/service/runtime_scheduler/cron.go\<close>: a second, separately maintained copy of the
  cron parser and search of the event fabric. It is modelled from its own source, and shown
  to agree with the first copy on every expression and instant, so that the properties of
  the one hold of the other.
\<close>

subsection \<open>The copy\<close>

record rs_cron_spec =
  rs_minutes :: "bool list"
  rs_hours :: "bool list"
  rs_days :: "bool list"
  rs_months :: "bool list"
  rs_weekdays :: "bool list"
  rs_day_wildcard :: bool
  rs_dow_wildcard :: bool

datatype rs_cron_error =
    RsExpectedFiveFields
  | RsMinuteField field_error
  | RsHourField field_error
  | RsDayField field_error
  | RsMonthField field_error
  | RsWeekdayField field_error
  | RsPanic int

text \<open>One segment \<open>base/step\<close> or \<open>base\<close>, written with the early returns of the source.\<close>

definition rs_split_step :: "string \<Rightarrow> field_error + (string \<times> int)" where
  "rs_split_step part =
     (if CHR ''/'' \<notin> set part then Inr (part, 1)
      else let items = split_on (CHR ''/'') part
           in if length items \<noteq> 2 then Inl (InvalidStepSegment part)
              else let base = trim_space (items ! 0); parsed = atoi (trim_space (items ! 1))
                   in if parsed = None \<or> the parsed \<le> 0 then Inl (InvalidStepValue part)
                      else Inr (base, the parsed))"

definition rs_split_range :: "int \<Rightarrow> int \<Rightarrow> string \<Rightarrow> field_error + (int \<times> int)" where
  "rs_split_range lo hi base =
     (if base = [] \<or> base = ''*'' then Inr (lo, hi)
      else if CHR ''-'' \<in> set base then
        let bounds = split_on (CHR ''-'') base
        in if length bounds \<noteq> 2 then Inl (InvalidRange base)
           else let left = atoi (trim_space (bounds ! 0)); right = atoi (trim_space (bounds ! 1))
                in if left = None then Inl (InvalidRangeStart base)
                   else if right = None then Inl (InvalidRangeEnd base)
                   else Inr (the left, the right)
      else if atoi base = None then Inl (InvalidValue base)
      else Inr (the (atoi base), the (atoi base)))"

fun rs_parse_parts :: "slot_writer \<Rightarrow> int \<Rightarrow> int \<Rightarrow> string list \<Rightarrow> bool list \<Rightarrow> field_error + bool list" where
  "rs_parse_parts w lo hi [] slots = Inr slots"
| "rs_parse_parts w lo hi (p # ps) slots =
     (let part = trim_space p
      in if part = [] then Inl EmptySegment
         else case rs_split_step part of
           Inl e \<Rightarrow> Inl e
         | Inr (base, step) \<Rightarrow>
             (case rs_split_range lo hi base of
                Inl e \<Rightarrow> Inl e
              | Inr (start, end) \<Rightarrow>
                  if start < lo \<or> end > hi \<or> start > end then Inl (ValueOutOfRange lo hi part)
                  else (case fill_slots w start end step slots of
                          Inl e \<Rightarrow> Inl e
                        | Inr slots' \<Rightarrow> rs_parse_parts w lo hi ps slots')))"

definition rs_parse_cron_field :: "slot_writer \<Rightarrow> string \<Rightarrow> int \<Rightarrow> int \<Rightarrow> bool list \<Rightarrow> field_error + bool list" where
  "rs_parse_cron_field w field lo hi slots =
     (if field = ''*'' then fill_slots w lo hi 1 slots
      else rs_parse_parts w lo hi (split_on (CHR '','') field) slots)"

definition rs_in_field :: "(field_error \<Rightarrow> rs_cron_error) \<Rightarrow> field_error + 'a \<Rightarrow> rs_cron_error + 'a" where
  "rs_in_field name r = (case r of
     Inl (IndexPanic i) \<Rightarrow> Inl (RsPanic i)
   | Inl e \<Rightarrow> Inl (name e)
   | Inr v \<Rightarrow> Inr v)"

definition rs_parse_cron_spec :: "string \<Rightarrow> rs_cron_error + rs_cron_spec" where
  "rs_parse_cron_spec expr =
     (let parts = go_fields (trim_space expr)
      in if length parts \<noteq> 5 then Inl RsExpectedFiveFields
         else
           bind_res (rs_in_field RsMinuteField (rs_parse_cron_field Direct (parts ! 0) 0 59 (replicate 60 False))) (\<lambda>mins.
           bind_res (rs_in_field RsHourField (rs_parse_cron_field Direct (parts ! 1) 0 23 (replicate 24 False))) (\<lambda>hrs.
           bind_res (rs_in_field RsDayField (rs_parse_cron_field Direct (parts ! 2) 1 31 (replicate 32 False))) (\<lambda>dys.
           bind_res (rs_in_field RsMonthField (rs_parse_cron_field Direct (parts ! 3) 1 12 (replicate 13 False))) (\<lambda>mons.
           bind_res (rs_in_field RsWeekdayField (rs_parse_cron_field SundaySeven (parts ! 4) 0 7 (replicate 7 False))) (\<lambda>wds.
             Inr \<lparr>rs_minutes = mins, rs_hours = hrs, rs_days = dys, rs_months = mons, rs_weekdays = wds,
                  rs_day_wildcard = (parts ! 2 = ''*''), rs_dow_wildcard = (parts ! 4 = ''*'')\<rparr>))))))"

definition rs_match :: "rs_cron_spec \<Rightarrow> location \<Rightarrow> instant \<Rightarrow> bool" where
  "rs_match c loc ts =
     (let f = civil_of loc ts;
          day_match = slot (rs_days c) (civ_day f); dow_match = slot (rs_weekdays c) (civ_weekday f)
      in if \<not> slot (rs_minutes c) (civ_minute f) \<or> \<not> slot (rs_hours c) (civ_hour f)
            \<or> \<not> slot (rs_months c) (civ_month f) then False
         else if rs_day_wildcard c \<and> rs_dow_wildcard c then day_match \<and> dow_match
         else if rs_day_wildcard c then dow_match
         else if rs_dow_wildcard c then day_match
         else day_match \<or> dow_match)"

text \<open>\<open>nextCron\<close>: parse, then search; the error of the search is a value of its own.\<close>

datatype next_cron_error = CronSyntaxError rs_cron_error | CronNoNextRun

definition next_cron :: "string \<Rightarrow> location \<Rightarrow> instant \<Rightarrow> next_cron_error + instant" where
  "next_cron expr loc after =
     bind_res (map_err CronSyntaxError (rs_parse_cron_spec expr)) (\<lambda>c.
       let base = truncate_time after minute_ns + minute_ns
       in case cron_search (rs_match c loc) max_cron_search_minutes base of
            None \<Rightarrow> Inl CronNoNextRun
          | Some t \<Rightarrow> Inr t)"

subsection \<open>Agreement with the event fabric's parser\<close>

fun rs_error :: "cron_error \<Rightarrow> rs_cron_error" where
  "rs_error (NotFiveFields e) = RsExpectedFiveFields"
| "rs_error (MinuteField e) = RsMinuteField e"
| "rs_error (HourField e) = RsHourField e"
| "rs_error (DayField e) = RsDayField e"
| "rs_error (MonthField e) = RsMonthField e"
| "rs_error (WeekdayField e) = RsWeekdayField e"
| "rs_error (CronPanic i) = RsPanic i"

definition rs_spec :: "cron_spec \<Rightarrow> rs_cron_spec" where
  "rs_spec c = \<lparr>rs_minutes = minutes c, rs_hours = hours c, rs_days = days c, rs_months = months c,
     rs_weekdays = weekdays c, rs_day_wildcard = day_wildcard c, rs_dow_wildcard = dow_wildcard c\<rparr>"

lemma two_items: "length xs = 2 \<longleftrightarrow> (\<exists>a b. xs = [a, b])"
  by (auto simp: length_Suc_conv numeral_2_eq_2)

lemma rs_split_step_eq: "rs_split_step part = parse_step part"
  by (auto simp: rs_split_step_def parse_step_def Let_def two_items split: list.splits option.splits)

lemma rs_split_range_eq: "rs_split_range lo hi base = parse_range lo hi base"
  by (auto simp: rs_split_range_def parse_range_def Let_def two_items split: list.splits option.splits)

lemma rs_parse_parts_eq: "rs_parse_parts w lo hi ps slots = parse_segments w lo hi ps slots"
  by (induction ps arbitrary: slots)
    (auto simp: rs_split_step_eq rs_split_range_eq Let_def bind_res_def split: sum.splits)

lemma rs_parse_cron_field_eq: "rs_parse_cron_field = parse_cron_field"
  by (intro ext) (simp add: rs_parse_cron_field_def parse_cron_field_def rs_parse_parts_eq)

lemma rs_in_field_eq:
  assumes "\<And>e. rs_error (name e) = name' e"
  shows "rs_in_field name' r = map_err rs_error (in_field name r)"
  using assms by (auto simp: rs_in_field_def in_field_def split: sum.splits field_error.splits)

lemma bind_map_err: "bind_res (map_err f r) (\<lambda>x. map_err f (g x)) = map_err f (bind_res r g)"
  by (cases r) auto

lemma map_err_Inl_Inr: "map_err f (Inr x) = Inr x"
  by simp

lemma five_parts:
  "length xs = 5 \<Longrightarrow> \<exists>a b c d e. xs = [a, b, c, d, e]"
  by (auto simp: length_Suc_conv eval_nat_numeral)

lemma rs_parse_cron_spec_eq:
  "rs_parse_cron_spec e = (case parse_cron_spec e of Inl x \<Rightarrow> Inl (rs_error x) | Inr c \<Rightarrow> Inr (rs_spec c))"
proof (cases "length (go_fields (trim_space e)) = 5")
  case False
  then have "parse_cron_spec e = Inl (NotFiveFields e)"
    by (auto simp: parse_cron_spec_def split: list.splits)
  with False show ?thesis by (simp add: rs_parse_cron_spec_def Let_def)
next
  case True
  then obtain mi ho da mo wd where "go_fields (trim_space e) = [mi, ho, da, mo, wd]"
    using five_parts by blast
  then show ?thesis
    by (simp add: rs_parse_cron_spec_def parse_cron_spec_def Let_def empty_spec_def rs_parse_cron_field_eq
        rs_in_field_eq [of MinuteField RsMinuteField] rs_in_field_eq [of HourField RsHourField]
        rs_in_field_eq [of DayField RsDayField] rs_in_field_eq [of MonthField RsMonthField]
        rs_in_field_eq [of WeekdayField RsWeekdayField] bind_res_def map_err_def rs_spec_def
        split: sum.split)
qed

lemma rs_match_eq: "rs_match (rs_spec c) = cron_match c"
  by (intro ext) (simp add: rs_match_def cron_match_def rs_spec_def Let_def)

text \<open>The two copies of the cron parser agree: for every expression, location and instant, the
  runtime scheduler's \<open>nextCron\<close> returns what the event fabric's \<open>parseCronSpec\<close> and
  \<open>next\<close> return, and fails with the corresponding error when they fail.\<close>

theorem cron_copies_agree:
  "next_cron e loc after = (case parse_cron_spec e of
     Inl x \<Rightarrow> Inl (CronSyntaxError (rs_error x))
   | Inr c \<Rightarrow> (case cron_next c loc after of None \<Rightarrow> Inl CronNoNextRun | Some t \<Rightarrow> Inr t))"
  by (auto simp: next_cron_def rs_parse_cron_spec_eq rs_match_eq cron_next_def Let_def
      split: sum.splits)

lemma next_cron_after:
  assumes "next_cron e loc after = Inr t"
  shows "after < t"
  using assms cron_next_Some(1) by (auto simp: cron_copies_agree split: sum.splits option.splits)

end
