(* ===== verification/VersionNegotiation.thy ===== *)
theory VersionNegotiation imports GoBase begin

section \<open>Event fabric: version negotiation\<close>

text \<open>
  \<open>internal/service/event_fabric/delivery/version_negotiator.go\<close>: whether an event of one
  version may go to a subscriber that declares the versions it supports. The compatibility
  mode is normalised to one of three values first, so the \<open>default\<close> branch of
  \<open>Negotiate\<close> is the branch for \<open>any\<close>.
\<close>

datatype compat_mode = ModeAny | ModeStrict | ModeBackward

record outcome =
  compatible :: bool
  outcome_mode :: compat_mode
  selected_version :: string
  reason :: string

definition normalize_mode :: "string \<Rightarrow> compat_mode" where
  "normalize_mode m =
     (let l = to_lower m
      in if l = ''strict'' then ModeStrict
         else if l = ''backward'' then ModeBackward
         else ModeAny)"

text \<open>The pattern \<open>(?i)^v?(\d+)$\<close> on the trimmed text, and the number it captures.\<close>

definition version_digits :: "string \<Rightarrow> string option" where
  "version_digits t =
     (let body = (case t of [] \<Rightarrow> [] | c # cs \<Rightarrow> if c = CHR ''v'' \<or> c = CHR ''V'' then cs else t)
      in if body \<noteq> [] \<and> list_all (\<lambda>c. digit_val c \<noteq> None) body then Some body else None)"

definition normalize_version_number :: "string \<Rightarrow> int option" where
  "normalize_version_number v =
     (case version_digits (trim_space v) of None \<Rightarrow> None | Some ds \<Rightarrow> atoi ds)"

definition extract_version_numbers :: "string list \<Rightarrow> int list" where
  "extract_version_numbers vs = List.map_filter normalize_version_number vs"

text \<open>The loop that looks for the event's own version among the supported ones.\<close>

definition listed :: "string \<Rightarrow> string list \<Rightarrow> bool" where
  "listed ev supp \<longleftrightarrow> list_ex (\<lambda>sv. equal_fold (trim_space sv) ev) supp"

definition accept :: "compat_mode \<Rightarrow> string \<Rightarrow> outcome" where
  "accept m ev = \<lparr>compatible = True, outcome_mode = m, selected_version = ev, reason = []\<rparr>"

definition reject :: "compat_mode \<Rightarrow> string \<Rightarrow> outcome" where
  "reject m why = \<lparr>compatible = False, outcome_mode = m, selected_version = [], reason = why\<rparr>"

definition negotiate :: "string \<Rightarrow> string \<Rightarrow> string list \<Rightarrow> outcome" where
  "negotiate mode ev supp =
     (case normalize_mode mode of
        ModeAny \<Rightarrow> accept ModeAny ev
      | ModeStrict \<Rightarrow>
          if supp = [] then reject ModeStrict ''no supported versions declared''
          else if listed ev supp then accept ModeStrict ev
          else reject ModeStrict (''event version '' @ ev @ '' not in supported list'')
      | ModeBackward \<Rightarrow>
          if supp = [] then accept ModeBackward ev
          else (case normalize_version_number ev of
                  None \<Rightarrow>
                    if listed ev supp then accept ModeBackward ev
                    else reject ModeBackward (''event version '' @ ev @ '' unsupported'')
                | Some n \<Rightarrow>
                    let numbers = extract_version_numbers supp
                    in if numbers = [] then
                         (if listed ev supp then accept ModeBackward ev
                          else reject ModeBackward (''event version '' @ ev @ '' unsupported''))
                       else let max_supported = last (sort numbers)
                            in if n \<le> max_supported then accept ModeBackward ev
                               else reject ModeBackward
                                 (''event version '' @ ev @ '' exceeds supported maximum v'' @ itoa max_supported)))"

subsection \<open>The decision\<close>

lemma last_sorted_Max:
  assumes "sorted xs" "xs \<noteq> []"
  shows "last xs = Max (set (xs :: int list))"
proof -
  obtain ys y where xs: "xs = ys @ [y]" using assms(2) by (metis rev_exhaust)
  then have "\<forall>x\<in>set ys. x \<le> y" using assms(1) by (simp add: sorted_append)
  then show ?thesis by (intro Max_eqI [symmetric]) (auto simp: xs)
qed

lemma last_sort_Max: "xs \<noteq> [] \<Longrightarrow> last (sort xs) = Max (set (xs :: int list))"
  using last_sorted_Max [of "sort xs"] by (metis length_0_conv length_sort set_sort sorted_sort)

lemma extract_set: "set (extract_version_numbers vs) = {n. \<exists>v\<in>set vs. normalize_version_number v = Some n}"
  by (auto simp: extract_version_numbers_def map_filter_def image_iff split: option.splits) force+

lemma listed_iff: "listed ev supp \<longleftrightarrow> (\<exists>sv\<in>set supp. equal_fold (trim_space sv) ev)"
  by (simp add: listed_def list_ex_iff)

text \<open>What the negotiation promises, as one condition on the three inputs.\<close>

definition version_allowed :: "compat_mode \<Rightarrow> string \<Rightarrow> string list \<Rightarrow> bool" where
  "version_allowed m ev supp \<longleftrightarrow>
     (case m of
        ModeAny \<Rightarrow> True
      | ModeStrict \<Rightarrow> (\<exists>sv\<in>set supp. equal_fold (trim_space sv) ev)
      | ModeBackward \<Rightarrow>
          supp = [] \<or>
          (case normalize_version_number ev of
             None \<Rightarrow> (\<exists>sv\<in>set supp. equal_fold (trim_space sv) ev)
           | Some n \<Rightarrow>
               if (\<exists>v\<in>set supp. normalize_version_number v \<noteq> None)
               then (\<exists>v\<in>set supp. \<exists>k. normalize_version_number v = Some k \<and> n \<le> k)
               else (\<exists>sv\<in>set supp. equal_fold (trim_space sv) ev)))"

lemma le_Max_extract:
  assumes "extract_version_numbers supp \<noteq> []"
  shows "n \<le> last (sort (extract_version_numbers supp)) \<longleftrightarrow>
    (\<exists>v\<in>set supp. \<exists>k. normalize_version_number v = Some k \<and> n \<le> k)"
proof -
  have "n \<le> Max (set (extract_version_numbers supp)) \<longleftrightarrow> (\<exists>k\<in>set (extract_version_numbers supp). n \<le> k)"
    using assms by (intro Max_ge_iff) auto
  then show ?thesis using assms by (auto simp: last_sort_Max extract_set)
qed

lemma extract_Nil_iff:
  "extract_version_numbers supp = [] \<longleftrightarrow> \<not> (\<exists>v\<in>set supp. normalize_version_number v \<noteq> None)"
  by (auto simp: extract_version_numbers_def map_filter_def filter_empty_conv)

text \<open>The negotiation accepts exactly the versions its mode allows (any version; a listed
  version; or, backward, a version up to the highest number listed, a listed version where
  numbers are missing, anything where nothing is listed); an accepted event keeps its own
  version, and a refusal selects none and always gives a reason.\<close>

theorem negotiate_decides:
  "(compatible (negotiate mode ev supp) \<longleftrightarrow> version_allowed (normalize_mode mode) ev supp) \<and>
   outcome_mode (negotiate mode ev supp) = normalize_mode mode \<and>
   selected_version (negotiate mode ev supp)
     = (if version_allowed (normalize_mode mode) ev supp then ev else []) \<and>
   (reason (negotiate mode ev supp) = [] \<longleftrightarrow> version_allowed (normalize_mode mode) ev supp)"
proof (cases "normalize_mode mode")
  case ModeAny
  then show ?thesis by (simp add: negotiate_def version_allowed_def accept_def)
next
  case ModeStrict
  then show ?thesis
    by (auto simp: negotiate_def version_allowed_def accept_def reject_def listed_iff)
next
  case ModeBackward
  show ?thesis
  proof (cases "supp = [] \<or> normalize_version_number ev = None \<or> extract_version_numbers supp = []")
    case True
    then show ?thesis using ModeBackward
      by (auto simp: negotiate_def version_allowed_def accept_def reject_def listed_iff Let_def
          extract_Nil_iff split: option.splits)
  next
    case False
    then obtain n where "normalize_version_number ev = Some n" by auto
    moreover have "\<exists>v\<in>set supp. normalize_version_number v \<noteq> None"
      using False extract_Nil_iff by blast
    ultimately show ?thesis using ModeBackward False
      by (auto simp: negotiate_def version_allowed_def accept_def reject_def Let_def le_Max_extract)
  qed
qed

text \<open>Backward compatibility only grows: once some supported version carries a number, a
  subscriber that declares further versions still accepts every numbered event it accepted.\<close>

theorem negotiate_backward_mono:
  assumes "normalize_mode mode = ModeBackward"
    and "normalize_version_number ev = Some n"
    and "\<exists>v\<in>set supp. normalize_version_number v \<noteq> None"
    and "compatible (negotiate mode ev supp)"
    and "set supp \<subseteq> set supp'"
  shows "compatible (negotiate mode ev supp')"
proof -
  have "version_allowed ModeBackward ev supp"
    using assms(1,4) negotiate_decides [of mode ev supp] by simp
  moreover have "supp \<noteq> []" using assms(3) by auto
  ultimately have "\<exists>v\<in>set supp. \<exists>k. normalize_version_number v = Some k \<and> n \<le> k"
    using assms(2,3) by (auto simp: version_allowed_def split: if_splits)
  then have "version_allowed ModeBackward ev supp'"
    using assms(2,5) by (auto simp: version_allowed_def)
  then show ?thesis using assms(1) negotiate_decides [of mode ev supp'] by simp
qed

theorem negotiate_backward_mono_witness:
  "compatible (negotiate ''Backward'' ''v2'' [''v1'', '' V3 '', ''beta''])"
proof -
  have m: "normalize_mode ''Backward'' = ModeBackward" by code_simp
  have e: "normalize_version_number ''v2'' = Some 2" by code_simp
  have s: "\<exists>v\<in>set ['' V3 '']. normalize_version_number v \<noteq> None" 
  proof -
    have "normalize_version_number '' V3 '' = Some 3" by code_simp
    then show ?thesis by simp
  qed
  have c: "compatible (negotiate ''Backward'' ''v2'' ['' V3 ''])" by code_simp
  have sub: "set ['' V3 ''] \<subseteq> set [''v1'', '' V3 '', ''beta'']" by simp
  show ?thesis by (rule negotiate_backward_mono [OF m e s c sub])
qed

text \<open>Declaring nothing is read as no restriction, so a first declaration can narrow what a
  backward-compatible subscriber receives: version 2 is accepted with an empty list and
  refused, with the maximum named, once version 1 is declared.\<close>

theorem negotiate_empty_is_unrestricted:
  "compatible (negotiate ''backward'' ''v2'' []) \<and>
   negotiate ''backward'' ''v2'' [''v1'']
     = \<lparr>compatible = False, outcome_mode = ModeBackward, selected_version = [],
        reason = ''event version v2 exceeds supported maximum v1''\<rparr>"
  by code_simp

end
