(* ===== verification/DriverSelection.thy ===== *)
theory DriverSelection imports GoBase begin

section \<open>Event fabric: queue driver selection and fallback\<close>

text \<open>
  \<open>internal/service/event_fabric/delivery/driver_contract.go\<close>. A driver type is a string; a
  task driver is a value of type \<open>'d\<close>, nil as \<open>None\<close>, whose \<open>Capability()\<close> is the
  parameter \<open>cap\<close>. The map of drivers is an association list in the order the range loop
  visits it (Go leaves that order open; the results below hold for every order). The
  callback of \<open>TryOnDriver\<close> changes the world, so it takes and returns a state.
\<close>

type_synonym 'd drivers = "(string \<times> 'd option) list"

record fallback_policy =
  primary :: string
  fallback :: "string list"

record 'c selection =
  sel_primary :: string
  sel_fallback :: "string list"
  sel_available :: "string \<rightharpoonup> 'c"

datatype selection_error = PrimaryRequired | PrimaryUnavailable string

definition normalize_driver_type :: "string \<Rightarrow> string" where
  "normalize_driver_type d = to_lower (trim_space d)"

text \<open>The loop of \<open>Normalize\<close>: \<open>seen\<close> holds what the result already has.\<close>

fun normalize_fallback :: "string \<Rightarrow> string list \<Rightarrow> string list \<Rightarrow> string list" where
  "normalize_fallback p seen [] = []"
| "normalize_fallback p seen (x # xs) =
     (let d = normalize_driver_type x
      in if d = [] \<or> d = p then normalize_fallback p seen xs
         else if d \<in> set seen then normalize_fallback p seen xs
         else d # normalize_fallback p (d # seen) xs)"

definition normalize_policy :: "fallback_policy \<Rightarrow> fallback_policy" where
  "normalize_policy p =
     (let q = normalize_driver_type (primary p)
      in \<lparr>primary = q, fallback = normalize_fallback q [] (fallback p)\<rparr>)"

fun available_drivers :: "('d \<Rightarrow> 'c) \<Rightarrow> 'd drivers \<Rightarrow> (string \<rightharpoonup> 'c) \<Rightarrow> (string \<rightharpoonup> 'c)" where
  "available_drivers cap [] m = m"
| "available_drivers cap ((k, d) # ds) m =
     (case d of
        None \<Rightarrow> available_drivers cap ds m
      | Some drv \<Rightarrow>
          let n = normalize_driver_type k
          in if n = [] then available_drivers cap ds m
             else available_drivers cap ds (m(n \<mapsto> cap drv)))"

definition resolve_driver_selection ::
  "('d \<Rightarrow> 'c) \<Rightarrow> fallback_policy \<Rightarrow> 'd drivers \<Rightarrow> selection_error + 'c selection" where
  "resolve_driver_selection cap policy drivers =
     (let p = normalize_policy policy; avail = available_drivers cap drivers Map.empty
      in if primary p = [] then Inl PrimaryRequired
         else if avail (primary p) = None then Inl (PrimaryUnavailable (primary p))
         else Inr \<lparr>sel_primary = primary p,
                   sel_fallback = filter (\<lambda>c. avail c \<noteq> None) (fallback p),
                   sel_available = avail\<rparr>)"

datatype 'e try_error = DriverUnavailable string | DriverError 'e | NoFallback string "'e try_error"

definition run_driver ::
  "'d drivers \<Rightarrow> ('d \<Rightarrow> 's \<Rightarrow> 'e option \<times> 's) \<Rightarrow> string \<Rightarrow> 's \<Rightarrow> 'e try_error option \<times> 's" where
  "run_driver drivers fn t s =
     (case map_of drivers t of
        Some (Some drv) \<Rightarrow> (let (e, s') = fn drv s in (map_option DriverError e, s'))
      | _ \<Rightarrow> (Some (DriverUnavailable t), s))"

text \<open>The loop over the fallback candidates: stop at the first success, keep the last error.\<close>

fun try_candidates ::
  "(string \<Rightarrow> 's \<Rightarrow> 'e try_error option \<times> 's) \<Rightarrow> string list \<Rightarrow> 'e try_error \<Rightarrow> 's
    \<Rightarrow> 'e try_error option \<times> 's" where
  "try_candidates run [] last_err s = (Some last_err, s)"
| "try_candidates run (c # cs) last_err s =
     (case run c s of
        (None, s') \<Rightarrow> (None, s')
      | (Some e, s') \<Rightarrow> try_candidates run cs e s')"

definition try_on_driver ::
  "'c selection \<Rightarrow> 'd drivers \<Rightarrow> ('d \<Rightarrow> 's \<Rightarrow> 'e option \<times> 's) \<Rightarrow> 's \<Rightarrow> 'e try_error option \<times> 's" where
  "try_on_driver sel drivers fn s =
     (case run_driver drivers fn (sel_primary sel) s of
        (None, s') \<Rightarrow> (None, s')
      | (Some e, s') \<Rightarrow>
          if sel_fallback sel = [] then (Some (NoFallback (sel_primary sel) e), s')
          else try_candidates (run_driver drivers fn) (sel_fallback sel) e s')"

subsection \<open>Normalisation\<close>

lemma normalize_driver_type_trim:
  "to_lower (trim_space d) = normalize_driver_type d"
  by (simp add: normalize_driver_type_def)

lemma normalize_fallback_set:
  "set (normalize_fallback p seen xs) = {normalize_driver_type x | x. x \<in> set xs} - {[], p} - set seen"
  by (induction xs arbitrary: seen) (auto simp: Let_def)

lemma normalize_fallback_distinct: "distinct (normalize_fallback p seen xs)"
  by (induction xs arbitrary: seen) (auto simp: Let_def normalize_fallback_set)

text \<open>The names under which a driver is really there.\<close>

definition registered :: "'d drivers \<Rightarrow> string set" where
  "registered ds = {k. \<exists>d. (k, Some d) \<in> set ds}"

lemma registered_Cons [simp]:
  "registered [] = {}" "registered ((k, None) # ds) = registered ds"
  "registered ((k, Some d) # ds) = insert k (registered ds)"
  by (auto simp: registered_def)

lemma available_drivers_dom:
  "dom (available_drivers cap ds m) = dom m \<union> (normalize_driver_type ` registered ds - {[]})"
proof (induction ds arbitrary: m)
  case (Cons x ds)
  obtain k d where x: "x = (k, d)" by fastforce
  show ?case
  proof (cases d)
    case None
    then show ?thesis by (simp add: x Cons)
  next
    case (Some drv)
    show ?thesis
      by (cases "normalize_driver_type k = []") (auto simp: x Some Let_def Cons simp del: fun_upd_apply)
  qed
qed simp

text \<open>A resolved selection is well formed: the primary driver is the normalised one and is
  available, the fallback candidates are available, pairwise different, different from the
  primary, and are exactly the available ones the policy names.\<close>

theorem selection_well_formed:
  assumes "resolve_driver_selection cap policy drivers = Inr sel"
  shows "sel_primary sel = normalize_driver_type (primary policy) \<and>
    sel_available sel (sel_primary sel) \<noteq> None \<and>
    distinct (sel_primary sel # sel_fallback sel) \<and>
    set (sel_fallback sel) = ({normalize_driver_type x | x. x \<in> set (fallback policy)}
        - {sel_primary sel}) \<inter> dom (sel_available sel) \<and>
    dom (sel_available sel) = normalize_driver_type ` registered drivers - {[]}"
proof -
  have sel: "sel_primary sel = normalize_driver_type (primary policy)" "sel_primary sel \<noteq> []"
    "sel_available sel = available_drivers cap drivers Map.empty"
    "sel_available sel (sel_primary sel) \<noteq> None"
    "sel_fallback sel = filter (\<lambda>c. sel_available sel c \<noteq> None)
       (normalize_fallback (sel_primary sel) [] (fallback policy))"
    using assms by (auto simp: resolve_driver_selection_def Let_def normalize_policy_def split: if_splits)
  have av: "dom (sel_available sel) = normalize_driver_type ` registered drivers - {[]}"
    by (simp add: sel(3) available_drivers_dom)
  have "set (sel_fallback sel) = ({normalize_driver_type x | x. x \<in> set (fallback policy)}
        - {sel_primary sel}) \<inter> dom (sel_available sel)"
    using av by (auto simp: sel(5) normalize_fallback_set dom_def)
  moreover have "distinct (sel_primary sel # sel_fallback sel)"
    by (auto simp: sel(5) normalize_fallback_set normalize_fallback_distinct)
  ultimately show ?thesis using sel(1,4) av by blast
qed

definition two_drivers :: "nat drivers" where
  "two_drivers = [(''redis'', Some 1), (''kafka'', Some 2), (''memory'', None)]"

definition redis_policy :: fallback_policy where
  "redis_policy = \<lparr>primary = '' Redis'', fallback = [''kafka'', ''redis'', ''memory'', ''KAFKA'']\<rparr>"

lemma redis_selection:
  "resolve_driver_selection id redis_policy two_drivers
     = Inr \<lparr>sel_primary = ''redis'', sel_fallback = [''kafka''],
        sel_available = available_drivers id two_drivers Map.empty\<rparr>"
proof -
  have "normalize_policy redis_policy = \<lparr>primary = ''redis'', fallback = [''kafka'', ''memory'']\<rparr>"
    by code_simp
  moreover have "available_drivers id two_drivers Map.empty ''redis'' = Some 1"
    "available_drivers id two_drivers Map.empty ''kafka'' = Some 2"
    "available_drivers id two_drivers Map.empty ''memory'' = None" by code_simp+
  ultimately show ?thesis by (simp add: resolve_driver_selection_def Let_def)
qed

theorem selection_well_formed_witness:
  "distinct [''redis'', ''kafka''] \<and> available_drivers id two_drivers Map.empty ''redis'' \<noteq> None"
proof -
  let ?sel = "\<lparr>sel_primary = ''redis'', sel_fallback = [''kafka''],
        sel_available = available_drivers id two_drivers Map.empty\<rparr>"
  have "sel_available ?sel (sel_primary ?sel) \<noteq> None" "distinct (sel_primary ?sel # sel_fallback ?sel)"
    using selection_well_formed [OF redis_selection] by blast+
  then show ?thesis by simp
qed

subsection \<open>Execution with fallback\<close>

text \<open>The first driver that succeeds, tried in order, with the state its call leaves.\<close>

fun first_success :: "(string \<Rightarrow> 's \<Rightarrow> 'e try_error option \<times> 's) \<Rightarrow> string list \<Rightarrow> 's \<Rightarrow> (string \<times> 's) option" where
  "first_success run [] s = None"
| "first_success run (c # cs) s =
     (case run c s of (None, s') \<Rightarrow> Some (c, s') | (Some e, s') \<Rightarrow> first_success run cs s')"

lemma try_candidates_success:
  "first_success run cs s = Some (c, s') \<Longrightarrow> try_candidates run cs e s = (None, s')"
  by (induction run cs s arbitrary: e rule: first_success.induct) (auto split: prod.splits option.splits)

lemma try_candidates_failure:
  "first_success run cs s = None \<Longrightarrow> fst (try_candidates run cs e s) \<noteq> None"
  by (induction run cs s arbitrary: e rule: first_success.induct) (auto split: prod.splits option.splits)

text \<open>\<open>TryOnDriver\<close> succeeds exactly when one of the primary and the fallback drivers, tried in
  this order, succeeds; it stops at the first success, with the state that call left.\<close>

theorem try_on_driver_first_success:
  "case first_success (run_driver drivers fn) (sel_primary sel # sel_fallback sel) s of
     Some (c, s') \<Rightarrow> try_on_driver sel drivers fn s = (None, s')
   | None \<Rightarrow> fst (try_on_driver sel drivers fn s) \<noteq> None"
  using try_candidates_success [of "run_driver drivers fn" "sel_fallback sel"]
    try_candidates_failure [of "run_driver drivers fn" "sel_fallback sel"]
  by (auto simp: try_on_driver_def split: prod.splits option.splits)

text \<open>A driver registered under a name that is not in normal form is reported available but
  cannot be executed: the selection accepts a driver registered as \<open>Redis\<close>, and running on
  that selection fails without calling it, since the lookup uses the normalised name.\<close>

theorem unnormalized_driver_unreachable:
  "(\<exists>sel. resolve_driver_selection id \<lparr>primary = ''Redis'', fallback = []\<rparr> [(''Redis'', Some (1::nat))] = Inr sel \<and>
     sel_available sel ''redis'' = Some 1 \<and>
     try_on_driver sel [(''Redis'', Some (1::nat))] fn s
       = (Some (NoFallback ''redis'' (DriverUnavailable ''redis'')), s))"
proof -
  have n: "normalize_driver_type ''Redis'' = ''redis''" by code_simp
  show ?thesis
    by (simp add: resolve_driver_selection_def normalize_policy_def n Let_def try_on_driver_def
        run_driver_def)
qed

end
