(* ===== verification/RingBuffers.thy ===== *)
theory RingBuffers imports GoBase begin

section \<open>Log rings: the plugin supervisor's and the runtime logger's\<close>

text \<open>
  Two byte rings that keep the tail of a log:
  \<open>internal/infra/plugin/manager/supervisor/ring.go\<close> (the output of a plugin process) and
  \<open>pkg/utils/logger/runtimebuffer/buffer.go\<close> (the process's own log). Both are records of
  the Go struct's fields. What such a ring promises is stated once, as two locales over the
  history of the bytes written: a snapshot is a suffix of the history (\<open>recent_log\<close>), and
  it is the longest one that fits (\<open>bounded_log\<close>). The runtime ring keeps both promises,
  the supervisor's ring only the first.
\<close>

type_synonym byte = char

subsection \<open>The contract\<close>

definition last_n :: "nat \<Rightarrow> 'a list \<Rightarrow> 'a list" where
  "last_n n xs = drop (length xs - n) xs"

lemma last_n_simps [simp]:
  "last_n 0 xs = []" "length xs \<le> n \<Longrightarrow> last_n n xs = xs" "length (last_n n xs) = min n (length xs)"
  by (auto simp: last_n_def)

lemma suffix_last_n: "suffix (last_n n xs) xs"
  by (simp add: last_n_def suffix_drop)

lemma last_n_nth: "i < min n (length xs) \<Longrightarrow> last_n n xs ! i = xs ! (length xs - min n (length xs) + i)"
  by (auto simp: last_n_def min_def)

locale recent_log =
  fixes wr :: "byte list \<Rightarrow> 'r \<Rightarrow> 'r"
    and snap :: "int \<Rightarrow> 'r \<Rightarrow> byte list"
    and repr :: "'r \<Rightarrow> byte list \<Rightarrow> bool"
  assumes wr_repr: "repr r h \<Longrightarrow> p \<noteq> [] \<Longrightarrow> repr (wr p r) (h @ p)"
    and snap_suffix: "repr r h \<Longrightarrow> suffix (snap t r) h"
begin

lemma writes_repr:
  "repr r h \<Longrightarrow> [] \<notin> set ps \<Longrightarrow> repr (fold wr ps r) (h @ concat ps)"
proof (induction ps arbitrary: r h)
  case (Cons p ps)
  then have "repr (wr p r) (h @ p)" by (intro wr_repr) auto
  then have "repr (fold wr ps (wr p r)) ((h @ p) @ concat ps)" using Cons by (intro Cons.IH) auto
  then show ?case by simp
qed simp

lemma snapshot_recent:
  "repr r h \<Longrightarrow> [] \<notin> set ps \<Longrightarrow> suffix (snap t (fold wr ps r)) (h @ concat ps)"
  by (rule snap_suffix) (rule writes_repr)

end

locale bounded_log = recent_log +
  fixes cap :: "'b \<Rightarrow> nat"
  assumes wr_cap: "cap (wr p r) = cap r"
    and snap_exact: "repr r h \<Longrightarrow>
      snap t r = last_n (if t \<le> 0 then cap r else min (cap r) (nat t)) h"
begin

lemma writes_cap: "cap (fold wr ps r) = cap r"
  by (induction ps arbitrary: r) (auto simp: wr_cap)

lemma snapshot_tail:
  "repr r h \<Longrightarrow> [] \<notin> set ps \<Longrightarrow>
     snap t (fold wr ps r) = last_n (if t \<le> 0 then cap r else min (cap r) (nat t)) (h @ concat ps)"
  using snap_exact [OF writes_repr] by (simp add: writes_cap)

text \<open>How the bytes were cut into writes does not matter.\<close>

lemma chunking_irrelevant:
  "repr r h \<Longrightarrow> [] \<notin> set ps \<Longrightarrow> [] \<notin> set qs \<Longrightarrow> concat ps = concat qs \<Longrightarrow>
     snap t (fold wr ps r) = snap t (fold wr qs r)"
  by (simp add: snapshot_tail)

end

subsection \<open>Circular contents\<close>

text \<open>
  Byte \<open>j\<close> of the history lives at index \<open>(j + b) mod c\<close> while it is among the last \<open>c\<close>.
\<close>

definition circular :: "byte list \<Rightarrow> nat \<Rightarrow> nat \<Rightarrow> byte list \<Rightarrow> bool" where
  "circular buf c b h \<longleftrightarrow> 0 < c \<and> length buf = c \<and>
     (\<forall>j < length h. length h \<le> j + c \<longrightarrow> buf ! ((j + b) mod c) = h ! j)"

lemma mod_add_cancel_nat:
  fixes a b t c :: nat
  assumes "(a + t) mod c = (b + t) mod c"
  shows "a mod c = b mod c"
proof -
  have "(int a + int t) mod int c = (int b + int t) mod int c"
    using assms by (metis of_nat_add zmod_int)
  then have "(int a + int t - int t) mod int c = (int b + int t - int t) mod int c"
    by (intro mod_diff_cong refl)
  then show ?thesis by (simp flip: zmod_int)
qed

lemma circular_slice:
  assumes "circular buf c b h" "n \<le> length h" "n \<le> c" "(s + n) mod c = (length h + b) mod c" "i < n"
  shows "buf ! ((s + i) mod c) = h ! (length h - n + i)"
proof -
  define j where "j = length h - n + i"
  have "length h = (length h - n) + n" using assms(2) by simp
  then have "(s + n) mod c = (length h - n + b + n) mod c" using assms(4) by (simp add: ac_simps)
  then have "s mod c = (length h - n + b) mod c" by (rule mod_add_cancel_nat)
  then have "(s + i) mod c = (j + b) mod c" unfolding j_def by (metis mod_add_left_eq add.commute add.left_commute)
  moreover have "j < length h" "length h \<le> j + c" using assms by (simp_all add: j_def)
  then have "buf ! ((j + b) mod c) = h ! j" using assms(1) unfolding circular_def by blast
  ultimately show ?thesis by (simp add: j_def)
qed

subsection \<open>The runtime logger's ring\<close>

record rt_ring =
  rt_buf :: "byte list"
  rt_cap :: nat
  rt_head :: nat
  rt_size :: nat

definition default_capacity :: nat where
  "default_capacity = 1024 * 1024"

definition new_ring :: "int \<Rightarrow> rt_ring" where
  "new_ring capacity =
     (let c = (if capacity \<le> 0 then default_capacity else nat capacity)
      in \<lparr>rt_buf = replicate c (CHR 0x00), rt_cap = c, rt_head = 0, rt_size = 0\<rparr>)"

definition rt_put :: "byte \<Rightarrow> rt_ring \<Rightarrow> rt_ring" where
  "rt_put b r = r\<lparr>rt_buf := (rt_buf r)[rt_head r := b], rt_head := (rt_head r + 1) mod rt_cap r,
     rt_size := (if rt_size r < rt_cap r then rt_size r + 1 else rt_size r)\<rparr>"

definition rt_append :: "byte list \<Rightarrow> rt_ring \<Rightarrow> rt_ring" where
  "rt_append p r = (if p = [] then r else fold rt_put p r)"

definition rt_snapshot :: "int \<Rightarrow> rt_ring \<Rightarrow> byte list" where
  "rt_snapshot tail_bytes r =
     (if rt_size r = 0 then []
      else let t = (if tail_bytes \<le> 0 \<or> int (rt_size r) < tail_bytes then rt_size r else nat tail_bytes);
               start = (if rt_head r < t then rt_head r + rt_cap r - t else rt_head r - t)
           in if start + t \<le> rt_cap r then take t (drop start (rt_buf r))
              else drop start (rt_buf r) @ take (t - (rt_cap r - start)) (rt_buf r))"

definition rt_repr :: "rt_ring \<Rightarrow> byte list \<Rightarrow> bool" where
  "rt_repr r h \<longleftrightarrow> circular (rt_buf r) (rt_cap r) 0 h \<and> rt_head r = length h mod rt_cap r \<and>
     rt_size r = min (rt_cap r) (length h)"

lemma rt_put_repr: "rt_repr r h \<Longrightarrow> rt_repr (rt_put b r) (h @ [b])"
proof -
  assume r: "rt_repr r h"
  define c where "c = rt_cap r"
  have c: "0 < c" "length (rt_buf r) = c"
    and old: "\<And>j. j < length h \<Longrightarrow> length h \<le> j + c \<Longrightarrow> rt_buf r ! (j mod c) = h ! j"
    using r by (auto simp: rt_repr_def circular_def c_def)
  have "(rt_buf r)[length h mod c := b] ! (j mod c) = (h @ [b]) ! j"
    if "j < Suc (length h)" "Suc (length h) \<le> j + c" for j
  proof (cases "j = length h")
    case True
    then show ?thesis using c by simp
  next
    case False
    then have "j < length h" using that by simp
    moreover have "j mod c \<noteq> length h mod c"
    proof
      assume "j mod c = length h mod c"
      then have "c dvd length h - j" using \<open>j < length h\<close> by (metis less_imp_le mod_eq_dvd_iff_nat)
      then have "c \<le> length h - j" using \<open>j < length h\<close> by (simp add: dvd_imp_le)
      then show False using that(2) \<open>j < length h\<close> by linarith
    qed
    ultimately show ?thesis using old that(2) by (simp add: nth_append)
  qed
  then show ?thesis using r c
    by (auto simp: rt_repr_def circular_def rt_put_def mod_Suc_eq min_def simp flip: c_def)
qed

lemma rt_append_repr: "rt_repr r h \<Longrightarrow> rt_repr (rt_append p r) (h @ p)"
proof -
  have "rt_repr r h \<Longrightarrow> rt_repr (fold rt_put p r) (h @ p)"
  proof (induction p arbitrary: r h)
    case (Cons b p)
    from Cons.IH [OF rt_put_repr [OF Cons.prems, of b]] show ?case by simp
  qed simp
  then show "rt_repr r h \<Longrightarrow> rt_repr (rt_append p r) (h @ p)" by (simp add: rt_append_def)
qed

lemma rt_append_cap: "rt_cap (rt_append p r) = rt_cap r"
proof -
  have "rt_cap (fold rt_put p r) = rt_cap r" by (induction p arbitrary: r) (auto simp: rt_put_def)
  then show ?thesis by (simp add: rt_append_def)
qed

lemma mod_once: "x < 2 * c \<Longrightarrow> x mod c = (if x < c then x else x - c)" for x c :: nat
  by (simp add: le_mod_geq)

text \<open>A slice of \<open>n\<close> bytes from \<open>s\<close>, wrapping around at the end of the buffer.\<close>

lemma wrapped_slice:
  assumes "length buf = c" "s < c" "n \<le> c"
  shows "(if s + n \<le> c then take n (drop s buf) else drop s buf @ take (n - (c - s)) buf)
     = map (\<lambda>i. buf ! ((s + i) mod c)) [0..<n]"
proof (cases "s + n \<le> c")
  case True
  then have "(s + i) mod c = s + i" if "i < n" for i using that by simp
  then show ?thesis using True assms by (intro nth_equalityI) auto
next
  case False
  have "(drop s buf @ take (n - (c - s)) buf) ! i = buf ! ((s + i) mod c)" if i: "i < n" for i
  proof (cases "s + i < c")
    case True
    then have "i < c - s" by simp
    then show ?thesis using assms True by (simp add: nth_append)
  next
    case over: False
    then have "(s + i) mod c = s + i - c" using mod_once [of "s + i" c] assms i by simp
    moreover have "i - (c - s) = s + i - c" using over assms by simp
    moreover have "\<not> i < c - s" using over by linarith
    ultimately show ?thesis using over assms i by (simp add: nth_append)
  qed
  then show ?thesis using False assms by (intro nth_equalityI) auto
qed

lemma rt_snapshot_exact:
  assumes "rt_repr r h"
  shows "rt_snapshot t r = last_n (if t \<le> 0 then rt_cap r else min (rt_cap r) (nat t)) h"
proof (cases "h = []")
  case True
  then show ?thesis using assms by (simp add: rt_repr_def rt_snapshot_def)
next
  case False
  define c where "c = rt_cap r"
  define n where "n = (if t \<le> 0 \<or> int (rt_size r) < t then rt_size r else nat t)"
  define s where "s = (if rt_head r < n then rt_head r + c - n else rt_head r - n)"
  have size: "rt_size r = min c (length h)" and head: "rt_head r = length h mod c"
    and circ: "circular (rt_buf r) c 0 h" using assms by (auto simp: rt_repr_def c_def)
  have c: "0 < c" "length (rt_buf r) = c" using circ by (auto simp: circular_def)
  have n: "n \<le> c" "n \<le> length h" "0 < n" using False c by (auto simp: n_def size)
  have hc: "rt_head r < c" using c by (simp add: head)
  have s: "s < c" using n hc by (auto simp: s_def)
  have "(s + n) mod c = rt_head r mod c" using n hc by (auto simp: s_def)
  then have sn: "(s + n) mod c = (length h + 0) mod c" by (simp add: head)
  have "rt_size r \<noteq> 0" using False c by (simp add: size)
  have "rt_snapshot t r =
      (if s + n \<le> c then take n (drop s (rt_buf r)) else drop s (rt_buf r) @ take (n - (c - s)) (rt_buf r))"
    by (simp only: rt_snapshot_def Let_def n_def s_def c_def if_False \<open>rt_size r \<noteq> 0\<close>)
  also have "\<dots> = map (\<lambda>i. rt_buf r ! ((s + i) mod c)) [0..<n]"
    using c s n by (intro wrapped_slice)
  also have "\<dots> = map (\<lambda>i. h ! (length h - n + i)) [0..<n]"
    using circular_slice [OF circ n(2,1) sn] by simp
  also have "\<dots> = last_n n h" using n by (intro nth_equalityI) (auto simp: last_n_def)
  also have "\<dots> = last_n (if t \<le> 0 then c else min c (nat t)) h"
  proof -
    have "n = min (if t \<le> 0 then c else min c (nat t)) (length h)" by (auto simp: n_def size)
    then show ?thesis by (auto simp: last_n_def min_def)
  qed
  finally show ?thesis by (simp add: c_def)
qed

interpretation rt: bounded_log rt_append rt_snapshot rt_repr rt_cap
proof
  show "rt_repr r h \<Longrightarrow> p \<noteq> [] \<Longrightarrow> rt_repr (rt_append p r) (h @ p)" for r h p
    by (rule rt_append_repr)
  show "rt_repr r h \<Longrightarrow> suffix (rt_snapshot t r) h" for r h t
    by (simp add: rt_snapshot_exact suffix_last_n)
qed (simp_all add: rt_append_cap rt_snapshot_exact)

lemma new_ring_repr: "rt_repr (new_ring capacity) []"
  by (auto simp: rt_repr_def new_ring_def circular_def default_capacity_def Let_def)

text \<open>C40: The runtime log ring is a bounded log: after any sequence of writes, a snapshot is exactly
  the last bytes written, as many as were asked for and fit the capacity (all that fit, for a
  bound that is not positive), in order.\<close>

theorem runtime_ring_snapshot:
  assumes "[] \<notin> set ps"
  shows "rt_snapshot t (fold rt_append ps (new_ring capacity))
     = last_n (if t \<le> 0 then rt_cap (new_ring capacity) else min (rt_cap (new_ring capacity)) (nat t)) (concat ps)"
  using rt.snapshot_tail [OF new_ring_repr assms] by simp

theorem runtime_ring_snapshot_witness:
  "rt_snapshot 3 (fold rt_append [''ab'', ''cde'', ''f''] (new_ring 4)) = ''def''"
proof -
  have "[] \<notin> set [''ab'', ''cde'', ''f'']" by simp
  from runtime_ring_snapshot [OF this, of 3 4] show ?thesis
    by (simp add: new_ring_def Let_def last_n_def)
qed

subsection \<open>The supervisor's ring\<close>

record sup_ring =
  sup_buf :: "byte list"
  sup_cap :: nat
  sup_off :: nat
  sup_filled :: bool

definition new_ring_buffer :: "int \<Rightarrow> sup_ring" where
  "new_ring_buffer capacity =
     (let c = (if capacity \<le> 0 then 256 * 1024 else nat capacity)
      in \<lparr>sup_buf = replicate c (CHR 0x00), sup_cap = c, sup_off = 0, sup_filled = False\<rparr>)"

text \<open>\<open>copy(buf[off:], xs)\<close> for \<open>xs\<close> that fits.\<close>

definition copy_at :: "nat \<Rightarrow> byte list \<Rightarrow> byte list \<Rightarrow> byte list" where
  "copy_at off xs buf = take off buf @ xs @ drop (off + length xs) buf"

definition sup_write :: "byte list \<Rightarrow> sup_ring \<Rightarrow> sup_ring" where
  "sup_write p r =
     (let n = length p; c = sup_cap r
      in if c \<le> n then
           r\<lparr>sup_buf := copy_at 0 (drop (n - c) p) (sup_buf r), sup_off := 0, sup_filled := True\<rparr>
         else
           let end = sup_off r + n;
               buf' = (if end \<le> c then copy_at (sup_off r) p (sup_buf r)
                       else let part1 = c - sup_off r
                            in copy_at 0 (drop part1 p) (copy_at (sup_off r) (take part1 p) (sup_buf r)));
               off' = end mod c
           in r\<lparr>sup_buf := buf', sup_off := off', sup_filled := (sup_filled r \<or> off' = 0)\<rparr>)"

definition sup_snapshot :: "int \<Rightarrow> sup_ring \<Rightarrow> byte list" where
  "sup_snapshot tail_bytes r =
     (let c = sup_cap r;
          t = (if tail_bytes \<le> 0 \<or> int c < tail_bytes then c else nat tail_bytes)
      in if \<not> sup_filled r then
           let total = sup_off r
           in if total = 0 then []
              else if t < total then take t (drop (total - t) (sup_buf r))
              else take total (sup_buf r)
         else let tmp = drop (sup_off r) (sup_buf r) @ take (sup_off r) (sup_buf r); n = length tmp
              in if t < n then drop (n - t) tmp else tmp)"

text \<open>
  The invariant. The offset is the end of the history in the circle; what \<open>filled\<close> claims
  is true (a full circle has been written), and the bytes below the offset have been written.
\<close>

definition sup_repr :: "sup_ring \<Rightarrow> byte list \<Rightarrow> bool" where
  "sup_repr r h \<longleftrightarrow> (\<exists>b. circular (sup_buf r) (sup_cap r) b h \<and> sup_off r = (length h + b) mod sup_cap r) \<and>
     sup_off r \<le> length h \<and> (sup_filled r \<longrightarrow> sup_cap r \<le> length h)"

lemma nth_copy_at:
  assumes "off + length xs \<le> length buf" "k < length buf"
  shows "copy_at off xs buf ! k = (if off \<le> k \<and> k < off + length xs then xs ! (k - off) else buf ! k)"
  using assms by (auto simp: copy_at_def nth_append)

lemma length_copy_at: "off + length xs \<le> length buf \<Longrightarrow> length (copy_at off xs buf) = length buf"
  by (simp add: copy_at_def)

text \<open>The two-segment copy writes byte \<open>i\<close> of \<open>p\<close> at \<open>(off + i) mod c\<close> and nothing else.\<close>

definition block_copy :: "nat \<Rightarrow> nat \<Rightarrow> byte list \<Rightarrow> byte list \<Rightarrow> byte list" where
  "block_copy c off p buf =
     (if off + length p \<le> c then copy_at off p buf
      else copy_at 0 (drop (c - off) p) (copy_at off (take (c - off) p) buf))"

lemma block_copy_props:
  assumes "length buf = c" "off < c" "length p < c"
  shows "length (block_copy c off p buf) = c"
    "i < length p \<Longrightarrow> block_copy c off p buf ! ((off + i) mod c) = p ! i"
    "k < c \<Longrightarrow> (\<forall>i<length p. (off + i) mod c \<noteq> k) \<Longrightarrow> block_copy c off p buf ! k = buf ! k"
proof -
  show "length (block_copy c off p buf) = c"
    using assms by (simp add: block_copy_def length_copy_at)
  have nth: "block_copy c off p buf ! k =
      (if off \<le> k \<and> k < off + length p then p ! (k - off)
       else if k + c < off + length p then p ! (k + c - off) else buf ! k)" if "k < c" for k
    using assms that by (auto simp: block_copy_def nth_copy_at length_copy_at nth_append ac_simps)
  show "block_copy c off p buf ! ((off + i) mod c) = p ! i" if "i < length p"
    using mod_once [of "off + i" c] nth [of "off + i"] nth [of "off + i - c"] assms that by auto
  show "block_copy c off p buf ! k = buf ! k" if k: "k < c" and none: "\<forall>i<length p. (off + i) mod c \<noteq> k"
  proof -
    have "\<not> (off \<le> k \<and> k < off + length p)"
    proof
      assume a: "off \<le> k \<and> k < off + length p"
      then have "(off + (k - off)) mod c = k" using k by simp
      moreover have "k - off < length p" using a by linarith
      ultimately show False using none by blast
    qed
    moreover have "\<not> k + c < off + length p"
    proof
      assume a: "k + c < off + length p"
      then have "off + (k + c - off) = k + c" using assms(2) by simp
      then have "(off + (k + c - off)) mod c = k" using k by simp
      moreover have "k + c - off < length p" using a assms(2) by linarith
      ultimately show False using none by blast
    qed
    ultimately show ?thesis using nth [OF k] by (simp only: if_False)
  qed
qed

lemma circular_block_copy:
  assumes circ: "circular buf c b h" and p: "length p < c" and off: "off = (length h + b) mod c"
  shows "circular (block_copy c off p buf) c b (h @ p)"
proof -
  have c: "0 < c" "length buf = c" using circ by (auto simp: circular_def)
  have o: "off < c" using c by (simp add: off)
  note bc = block_copy_props [OF c(2) o p]
  have "block_copy c off p buf ! ((j + b) mod c) = (h @ p) ! j"
    if j: "j < length (h @ p)" "length (h @ p) \<le> j + c" for j
  proof (cases "j < length h")
    case False
    define i where "i = j - length h"
    have i: "i < length p" "j = length h + i" using False j by (simp_all add: i_def)
    have "j + b = length h + b + i" by (simp add: i(2))
    then have "(j + b) mod c = (off + i) mod c" unfolding off by (simp only: mod_add_left_eq)
    then show ?thesis using bc(2) [OF i(1)] False by (simp add: nth_append i_def)
  next
    case True
    have "(off + i) mod c \<noteq> (j + b) mod c" if i: "i < length p" for i
    proof
      assume "(off + i) mod c = (j + b) mod c"
      moreover have "length h + i + b = length h + b + i" by simp
      ultimately have "(length h + i + b) mod c = (j + b) mod c" unfolding off by (simp only: mod_add_left_eq)
      then have "(length h + i) mod c = j mod c" by (rule mod_add_cancel_nat)
      then have "c dvd length h + i - j" using True by (metis less_imp_le mod_eq_dvd_iff_nat trans_less_add1)
      then have "c \<le> length h + i - j" using True by (simp add: dvd_imp_le)
      then show False using j(2) i True by simp
    qed
    then have "block_copy c off p buf ! ((j + b) mod c) = buf ! ((j + b) mod c)" using c by (intro bc(3)) auto
    also have "\<dots> = h ! j" using circ True j(2) by (simp add: circular_def)
    finally show ?thesis using True by (simp add: nth_append)
  qed
  then show ?thesis using c(1) bc(1) by (simp add: circular_def)
qed

lemma sup_write_small:
  assumes "length p < sup_cap r"
  shows "sup_write p r = r\<lparr>sup_buf := block_copy (sup_cap r) (sup_off r) p (sup_buf r),
     sup_off := (sup_off r + length p) mod sup_cap r,
     sup_filled := (sup_filled r \<or> (sup_off r + length p) mod sup_cap r = 0)\<rparr>"
  using assms by (simp add: sup_write_def block_copy_def Let_def)

lemma sup_write_repr:
  assumes r: "sup_repr r h" and ne: "p \<noteq> []"
  shows "sup_repr (sup_write p r) (h @ p)"
proof -
  define c where "c = sup_cap r"
  obtain b where circ: "circular (sup_buf r) c b h" and off: "sup_off r = (length h + b) mod c"
    and low: "sup_off r \<le> length h" and full: "sup_filled r \<longrightarrow> c \<le> length h"
    using r by (auto simp: sup_repr_def c_def)
  have c: "0 < c" "length (sup_buf r) = c" using circ by (auto simp: circular_def)
  show ?thesis
  proof (cases "c \<le> length p")
    case True
    define q where "q = drop (length p - c) p"
    have q: "length q = c" using True by (simp add: q_def)
    have w: "sup_write p r = r\<lparr>sup_buf := q, sup_off := 0, sup_filled := True\<rparr>"
      using True c q by (simp add: sup_write_def Let_def copy_at_def flip: c_def q_def)
    define b' where "b' = (length (h @ p)) * (c - 1)"
    have z: "(length (h @ p) + b') mod c = 0"
    proof -
      have "length (h @ p) + b' = length (h @ p) * c" using c(1) by (cases c) (simp_all add: b'_def)
      then show ?thesis by simp
    qed
    have "q ! ((j + b') mod c) = (h @ p) ! j" if j: "j < length (h @ p)" "length (h @ p) \<le> j + c" for j
    proof -
      define i where "i = j + c - length (h @ p)"
      have i: "i < c" using j by (simp add: i_def)
      have "j + b' + c = i + (length (h @ p) + b')" using j by (simp add: i_def)
      then have "(j + b' + c) mod c = (i + (length (h @ p) + b')) mod c" by (rule arg_cong)
      also have "\<dots> = i" using z i by (metis add.right_neutral mod_add_right_eq mod_less)
      finally have "(j + b') mod c = i" by (simp only: mod_add_self2)
      moreover have "q ! i = (h @ p) ! j"
      proof -
        have le: "length h \<le> j" "length p - c \<le> length p" using True j by simp_all
        have "length p - c + i = j - length h" using True j by (simp add: i_def)
        then have "q ! i = p ! (j - length h)" unfolding q_def using le(2) by (simp only: nth_drop)
        then show ?thesis using le(1) by (simp add: nth_append)
      qed
      ultimately show ?thesis by simp
    qed
    then have "circular q c b' (h @ p)" using c(1) q by (simp add: circular_def)
    then show ?thesis using True z by (auto simp: sup_repr_def w simp flip: c_def)
  next
    case False
    then have p: "length p < c" by simp
    have "circular (block_copy c (sup_off r) p (sup_buf r)) c b (h @ p)"
      using circular_block_copy [OF circ p off] .
    moreover have "length (h @ p) + b = length h + b + length p" by simp
    then have off': "(sup_off r + length p) mod c = (length (h @ p) + b) mod c"
      unfolding off by (simp only: mod_add_left_eq)
    moreover have "(sup_off r + length p) mod c \<le> length (h @ p)"
      by (rule le_trans [OF mod_less_eq_dividend]) (use low in simp)
    moreover have "c \<le> length (h @ p)" if "(sup_off r + length p) mod c = 0"
    proof -
      have "0 < sup_off r + length p" using ne by simp
      then have "c \<le> sup_off r + length p" using that by (metis dvd_imp_le mod_0_imp_dvd)
      then show ?thesis using low by simp
    qed
    ultimately show ?thesis using p full
      by (auto simp: sup_repr_def sup_write_small simp flip: c_def)
  qed
qed

text \<open>What a snapshot holds: the whole circle once it has been filled, else the bytes below the offset.\<close>

definition sup_window :: "sup_ring \<Rightarrow> nat" where
  "sup_window r = (if sup_filled r then sup_cap r else sup_off r)"

lemma sup_snapshot_window:
  assumes r: "sup_repr r h"
  shows "sup_snapshot t r
    = last_n (if t \<le> 0 then sup_window r else min (sup_window r) (nat t)) h"
proof -
  define c where "c = sup_cap r"
  define w where "w = sup_window r"
  obtain b where circ: "circular (sup_buf r) c b h" and off: "sup_off r = (length h + b) mod c"
    and low: "sup_off r \<le> length h" and full: "sup_filled r \<longrightarrow> c \<le> length h"
    using r by (auto simp: sup_repr_def c_def)
  have c: "0 < c" "length (sup_buf r) = c" using circ by (auto simp: circular_def)
  have o: "sup_off r < c" using c by (simp add: off)
  have w: "w \<le> c" "w \<le> length h" using low full o by (auto simp: w_def sup_window_def c_def)
  define s where "s = (if sup_filled r then sup_off r else 0)"
  have whole: "map (\<lambda>i. sup_buf r ! ((s + i) mod c)) [0..<w] = last_n w h"
  proof -
    have "(s + w) mod c = (length h + b) mod c"
      using off o by (auto simp: s_def w_def sup_window_def simp flip: c_def)
    from circular_slice [OF circ w(2,1) this] show ?thesis
      using w(2) by (intro nth_equalityI) (auto simp: last_n_nth min_absorb1)
  qed
  have lin: "(if sup_filled r then drop (sup_off r) (sup_buf r) @ take (sup_off r) (sup_buf r)
      else take (sup_off r) (sup_buf r)) = last_n w h"
  proof (cases "sup_filled r")
    case True
    have "map (\<lambda>i. sup_buf r ! ((s + i) mod c)) [0..<w]
        = drop (sup_off r) (sup_buf r) @ take (sup_off r) (sup_buf r)"
      using wrapped_slice [OF c(2), of "sup_off r" c] o True c(2)
      by (auto simp: s_def w_def sup_window_def simp flip: c_def split: if_splits)
    then show ?thesis using whole True by simp
  next
    case False
    have "map (\<lambda>i. sup_buf r ! ((s + i) mod c)) [0..<w] = take (sup_off r) (sup_buf r)"
      using wrapped_slice [OF c(2), of 0 "sup_off r"] o False c
      by (simp add: s_def w_def sup_window_def)
    then show ?thesis using whole False by simp
  qed
  define n where "n = (if t \<le> 0 \<or> int c < t then c else nat t)"
  have tails: "(if n < length (last_n w h) then drop (length (last_n w h) - n) (last_n w h) else last_n w h)
      = last_n (if t \<le> 0 then w else min w (nat t)) h"
    using w by (auto simp: n_def last_n_def min_def)
  show ?thesis
  proof (cases "sup_filled r")
    case True
    then have "sup_snapshot t r = (if n < length (last_n w h)
        then drop (length (last_n w h) - n) (last_n w h) else last_n w h)"
      using lin by (simp only: sup_snapshot_def Let_def n_def c_def if_True not_True_eq_False if_False)
    then show ?thesis using tails by (simp add: w_def)
  next
    case False
    then have tk: "take (sup_off r) (sup_buf r) = last_n w h" and wo: "w = sup_off r"
      using lin by (simp_all add: w_def sup_window_def)
    have len: "length (last_n w h) = sup_off r" using w by (simp add: wo)
    have dt: "take n (drop (sup_off r - n) (sup_buf r)) = drop (sup_off r - n) (take (sup_off r) (sup_buf r))"
      if "n < sup_off r" using that by (simp add: drop_take)
    have "sup_snapshot t r = (if n < length (last_n w h)
        then drop (length (last_n w h) - n) (last_n w h) else last_n w h)"
      using False dt tk len
      by (auto simp: sup_snapshot_def Let_def simp flip: c_def n_def)
    then show ?thesis using tails by (simp add: w_def)
  qed
qed

interpretation sup_log: recent_log sup_write sup_snapshot sup_repr
proof
  show "sup_repr r h \<Longrightarrow> p \<noteq> [] \<Longrightarrow> sup_repr (sup_write p r) (h @ p)" for r h p
    by (rule sup_write_repr)
  show "sup_repr r h \<Longrightarrow> suffix (sup_snapshot t r) h" for r h t
    by (simp add: sup_snapshot_window suffix_last_n)
qed

lemma new_ring_buffer_repr: "sup_repr (new_ring_buffer capacity) []"
  by (auto simp: sup_repr_def new_ring_buffer_def circular_def Let_def intro!: exI [of _ 0])

text \<open>The supervisor's ring never shows stale or reordered bytes: after any sequence of non-empty
  writes a snapshot is a suffix of everything written.\<close>

theorem supervisor_ring_recent:
  assumes "[] \<notin> set ps"
  shows "suffix (sup_snapshot t (fold sup_write ps (new_ring_buffer capacity))) (concat ps)"
  using sup_log.snapshot_recent [OF new_ring_buffer_repr assms] by simp

theorem supervisor_ring_recent_witness:
  "suffix (sup_snapshot 2 (fold sup_write [''abc'', ''defg'', ''h''] (new_ring_buffer 5))) ''abcdefgh''"
proof -
  have "[] \<notin> set [''abc'', ''defg'', ''h'']" by simp
  from supervisor_ring_recent [OF this] show ?thesis by simp
qed

text \<open>But it can show less than it holds: \<open>filled\<close> is only set when the offset lands on 0, so
  after a write that wraps around past the start a snapshot of a 4-byte ring holding the last
  four bytes \<open>cdef\<close> returns the two bytes \<open>ef\<close> below the offset; and an empty write to a new
  ring sets \<open>filled\<close>, after which a snapshot returns four bytes that were never written.\<close>

theorem supervisor_ring_incomplete:
  "sup_snapshot 0 (fold sup_write [''abc'', ''def''] (new_ring_buffer 4)) = ''ef'' \<and>
   rt_snapshot 0 (fold rt_append [''abc'', ''def''] (new_ring 4)) = ''cdef'' \<and>
   sup_snapshot 0 (sup_write [] (new_ring_buffer 4)) = [CHR 0x00, CHR 0x00, CHR 0x00, CHR 0x00]"
  by code_simp

end
