(* ===== verification/AgentRun.thy ===== *)
theory AgentRun imports GoBase GoTime "HOL-Library.AList" "HOL-Library.List_Lexorder" begin

section \<open>Agent runs: data, Redis slot, optimistic transactions\<close>

text \<open>
  The data of package \<open>internal/service/agent_run\<close> (\<open>store.go\<close>, \<open>plan_store.go\<close>): the
  run snapshot, the plan, the task snapshots, the run's events and its dispatch outbox, the
  keys of one run in Redis, and the loop \<open>for attempt := 0; attempt < 5; attempt++ \{ Watch ... \}\<close>
  in which every operation of the package reads, decides and writes.

  All keys of a run share one hash slot (\<open>runKeys\<close>, \<open>schedulingKeys\<close>), so one run is one
  record. A hash is an association list with distinct keys, a stream a list, and a task's field
  is the string of \<open>taskField\<close>. Values are the Go structs: the JSON and decimal encodings in
  which they are stored are not modelled. A \<open>uint64\<close> is a nat that wraps at \<open>2^64\<close> where it
  is incremented.
\<close>

subsection \<open>Data\<close>

datatype run_error = ErrInvalid | ErrNotFound | ErrConflict | ErrEventCursorExpired
  | ErrQueueWaitExpired | ErrExecutionUncertain | RedisError string

record snapshot =
  tenant_uuid :: string
  env_name :: string
  run_id :: string
  session_id :: string
  message_id :: string
  trace_id :: string
  run_status :: string
  plan_revision :: nat
  version :: nat
  event_seq :: nat
  deadline_at :: instant
  created_at :: instant
  updated_at :: instant
  archive_key :: string
  archived_at :: instant

record task_definition =
  def_task_id :: string
  def_depends_on :: "string list"
  def_pool_id :: string
  def_node_kind :: string

record plan_budget =
  max_steps :: int
  max_capability_calls :: int

record run_plan =
  plan_rev :: nat
  plan_tasks :: "task_definition list"
  plan_budget :: "plan_budget option"

record task_snapshot =
  task_id :: string
  task_revision :: nat
  task_status :: string
  depends_on :: "string list"
  pool_id :: string
  attempt :: nat
  queued_at :: instant
  queue_reason :: string
  leased_at :: instant
  queue_wait_ms :: int
  lease_owner :: string
  fence :: nat
  lease_until :: instant
  started_at :: instant
  completed_at :: instant
  result_ref :: string
  evidence_ref :: string
  reason_code :: string
  failure_stage :: string
  execution_token :: string
  execution_result_ref :: string
  execution_evidence_ref :: string

text \<open>The zero \<open>TaskSnapshot\<close>.\<close>

definition no_task :: task_snapshot where
  "no_task = \<lparr>task_id = [], task_revision = 0, task_status = [], depends_on = [], pool_id = [],
     attempt = 0, queued_at = zero_time, queue_reason = [], leased_at = zero_time, queue_wait_ms = 0,
     lease_owner = [], fence = 0, lease_until = zero_time, started_at = zero_time,
     completed_at = zero_time, result_ref = [], evidence_ref = [], reason_code = [],
     failure_stage = [], execution_token = [], execution_result_ref = [], execution_evidence_ref = []\<rparr>"

text \<open>
  An entry of the run's event stream: its ID is \<open><seq>-0\<close>; a value an \<open>XADD\<close> does not give
  is empty or 0.
\<close>

record stream_entry =
  en_seq :: nat
  en_type :: string
  en_status :: string
  en_task_id :: string
  en_attempt :: nat
  en_fence :: nat
  en_pool_id :: string
  en_queue_wait_ms :: int
  en_at :: instant
  en_reason_code :: string
  en_failure_stage :: string
  en_queue_reason :: string

definition run_entry :: "nat \<Rightarrow> string \<Rightarrow> string \<Rightarrow> instant \<Rightarrow> stream_entry" where
  "run_entry seq ty st at = \<lparr>en_seq = seq, en_type = ty, en_status = st, en_task_id = [],
     en_attempt = 0, en_fence = 0, en_pool_id = [], en_queue_wait_ms = 0, en_at = at,
     en_reason_code = [], en_failure_stage = [], en_queue_reason = []\<rparr>"

record outbox_entry =
  ob_id :: nat
  ob_run_id :: string
  ob_revision :: nat
  ob_task_id :: string
  ob_attempt :: nat
  ob_event_seq :: nat

subsection \<open>Checks\<close>

definition valid_status :: "string \<Rightarrow> bool" where
  "valid_status st \<longleftrightarrow> st \<in> {''accepted'', ''planning'', ''running'', ''completed'', ''partial'',
     ''needs_input'', ''blocked'', ''failed'', ''cancelled''}"

definition terminal :: "string \<Rightarrow> bool" where
  "terminal st \<longleftrightarrow> st \<in> {''completed'', ''partial'', ''needs_input'', ''blocked'', ''failed'', ''cancelled''}"

definition alnum :: "char \<Rightarrow> bool" where
  "alnum c \<longleftrightarrow> (CHR ''a'' \<le> c \<and> c \<le> CHR ''z'') \<or> (CHR ''A'' \<le> c \<and> c \<le> CHR ''Z'') \<or>
     (CHR ''0'' \<le> c \<and> c \<le> CHR ''9'')"

text \<open>\<open>^[a-zA-Z0-9_-]{1,32}$\<close> and \<open>^[a-zA-Z0-9][a-zA-Z0-9_.:-]{0,127}$\<close>.\<close>

definition env_pattern :: "string \<Rightarrow> bool" where
  "env_pattern s \<longleftrightarrow> 1 \<le> length s \<and> length s \<le> 32 \<and>
     list_all (\<lambda>c. alnum c \<or> c = CHR ''_'' \<or> c = CHR ''-'') s"

definition task_id_pattern :: "string \<Rightarrow> bool" where
  "task_id_pattern s \<longleftrightarrow> (case s of [] \<Rightarrow> False
     | c # cs \<Rightarrow> alnum c \<and> length cs \<le> 127 \<and>
         list_all (\<lambda>c. alnum c \<or> c \<in> set ''_.:-'') cs)"

text \<open>
  What an operation takes from outside: whether a string is a non-nil UUID in canonical form
  (package \<open>google/uuid\<close>), and the store's queue-wait budget.
\<close>

record run_cfg =
  canonical_uuid :: "string \<Rightarrow> bool"
  queue_wait_timeout :: duration

definition valid_scope :: "run_cfg \<Rightarrow> snapshot \<Rightarrow> bool" where
  "valid_scope cfg v \<longleftrightarrow> canonical_uuid cfg (tenant_uuid v) \<and> canonical_uuid cfg (run_id v) \<and>
     env_pattern (env_name v)"

definition valid_identity :: "run_cfg \<Rightarrow> snapshot \<Rightarrow> bool" where
  "valid_identity cfg v \<longleftrightarrow> valid_scope cfg v \<and> \<not> blank (session_id v) \<and> \<not> blank (message_id v) \<and>
     \<not> blank (trace_id v)"

definition planning_task_id :: string where
  "planning_task_id = ''plan''"

definition valid_task_revision :: "nat \<Rightarrow> string \<Rightarrow> bool" where
  "valid_task_revision rv tid \<longleftrightarrow> task_id_pattern tid \<and> (0 < rv \<or> tid = planning_task_id)"

text \<open>\<open>%d:%s\<close>: the field of a task in the tasks hash.\<close>

definition task_field :: "nat \<Rightarrow> string \<Rightarrow> string" where
  "task_field rv tid = itoa_nat rv @ CHR '':'' # tid"

lemma digit_char_not_colon: "digit_char n \<noteq> CHR '':''"
proof
  assume a: "digit_char n = CHR '':''"
  have "digit_val (CHR '':'') = None" by (simp add: digit_val_def)
  with a show False using digit_val_digit_char [of n] by simp
qed

lemma itoa_nat_no_colon: "CHR '':'' \<notin> set (itoa_nat n)"
proof (induction n rule: itoa_nat.induct)
  case (1 n)
  then show ?case
    by (subst itoa_nat.simps) (auto simp: digit_char_not_colon digit_char_not_colon [symmetric])
qed

lemma itoa_nat_inj: "itoa_nat m = itoa_nat n \<longleftrightarrow> m = n"
proof
  assume "itoa_nat m = itoa_nat n"
  then have "digits_val 0 (itoa_nat m) = digits_val 0 (itoa_nat n)" by simp
  then show "m = n" by (simp add: digits_val_itoa_nat)
qed simp

lemma colon_split_unique:
  assumes "d \<notin> set xs" "d \<notin> set ys" "xs @ d # a = ys @ d # b"
  shows "xs = ys \<and> a = b"
  using assms by (induction xs arbitrary: ys) (auto simp: append_eq_Cons_conv Cons_eq_append_conv)

lemma task_field_inj [simp]: "task_field r t = task_field r' t' \<longleftrightarrow> r = r' \<and> t = t'"
proof
  assume "task_field r t = task_field r' t'"
  then have "itoa_nat r = itoa_nat r' \<and> t = t'"
    unfolding task_field_def by (rule colon_split_unique [OF itoa_nat_no_colon itoa_nat_no_colon])
  then show "r = r' \<and> t = t'" by (simp add: itoa_nat_inj)
qed simp

subsection \<open>The keys of a run\<close>

record run_slot =
  state_key :: "snapshot option"
  events_key :: "stream_entry list"
  plans_key :: "(nat \<times> run_plan) list"
  tasks_key :: "(string \<times> task_snapshot) list"
  outbox_key :: "outbox_entry list"
  outbox_last :: nat
  cursor_key :: "nat option"

definition no_run :: run_slot where
  "no_run = \<lparr>state_key = None, events_key = [], plans_key = [], tasks_key = [], outbox_key = [],
     outbox_last = 0, cursor_key = None\<rparr>"

abbreviation task_at :: "run_slot \<Rightarrow> string \<Rightarrow> task_snapshot option" where
  "task_at s f \<equiv> map_of (tasks_key s) f"

text \<open>
  The commands of a pipeline. \<open>XADD\<close> with an explicit ID refuses one that is not above the
  last (the invariant of \<open>AgentReachable\<close> shows that it never has to); with the ID \<open>*\<close>, used
  for the outbox, the server picks one above all it gave before, here the next number.
\<close>

datatype redis_cmd =
    HSetState snapshot
  | HSetTask string task_snapshot
  | HSetPlan nat run_plan
  | XAddEvent stream_entry
  | XAddOutbox string nat string nat nat
  | DelOutbox
  | SetCursor nat

definition last_seq :: "stream_entry list \<Rightarrow> nat" where
  "last_seq es = (if es = [] then 0 else en_seq (last es))"

fun exec_cmd :: "redis_cmd \<Rightarrow> run_slot \<Rightarrow> run_slot" where
  "exec_cmd (HSetState v) s = s\<lparr>state_key := Some v\<rparr>"
| "exec_cmd (HSetTask f t) s = s\<lparr>tasks_key := AList.update f t (tasks_key s)\<rparr>"
| "exec_cmd (HSetPlan r p) s = s\<lparr>plans_key := AList.update r p (plans_key s)\<rparr>"
| "exec_cmd (XAddEvent e) s =
     (if last_seq (events_key s) < en_seq e
      then s\<lparr>events_key := events_key s @ [e]\<rparr> else s)"
| "exec_cmd (XAddOutbox run r tid att sq) s =
     s\<lparr>outbox_key := outbox_key s @ [\<lparr>ob_id = Suc (outbox_last s), ob_run_id = run, ob_revision = r,
          ob_task_id = tid, ob_attempt = att, ob_event_seq = sq\<rparr>],
       outbox_last := Suc (outbox_last s)\<rparr>"
| "exec_cmd DelOutbox s = s\<lparr>outbox_key := []\<rparr>"
| "exec_cmd (SetCursor n) s = s\<lparr>cursor_key := Some n\<rparr>"

definition exec_pipe :: "redis_cmd list \<Rightarrow> run_slot \<Rightarrow> run_slot" where
  "exec_pipe = fold exec_cmd"

lemma exec_pipe_simps [simp]:
  "exec_pipe [] s = s" "exec_pipe (c # cs) s = exec_pipe cs (exec_cmd c s)"
  "exec_pipe (cs @ ds) s = exec_pipe ds (exec_pipe cs s)"
  by (simp_all add: exec_pipe_def)

subsection \<open>The optimistic transaction loop\<close>

text \<open>
  A transaction body gets the clock reading and the keys, and gives an error, a result without
  a write (no \<open>EXEC\<close> is sent: \<open>None\<close>), or a result with the pipeline to execute. \<open>EXEC\<close> fails
  with \<open>TxFailedErr\<close> when a watched key has changed since it was read, and the loop tries
  again; after the last attempt it gives \<open>ErrConflict\<close>. What happens around an attempt is its
  environment: the clock, a failure of the connection, and what other clients do to the keys
  between the read and the \<open>EXEC\<close>. A transaction also has the checks made before the loop.
\<close>

type_synonym 'r tx_body = "instant \<Rightarrow> run_slot \<Rightarrow> run_error + redis_cmd list option \<times> 'r"
type_synonym 'r tx = "bool \<times> 'r tx_body"

record surroundings =
  at_clock :: instant
  at_failure :: "string option"
  at_others :: "run_slot \<Rightarrow> run_slot"

definition quiet :: "instant \<Rightarrow> surroundings" where
  "quiet now = \<lparr>at_clock = now, at_failure = None, at_others = (\<lambda>s. s)\<rparr>"

fun watch_loop :: "nat \<Rightarrow> (run_slot \<Rightarrow> 'w) \<Rightarrow> 'r tx_body \<Rightarrow> (nat \<Rightarrow> surroundings) \<Rightarrow> run_slot
    \<Rightarrow> (run_error + 'r) \<times> run_slot" where
  "watch_loop 0 watched body env s = (Inl ErrConflict, s)"
| "watch_loop (Suc n) watched body env s =
     (case at_failure (env 0) of
        Some e \<Rightarrow> (Inl (RedisError e), s)
      | None \<Rightarrow>
          let u = at_others (env 0) s
          in case body (at_clock (env 0)) s of
               Inl e \<Rightarrow> (Inl e, u)
             | Inr (None, r) \<Rightarrow> (Inr r, u)
             | Inr (Some cmds, r) \<Rightarrow>
                 if watched u = watched s then (Inr r, exec_pipe cmds u)
                 else watch_loop n watched body (\<lambda>i. env (Suc i)) u)"

definition run_tx :: "nat \<Rightarrow> (run_slot \<Rightarrow> 'w) \<Rightarrow> 'r tx \<Rightarrow> (nat \<Rightarrow> surroundings) \<Rightarrow> run_slot
    \<Rightarrow> (run_error + 'r) \<times> run_slot" where
  "run_tx n watched t env s = (if fst t then watch_loop n watched (snd t) env s else (Inl ErrInvalid, s))"

text \<open>The atomic step a transaction takes when it commits.\<close>

definition commits :: "'r tx \<Rightarrow> instant \<Rightarrow> run_slot \<Rightarrow> 'r \<Rightarrow> run_slot \<Rightarrow> bool" where
  "commits t now s r s' \<longleftrightarrow> fst t \<and> (\<exists>cmds. snd t now s = Inr (Some cmds, r) \<and> s' = exec_pipe cmds s)"

lemma commitsI: "fst t \<Longrightarrow> snd t now s = Inr (Some cmds, r) \<Longrightarrow> s' = exec_pipe cmds s \<Longrightarrow> commits t now s r s'"
  by (auto simp: commits_def)

definition watch_state :: "run_slot \<Rightarrow> snapshot option" where
  "watch_state s = state_key s"

definition watch_tasks :: "run_slot \<Rightarrow> snapshot option \<times> (string \<times> task_snapshot) list" where
  "watch_tasks s = (state_key s, tasks_key s)"

definition watch_plans :: "run_slot \<Rightarrow> snapshot option \<times> (string \<times> task_snapshot) list \<times> (nat \<times> run_plan) list" where
  "watch_plans s = (state_key s, tasks_key s, plans_key s)"

definition watch_outbox :: "run_slot \<Rightarrow> snapshot option \<times> (string \<times> task_snapshot) list \<times> outbox_entry list" where
  "watch_outbox s = (state_key s, tasks_key s, outbox_key s)"

text \<open>
  The contract of a transaction: its writes are decided by the watched keys alone. Then the
  loop is atomic: what it returns is an error with nothing written, a result read from the keys
  at some moment, or the body's result for the very keys its pipeline was executed on.
\<close>

locale optimistic_tx =
  fixes watched :: "run_slot \<Rightarrow> 'w" and body :: "'r tx_body"
  assumes reads_watched: "body now s = Inr (Some cmds, r) \<Longrightarrow> watched s' = watched s
    \<Longrightarrow> body now s' = Inr (Some cmds, r)"
begin

lemma watch_loop_atomic:
  assumes "watch_loop n watched body env s = (res, s')"
  shows "\<exists>k\<le>n. let t = fold (\<lambda>i. at_others (env i)) [0..<k] s in
    (\<exists>e. res = Inl e \<and> s' = t) \<or>
    (\<exists>r. res = Inr r \<and> k < n \<and>
       ((body (at_clock (env k)) t = Inr (None, r) \<and> s' = at_others (env k) t) \<or>
        (\<exists>cmds. body (at_clock (env k)) (at_others (env k) t) = Inr (Some cmds, r) \<and>
           s' = exec_pipe cmds (at_others (env k) t))))"
  using assms
proof (induction n arbitrary: env s)
  case 0
  then show ?case by (auto simp: Let_def)
next
  case (Suc n)
  define u where "u = at_others (env 0) s"
  have one: "fold (\<lambda>i. at_others (env i)) [0..<Suc 0] s = u" by (simp add: u_def)
  show ?case
  proof (cases "at_failure (env 0)")
    case (Some e)
    then show ?thesis using Suc.prems by (intro exI [of _ 0]) auto
  next
    case ok: None
    show ?thesis
    proof (cases "body (at_clock (env 0)) s")
      case (Inl e)
      then show ?thesis using Suc.prems ok one
        by (intro exI [of _ "Suc 0"]) (auto simp: Let_def u_def)
    next
      case (Inr p)
      obtain c r where p: "p = (c, r)" by (cases p)
      show ?thesis
      proof (cases c)
        case None
        then show ?thesis using Suc.prems ok Inr p by (intro exI [of _ 0]) (auto simp: Let_def)
      next
        case (Some cmds)
        show ?thesis
        proof (cases "watched u = watched s")
          case True
          then have "body (at_clock (env 0)) u = Inr (Some cmds, r)"
            using reads_watched Inr p Some by blast
          then show ?thesis using Suc.prems ok Inr p Some True
            by (intro exI [of _ 0]) (auto simp: Let_def u_def)
        next
          case False
          then have "watch_loop n watched body (\<lambda>i. env (Suc i)) u = (res, s')"
            using Suc.prems ok Inr p Some by (simp add: Let_def u_def)
          from Suc.IH [OF this] obtain k where k: "k \<le> n" and
            *: "let t = fold (\<lambda>i. at_others (env (Suc i))) [0..<k] u in
              (\<exists>e. res = Inl e \<and> s' = t) \<or>
              (\<exists>r. res = Inr r \<and> k < n \<and>
                 ((body (at_clock (env (Suc k))) t = Inr (None, r) \<and> s' = at_others (env (Suc k)) t) \<or>
                  (\<exists>cmds. body (at_clock (env (Suc k))) (at_others (env (Suc k)) t) = Inr (Some cmds, r) \<and>
                     s' = exec_pipe cmds (at_others (env (Suc k)) t))))" by blast
          have "fold (\<lambda>i. at_others (env i)) [0..<Suc k] s = fold (\<lambda>i. at_others (env (Suc i))) [0..<k] u"
            by (simp add: upt_conv_Cons u_def fold_map o_def flip: map_Suc_upt del: upt_Suc)
          then show ?thesis using k * by (intro exI [of _ "Suc k"]) (simp add: Let_def)
        qed
      qed
    qed
  qed
qed

lemma watch_loop_preserves:
  assumes "watch_loop n watched body env s = (res, s')" "P s"
    and "\<And>i t. P t \<Longrightarrow> P (at_others (env i) t)"
    and "\<And>now t cmds r. P t \<Longrightarrow> body now t = Inr (Some cmds, r) \<Longrightarrow> P (exec_pipe cmds t)"
  shows "P s'"
proof -
  have others: "P (fold (\<lambda>i. at_others (env i)) ks t)" if "P t" for ks t
    using that by (induction ks arbitrary: t) (auto intro: assms(3))
  from watch_loop_atomic [OF assms(1)] show ?thesis
    using others [OF assms(2)] assms(3,4) by (fastforce simp: Let_def)
qed

end

end
