(* ===== verification/AgentStore.thy ===== *)
theory AgentStore imports AgentRun begin

section \<open>The run store: create, admit, get, transition, events\<close>

text \<open>
  \<open>store.go\<close> and \<open>admission.go\<close>. An operation that writes is a transaction (its checks and
  its body) run by the loop of theory \<open>AgentRun\<close>; \<open>Get\<close> and \<open>Events\<close> read.
\<close>

named_theorems run_txs "the transactions of the run store"

subsection \<open>Create and RecoverAdmission\<close>

definition create_tx :: "run_cfg \<Rightarrow> bool \<Rightarrow> instant \<Rightarrow> snapshot \<Rightarrow> snapshot tx" where [run_txs]:
  "create_tx cfg recover now initial =
     (valid_identity cfg initial \<and> run_status initial = ''accepted'' \<and> \<not> is_zero (deadline_at initial),
      \<lambda>_ s. let ini = initial\<lparr>version := 1, event_seq := 1, created_at := now, updated_at := now\<rparr>
        in case state_key s of
          Some ex \<Rightarrow>
            (if session_id ex \<noteq> session_id ini \<or> message_id ex \<noteq> message_id ini \<or>
                trace_id ex \<noteq> trace_id ini \<or> deadline_at ex \<noteq> deadline_at ini then Inl ErrConflict
             else Inr (None, if run_id ex \<noteq> [] then ex else ini))
        | None \<Rightarrow>
            (if deadline_at ini \<le> now then
               (if \<not> recover then Inl ErrInvalid
                else let f = ini\<lparr>run_status := ''failed''\<rparr>
                     in Inr (Some [HSetState f, XAddEvent ((run_entry 1 ''agent_run.failed'' ''failed'' now)
                              \<lparr>en_reason_code := ''run.deadline''\<rparr>)], f))
             else Inr (Some [HSetState ini, XAddEvent (run_entry 1 ''agent_run.started'' (run_status ini) now)], ini)))"

definition create_admission :: "run_cfg \<Rightarrow> bool \<Rightarrow> instant \<Rightarrow> snapshot \<Rightarrow> (nat \<Rightarrow> surroundings) \<Rightarrow> run_slot
    \<Rightarrow> (run_error + snapshot) \<times> run_slot" where
  "create_admission cfg recover now initial = run_tx 5 watch_state (create_tx cfg recover now initial)"

definition create_run :: "run_cfg \<Rightarrow> instant \<Rightarrow> snapshot \<Rightarrow> (nat \<Rightarrow> surroundings) \<Rightarrow> run_slot
    \<Rightarrow> (run_error + snapshot) \<times> run_slot" where
  "create_run cfg = create_admission cfg False"

definition recover_admission :: "run_cfg \<Rightarrow> instant \<Rightarrow> snapshot \<Rightarrow> (nat \<Rightarrow> surroundings) \<Rightarrow> run_slot
    \<Rightarrow> (run_error + snapshot) \<times> run_slot" where
  "recover_admission cfg = create_admission cfg True"

subsection \<open>Get\<close>

definition get_run :: "run_cfg \<Rightarrow> snapshot \<Rightarrow> run_slot \<Rightarrow> run_error + snapshot" where
  "get_run cfg ident s =
     (if \<not> valid_scope cfg ident then Inl ErrInvalid
      else case state_key s of None \<Rightarrow> Inl ErrNotFound | Some v \<Rightarrow> Inr v)"

subsection \<open>Admit\<close>

text \<open>
  The keys of all runs, by tenant, environment and run ID, and the derivation of a run ID from
  a name (\<open>uuid.NewSHA1\<close>), which is a parameter.
\<close>

type_synonym run_keys = "string \<times> string \<times> string \<Rightarrow> run_slot"

definition run_name :: "snapshot \<Rightarrow> string \<Rightarrow> string" where
  "run_name v key = ''powerx-agent-run'' @ CHR 0x00 # tenant_uuid v @ CHR 0x00 # env_name v @
     CHR 0x00 # session_id v @ CHR 0x00 # key"

definition admit :: "run_cfg \<Rightarrow> (string \<Rightarrow> string) \<Rightarrow> instant \<Rightarrow> (nat \<Rightarrow> surroundings) \<Rightarrow> snapshot \<Rightarrow> string
    \<Rightarrow> run_keys \<Rightarrow> (run_error + snapshot) \<times> run_keys" where
  "admit cfg derive now env initial idempotency_key ks =
     (let key = trim_space idempotency_key
      in if key = [] \<or> 256 < length key \<or> blank (session_id initial) \<or> blank (message_id initial) \<or>
            blank (trace_id initial) then (Inl ErrInvalid, ks)
         else if \<not> (canonical_uuid cfg (tenant_uuid initial) \<and> env_pattern (env_name initial)) then (Inl ErrInvalid, ks)
         else
           let ini = initial\<lparr>run_id := derive (run_name initial key)\<rparr>;
               k = (tenant_uuid ini, env_name ini, run_id ini)
           in case get_run cfg ini (ks k) of
                Inr ex \<Rightarrow>
                  (if session_id ex \<noteq> session_id ini \<or> message_id ex \<noteq> message_id ini
                   then Inl ErrConflict else Inr ex, ks)
              | Inl e \<Rightarrow>
                  if e \<noteq> ErrNotFound then (Inl e, ks)
                  else let (created, s') = create_run cfg now ini env (ks k); ks' = ks(k := s')
                       in if created \<noteq> Inl ErrConflict then (created, ks')
                          else (case get_run cfg ini s' of
                                  Inr ex \<Rightarrow>
                                    if session_id ex = session_id ini \<and> message_id ex = message_id ini
                                    then Inr ex else Inl ErrConflict
                                | Inl _ \<Rightarrow> Inl ErrConflict, ks'))"

subsection \<open>Transition\<close>

definition advance :: "instant \<Rightarrow> snapshot \<Rightarrow> snapshot" where
  "advance now cur = cur\<lparr>version := inc64 (version cur), event_seq := inc64 (event_seq cur), updated_at := now\<rparr>"

definition transition_tx :: "run_cfg \<Rightarrow> snapshot \<Rightarrow> nat \<Rightarrow> string \<Rightarrow> string \<Rightarrow> snapshot tx" where [run_txs]:
  "transition_tx cfg ident ev next_status event_type =
     (valid_scope cfg ident \<and> ev \<noteq> 0 \<and> valid_status next_status \<and> has_prefix event_type ''agent_run.'',
      \<lambda>now s. case state_key s of
         None \<Rightarrow> Inl ErrNotFound
       | Some cur \<Rightarrow>
           if version cur \<noteq> ev \<or> terminal (run_status cur) then Inl ErrConflict
           else let updated = (advance now cur)\<lparr>run_status := next_status\<rparr>
                in Inr (Some [HSetState updated,
                     XAddEvent (run_entry (event_seq updated) event_type next_status now)], updated))"

definition transition :: "run_cfg \<Rightarrow> snapshot \<Rightarrow> nat \<Rightarrow> string \<Rightarrow> string \<Rightarrow> (nat \<Rightarrow> surroundings) \<Rightarrow> run_slot
    \<Rightarrow> (run_error + snapshot) \<times> run_slot" where
  "transition cfg ident ev next_status event_type =
     run_tx 5 watch_state (transition_tx cfg ident ev next_status event_type)"

subsection \<open>Events\<close>

record run_event =
  event_no :: nat
  event_type :: string
  event_status :: string
  event_task_id :: string
  event_attempt :: nat
  event_pool_id :: string
  event_reason_code :: string
  event_failure_stage :: string
  event_queue_wait_ms :: int
  event_at :: instant

definition to_event :: "stream_entry \<Rightarrow> run_event" where
  "to_event e = \<lparr>event_no = en_seq e, event_type = en_type e, event_status = en_status e,
     event_task_id = en_task_id e, event_attempt = en_attempt e, event_pool_id = en_pool_id e,
     event_reason_code = en_reason_code e, event_failure_stage = en_failure_stage e,
     event_queue_wait_ms = en_queue_wait_ms e, event_at = en_at e\<rparr>"

text \<open>The loop over the entries read; a gap is an expired cursor.\<close>

fun decode_entries :: "nat \<Rightarrow> stream_entry list \<Rightarrow> run_error + run_event list" where
  "decode_entries expected [] = Inr []"
| "decode_entries expected (e # es) =
     (if en_seq e \<noteq> expected then Inl ErrEventCursorExpired
      else bind_res (decode_entries (inc64 expected) es) (\<lambda>rest. Inr (to_event e # rest)))"

definition read_events :: "run_cfg \<Rightarrow> snapshot \<Rightarrow> nat \<Rightarrow> int \<Rightarrow> run_slot \<Rightarrow> run_error + run_event list" where
  "read_events cfg ident after_seq limit s =
     (if \<not> valid_scope cfg ident \<or> limit \<le> 0 \<or> 1000 < limit then Inl ErrInvalid
      else bind_res (get_run cfg ident s) (\<lambda>run.
        if event_seq run < after_seq then Inl ErrInvalid
        else let entries = take (nat limit) (List.filter (\<lambda>e. after_seq < en_seq e) (events_key s))
             in if entries = [] \<and> after_seq < event_seq run \<or>
                   entries \<noteq> [] \<and> inc64 after_seq < en_seq (hd entries) then Inl ErrEventCursorExpired
                else decode_entries (inc64 after_seq) entries))"

subsection \<open>The transactions decide on what they watch\<close>

lemma create_reads_watched:
  "snd (create_tx cfg recover t ini) now s = Inr (Some cmds, r) \<Longrightarrow> watch_state s' = watch_state s
     \<Longrightarrow> snd (create_tx cfg recover t ini) now s' = Inr (Some cmds, r)"
  by (simp add: create_tx_def watch_state_def)

interpretation create_otx: optimistic_tx watch_state "snd (create_tx cfg recover t ini)" for cfg recover t ini
  by unfold_locales (rule create_reads_watched)

interpretation transition_otx: optimistic_tx watch_state "snd (transition_tx cfg ident ev st ety)" for cfg ident ev st ety
  by unfold_locales (simp add: transition_tx_def watch_state_def)

subsection \<open>Admission is idempotent\<close>

lemma get_run_Inr: "get_run cfg ident s = Inr v \<longleftrightarrow> valid_scope cfg ident \<and> state_key s = Some v"
  by (auto simp: get_run_def split: option.splits)

definition admit_args_ok :: "run_cfg \<Rightarrow> (string \<Rightarrow> string) \<Rightarrow> snapshot \<Rightarrow> string \<Rightarrow> bool" where
  "admit_args_ok cfg derive v key \<longleftrightarrow> \<not> blank key \<and> length (trim_space key) \<le> 256 \<and>
     \<not> blank (session_id v) \<and> \<not> blank (message_id v) \<and> \<not> blank (trace_id v) \<and>
     valid_scope cfg (v\<lparr>run_id := derive (run_name v (trim_space key))\<rparr>)"

lemma admit_existing:
  assumes ok: "admit_args_ok cfg derive v key"
    and k: "k = (tenant_uuid v, env_name v, derive (run_name v (trim_space key)))"
    and ex: "state_key (ks k) = Some ex"
  shows "admit cfg derive now env v key ks
    = (if session_id ex = session_id v \<and> message_id ex = message_id v then Inr ex else Inl ErrConflict, ks)"
  using assms by (simp add: admit_def admit_args_ok_def get_run_def valid_scope_def Let_def)

lemma create_run_quiet:
  assumes "fst (create_tx cfg False now v)" "state_key s = None" "now < deadline_at v"
  shows "create_run cfg now v (\<lambda>_. quiet t) s =
    (Inr (v\<lparr>version := 1, event_seq := 1, created_at := now, updated_at := now\<rparr>),
     exec_pipe [HSetState (v\<lparr>version := 1, event_seq := 1, created_at := now, updated_at := now\<rparr>),
       XAddEvent (run_entry 1 ''agent_run.started'' (run_status v) now)] s)"
  using assms
  by (simp add: create_run_def create_admission_def run_tx_def create_tx_def quiet_def numeral_eq_Suc Let_def)

text \<open>Admission is idempotent: when a request is admitted as a new run, every later request with the
  same tenant, environment, session and key, whatever its trace and deadline, and at any time,
  gets the run as it is then if it names the same message, and a conflict otherwise; it writes
  nothing.\<close>

theorem admit_idempotent:
  assumes first: "admit cfg derive t1 env1 v key ks = (Inr r, ks1)"
    and same: "tenant_uuid w = tenant_uuid v" "env_name w = env_name v" "session_id w = session_id v"
      "trim_space key' = trim_space key"
    and args: "\<not> blank (message_id w)" "\<not> blank (trace_id w)"
    and k: "k = (tenant_uuid v, env_name v, derive (run_name v (trim_space key)))"
    and later: "state_key (ks2 k) = Some r'" "session_id r' = session_id r" "message_id r' = message_id r"
  shows "admit cfg derive t2 env2 w key' ks2
    = (if message_id w = message_id v then Inr r' else Inl ErrConflict, ks2)"
proof -
  let ?ini = "v\<lparr>run_id := derive (run_name v (trim_space key))\<rparr>"
  have scope: "valid_scope cfg ?ini" and sane: "\<not> blank key" "length (trim_space key) \<le> 256"
      "\<not> blank (session_id v)"
    using first unfolding admit_def
    by (auto simp: Let_def get_run_def split: if_splits sum.splits prod.splits)
  have r: "session_id r = session_id v \<and> message_id r = message_id v"
  proof (cases "get_run cfg ?ini (ks k)")
    case (Inr ex)
    then show ?thesis using first k unfolding admit_def
      by (auto simp: Let_def split: if_splits)
  next
    case (Inl e)
    obtain c s' where c: "create_run cfg t1 ?ini env1 (ks k) = (c, s')" by (cases "create_run cfg t1 ?ini env1 (ks k)")
    show ?thesis
    proof (cases "c = Inl ErrConflict")
      case True
      then show ?thesis using first Inl c k unfolding admit_def
        by (auto simp: Let_def split: if_splits sum.splits)
    next
      case False
      then have "c = Inr r" using first Inl c k unfolding admit_def
        by (auto simp: Let_def split: if_splits)
      then have "watch_loop 5 watch_state (snd (create_tx cfg False t1 ?ini)) env1 (ks k) = (Inr r, s')"
        using c by (auto simp: create_run_def create_admission_def run_tx_def split: if_splits)
      from create_otx.watch_loop_atomic [OF this] obtain u p where
        "snd (create_tx cfg False t1 ?ini) u p = Inr (None, r) \<or>
         (\<exists>cmds. snd (create_tx cfg False t1 ?ini) u p = Inr (Some cmds, r))"
        by (auto simp: Let_def)
      then show ?thesis by (auto simp: create_tx_def Let_def split: option.splits if_splits)
    qed
  qed
  have name: "run_name w (trim_space key) = run_name v (trim_space key)"
    by (simp add: run_name_def same)
  have ok: "admit_args_ok cfg derive w key'"
    using scope sane args same by (simp add: admit_args_ok_def name valid_scope_def)
  have kk: "k = (tenant_uuid w, env_name w, derive (run_name w (trim_space key')))"
    using k same by (simp add: name)
  show ?thesis
    using admit_existing [where ks = ks2, OF ok kk later(1)] later(2,3) r same(3) by simp
qed

definition sample_cfg :: run_cfg where
  "sample_cfg = \<lparr>canonical_uuid = (\<lambda>u. length u = 3), queue_wait_timeout = 600 * second_ns\<rparr>"

definition sample_run :: snapshot where
  "sample_run = \<lparr>tenant_uuid = ''t-1'', env_name = ''prod'', run_id = ''r-1'', session_id = ''s'',
     message_id = ''m'', trace_id = ''x'', run_status = ''accepted'', plan_revision = 0, version = 0,
     event_seq = 0, deadline_at = 900 * second_ns, created_at = zero_time, updated_at = zero_time,
     archive_key = [], archived_at = zero_time\<rparr>"

lemmas sample_defs = sample_cfg_def sample_run_def zero_time_def is_zero_def second_ns_def minute_ns_def

lemma sample_admit:
  "admit sample_cfg (\<lambda>_. ''r-1'') 10 (\<lambda>_. quiet 10) sample_run ''k'' (\<lambda>_. no_run)
    = (Inr (sample_run\<lparr>version := 1, event_seq := 1, created_at := 10, updated_at := 10\<rparr>),
       (\<lambda>_. no_run)((''t-1'', ''prod'', ''r-1'') := no_run
          \<lparr>state_key := Some (sample_run\<lparr>version := 1, event_seq := 1, created_at := 10, updated_at := 10\<rparr>),
           events_key := [run_entry 1 ''agent_run.started'' ''accepted'' 10]\<rparr>))"
proof -
  have t: "trim_space ''k'' = ''k''" "trim_space ''s'' = ''s''" "trim_space ''m'' = ''m''" "trim_space ''x'' = ''x''"
    by code_simp+
  have e: "env_pattern ''prod''" by code_simp
  show ?thesis
    by (simp add: admit_def t e get_run_def valid_scope_def valid_identity_def create_run_def create_admission_def
        run_tx_def create_tx_def quiet_def numeral_eq_Suc Let_def sample_defs no_run_def run_entry_def last_seq_def)
qed

theorem admit_idempotent_witness:
  "admit sample_cfg (\<lambda>_. ''r-1'') 99 (\<lambda>_. quiet 99) (sample_run\<lparr>trace_id := ''y''\<rparr>) '' k''
     ((\<lambda>_. no_run)((''t-1'', ''prod'', ''r-1'') := no_run\<lparr>state_key := Some (sample_run\<lparr>run_status := ''running''\<rparr>)\<rparr>))
   = (Inr (sample_run\<lparr>run_status := ''running''\<rparr>),
      (\<lambda>_. no_run)((''t-1'', ''prod'', ''r-1'') := no_run\<lparr>state_key := Some (sample_run\<lparr>run_status := ''running''\<rparr>)\<rparr>))"
proof -
  have t: "trim_space '' k'' = trim_space ''k''" "trim_space ''m'' = ''m''" "trim_space ''y'' = ''y''"
    by code_simp+
  show ?thesis
    by (subst admit_idempotent [OF sample_admit _ _ _ t(1) _ _ refl,
          where w = "sample_run\<lparr>trace_id := ''y''\<rparr>" and r' = "sample_run\<lparr>run_status := ''running''\<rparr>"])
      (simp_all add: sample_run_def t)
qed

end
