(* ===== verification/AgentTask.thy ===== *)
theory AgentTask imports AgentStore begin

section \<open>Task transitions under a version and a fence\<close>

text \<open>
  \<open>task_transition.go\<close> and \<open>execution_receipt.go\<close>. A task mutation (the closure given to
  \<open>mutateTask\<close>) is a function from the task and the clock reading to an error or the new task;
  \<open>mutate_tx\<close> wraps it in the version check, the run's new version and the event.
  \<open>RenewTaskLease\<close> and \<open>executionReceipt\<close> write the task alone.
\<close>

type_synonym task_mutation = "task_snapshot \<Rightarrow> instant \<Rightarrow> run_error + task_snapshot"

subsection \<open>mutateTask\<close>

definition task_entry :: "string \<Rightarrow> nat \<Rightarrow> string \<Rightarrow> task_snapshot \<Rightarrow> instant \<Rightarrow> stream_entry" where
  "task_entry ety sq tid t now = \<lparr>en_seq = sq, en_type = ety, en_status = task_status t, en_task_id = tid,
     en_attempt = attempt t, en_fence = fence t, en_pool_id = pool_id t, en_queue_wait_ms = queue_wait_ms t,
     en_at = now, en_reason_code = reason_code t, en_failure_stage = failure_stage t,
     en_queue_reason = queue_reason t\<rparr>"

definition mutate_tx :: "run_cfg \<Rightarrow> snapshot \<Rightarrow> nat \<Rightarrow> nat \<Rightarrow> string \<Rightarrow> string \<Rightarrow> task_mutation
    \<Rightarrow> (task_snapshot \<times> snapshot) tx" where
  "mutate_tx cfg ident ev rv tid ety mut =
     (valid_scope cfg ident \<and> ev \<noteq> 0 \<and> valid_task_revision rv tid \<and> has_prefix ety ''agent_run.'',
      \<lambda>now s. case state_key s of
         None \<Rightarrow> Inl ErrNotFound
       | Some cur \<Rightarrow>
           if version cur \<noteq> ev \<or> plan_revision cur \<noteq> rv \<or> terminal (run_status cur) then Inl ErrConflict
           else case task_at s (task_field rv tid) of
                  None \<Rightarrow> Inl ErrNotFound
                | Some t \<Rightarrow> bind_res (mut t now) (\<lambda>t'.
                    let updated = advance now cur
                    in Inr (Some [HSetTask (task_field rv tid) t', HSetState updated,
                         XAddEvent (task_entry ety (event_seq updated) tid t' now)], (t', updated))))"

definition mutate_task :: "run_cfg \<Rightarrow> snapshot \<Rightarrow> nat \<Rightarrow> nat \<Rightarrow> string \<Rightarrow> string \<Rightarrow> task_mutation
    \<Rightarrow> (nat \<Rightarrow> surroundings) \<Rightarrow> run_slot \<Rightarrow> (run_error + task_snapshot \<times> snapshot) \<times> run_slot" where
  "mutate_task cfg ident ev rv tid ety mut = run_tx 5 watch_tasks (mutate_tx cfg ident ev rv tid ety mut)"

text \<open>A check made before \<open>mutateTask\<close> is called.\<close>

definition require :: "bool \<Rightarrow> 'r tx \<Rightarrow> 'r tx" where
  "require b t = (b \<and> fst t, snd t)"

lemma require_simps [simp]: "fst (require b t) \<longleftrightarrow> b \<and> fst t" "snd (require b t) = snd t"
  by (simp_all add: require_def)

subsection \<open>The mutations\<close>

definition err_tenant_capacity :: string where "err_tenant_capacity = ''capacity.tenant''"
definition err_run_capacity :: string where "err_run_capacity = ''capacity.run''"

definition mark_waiting_mut :: "string \<Rightarrow> task_mutation" where
  "mark_waiting_mut reason t now =
     (if task_status t \<noteq> ''queued'' \<or> queue_reason t = reason then Inl ErrConflict
      else Inr (t\<lparr>queue_reason := reason\<rparr>))"

definition mark_capacity_waiting_tx :: "run_cfg \<Rightarrow> snapshot \<Rightarrow> nat \<Rightarrow> nat \<Rightarrow> string \<Rightarrow> string
    \<Rightarrow> (task_snapshot \<times> snapshot) tx" where [run_txs]:
  "mark_capacity_waiting_tx cfg ident ev rv tid reason =
     require (reason = err_tenant_capacity \<or> reason = err_run_capacity)
       (mutate_tx cfg ident ev rv tid ''agent_run.task_status'' (mark_waiting_mut reason))"

definition wait_ms :: "task_snapshot \<Rightarrow> instant \<Rightarrow> int" where
  "wait_ms t now = milliseconds (time_sub now (queued_at t))"

definition lease_mut :: "run_cfg \<Rightarrow> string \<Rightarrow> nat \<Rightarrow> instant \<Rightarrow> task_mutation" where
  "lease_mut cfg owner fc until t now =
     bind_res
       (if task_status t = ''queued'' then
          (if \<not> is_zero (queued_at t) \<and> queued_at t + queue_wait_timeout cfg \<le> now
           then Inl ErrQueueWaitExpired else Inr ())
        else if task_status t \<in> {''leased'', ''running'', ''verifying''} then
          (if now < lease_until t then Inl ErrConflict else Inr ())
        else Inl ErrConflict)
       (\<lambda>_. if fc \<le> fence t then Inl ErrConflict
            else let t' = t\<lparr>task_status := ''leased'', lease_owner := owner, fence := fc, lease_until := until,
                      leased_at := now\<rparr>
                 in Inr (if is_zero (queued_at t') then t'
                         else t'\<lparr>queue_wait_ms := (if wait_ms t' now < 0 then 0 else wait_ms t' now)\<rparr>))"

definition lease_task_tx :: "run_cfg \<Rightarrow> instant \<Rightarrow> snapshot \<Rightarrow> nat \<Rightarrow> nat \<Rightarrow> string \<Rightarrow> string \<Rightarrow> nat \<Rightarrow> instant
    \<Rightarrow> (task_snapshot \<times> snapshot) tx" where [run_txs]:
  "lease_task_tx cfg clk ident ev rv tid owner fc until =
     require (\<not> blank owner \<and> fc \<noteq> 0 \<and> clk < until)
       (mutate_tx cfg ident ev rv tid ''agent_run.task_status'' (lease_mut cfg owner fc until))"

definition start_mut :: "string \<Rightarrow> nat \<Rightarrow> task_mutation" where
  "start_mut owner fc t now =
     (if task_status t \<noteq> ''leased'' \<or> lease_owner t \<noteq> owner \<or> fence t \<noteq> fc \<or> \<not> now < lease_until t
      then Inl ErrConflict else Inr (t\<lparr>task_status := ''running'', started_at := now\<rparr>))"

definition start_task_tx :: "run_cfg \<Rightarrow> snapshot \<Rightarrow> nat \<Rightarrow> nat \<Rightarrow> string \<Rightarrow> string \<Rightarrow> nat
    \<Rightarrow> (task_snapshot \<times> snapshot) tx" where [run_txs]:
  "start_task_tx cfg ident ev rv tid owner fc =
     mutate_tx cfg ident ev rv tid ''agent_run.task_started'' (start_mut owner fc)"

definition complete_mut :: "string \<Rightarrow> nat \<Rightarrow> string \<Rightarrow> string \<Rightarrow> task_mutation" where
  "complete_mut owner fc result evidence t now =
     (if task_status t \<noteq> ''running'' \<and> task_status t \<noteq> ''verifying'' then Inl ErrConflict
      else if lease_owner t \<noteq> owner \<or> fence t \<noteq> fc \<or> \<not> now < lease_until t then Inl ErrConflict
      else Inr (t\<lparr>task_status := ''completed'', completed_at := now, result_ref := result, evidence_ref := evidence\<rparr>))"

definition complete_task_tx :: "run_cfg \<Rightarrow> snapshot \<Rightarrow> nat \<Rightarrow> nat \<Rightarrow> string \<Rightarrow> string \<Rightarrow> nat \<Rightarrow> string \<Rightarrow> string
    \<Rightarrow> (task_snapshot \<times> snapshot) tx" where [run_txs]:
  "complete_task_tx cfg ident ev rv tid owner fc result evidence =
     require (\<not> blank result \<and> \<not> blank evidence)
       (mutate_tx cfg ident ev rv tid ''agent_run.task_completed'' (complete_mut owner fc result evidence))"

definition fail_mut :: "string \<Rightarrow> nat \<Rightarrow> string \<Rightarrow> string \<Rightarrow> task_mutation" where
  "fail_mut owner fc reason stage t now =
     (if task_status t \<noteq> ''running'' \<and> task_status t \<noteq> ''verifying'' then Inl ErrConflict
      else if lease_owner t \<noteq> owner \<or> fence t \<noteq> fc \<or> \<not> now < lease_until t then Inl ErrConflict
      else Inr (t\<lparr>task_status := ''failed'', completed_at := now, reason_code := reason, failure_stage := stage\<rparr>))"

definition fail_task_tx :: "run_cfg \<Rightarrow> snapshot \<Rightarrow> nat \<Rightarrow> nat \<Rightarrow> string \<Rightarrow> string \<Rightarrow> nat \<Rightarrow> string \<Rightarrow> string list
    \<Rightarrow> (task_snapshot \<times> snapshot) tx" where [run_txs]:
  "fail_task_tx cfg ident ev rv tid owner fc reason stages =
     (let stage = (case stages of [st] \<Rightarrow> st | _ \<Rightarrow> [])
      in require (length stages \<le> 1 \<and> length stage \<le> 64 \<and> \<not> blank reason \<and> length reason \<le> 128)
           (mutate_tx cfg ident ev rv tid ''agent_run.task_failed'' (fail_mut owner fc reason stage)))"

definition skip_mut :: "string \<Rightarrow> task_mutation" where
  "skip_mut reason t now =
     (if task_status t \<noteq> ''pending_dependency'' then Inl ErrConflict
      else Inr (t\<lparr>task_status := ''skipped'', completed_at := now, reason_code := reason\<rparr>))"

definition skip_task_tx :: "run_cfg \<Rightarrow> snapshot \<Rightarrow> nat \<Rightarrow> nat \<Rightarrow> string \<Rightarrow> string
    \<Rightarrow> (task_snapshot \<times> snapshot) tx" where [run_txs]:
  "skip_task_tx cfg ident ev rv tid reason =
     require (reason \<noteq> [] \<and> length reason \<le> 128)
       (mutate_tx cfg ident ev rv tid ''agent_run.task_skipped'' (skip_mut reason))"

definition expire_queued_mut :: "run_cfg \<Rightarrow> task_mutation" where
  "expire_queued_mut cfg t now =
     (if task_status t \<noteq> ''queued'' \<or> is_zero (queued_at t) \<or> now < queued_at t + queue_wait_timeout cfg
      then Inl ErrConflict
      else Inr (t\<lparr>task_status := ''failed'', completed_at := now, reason_code := ''queue.timeout'',
                  queue_wait_ms := wait_ms t now\<rparr>))"

definition expire_queued_task_tx :: "run_cfg \<Rightarrow> snapshot \<Rightarrow> nat \<Rightarrow> nat \<Rightarrow> string
    \<Rightarrow> (task_snapshot \<times> snapshot) tx" where [run_txs]:
  "expire_queued_task_tx cfg ident ev rv tid =
     mutate_tx cfg ident ev rv tid ''agent_run.task_failed'' (expire_queued_mut cfg)"

definition expire_unstarted_mut :: "task_mutation" where
  "expire_unstarted_mut t now =
     bind_res
       (if task_status t = ''queued'' \<or> task_status t = ''retry_wait'' then Inr (t\<lparr>task_status := ''failed''\<rparr>)
        else if task_status t = ''pending_dependency'' then Inr (t\<lparr>task_status := ''skipped''\<rparr>)
        else Inl ErrConflict)
       (\<lambda>t. let t' = t\<lparr>completed_at := now, reason_code := ''run.deadline''\<rparr>
            in Inr (if is_zero (queued_at t') then t' else t'\<lparr>queue_wait_ms := wait_ms t' now\<rparr>))"

definition expire_unstarted_task_tx :: "run_cfg \<Rightarrow> snapshot \<Rightarrow> nat \<Rightarrow> nat \<Rightarrow> string
    \<Rightarrow> (task_snapshot \<times> snapshot) tx" where [run_txs]:
  "expire_unstarted_task_tx cfg ident ev rv tid =
     mutate_tx cfg ident ev rv tid ''agent_run.task_failed'' expire_unstarted_mut"

subsection \<open>RenewTaskLease\<close>

definition watch_task_hash :: "run_slot \<Rightarrow> (string \<times> task_snapshot) list" where
  "watch_task_hash s = tasks_key s"

definition renew_mut :: "string \<Rightarrow> nat \<Rightarrow> instant \<Rightarrow> task_mutation" where
  "renew_mut owner fc until t now =
     (if task_status t \<noteq> ''leased'' \<and> task_status t \<noteq> ''running'' \<and> task_status t \<noteq> ''verifying''
      then Inl ErrConflict
      else if lease_owner t \<noteq> owner \<or> fence t \<noteq> fc \<or> \<not> now < lease_until t \<or> \<not> lease_until t < until
      then Inl ErrConflict
      else Inr (t\<lparr>lease_until := until\<rparr>))"

definition renew_task_lease_tx :: "run_cfg \<Rightarrow> instant \<Rightarrow> snapshot \<Rightarrow> nat \<Rightarrow> string \<Rightarrow> string \<Rightarrow> nat \<Rightarrow> instant
    \<Rightarrow> task_snapshot tx" where [run_txs]:
  "renew_task_lease_tx cfg clk ident rv tid owner fc until =
     (valid_scope cfg ident \<and> valid_task_revision rv tid \<and> \<not> blank owner \<and> fc \<noteq> 0 \<and> clk < until,
      \<lambda>now s. case task_at s (task_field rv tid) of
         None \<Rightarrow> Inl ErrNotFound
       | Some t \<Rightarrow> bind_res (renew_mut owner fc until t now) (\<lambda>t'.
           Inr (Some [HSetTask (task_field rv tid) t'], t')))"

subsection \<open>executionReceipt\<close>

record task_ref =
  ref_tenant_uuid :: string
  ref_env :: string
  ref_run_id :: string
  ref_revision :: nat
  ref_task_id :: string
  ref_attempt :: nat

record work_result =
  res_result_ref :: string
  res_evidence_ref :: string
  res_reason_code :: string

definition no_result :: work_result where
  "no_result = \<lparr>res_result_ref = [], res_evidence_ref = [], res_reason_code = []\<rparr>"

definition ref_identity :: "task_ref \<Rightarrow> snapshot" where
  "ref_identity ref = \<lparr>tenant_uuid = ref_tenant_uuid ref, env_name = ref_env ref, run_id = ref_run_id ref,
     session_id = [], message_id = [], trace_id = [], run_status = [], plan_revision = 0, version = 0,
     event_seq = 0, deadline_at = zero_time, created_at = zero_time, updated_at = zero_time,
     archive_key = [], archived_at = zero_time\<rparr>"

text \<open>
  What the receipt does to a running task: without a result it claims the execution (or finds
  the receipt of an earlier one), with a result it stores it under the token. \<open>None\<close> for the
  task: nothing to write. The clock is read twice in the check, here once.
\<close>

definition receipt_mut :: "string \<Rightarrow> string \<Rightarrow> work_result option \<Rightarrow> task_snapshot
    \<Rightarrow> run_error + task_snapshot option \<times> string \<times> work_result" where
  "receipt_mut claim token result t =
     (case result of
        None \<Rightarrow>
          if execution_token t \<noteq> [] then
            (if execution_result_ref t = [] \<or> execution_evidence_ref t = [] then Inl ErrExecutionUncertain
             else Inr (None, [], no_result\<lparr>res_result_ref := execution_result_ref t,
                    res_evidence_ref := execution_evidence_ref t\<rparr>))
          else Inr (Some (t\<lparr>execution_token := claim\<rparr>), claim, no_result)
      | Some r \<Rightarrow>
          if execution_token t \<noteq> token then Inl ErrConflict
          else if execution_result_ref t \<noteq> [] \<and>
                  (execution_result_ref t \<noteq> res_result_ref r \<or> execution_evidence_ref t \<noteq> res_evidence_ref r)
          then Inl ErrConflict
          else Inr (Some (t\<lparr>execution_result_ref := res_result_ref r, execution_evidence_ref := res_evidence_ref r\<rparr>),
                 [], r))"

definition receipt_allowed :: "task_ref \<Rightarrow> string \<Rightarrow> nat \<Rightarrow> snapshot \<Rightarrow> task_snapshot \<Rightarrow> instant \<Rightarrow> bool" where
  "receipt_allowed ref owner fc run t now \<longleftrightarrow>
     \<not> (task_id t \<noteq> ref_task_id ref \<or> task_revision t \<noteq> ref_revision ref \<or> task_status t \<noteq> ''running'' \<or>
        attempt t \<noteq> ref_attempt ref \<or> lease_owner t \<noteq> owner \<or> fence t \<noteq> fc \<or>
        \<not> now < lease_until t \<or> \<not> now < deadline_at run)"

definition execution_receipt_tx :: "run_cfg \<Rightarrow> string \<Rightarrow> task_ref \<Rightarrow> string \<Rightarrow> nat \<Rightarrow> string \<Rightarrow> work_result option
    \<Rightarrow> (string \<times> work_result) tx" where [run_txs]:
  "execution_receipt_tx cfg claim ref owner fc token result =
     (valid_scope cfg (ref_identity ref) \<and> ref_revision ref \<noteq> 0 \<and> ref_attempt ref \<noteq> 0 \<and>
        task_id_pattern (ref_task_id ref) \<and> owner \<noteq> [] \<and> fc \<noteq> 0 \<and>
        (case result of None \<Rightarrow> True
         | Some r \<Rightarrow> token \<noteq> [] \<and> \<not> blank (res_result_ref r) \<and> \<not> blank (res_evidence_ref r)),
      \<lambda>now s. case state_key s of
         None \<Rightarrow> Inl ErrNotFound
       | Some run \<Rightarrow>
           if terminal (run_status run) \<or> plan_revision run \<noteq> ref_revision ref then Inl ErrConflict
           else let f = task_field (ref_revision ref) (ref_task_id ref)
                in case task_at s f of
                     None \<Rightarrow> Inl (RedisError ''nil'')
                   | Some t \<Rightarrow>
                       if \<not> receipt_allowed ref owner fc run t now then Inl ErrConflict
                       else bind_res (receipt_mut claim token result t) (\<lambda>(t', acquired, receipt).
                         Inr (case t' of None \<Rightarrow> None | Some t' \<Rightarrow> Some [HSetTask f t'], (acquired, receipt))))"

definition execution_receipt :: "run_cfg \<Rightarrow> string \<Rightarrow> task_ref \<Rightarrow> string \<Rightarrow> nat \<Rightarrow> string \<Rightarrow> work_result option
    \<Rightarrow> (nat \<Rightarrow> surroundings) \<Rightarrow> run_slot \<Rightarrow> (run_error + string \<times> work_result) \<times> run_slot" where
  "execution_receipt cfg claim ref owner fc token result =
     run_tx 10 watch_tasks (execution_receipt_tx cfg claim ref owner fc token result)"

subsection \<open>The operations as the callers see them\<close>

definition mark_capacity_waiting where
  "mark_capacity_waiting cfg ident ev rv tid reason =
     run_tx 5 watch_tasks (mark_capacity_waiting_tx cfg ident ev rv tid reason)"

definition lease_task where
  "lease_task cfg clk ident ev rv tid owner fc until =
     run_tx 5 watch_tasks (lease_task_tx cfg clk ident ev rv tid owner fc until)"

definition start_task where
  "start_task cfg ident ev rv tid owner fc = run_tx 5 watch_tasks (start_task_tx cfg ident ev rv tid owner fc)"

definition complete_task where
  "complete_task cfg ident ev rv tid owner fc result evidence =
     run_tx 5 watch_tasks (complete_task_tx cfg ident ev rv tid owner fc result evidence)"

definition fail_task where
  "fail_task cfg ident ev rv tid owner fc reason stages =
     run_tx 5 watch_tasks (fail_task_tx cfg ident ev rv tid owner fc reason stages)"

definition skip_task where
  "skip_task cfg ident ev rv tid reason = run_tx 5 watch_tasks (skip_task_tx cfg ident ev rv tid reason)"

definition expire_queued_task where
  "expire_queued_task cfg ident ev rv tid = run_tx 5 watch_tasks (expire_queued_task_tx cfg ident ev rv tid)"

definition expire_unstarted_task where
  "expire_unstarted_task cfg ident ev rv tid = run_tx 5 watch_tasks (expire_unstarted_task_tx cfg ident ev rv tid)"

definition renew_task_lease where
  "renew_task_lease cfg clk ident rv tid owner fc until =
     run_tx 5 watch_task_hash (renew_task_lease_tx cfg clk ident rv tid owner fc until)"

subsection \<open>They decide on what they watch\<close>

interpretation mutate_otx: optimistic_tx watch_tasks "snd (mutate_tx cfg ident ev rv tid ety mut)"
  for cfg ident ev rv tid ety mut
  by unfold_locales (simp add: mutate_tx_def watch_tasks_def cong: if_cong option.case_cong)

interpretation renew_otx: optimistic_tx watch_task_hash
  "snd (renew_task_lease_tx cfg clk ident rv tid owner fc until)" for cfg clk ident rv tid owner fc until
  by unfold_locales (simp add: renew_task_lease_tx_def watch_task_hash_def cong: if_cong option.case_cong)

interpretation receipt_otx: optimistic_tx watch_tasks
  "snd (execution_receipt_tx cfg claim ref owner fc token result)" for cfg claim ref owner fc token result
  by unfold_locales (simp add: execution_receipt_tx_def watch_tasks_def cong: if_cong option.case_cong)

subsection \<open>What a commit does\<close>

lemma mutate_commits:
  "commits (mutate_tx cfg ident ev rv tid ety mut) now s r s' \<longleftrightarrow>
     valid_scope cfg ident \<and> ev \<noteq> 0 \<and> valid_task_revision rv tid \<and> has_prefix ety ''agent_run.'' \<and>
     (\<exists>cur t t'. state_key s = Some cur \<and> version cur = ev \<and> plan_revision cur = rv \<and>
        \<not> terminal (run_status cur) \<and> task_at s (task_field rv tid) = Some t \<and> mut t now = Inr t' \<and>
        r = (t', advance now cur) \<and>
        s' = exec_pipe [HSetTask (task_field rv tid) t', HSetState (advance now cur),
               XAddEvent (task_entry ety (event_seq (advance now cur)) tid t' now)] s)"
  unfolding commits_def mutate_tx_def
  by (auto simp: Let_def bind_res_Inr_iff split: option.splits)

lemma require_commits [simp]: "commits (require b t) now s r s' \<longleftrightarrow> b \<and> commits t now s r s'"
  by (auto simp: commits_def)

end
