(* ===== verification/DepthFirst.thy ===== *)
theory DepthFirst imports GoBase begin

section \<open>Depth-first search with three colours\<close>

text \<open>
  The search of \<open>validPlan\<close> in \<open>plan_store.go\<close>: the colours 0 (\<open>Fresh\<close>, the map's default), 1
  (\<open>OnPath\<close>) and 2 (\<open>Finished\<close>), refusing unknown dependencies and cycles. The closure \<open>visit\<close> and
  its loop over the dependencies are two mutually recursive functions that thread the colour map.
  The fuel of the search is the number of nodes; \<open>visit_all_decides\<close> shows that it is never what
  decides. The validators of agent plans and of workflows rest on it.
\<close>

subsection \<open>The search\<close>

type_synonym dep_table = "(string \<times> string list) list"
datatype colour = Fresh | OnPath | Finished

type_synonym colours = "string \<Rightarrow> colour"

definition deps_of :: "dep_table \<Rightarrow> string \<Rightarrow> string list" where
  "deps_of g tid = (case map_of g tid of None \<Rightarrow> [] | Some ds \<Rightarrow> ds)"

fun visit :: "nat \<Rightarrow> dep_table \<Rightarrow> string \<Rightarrow> colours \<Rightarrow> bool \<times> colours"
and visit_deps :: "nat \<Rightarrow> dep_table \<Rightarrow> string \<Rightarrow> string list \<Rightarrow> colours \<Rightarrow> bool \<times> colours" where
  "visit 0 g tid col = (False, col)"
| "visit (Suc n) g tid col =
     (if col tid = OnPath then (False, col)
      else if col tid = Finished then (True, col)
      else case visit_deps n g tid (deps_of g tid) (col(tid := OnPath)) of
             (False, c) \<Rightarrow> (False, c)
           | (True, c) \<Rightarrow> (True, c(tid := Finished)))"
| "visit_deps n g tid [] col = (True, col)"
| "visit_deps n g tid (d # ds) col =
     (if map_of g d = None \<or> d = tid then (False, col)
      else case visit n g d col of
             (False, c) \<Rightarrow> (False, c)
           | (True, c) \<Rightarrow> visit_deps n g tid ds c)"

fun visit_all :: "nat \<Rightarrow> dep_table \<Rightarrow> string list \<Rightarrow> colours \<Rightarrow> bool" where
  "visit_all n g [] col = True"
| "visit_all n g (i # is) col = (case visit n g i col of (False, c) \<Rightarrow> False | (True, c) \<Rightarrow> visit_all n g is c)"

subsection \<open>What the search decides\<close>

definition dep_edges :: "dep_table \<Rightarrow> (string \<times> string) set" where
  "dep_edges g = {(x, d). \<exists>ds. map_of g x = Some ds \<and> d \<in> set ds}"

definition sound_table :: "dep_table \<Rightarrow> bool" where
  "sound_table g \<longleftrightarrow> (\<forall>x d. (x, d) \<in> dep_edges g \<longrightarrow> d \<in> dom (map_of g)) \<and> acyclic (dep_edges g)"

definition done_inv :: "dep_table \<Rightarrow> colours \<Rightarrow> bool" where
  "done_inv g col \<longleftrightarrow>
     (\<forall>x. col x = Finished \<longrightarrow> x \<in> dom (map_of g) \<and> (x, x) \<notin> (dep_edges g)\<^sup>+ \<and>
        (\<forall>d. (x, d) \<in> dep_edges g \<longrightarrow> col d = Finished))"

lemma deps_of_edges: "x \<in> dom (map_of g) \<Longrightarrow> d \<in> set (deps_of g x) \<longleftrightarrow> (x, d) \<in> dep_edges g"
  by (cases "map_of g x") (simp_all add: deps_of_def dep_edges_def domIff)

lemma done_closed:
  assumes "(x, y) \<in> (dep_edges g)\<^sup>+" "done_inv g col" "col x = Finished"
  shows "col y = Finished"
  using assms by (induction rule: trancl_induct) (auto simp: done_inv_def)

lemma done_inv_finish:
  assumes inv: "done_inv g col" and new: "col tid \<noteq> Finished" and tid: "tid \<in> dom (map_of g)"
    and deps: "\<forall>d. (tid, d) \<in> dep_edges g \<longrightarrow> col d = Finished"
  shows "done_inv g (col(tid := Finished))"
proof -
  have "(tid, tid) \<notin> (dep_edges g)\<^sup>+"
  proof
    assume "(tid, tid) \<in> (dep_edges g)\<^sup>+"
    then obtain d where d: "(tid, d) \<in> dep_edges g" "d = tid \<or> (d, tid) \<in> (dep_edges g)\<^sup>+"
      by (meson converse_tranclE)
    then have "col tid = Finished" using deps done_closed [OF _ inv] by blast
    then show False using new by simp
  qed
  then show ?thesis using inv tid deps by (auto simp: done_inv_def)
qed

text \<open>A search that says yes has finished the task and changed no colour back.\<close>

lemma visit_yes:
  "visit n g tid col = (True, c) \<Longrightarrow> done_inv g col \<Longrightarrow> tid \<in> dom (map_of g) \<Longrightarrow>
     done_inv g c \<and> c tid = Finished \<and> (\<forall>x. c x = OnPath \<longleftrightarrow> col x = OnPath) \<and> (\<forall>x. col x = Finished \<longrightarrow> c x = Finished)"
  "visit_deps n g tid ds col = (True, c) \<Longrightarrow> done_inv g col \<Longrightarrow>
     done_inv g c \<and> (\<forall>d\<in>set ds. c d = Finished) \<and> (\<forall>x. c x = OnPath \<longleftrightarrow> col x = OnPath) \<and> (\<forall>x. col x = Finished \<longrightarrow> c x = Finished)"
proof (induction n g tid col and n g tid ds col arbitrary: c and c rule: visit_visit_deps.induct)
  case (2 n g tid col)
  show ?case
  proof (cases "col tid = Finished")
    case True
    then show ?thesis using 2 by auto
  next
    case False
    then have w: "col tid \<noteq> OnPath" using "2.prems"(1) by (auto split: if_splits)
    obtain b c' where v: "visit_deps n g tid (deps_of g tid) (col(tid := OnPath)) = (b, c')"
      by (meson surj_pair)
    then have b: "b" and c: "c = c'(tid := Finished)" using "2.prems"(1) w False by (auto split: bool.splits)
    have "done_inv g (col(tid := OnPath))" using "2.prems"(2) False by (auto simp: done_inv_def)
    moreover have v': "visit_deps n g tid (deps_of g tid) (col(tid := OnPath)) = (True, c')" using v b by simp
    ultimately have "done_inv g c' \<and> (\<forall>d\<in>set (deps_of g tid). c' d = Finished) \<and>
      (\<forall>x. (c' x = OnPath) = ((col(tid := OnPath)) x = OnPath)) \<and>
      (\<forall>x. (col(tid := OnPath)) x = Finished \<longrightarrow> c' x = Finished)"
      using "2.IH" [OF w False v'] by blast
    then have ih: "done_inv g c'" "\<forall>d\<in>set (deps_of g tid). c' d = Finished"
      "\<forall>x. (c' x = OnPath) = ((col(tid := OnPath)) x = OnPath)"
      "\<forall>x. (col(tid := OnPath)) x = Finished \<longrightarrow> c' x = Finished" by blast+
    have "c' tid = OnPath" using ih(3) by simp
    then have "done_inv g (c'(tid := Finished))"
      using ih(1,2) "2.prems"(3) by (intro done_inv_finish) (auto simp: deps_of_edges)
    then have "done_inv g c" unfolding c .
    moreover have "c tid = Finished" "\<forall>x. c x = OnPath \<longleftrightarrow> col x = OnPath"
      "\<forall>x. col x = Finished \<longrightarrow> c x = Finished"
      using ih(3,4) w unfolding c by auto
    ultimately show ?thesis by blast
  qed
next
  case (4 n g tid d ds col)
  obtain b c1 where v: "visit n g d col = (b, c1)" by (meson surj_pair)
  have d: "map_of g d \<noteq> None" "d \<noteq> tid" and b: b and rest: "visit_deps n g tid ds c1 = (True, c)"
    using "4.prems"(1) v by (auto split: if_splits bool.splits)
  have nd: "\<not> (map_of g d = None \<or> d = tid)" using d by simp
  have one: "done_inv g c1 \<and> c1 d = Finished \<and> (\<forall>x. c1 x = OnPath \<longleftrightarrow> col x = OnPath) \<and> (\<forall>x. col x = Finished \<longrightarrow> c1 x = Finished)"
    using "4.IH"(1) [OF nd] v b d "4.prems"(2) by auto
  have "done_inv g c \<and> (\<forall>d\<in>set ds. c d = Finished) \<and> (\<forall>x. c x = OnPath \<longleftrightarrow> c1 x = OnPath) \<and> (\<forall>x. c1 x = Finished \<longrightarrow> c x = Finished)"
    using "4.IH"(2) [OF nd v [symmetric]] rest one b by auto
  then show ?case using one by auto
qed auto

text \<open>A search that says no, with enough fuel, has met an unknown dependency or a cycle.\<close>

lemma visit_no:
  "visit n g tid col = (False, c) \<Longrightarrow> done_inv g col \<Longrightarrow> tid \<in> dom (map_of g) \<Longrightarrow>
     (\<forall>x. col x = OnPath \<longrightarrow> (x, tid) \<in> (dep_edges g)\<^sup>+) \<Longrightarrow>
     card {x \<in> dom (map_of g). col x \<noteq> OnPath} \<le> n \<Longrightarrow> \<not> sound_table g"
  "visit_deps n g tid ds col = (False, c) \<Longrightarrow> done_inv g col \<Longrightarrow> tid \<in> dom (map_of g) \<Longrightarrow>
     (\<forall>d\<in>set ds. (tid, d) \<in> dep_edges g) \<Longrightarrow> 
     (\<forall>x. col x = OnPath \<longrightarrow> x = tid \<or> (x, tid) \<in> (dep_edges g)\<^sup>+) \<Longrightarrow>
     card {x \<in> dom (map_of g). col x \<noteq> OnPath} \<le> n \<Longrightarrow> \<not> sound_table g"
proof (induction n g tid col and n g tid ds col arbitrary: c and c rule: visit_visit_deps.induct)
  case (1 g tid col)
  have "finite {x \<in> dom (map_of g). col x \<noteq> OnPath}" using finite_dom_map_of [of g] by simp
  then have "{x \<in> dom (map_of g). col x \<noteq> OnPath} = {}" using "1.prems"(5) by simp
  then have "col tid = OnPath" using "1.prems"(3) by blast
  then have "(tid, tid) \<in> (dep_edges g)\<^sup>+" using 1 by blast
  then show ?case by (auto simp: sound_table_def acyclic_def)
next
  case (2 n g tid col)
  show ?case
  proof (cases "col tid = OnPath")
    case True
    then have "(tid, tid) \<in> (dep_edges g)\<^sup>+" using 2 by blast
    then show ?thesis by (auto simp: sound_table_def acyclic_def)
  next
    case w: False
    then have w2: "col tid \<noteq> Finished" using "2.prems"(1) by auto
    obtain b c' where v: "visit_deps n g tid (deps_of g tid) (col(tid := OnPath)) = (b, c')"
      by (meson surj_pair)
    then have b: "\<not> b" using "2.prems"(1) w w2 by (auto split: bool.splits)
    have inv: "done_inv g (col(tid := OnPath))" using "2.prems"(2) w2 by (auto simp: done_inv_def)
    have fin: "finite {x \<in> dom (map_of g). col x \<noteq> OnPath}" using finite_dom_map_of [of g] by simp
    have "{x \<in> dom (map_of g). (col(tid := OnPath)) x \<noteq> OnPath} = {x \<in> dom (map_of g). col x \<noteq> OnPath} - {tid}"
      by auto
    moreover have "tid \<in> {x \<in> dom (map_of g). col x \<noteq> OnPath}" using "2.prems"(3) w by simp
    ultimately have room: "card {x \<in> dom (map_of g). (col(tid := OnPath)) x \<noteq> OnPath} \<le> n"
      using fin "2.prems"(5) by (simp add: card_Diff_singleton)
    have edges: "\<forall>d\<in>set (deps_of g tid). (tid, d) \<in> dep_edges g"
      using "2.prems"(3) by (simp add: deps_of_edges)
    have v': "visit_deps n g tid (deps_of g tid) (col(tid := OnPath)) = (False, c')" using v b by simp
    have path: "\<forall>x. (col(tid := OnPath)) x = OnPath \<longrightarrow> x = tid \<or> (x, tid) \<in> (dep_edges g)\<^sup>+"
      using "2.prems"(4) by simp
    show ?thesis by (rule "2.IH" [OF w w2 v' inv "2.prems"(3) edges path room])
  qed
next
  case (4 n g tid d ds col)
  show ?case
  proof (cases "map_of g d = None \<or> d = tid")
    case True
    have "(tid, d) \<in> dep_edges g" using "4.prems"(4) by simp
    then show ?thesis using True by (auto simp: sound_table_def acyclic_def)
  next
    case False
    obtain b c1 where v: "visit n g d col = (b, c1)" by (meson surj_pair)
    have e: "(tid, d) \<in> dep_edges g" using "4.prems"(4) by simp
    have reach: "\<forall>x. col x = OnPath \<longrightarrow> (x, d) \<in> (dep_edges g)\<^sup>+"
      using "4.prems"(5) e by (auto intro: trancl.intros)
    show ?thesis
    proof (cases b)
      case True
      have one: "done_inv g c1" "\<forall>x. c1 x = OnPath \<longleftrightarrow> col x = OnPath"
        using visit_yes(1) [of n g d col c1] v True "4.prems"(2) False by auto
      then have "{x \<in> dom (map_of g). c1 x \<noteq> OnPath} = {x \<in> dom (map_of g). col x \<noteq> OnPath}" by auto
      then show ?thesis using "4.IH"(2) [OF False v [symmetric]] "4.prems" v True False one by auto
    next
      case no: False
      then show ?thesis using "4.IH"(1) [OF False] v no "4.prems"(2,6) False reach by auto
    qed
  qed
qed auto

lemma visit_all_iff:
  assumes "done_inv g col" "\<forall>x. col x \<noteq> OnPath" "set is \<subseteq> dom (map_of g)" "card (dom (map_of g)) \<le> n"
  shows "(visit_all n g is col \<longrightarrow> (\<exists>c. done_inv g c \<and> (\<forall>i\<in>set is. c i = Finished))) \<and>
    (\<not> visit_all n g is col \<longrightarrow> \<not> sound_table g)"
  using assms
proof (induction "is" arbitrary: col)
  case (Cons i "is")
  obtain b c where v: "visit n g i col = (b, c)" by (meson surj_pair)
  have i: "i \<in> dom (map_of g)" using Cons.prems(3) by simp
  show ?case
  proof (cases b)
    case True
    then have one: "done_inv g c" "c i = Finished" "\<forall>x. c x \<noteq> OnPath"
      using visit_yes(1) [of n g i col c] v Cons.prems(1,2) i by auto
    have keep: "visit_all n g js c \<Longrightarrow> set js \<subseteq> dom (map_of g) \<Longrightarrow> done_inv g c \<Longrightarrow>
        \<exists>c'. done_inv g c' \<and> (\<forall>x. c x = Finished \<longrightarrow> c' x = Finished) \<and> (\<forall>j\<in>set js. c' j = Finished)" for js c
    proof (induction js arbitrary: c)
      case (Cons j js)
      obtain b' c' where v': "visit n g j c = (b', c')" by (meson surj_pair)
      then have b': b' and rest: "visit_all n g js c'" using Cons.prems(1) by (auto split: bool.splits)
      have "done_inv g c'" "c' j = Finished" "\<forall>x. c x = Finished \<longrightarrow> c' x = Finished"
        using visit_yes(1) [of n g j c c'] v' b' Cons.prems by auto
      moreover from this obtain c'' where "done_inv g c''" "\<forall>x. c' x = Finished \<longrightarrow> c'' x = Finished" "\<forall>j\<in>set js. c'' j = Finished"
        using Cons.IH [OF rest] Cons.prems by auto
      ultimately show ?case by (intro exI [of _ c'']) auto
    qed auto
    have "\<exists>c'. done_inv g c' \<and> (\<forall>x. c x = Finished \<longrightarrow> c' x = Finished) \<and> (\<forall>j\<in>set is. c' j = Finished)"
      if "visit_all n g is c" using keep [OF that _ one(1)] Cons.prems(3) by simp
    then have "visit_all n g is c \<Longrightarrow> \<exists>c'. done_inv g c' \<and> (\<forall>j\<in>set (i # is). c' j = Finished)"
      using one(2) by fastforce
    then show ?thesis using Cons.IH [OF one(1,3)] Cons.prems(3,4) v True by simp
  next
    case False
    have "card {x \<in> dom (map_of g). col x \<noteq> OnPath} \<le> n" using Cons.prems(2,4) by simp
    then have "\<not> sound_table g"
      using visit_no(1) [of n g i col c] v False Cons.prems(1,2) i by auto
    then show ?thesis using v False by simp
  qed
qed auto

lemma visit_all_decides:
  assumes "set is = dom (map_of g)" "card (dom (map_of g)) \<le> n"
  shows "visit_all n g is (\<lambda>_. Fresh) \<longleftrightarrow> sound_table g"
proof -
  have start: "done_inv g (\<lambda>_. Fresh)" by (simp add: done_inv_def)
  have "sound_table g" if "done_inv g c" "\<forall>i\<in>dom (map_of g). c i = Finished" for c
  proof -
    have "x \<in> dom (map_of g)" if "(x, y) \<in> dep_edges g" for x y using that by (auto simp: dep_edges_def)
    note src = this
    have "(x, x) \<notin> (dep_edges g)\<^sup>+" for x
    proof
      assume c: "(x, x) \<in> (dep_edges g)\<^sup>+"
      then obtain y where "(x, y) \<in> dep_edges g" by (meson converse_tranclE)
      then have "c x = Finished" using src that(2) by blast
      then show False using c that(1) unfolding done_inv_def by blast
    qed
    moreover have "d \<in> dom (map_of g)" if e: "(x, d) \<in> dep_edges g" for x d
    proof -
      have "c x = Finished" using src [OF e] \<open>\<forall>i\<in>dom (map_of g). c i = Finished\<close> by blast
      then have "c d = Finished" using e \<open>done_inv g c\<close> unfolding done_inv_def by blast
      then show ?thesis using \<open>done_inv g c\<close> unfolding done_inv_def by blast
    qed
    ultimately show ?thesis unfolding sound_table_def acyclic_def by blast
  qed
  then show ?thesis using visit_all_iff [OF start _ _ assms(2), of "is"] assms(1) by auto
qed

end
