(* ===== verification/AgentPlan.thy ===== *)
theory AgentPlan imports AgentRun DepthFirst begin

section \<open>Plan validation\<close>

text \<open>
  \<open>validPlan\<close> of \<open>plan_store.go\<close>: the size limits, the step budget, the task table, and the
  depth-first search of \<open>DepthFirst\<close> over it.
\<close>

subsection \<open>The validator\<close>

definition budget_ok :: "run_plan \<Rightarrow> bool" where
  "budget_ok p = (case plan_budget p of
     None \<Rightarrow> True
   | Some b \<Rightarrow>
       \<not> (max_steps b < 1 \<or> 1000 < max_steps b \<or> max_capability_calls b < 1 \<or>
          max_steps b < max_capability_calls b \<or> max_steps b < int (length (plan_tasks p))) \<and>
       int (length (List.filter (\<lambda>t. def_node_kind t = ''tooling'') (plan_tasks p))) \<le> max_capability_calls b)"

text \<open>The loop that fills the task table, latest entry first; None is its early return.\<close>

fun task_table :: "task_definition list \<Rightarrow> dep_table \<Rightarrow> dep_table option" where
  "task_table [] g = Some g"
| "task_table (t # ts) g =
     (if \<not> task_id_pattern (def_task_id t) \<or> 100 < length (def_depends_on t) \<or> 128 < length (def_pool_id t)
      then None
      else if map_of g (def_task_id t) \<noteq> None then None
      else task_table ts ((def_task_id t, def_depends_on t) # g))"

definition valid_plan :: "run_plan \<Rightarrow> bool" where
  "valid_plan p =
     (if plan_rev p = 0 \<or> plan_tasks p = [] \<or> 1000 < length (plan_tasks p) then False
      else if \<not> budget_ok p then False
      else case task_table (plan_tasks p) [] of
             None \<Rightarrow> False
           | Some g \<Rightarrow> visit_all (length g) g (map fst g) (\<lambda>_. Fresh))"

definition task_shape_ok :: "task_definition \<Rightarrow> bool" where
  "task_shape_ok t \<longleftrightarrow> task_id_pattern (def_task_id t) \<and> length (def_depends_on t) \<le> 100 \<and>
     length (def_pool_id t) \<le> 128"

lemma task_table_Some:
  "task_table ts g = Some g' \<longleftrightarrow>
     (\<forall>t\<in>set ts. task_shape_ok t) \<and> distinct (map def_task_id ts) \<and>
     set (map def_task_id ts) \<inter> dom (map_of g) = {} \<and>
     g' = rev (map (\<lambda>t. (def_task_id t, def_depends_on t)) ts) @ g"
  by (induction ts arbitrary: g) (auto simp: task_shape_ok_def)

text \<open>The dependency relation of a plan, read off its tasks.\<close>

definition plan_edges :: "run_plan \<Rightarrow> (string \<times> string) set" where
  "plan_edges p = {(def_task_id t, d) | t d. t \<in> set (plan_tasks p) \<and> d \<in> set (def_depends_on t)}"

lemma plan_table_edges:
  assumes "distinct (map def_task_id ts)"
  shows "dep_edges (rev (map (\<lambda>t. (def_task_id t, def_depends_on t)) ts))
      = {(def_task_id t, d) | t d. t \<in> set ts \<and> d \<in> set (def_depends_on t)}"
    and "dom (map_of (rev (map (\<lambda>t. (def_task_id t, def_depends_on t)) ts))) = def_task_id ` set ts"
proof -
  let ?g = "rev (map (\<lambda>t. (def_task_id t, def_depends_on t)) ts)"
  have keys: "distinct (map fst ?g)" using assms by (simp add: rev_map [symmetric] o_def)
  have "map_of ?g x = Some ds \<longleftrightarrow> (x, ds) \<in> set ?g" for x ds
    by (rule map_of_eq_Some_iff [OF keys])
  then show "dep_edges ?g = {(def_task_id t, d) | t d. t \<in> set ts \<and> d \<in> set (def_depends_on t)}"
    by (auto simp: dep_edges_def)
  show "dom (map_of ?g) = def_task_id ` set ts" by (force simp: dom_map_of_conv_image_fst)
qed

lemma valid_plan_parts:
  assumes "valid_plan p"
  shows "plan_rev p \<noteq> 0 \<and> distinct (map def_task_id (plan_tasks p)) \<and> length (plan_tasks p) \<le> 1000"
proof -
  obtain g where "task_table (plan_tasks p) [] = Some g" "plan_rev p \<noteq> 0" "length (plan_tasks p) \<le> 1000"
    using assms by (auto simp: valid_plan_def split: if_splits option.splits)
  then show ?thesis by (simp add: task_table_Some)
qed

lemma valid_plan_exact:
  "valid_plan p \<longleftrightarrow>
     plan_rev p \<noteq> 0 \<and> plan_tasks p \<noteq> [] \<and> length (plan_tasks p) \<le> 1000 \<and> budget_ok p \<and>
     list_all task_shape_ok (plan_tasks p) \<and> distinct (map def_task_id (plan_tasks p)) \<and>
     snd ` plan_edges p \<subseteq> set (map def_task_id (plan_tasks p)) \<and> acyclic (plan_edges p)"
proof (cases "\<exists>g. task_table (plan_tasks p) [] = Some g")
  case False
  then have none: "task_table (plan_tasks p) [] = None" by simp
  have "\<not> (list_all task_shape_ok (plan_tasks p) \<and> distinct (map def_task_id (plan_tasks p)))"
    using False by (simp add: task_table_Some list_all_iff)
  then show ?thesis by (auto simp: valid_plan_def none)
next
  case True
  then obtain g where g: "task_table (plan_tasks p) [] = Some g" by blast
  let ?ts = "plan_tasks p"
  from g have shape: "list_all task_shape_ok ?ts" and dist: "distinct (map def_task_id ?ts)"
    and gd: "g = rev (map (\<lambda>t. (def_task_id t, def_depends_on t)) ?ts)"
    by (auto simp: task_table_Some list_all_iff)
  have dom: "set (map fst g) = dom (map_of g)" by (simp add: dom_map_of_conv_image_fst)
  have "card (dom (map_of g)) \<le> length g" by (metis card_length dom length_map)
  then have vis: "visit_all (length g) g (map fst g) (\<lambda>_. Fresh) = sound_table g"
    by (rule visit_all_decides [OF dom])
  have snd: "sound_table g \<longleftrightarrow> snd ` plan_edges p \<subseteq> set (map def_task_id ?ts) \<and> acyclic (plan_edges p)"
  proof -
    have "dep_edges g = plan_edges p" "dom (map_of g) = set (map def_task_id ?ts)"
      using plan_table_edges [OF dist] by (simp_all add: gd plan_edges_def)
    then show ?thesis by (force simp: sound_table_def)
  qed
  show ?thesis
    using g vis snd shape dist by (auto simp: valid_plan_def)
qed

text \<open>C1: Plan validation is exact: a plan is accepted if and only if it has a revision and 1 to 1000
  tasks, keeps its budget, has well-formed tasks with distinct names, every dependency is a task
  of the plan, and the dependencies have no cycle.\<close>

theorem valid_plan_iff:
  "valid_plan p \<longleftrightarrow>
     plan_rev p \<noteq> 0 \<and> plan_tasks p \<noteq> [] \<and> length (plan_tasks p) \<le> 1000 \<and> budget_ok p \<and>
     list_all task_shape_ok (plan_tasks p) \<and> distinct (map def_task_id (plan_tasks p)) \<and>
     snd ` plan_edges p \<subseteq> set (map def_task_id (plan_tasks p)) \<and> acyclic (plan_edges p)"
  by (rule valid_plan_exact)

text \<open>The order in which the tasks are started, random in the code, does not matter.\<close>

lemma visit_order_irrelevant:
  assumes "set is = dom (map_of g)" "set js = dom (map_of g)"
  shows "visit_all (length g) g is (\<lambda>_. Fresh) = visit_all (length g) g js (\<lambda>_. Fresh)"
proof -
  have "card (dom (map_of g)) \<le> length g" by (metis card_length dom_map_of_conv_image_fst length_map set_map)
  then show ?thesis using visit_all_decides assms by blast
qed

end
