(* ===== verification/AgentSchedule.thy ===== *)
theory AgentSchedule imports AgentTask AgentPlan begin

section \<open>Plans, planning, queueing, cancelling\<close>

text \<open>
  The other writers of a run: \<open>InstallPlan\<close> and \<open>QueueTask\<close> of \<open>plan_store.go\<close>, the three
  planning operations of \<open>planning.go\<close>, \<open>Cancel\<close> of \<open>cancel.go\<close> and the dispatch cursor of
  \<open>dispatcher.go\<close>, with the readers
  \<open>GetTask\<close> and \<open>ListTasks\<close>. Where the code reads the clock more than once in one attempt the
  model reads it once.
\<close>

subsection \<open>InstallPlan\<close>

definition initial_task :: "nat \<Rightarrow> task_definition \<Rightarrow> task_snapshot" where
  "initial_task rv d = no_task\<lparr>task_id := def_task_id d, task_revision := rv,
     task_status := ''pending_dependency'', depends_on := def_depends_on d, pool_id := def_pool_id d\<rparr>"

definition install_cmds :: "run_plan \<Rightarrow> redis_cmd list" where
  "install_cmds p = map (\<lambda>d. HSetTask (task_field (plan_rev p) (def_task_id d)) (initial_task (plan_rev p) d)) (plan_tasks p)"

definition install_plan_tx :: "run_cfg \<Rightarrow> snapshot \<Rightarrow> nat \<Rightarrow> run_plan \<Rightarrow> snapshot tx" where [run_txs]:
  "install_plan_tx cfg ident ev p =
     (valid_scope cfg ident \<and> ev \<noteq> 0 \<and> valid_plan p,
      \<lambda>now s. case state_key s of
         None \<Rightarrow> Inl ErrNotFound
       | Some cur \<Rightarrow>
           if version cur \<noteq> ev \<or> terminal (run_status cur) \<or> plan_rev p \<noteq> inc64 (plan_revision cur)
           then Inl ErrConflict
           else if map_of (plans_key s) (plan_rev p) \<noteq> None then Inl ErrConflict
           else let updated = (advance now cur)\<lparr>plan_revision := plan_rev p, run_status := ''planning''\<rparr>
                in Inr (Some ([HSetPlan (plan_rev p) p] @ install_cmds p @ [HSetState updated,
                     XAddEvent (run_entry (event_seq updated) ''agent_run.plan_created'' ''planning'' now)]), updated))"

definition install_plan where
  "install_plan cfg ident ev p = run_tx 5 watch_plans (install_plan_tx cfg ident ev p)"

subsection \<open>QueueTask\<close>

fun deps_completed :: "run_slot \<Rightarrow> nat \<Rightarrow> string list \<Rightarrow> run_error + unit" where
  "deps_completed s rv [] = Inr ()"
| "deps_completed s rv (d # ds) =
     (case task_at s (task_field rv d) of
        None \<Rightarrow> Inl (RedisError ''nil'')
      | Some dep \<Rightarrow> if task_status dep \<noteq> ''completed'' then Inl ErrConflict else deps_completed s rv ds)"

definition queue_task_tx :: "run_cfg \<Rightarrow> snapshot \<Rightarrow> nat \<Rightarrow> nat \<Rightarrow> string \<Rightarrow> string
    \<Rightarrow> (task_snapshot \<times> snapshot) tx" where [run_txs]:
  "queue_task_tx cfg ident ev rv tid reason =
     (valid_scope cfg ident \<and> ev \<noteq> 0 \<and> rv \<noteq> 0 \<and> task_id_pattern tid,
      \<lambda>now s. case state_key s of
         None \<Rightarrow> Inl ErrNotFound
       | Some cur \<Rightarrow>
           if version cur \<noteq> ev \<or> plan_revision cur \<noteq> rv \<or> terminal (run_status cur) then Inl ErrConflict
           else case task_at s (task_field rv tid) of
                  None \<Rightarrow> Inl ErrNotFound
                | Some t \<Rightarrow>
                    if task_status t \<noteq> ''pending_dependency'' \<and> task_status t \<noteq> ''retry_wait'' then Inl ErrConflict
                    else bind_res (deps_completed s rv (depends_on t)) (\<lambda>_.
                      let t' = t\<lparr>task_status := ''queued'', attempt := inc64 (attempt t), queued_at := now,
                                 queue_reason := reason\<rparr>;
                          updated = (advance now cur)\<lparr>run_status := ''running''\<rparr>
                      in Inr (Some [HSetTask (task_field rv tid) t', HSetState updated,
                           XAddEvent ((run_entry (event_seq updated) ''agent_run.task_status'' ''queued'' now)
                             \<lparr>en_task_id := tid, en_attempt := attempt t'\<rparr>),
                           XAddOutbox (run_id ident) rv tid (attempt t') (event_seq updated)], (t', updated))))"

definition queue_task where
  "queue_task cfg ident ev rv tid reason = run_tx 5 watch_tasks (queue_task_tx cfg ident ev rv tid reason)"

subsection \<open>GetTask and ListTasks\<close>

definition get_task :: "run_cfg \<Rightarrow> snapshot \<Rightarrow> nat \<Rightarrow> string \<Rightarrow> run_slot \<Rightarrow> run_error + task_snapshot" where
  "get_task cfg ident rv tid s =
     (if \<not> valid_scope cfg ident \<or> \<not> valid_task_revision rv tid then Inl ErrInvalid
      else bind_res (get_run cfg ident s) (\<lambda>_.
        case task_at s (task_field rv tid) of None \<Rightarrow> Inl ErrNotFound | Some t \<Rightarrow> Inr t))"

definition list_tasks :: "run_cfg \<Rightarrow> snapshot \<Rightarrow> nat \<Rightarrow> run_slot \<Rightarrow> run_error + task_snapshot list" where
  "list_tasks cfg ident rv s =
     (if \<not> valid_scope cfg ident then Inl ErrInvalid
      else let ts = List.filter (\<lambda>t. task_revision t = rv) (map snd (tasks_key s))
           in if ts = [] \<and> 0 < rv then Inl ErrNotFound else Inr (sort_key task_id ts))"

subsection \<open>StartPlanning, CompletePlanning, ExpirePlanning\<close>

abbreviation planning_field :: string where
  "planning_field \<equiv> task_field 0 planning_task_id"

definition planning_task :: "instant \<Rightarrow> task_snapshot" where
  "planning_task now = no_task\<lparr>task_id := planning_task_id, task_revision := 0, task_status := ''queued'',
     attempt := 1, queued_at := now\<rparr>"

definition start_planning_tx :: "run_cfg \<Rightarrow> snapshot \<Rightarrow> snapshot tx" where [run_txs]:
  "start_planning_tx cfg ident =
     (valid_scope cfg ident,
      \<lambda>now s. case state_key s of
         None \<Rightarrow> Inl ErrNotFound
       | Some cur \<Rightarrow>
           if plan_revision cur \<noteq> 0 \<or> terminal (run_status cur) then Inl ErrConflict
           else if run_status cur = ''planning'' then
             (if outbox_key s = [] then Inl ErrConflict
              else if task_at s planning_field = None then Inl ErrConflict
              else Inr (None, cur))
           else if run_status cur \<noteq> ''accepted'' \<or> \<not> now < deadline_at cur then Inl ErrConflict
           else let updated = (advance now cur)\<lparr>run_status := ''planning''\<rparr>
                in Inr (Some [HSetState updated, HSetTask planning_field (planning_task now),
                     XAddEvent (run_entry (event_seq updated) ''agent_run.planning_queued'' ''planning'' now),
                     XAddOutbox (run_id ident) 0 planning_task_id 1 (event_seq updated)], updated))"

definition start_planning where
  "start_planning cfg ident = run_tx 5 watch_tasks (start_planning_tx cfg ident)"

definition complete_planning_tx :: "run_cfg \<Rightarrow> snapshot \<Rightarrow> nat \<Rightarrow> string \<Rightarrow> nat \<Rightarrow> run_plan \<Rightarrow> string \<Rightarrow> string
    \<Rightarrow> snapshot tx" where [run_txs]:
  "complete_planning_tx cfg ident ev owner fc p result evidence =
     (valid_scope cfg ident \<and> ev \<noteq> 0 \<and> \<not> blank owner \<and> fc \<noteq> 0 \<and> plan_rev p = 1 \<and> valid_plan p \<and>
        \<not> blank result \<and> \<not> blank evidence,
      \<lambda>now s. case state_key s of
         None \<Rightarrow> Inl ErrNotFound
       | Some cur \<Rightarrow>
           if version cur \<noteq> ev \<or> plan_revision cur \<noteq> 0 \<or> run_status cur \<noteq> ''planning'' then Inl ErrConflict
           else case task_at s planning_field of
                  None \<Rightarrow> Inl ErrNotFound
                | Some t \<Rightarrow>
                    if task_status t \<noteq> ''running'' \<or> lease_owner t \<noteq> owner \<or> fence t \<noteq> fc \<or>
                       \<not> now < lease_until t \<or> \<not> now < deadline_at cur then Inl ErrConflict
                    else if map_of (plans_key s) (plan_rev p) \<noteq> None then Inl ErrConflict
                    else let t' = t\<lparr>task_status := ''completed'', completed_at := now, result_ref := result,
                                    evidence_ref := evidence\<rparr>;
                             updated = (advance now cur)\<lparr>plan_revision := plan_rev p\<rparr>
                         in Inr (Some ([HSetPlan (plan_rev p) p, HSetTask planning_field t'] @ install_cmds p @
                              [HSetState updated,
                               XAddEvent ((run_entry (event_seq updated) ''agent_run.plan_created'' (run_status updated) now)
                                 \<lparr>en_task_id := planning_task_id, en_attempt := attempt t'\<rparr>)]), updated))"

definition complete_planning where
  "complete_planning cfg ident ev owner fc p result evidence =
     run_tx 5 watch_plans (complete_planning_tx cfg ident ev owner fc p result evidence)"

text \<open>Why a planning task has to end; empty when it need not.\<close>

definition planning_expiry :: "run_cfg \<Rightarrow> snapshot \<Rightarrow> task_snapshot \<Rightarrow> instant \<Rightarrow> string" where
  "planning_expiry cfg cur t now =
     (if task_status t = ''failed'' then
        (if reason_code t = [] then ''planner.failed'' else reason_code t)
      else if deadline_at cur \<le> now then ''run.deadline''
      else if task_status t = ''queued'' \<and> queued_at t + queue_wait_timeout cfg \<le> now then ''queue.timeout''
      else [])"

definition expire_planning_tx :: "run_cfg \<Rightarrow> snapshot \<Rightarrow> snapshot tx" where [run_txs]:
  "expire_planning_tx cfg ident =
     (valid_scope cfg ident,
      \<lambda>now s. case state_key s of
         None \<Rightarrow> Inl ErrNotFound
       | Some cur \<Rightarrow>
           if plan_revision cur = 0 \<and> run_status cur = ''accepted'' \<and> deadline_at cur \<le> now then
             let updated = (advance now cur)\<lparr>run_status := ''failed''\<rparr>
             in Inr (Some [HSetState updated,
                  XAddEvent ((run_entry (event_seq updated) ''agent_run.final'' ''failed'' now)
                    \<lparr>en_reason_code := ''run.deadline''\<rparr>)], updated)
           else if plan_revision cur \<noteq> 0 \<or> run_status cur \<noteq> ''planning'' then Inr (None, cur)
           else case task_at s planning_field of
                  None \<Rightarrow> Inl (RedisError ''nil'')
                | Some t \<Rightarrow>
                    let reason = planning_expiry cfg cur t now
                    in if reason = [] then Inr (None, cur)
                       else let t1 = t\<lparr>task_status := ''failed'', completed_at := now, reason_code := reason\<rparr>;
                                t' = (if is_zero (queued_at t1) then t1 else t1\<lparr>queue_wait_ms := wait_ms t1 now\<rparr>);
                                updated = (advance now cur)\<lparr>run_status := ''failed''\<rparr>
                            in Inr (Some [HSetTask planning_field t', HSetState updated,
                                 XAddEvent ((run_entry (event_seq updated) ''agent_run.final'' ''failed'' now)
                                   \<lparr>en_task_id := planning_task_id, en_attempt := attempt t', en_reason_code := reason\<rparr>)],
                                 updated))"

definition expire_planning where
  "expire_planning cfg ident = run_tx 5 watch_tasks (expire_planning_tx cfg ident)"

subsection \<open>Cancel\<close>

definition task_ended :: "string \<Rightarrow> bool" where
  "task_ended st \<longleftrightarrow> st \<in> {''completed'', ''failed'', ''skipped'', ''cancelled''}"

definition cancelled_task :: "instant \<Rightarrow> task_snapshot \<Rightarrow> task_snapshot" where
  "cancelled_task now t = t\<lparr>task_status := ''cancelled'', completed_at := now, lease_until := now,
     reason_code := (if execution_token t \<noteq> [] \<and> (execution_result_ref t = [] \<or> execution_evidence_ref t = [])
                     then ''manual_review_required'' else ''run.cancelled'')\<rparr>"

text \<open>The rows to cancel, by field; their commands, one event number each.\<close>

definition cancel_rows :: "instant \<Rightarrow> run_slot \<Rightarrow> (string \<times> task_snapshot) list" where
  "cancel_rows now s = sort_key fst
     (map (\<lambda>(f, t). (f, cancelled_task now t)) (List.filter (\<lambda>(f, t). \<not> task_ended (task_status t)) (tasks_key s)))"

fun cancel_cmds :: "instant \<Rightarrow> nat \<Rightarrow> (string \<times> task_snapshot) list \<Rightarrow> redis_cmd list \<times> nat" where
  "cancel_cmds now sq [] = ([], sq)"
| "cancel_cmds now sq ((f, t) # rows) =
     (let sq' = inc64 sq; (cs, last) = cancel_cmds now sq' rows
      in (HSetTask f t # XAddEvent ((run_entry sq' ''agent_run.task_cancelled'' ''cancelled'' now)
            \<lparr>en_task_id := task_id t, en_attempt := attempt t, en_reason_code := reason_code t\<rparr>) # cs, last))"

definition cancel_tx :: "run_cfg \<Rightarrow> snapshot \<Rightarrow> snapshot tx" where [run_txs]:
  "cancel_tx cfg ident =
     (valid_scope cfg ident,
      \<lambda>now s. case state_key s of
         None \<Rightarrow> Inl ErrNotFound
       | Some run \<Rightarrow>
           if terminal (run_status run) then Inr (None, run)
           else let (cs, sq) = cancel_cmds now (event_seq run) (cancel_rows now s);
                    updated = run\<lparr>run_status := ''cancelled'', updated_at := now, version := inc64 (version run),
                                  event_seq := inc64 sq\<rparr>
                in Inr (Some (cs @ [HSetState updated, DelOutbox,
                     XAddEvent (run_entry (event_seq updated) ''agent_run.cancelled'' ''cancelled'' now)]), updated))"

definition cancel_run where
  "cancel_run cfg ident = run_tx 10 watch_outbox (cancel_tx cfg ident)"

subsection \<open>advanceDispatchCursor\<close>

text \<open>The last outbox entry handed to the task bus; not written any more when the run has ended.\<close>

definition advance_cursor_tx :: "nat \<Rightarrow> unit tx" where [run_txs]:
  "advance_cursor_tx entry =
     (True,
      \<lambda>now s. case state_key s of
         None \<Rightarrow> Inl ErrNotFound
       | Some run \<Rightarrow> if terminal (run_status run) then Inl ErrConflict else Inr (Some [SetCursor entry], ()))"

definition advance_dispatch_cursor where
  "advance_dispatch_cursor entry = run_tx 5 watch_state (advance_cursor_tx entry)"

subsection \<open>They decide on what they watch\<close>

lemma deps_completed_cong: "tasks_key s' = tasks_key s \<Longrightarrow> deps_completed s' rv ds = deps_completed s rv ds"
  by (induction ds) (simp_all split: option.split)

interpretation install_otx: optimistic_tx watch_plans "snd (install_plan_tx cfg ident ev p)" for cfg ident ev p
  by unfold_locales (simp add: install_plan_tx_def watch_plans_def cong: if_cong option.case_cong)

lemma queue_task_reads:
  "snd (queue_task_tx cfg ident ev rv tid reason) now s = Inr (Some cmds, r) \<Longrightarrow> watch_tasks s' = watch_tasks s \<Longrightarrow>
     snd (queue_task_tx cfg ident ev rv tid reason) now s' = Inr (Some cmds, r)"
  using deps_completed_cong [of s' s]
  by (simp add: queue_task_tx_def watch_tasks_def cong: if_cong option.case_cong)

interpretation queue_otx: optimistic_tx watch_tasks "snd (queue_task_tx cfg ident ev rv tid reason)"
  for cfg ident ev rv tid reason
  by unfold_locales (rule queue_task_reads)

lemma start_planning_reads:
  "snd (start_planning_tx cfg ident) now s = Inr (Some cmds, r) \<Longrightarrow> watch_tasks s' = watch_tasks s \<Longrightarrow>
     snd (start_planning_tx cfg ident) now s' = Inr (Some cmds, r)"
  by (auto simp: start_planning_tx_def watch_tasks_def split: option.splits if_splits)

interpretation start_planning_otx: optimistic_tx watch_tasks "snd (start_planning_tx cfg ident)" for cfg ident
  by unfold_locales (rule start_planning_reads)

interpretation complete_planning_otx: optimistic_tx watch_plans
  "snd (complete_planning_tx cfg ident ev owner fc p result evidence)" for cfg ident ev owner fc p result evidence
  by unfold_locales (simp add: complete_planning_tx_def watch_plans_def cong: if_cong option.case_cong)

interpretation expire_planning_otx: optimistic_tx watch_tasks "snd (expire_planning_tx cfg ident)" for cfg ident
  by unfold_locales (simp add: expire_planning_tx_def watch_tasks_def cong: if_cong option.case_cong)

lemma cancel_rows_cong: "tasks_key s' = tasks_key s \<Longrightarrow> cancel_rows now s' = cancel_rows now s"
  by (simp add: cancel_rows_def)

lemma cancel_reads:
  "snd (cancel_tx cfg ident) now s = Inr (Some cmds, r) \<Longrightarrow> watch_outbox s' = watch_outbox s \<Longrightarrow>
     snd (cancel_tx cfg ident) now s' = Inr (Some cmds, r)"
  using cancel_rows_cong [of s' s now]
  by (simp add: cancel_tx_def watch_outbox_def cong: if_cong option.case_cong)

interpretation cursor_otx: optimistic_tx watch_state "snd (advance_cursor_tx entry)" for entry
  by unfold_locales (simp add: advance_cursor_tx_def watch_state_def cong: if_cong option.case_cong)

interpretation cancel_otx: optimistic_tx watch_outbox "snd (cancel_tx cfg ident)" for cfg ident
  by unfold_locales (rule cancel_reads)

end
