(* ===== verification/AgentReachable.thy ===== *)
theory AgentReachable imports AgentSchedule begin

section \<open>Reachable runs: the task life cycle, the event log, the fences\<close>

text \<open>
  The atomic steps of the run store, one rule per operation, and what they preserve. Two
  operations are narrower here than the exported methods: \<open>Transition\<close> moves to a terminal
  status (its only caller is \<open>ReconcilePlan\<close>), and \<open>CompleteTask\<close> has a positive revision (the
  planning task is completed by \<open>CompletePlanning\<close>).
\<close>

subsection \<open>Steps\<close>

inductive run_step :: "run_cfg \<Rightarrow> run_slot \<Rightarrow> run_slot \<Rightarrow> bool" for cfg where
  Create: "commits (create_tx cfg recover t ini) now s r s' \<Longrightarrow> plan_revision ini = 0 \<Longrightarrow> run_step cfg s s'"
| Transition: "commits (transition_tx cfg ident ev st ety) now s r s' \<Longrightarrow> terminal st \<Longrightarrow> run_step cfg s s'"
| InstallPlan: "commits (install_plan_tx cfg ident ev p) now s r s' \<Longrightarrow> run_step cfg s s'"
| QueueTask: "commits (queue_task_tx cfg ident ev rv tid reason) now s tr s' \<Longrightarrow> run_step cfg s s'"
| StartPlanning: "commits (start_planning_tx cfg ident) now s r s' \<Longrightarrow> run_step cfg s s'"
| CompletePlanning: "commits (complete_planning_tx cfg ident ev owner fc p rr er) now s r s' \<Longrightarrow> run_step cfg s s'"
| ExpirePlanning: "commits (expire_planning_tx cfg ident) now s r s' \<Longrightarrow> run_step cfg s s'"
| Cancel: "commits (cancel_tx cfg ident) now s r s' \<Longrightarrow> run_step cfg s s'"
| Waiting: "commits (mark_capacity_waiting_tx cfg ident ev rv tid reason) now s tr s' \<Longrightarrow> run_step cfg s s'"
| Lease: "commits (lease_task_tx cfg clk ident ev rv tid owner fc until) now s tr s' \<Longrightarrow> run_step cfg s s'"
| Start: "commits (start_task_tx cfg ident ev rv tid owner fc) now s tr s' \<Longrightarrow> run_step cfg s s'"
| Complete: "commits (complete_task_tx cfg ident ev rv tid owner fc rr er) now s tr s' \<Longrightarrow> 0 < rv \<Longrightarrow> run_step cfg s s'"
| Fail: "commits (fail_task_tx cfg ident ev rv tid owner fc reason stages) now s tr s' \<Longrightarrow> run_step cfg s s'"
| Skip: "commits (skip_task_tx cfg ident ev rv tid reason) now s tr s' \<Longrightarrow> run_step cfg s s'"
| ExpireQueued: "commits (expire_queued_task_tx cfg ident ev rv tid) now s tr s' \<Longrightarrow> run_step cfg s s'"
| ExpireUnstarted: "commits (expire_unstarted_task_tx cfg ident ev rv tid) now s tr s' \<Longrightarrow> run_step cfg s s'"
| Renew: "commits (renew_task_lease_tx cfg clk ident rv tid owner fc until) now s t' s' \<Longrightarrow> run_step cfg s s'"
| Receipt: "commits (execution_receipt_tx cfg claim ref owner fc token result) now s rec s' \<Longrightarrow> claim \<noteq> [] \<Longrightarrow> run_step cfg s s'"
| Cursor: "commits (advance_cursor_tx entry) now s u s' \<Longrightarrow> run_step cfg s s'"

abbreviation run_steps :: "run_cfg \<Rightarrow> run_slot \<Rightarrow> run_slot \<Rightarrow> bool" where
  "run_steps cfg \<equiv> (run_step cfg)\<^sup>*\<^sup>*"

definition reachable_run :: "run_cfg \<Rightarrow> run_slot \<Rightarrow> bool" where
  "reachable_run cfg s \<longleftrightarrow> run_steps cfg no_run s"

subsection \<open>The life cycle of a task\<close>

definition life_edges :: "(string \<times> string) list" where
  "life_edges =
    [(''pending_dependency'', ''queued''), (''pending_dependency'', ''skipped''), (''pending_dependency'', ''cancelled''),
     (''queued'', ''leased''), (''queued'', ''failed''), (''queued'', ''cancelled''),
     (''leased'', ''running''), (''leased'', ''failed''), (''leased'', ''cancelled''),
     (''running'', ''leased''), (''running'', ''completed''), (''running'', ''failed''), (''running'', ''cancelled'')]"

definition life :: "string \<Rightarrow> string \<Rightarrow> bool" where
  "life a b \<longleftrightarrow> a = b \<or> (a, b) \<in> set life_edges"

text \<open>The statuses a task has, those held under a fence, those before the first execution,
  and those it reaches only when its dependencies are completed.\<close>

definition known_status :: "string \<Rightarrow> bool" where
  "known_status st \<longleftrightarrow> st \<in> {''pending_dependency'', ''queued'', ''leased'', ''running'', ''completed'', ''failed'',
     ''skipped'', ''cancelled''}"

definition fenced_status :: "string \<Rightarrow> bool" where
  "fenced_status st \<longleftrightarrow> st \<in> {''leased'', ''running'', ''completed''}"

definition fresh_status :: "string \<Rightarrow> bool" where
  "fresh_status st \<longleftrightarrow> st \<in> {''pending_dependency'', ''queued'', ''skipped''}"

definition dep_status :: "string \<Rightarrow> bool" where
  "dep_status st \<longleftrightarrow> st \<in> {''queued'', ''leased'', ''running'', ''completed''}"

named_theorems status_simps "what the status predicates say of the literal statuses"

lemma known_status_simps [status_simps]:
  "known_status ''pending_dependency''" "known_status ''queued''" "known_status ''leased''" "known_status ''running''"
  "known_status ''completed''" "known_status ''failed''" "known_status ''skipped''" "known_status ''cancelled''"
  "\<not> known_status ''verifying''" "\<not> known_status ''retry_wait''"
  by (simp_all add: known_status_def)

lemma fenced_status_simps [status_simps]:
  "\<not> fenced_status ''pending_dependency''" "\<not> fenced_status ''queued''" "fenced_status ''leased''"
  "fenced_status ''running''" "fenced_status ''completed''" "\<not> fenced_status ''failed''"
  "\<not> fenced_status ''skipped''" "\<not> fenced_status ''cancelled''"
  by (simp_all add: fenced_status_def)

lemma fresh_status_simps [status_simps]:
  "fresh_status ''pending_dependency''" "fresh_status ''queued''" "\<not> fresh_status ''leased''"
  "\<not> fresh_status ''running''" "\<not> fresh_status ''completed''" "\<not> fresh_status ''failed''"
  "fresh_status ''skipped''" "\<not> fresh_status ''cancelled''"
  by (simp_all add: fresh_status_def)

lemma dep_status_simps [status_simps]:
  "\<not> dep_status ''pending_dependency''" "dep_status ''queued''" "dep_status ''leased''"
  "dep_status ''running''" "dep_status ''completed''" "\<not> dep_status ''failed''"
  "\<not> dep_status ''skipped''" "\<not> dep_status ''cancelled''"
  by (simp_all add: dep_status_def)

lemma task_ended_simps [status_simps]:
  "\<not> task_ended ''pending_dependency''" "\<not> task_ended ''queued''" "\<not> task_ended ''leased''"
  "\<not> task_ended ''running''" "task_ended ''completed''" "task_ended ''failed''"
  "task_ended ''skipped''" "task_ended ''cancelled''"
  by (simp_all add: task_ended_def)

lemma life_simps [status_simps]:
  "life a a" "life ''pending_dependency'' ''queued''" "life ''pending_dependency'' ''skipped''"
  "life ''queued'' ''leased''" "life ''queued'' ''failed''"
  "life ''leased'' ''running''" "life ''leased'' ''failed''" "life ''running'' ''leased''" "life ''running'' ''completed''"
  "life ''running'' ''failed''"
  by (simp_all add: life_def life_edges_def)

lemma life_cancel: "known_status st \<Longrightarrow> \<not> task_ended st \<Longrightarrow> life st ''cancelled''"
  unfolding known_status_def task_ended_def by (elim insertE) (simp_all add: life_def life_edges_def)

text \<open>What holds of one task whatever happened to it.\<close>

definition task_ok :: "task_snapshot \<Rightarrow> bool" where
  "task_ok t \<longleftrightarrow>
     known_status (task_status t) \<and>
     (task_status t = ''completed'' \<longrightarrow> \<not> blank (result_ref t) \<and> \<not> blank (evidence_ref t)) \<and>
     (fenced_status (task_status t) \<longrightarrow> 0 < fence t) \<and>
     (fresh_status (task_status t) \<longrightarrow> execution_token t = []) \<and>
     (execution_token t = [] \<longrightarrow> execution_result_ref t = [])"

text \<open>How a task relates to what it was at any earlier time.\<close>

definition task_later :: "task_snapshot \<Rightarrow> task_snapshot \<Rightarrow> bool" where
  "task_later t t' \<longleftrightarrow>
     task_id t' = task_id t \<and> task_revision t' = task_revision t \<and> depends_on t' = depends_on t \<and>
     pool_id t' = pool_id t \<and>
     fence t \<le> fence t' \<and> (fence t' = fence t \<longrightarrow> lease_owner t' = lease_owner t) \<and>
     (task_ended (task_status t) \<longrightarrow> task_status t' = task_status t) \<and>
     (task_status t = ''completed'' \<longrightarrow> t' = t) \<and>
     (execution_token t \<noteq> [] \<longrightarrow> execution_token t' = execution_token t) \<and>
     (execution_result_ref t \<noteq> [] \<longrightarrow> execution_result_ref t' = execution_result_ref t \<and>
        execution_evidence_ref t' = execution_evidence_ref t)"

lemma task_later_refl [simp]: "task_later t t"
  by (simp add: task_later_def)

lemma task_later_trans:
  assumes "task_later t u" "task_later u v" shows "task_later t v"
  using assms unfolding task_later_def by (intro conjI impI) auto

definition task_move :: "task_snapshot \<Rightarrow> task_snapshot \<Rightarrow> bool" where
  "task_move t t' \<longleftrightarrow> task_later t t' \<and> life (task_status t) (task_status t')"

abbreviation needs_deps :: "task_snapshot \<Rightarrow> bool" where
  "needs_deps t \<equiv> dep_status (task_status t)"

lemmas task_defs = task_ok_def task_move_def task_later_def

text \<open>
  A mutation that keeps to the life cycle: the task moves, stays well-formed, and starts to need
  its dependencies only if it did before.
\<close>

definition keeps_life :: "task_snapshot \<Rightarrow> task_snapshot \<Rightarrow> bool" where
  "keeps_life t t' \<longleftrightarrow> task_move t t' \<and> task_ok t' \<and> (needs_deps t' \<longrightarrow> needs_deps t)"

text \<open>What each mutation requires and gives.\<close>

lemma waiting_mutD: "mark_waiting_mut reason t now = Inr t' \<Longrightarrow>
    task_status t = ''queued'' \<and> t' = t\<lparr>queue_reason := reason\<rparr>"
  by (simp add: mark_waiting_mut_def split: if_split_asm)

lemma lease_mutD:
  assumes "lease_mut cfg owner fc until t now = Inr t'"
  obtains w where "task_status t \<in> {''queued'', ''leased'', ''running'', ''verifying''}" "fence t < fc"
    "t' = t\<lparr>task_status := ''leased'', lease_owner := owner, fence := fc, lease_until := until,
        leased_at := now, queue_wait_ms := w\<rparr>"
proof -
  have live: "task_status t \<in> {''queued'', ''leased'', ''running'', ''verifying''}" and f: "fence t < fc"
    using assms by (auto simp: lease_mut_def bind_res_Inr_iff Let_def split: if_split_asm)
  have "\<exists>w. t' = t\<lparr>task_status := ''leased'', lease_owner := owner, fence := fc, lease_until := until,
      leased_at := now, queue_wait_ms := w\<rparr>"
  proof (cases "is_zero (queued_at t)")
    case True
    then have "t' = t\<lparr>task_status := ''leased'', lease_owner := owner, fence := fc, lease_until := until,
      leased_at := now, queue_wait_ms := queue_wait_ms t\<rparr>"
      using assms by (simp add: lease_mut_def bind_res_Inr_iff Let_def split: if_split_asm)
    then show ?thesis by blast
  next
    case False
    then show ?thesis using assms
      by (simp add: lease_mut_def bind_res_Inr_iff Let_def split: if_split_asm) blast+
  qed
  then show ?thesis using that live f by blast
qed

lemma start_mutD: "start_mut owner fc t now = Inr t' \<Longrightarrow> task_status t = ''leased'' \<and> lease_owner t = owner \<and>
    fence t = fc \<and> now < lease_until t \<and> t' = t\<lparr>task_status := ''running'', started_at := now\<rparr>"
  by (simp add: start_mut_def split: if_split_asm)

lemma complete_mutD: "complete_mut owner fc rr er t now = Inr t' \<Longrightarrow>
    (task_status t = ''running'' \<or> task_status t = ''verifying'') \<and> lease_owner t = owner \<and> fence t = fc \<and>
    now < lease_until t \<and>
    t' = t\<lparr>task_status := ''completed'', completed_at := now, result_ref := rr, evidence_ref := er\<rparr>"
  by (simp add: complete_mut_def split: if_split_asm)

lemma fail_mutD: "fail_mut owner fc reason stage t now = Inr t' \<Longrightarrow>
    (task_status t = ''running'' \<or> task_status t = ''verifying'') \<and> lease_owner t = owner \<and> fence t = fc \<and>
    now < lease_until t \<and>
    t' = t\<lparr>task_status := ''failed'', completed_at := now, reason_code := reason, failure_stage := stage\<rparr>"
  by (simp add: fail_mut_def split: if_split_asm)

lemma skip_mutD: "skip_mut reason t now = Inr t' \<Longrightarrow> task_status t = ''pending_dependency'' \<and>
    t' = t\<lparr>task_status := ''skipped'', completed_at := now, reason_code := reason\<rparr>"
  by (simp add: skip_mut_def split: if_split_asm)

lemma expire_queued_mutD: "expire_queued_mut cfg t now = Inr t' \<Longrightarrow> task_status t = ''queued'' \<and>
    queued_at t + queue_wait_timeout cfg \<le> now \<and>
    t' = t\<lparr>task_status := ''failed'', completed_at := now, reason_code := ''queue.timeout'', queue_wait_ms := wait_ms t now\<rparr>"
  by (simp add: expire_queued_mut_def split: if_split_asm)

lemma expire_unstarted_mutD:
  assumes "expire_unstarted_mut t now = Inr t'"
  obtains st w where "t' = t\<lparr>task_status := st, completed_at := now, reason_code := ''run.deadline'', queue_wait_ms := w\<rparr>"
    "task_status t = ''queued'' \<and> st = ''failed'' \<or> task_status t = ''retry_wait'' \<and> st = ''failed'' \<or>
     task_status t = ''pending_dependency'' \<and> st = ''skipped''"
proof -
  obtain st where st: "task_status t = ''queued'' \<and> st = ''failed'' \<or> task_status t = ''retry_wait'' \<and> st = ''failed'' \<or>
     task_status t = ''pending_dependency'' \<and> st = ''skipped''"
    using assms by (auto simp: expire_unstarted_mut_def bind_res_Inr_iff split: if_split_asm)
  let ?t1 = "t\<lparr>task_status := st, completed_at := now, reason_code := ''run.deadline''\<rparr>"
  have "t' = (if is_zero (queued_at ?t1) then ?t1 else ?t1\<lparr>queue_wait_ms := wait_ms ?t1 now\<rparr>)"
    using assms st unfolding expire_unstarted_mut_def bind_res_Inr_iff Let_def
    by (elim disjE conjE) (simp_all split: if_split_asm)
  then have "t' = ?t1\<lparr>queue_wait_ms := (if is_zero (queued_at t) then queue_wait_ms t else wait_ms ?t1 now)\<rparr>"
    by simp
  then show ?thesis by (rule that) (rule st)
qed

lemma renew_mutD: "renew_mut owner fc until t now = Inr t' \<Longrightarrow>
    (task_status t = ''leased'' \<or> task_status t = ''running'' \<or> task_status t = ''verifying'') \<and> lease_owner t = owner \<and>
    fence t = fc \<and> now < lease_until t \<and> lease_until t < until \<and> t' = t\<lparr>lease_until := until\<rparr>"
  by (simp add: renew_mut_def split: if_split_asm)

lemma running_if_ok: "task_ok t \<Longrightarrow> task_status t = ''running'' \<or> task_status t = ''verifying'' \<Longrightarrow> task_status t = ''running''"
  by (auto simp: task_ok_def status_simps)

text \<open>So each keeps to the life cycle.\<close>

lemma waiting_keeps: "mark_waiting_mut reason t now = Inr t' \<Longrightarrow> task_ok t \<Longrightarrow> keeps_life t t'"
  using waiting_mutD [of reason t now t'] by (simp add: keeps_life_def task_defs status_simps)

lemma lease_keeps:
  assumes "lease_mut cfg owner fc until t now = Inr t'" "task_ok t"
  shows "keeps_life t t'" "task_status t' = ''leased''" "fence t < fence t'" "fence t' = fc" "lease_owner t' = owner"
proof -
  obtain w where live: "task_status t \<in> {''queued'', ''leased'', ''running'', ''verifying''}" and f: "fence t < fc"
    and t': "t' = t\<lparr>task_status := ''leased'', lease_owner := owner, fence := fc, lease_until := until,
        leased_at := now, queue_wait_ms := w\<rparr>"
    using lease_mutD [OF assms(1)] by blast
  have "task_status t = ''queued'' \<or> task_status t = ''leased'' \<or> task_status t = ''running''"
    using live assms(2) by (auto simp: task_ok_def status_simps)
  then show "keeps_life t t'" using f assms(2)
    by (elim disjE) (simp_all add: t' keeps_life_def task_defs status_simps)
  show "task_status t' = ''leased''" "fence t < fence t'" "fence t' = fc" "lease_owner t' = owner"
    using f by (simp_all add: t')
qed

lemma start_keeps: "start_mut owner fc t now = Inr t' \<Longrightarrow> task_ok t \<Longrightarrow> keeps_life t t'"
  using start_mutD [of owner fc t now t'] by (simp add: keeps_life_def task_defs status_simps)

lemma complete_keeps:
  assumes "complete_mut owner fc rr er t now = Inr t'" "\<not> blank rr" "\<not> blank er" "task_ok t"
  shows "keeps_life t t'"
proof -
  note d = complete_mutD [OF assms(1)]
  have "task_status t = ''running''" using d assms(4) running_if_ok by blast
  then show ?thesis using d assms(2,3,4) by (simp add: keeps_life_def task_defs status_simps)
qed

lemma fail_keeps:
  assumes "fail_mut owner fc reason stage t now = Inr t'" "task_ok t"
  shows "keeps_life t t'"
proof -
  note d = fail_mutD [OF assms(1)]
  have "task_status t = ''running''" using d assms(2) running_if_ok by blast
  then show ?thesis using d assms(2) by (simp add: keeps_life_def task_defs status_simps)
qed

lemma skip_keeps: "skip_mut reason t now = Inr t' \<Longrightarrow> task_ok t \<Longrightarrow> keeps_life t t'"
  using skip_mutD [of reason t now t'] by (simp add: keeps_life_def task_defs status_simps)

lemma expire_queued_keeps: "expire_queued_mut cfg t now = Inr t' \<Longrightarrow> task_ok t \<Longrightarrow> keeps_life t t'"
  using expire_queued_mutD [of cfg t now t'] by (simp add: keeps_life_def task_defs status_simps)

lemma expire_unstarted_keeps:
  assumes "expire_unstarted_mut t now = Inr t'" "task_ok t"
  shows "keeps_life t t'"
proof -
  obtain st w where t': "t' = t\<lparr>task_status := st, completed_at := now, reason_code := ''run.deadline'', queue_wait_ms := w\<rparr>"
    and st: "task_status t = ''queued'' \<and> st = ''failed'' \<or> task_status t = ''retry_wait'' \<and> st = ''failed'' \<or>
     task_status t = ''pending_dependency'' \<and> st = ''skipped''"
    using expire_unstarted_mutD [OF assms(1)] by blast
  have "task_status t \<noteq> ''retry_wait''" using assms(2) by (auto simp: task_ok_def status_simps)
  then show ?thesis using st assms(2)
    by (elim disjE conjE) (simp_all add: t' keeps_life_def task_defs status_simps)
qed

lemma renew_keeps:
  assumes "renew_mut owner fc until t now = Inr t'" "task_ok t"
  shows "keeps_life t t'"
proof -
  note d = renew_mutD [OF assms(1)]
  have "task_status t = ''leased'' \<or> task_status t = ''running''" using d assms(2) running_if_ok by blast
  then show ?thesis using d assms(2) by (elim disjE) (simp_all add: keeps_life_def task_defs status_simps)
qed

lemma receipt_keeps:
  assumes "receipt_mut claim token result t = Inr (Some t', a, w)" "task_status t = ''running''" "claim \<noteq> []"
    "result \<noteq> None \<longrightarrow> token \<noteq> []" "task_ok t"
  shows "keeps_life t t'"
proof (cases result)
  case None
  then have t': "execution_token t = []" "t' = t\<lparr>execution_token := claim\<rparr>"
    using assms by (auto simp: receipt_mut_def split: if_split_asm)
  then show ?thesis using assms(2,3,5) by (simp add: keeps_life_def task_defs status_simps)
next
  case (Some r)
  then have tok: "execution_token t \<noteq> []" using assms by (simp add: receipt_mut_def split: if_split_asm)
  have "execution_result_ref t = [] \<or> execution_result_ref t = res_result_ref r \<and> execution_evidence_ref t = res_evidence_ref r"
    and t': "t' = t\<lparr>execution_result_ref := res_result_ref r, execution_evidence_ref := res_evidence_ref r\<rparr>"
    using assms Some by (auto simp: receipt_mut_def split: if_split_asm)
  then have "execution_result_ref t \<noteq> [] \<longrightarrow> res_result_ref r = execution_result_ref t \<and>
      res_evidence_ref r = execution_evidence_ref t" by auto
  then show ?thesis using assms(2,5) tok by (simp add: t' keeps_life_def task_defs status_simps)
qed

lemma cancelled_keeps:
  assumes "\<not> task_ended (task_status t)" "task_ok t"
  shows "keeps_life t (cancelled_task now t)"
proof -
  have "task_status t \<noteq> ''completed''" using assms(1) by (auto simp: status_simps)
  then show ?thesis using assms by (simp add: cancelled_task_def keeps_life_def task_defs status_simps life_cancel)
qed

subsection \<open>The event log\<close>

text \<open>
  The events of a run are numbered from 1 without a gap and the run knows the last number (for
  as long as the numbers fit 64 bits).
\<close>

definition log_ok :: "snapshot option \<Rightarrow> stream_entry list \<Rightarrow> bool" where
  "log_ok st es \<longleftrightarrow> (case st of
     None \<Rightarrow> es = []
   | Some cur \<Rightarrow> length es < max_uint64 \<longrightarrow> map en_seq es = [1..<Suc (length es)] \<and> event_seq cur = length es)"

lemma log_last:
  assumes "map en_seq es = [1..<Suc (length es)]"
  shows "last_seq es = length es"
proof (cases es rule: rev_cases)
  case (snoc xs x)
  then have "map en_seq xs @ [en_seq x] = [1..<Suc (length xs)] @ [Suc (length xs)]"
    using assms by simp
  then show ?thesis using snoc by (simp add: last_seq_def)
qed (simp add: last_seq_def)

lemma log_append:
  assumes "log_ok (Some cur) es" "event_seq upd = inc64 (event_seq cur)" "en_seq e = event_seq upd"
  shows "log_ok (Some upd) (if last_seq es < en_seq e then es @ [e] else es)"
proof (cases "length es < max_uint64")
  case True
  then have "map en_seq es = [1..<Suc (length es)]" "event_seq cur = length es"
    using assms(1) by (simp_all add: log_ok_def)
  then show ?thesis using assms(2,3) True log_last [of es]
    by (simp add: log_ok_def inc64_small)
qed (simp add: log_ok_def)

lemma log_same: "log_ok (Some cur) es \<Longrightarrow> event_seq upd = event_seq cur \<Longrightarrow> log_ok (Some upd) es"
  by (simp add: log_ok_def)

text \<open>The keys a command leaves alone.\<close>

lemma exec_event_keys [simp]:
  "state_key (exec_cmd (XAddEvent e) s) = state_key s" "tasks_key (exec_cmd (XAddEvent e) s) = tasks_key s"
  "plans_key (exec_cmd (XAddEvent e) s) = plans_key s" "outbox_key (exec_cmd (XAddEvent e) s) = outbox_key s"
  "events_key (exec_cmd (XAddEvent e) s)
     = (if last_seq (events_key s) < en_seq e then events_key s @ [e] else events_key s)"
  by simp_all

lemmas event_cmd = exec_cmd.simps(4)

lemma advance_simps [simp]:
  "plan_revision (advance now cur) = plan_revision cur" "run_status (advance now cur) = run_status cur"
  "version (advance now cur) = inc64 (version cur)" "event_seq (advance now cur) = inc64 (event_seq cur)"
  "deadline_at (advance now cur) = deadline_at cur" "updated_at (advance now cur) = now"
  by (simp_all add: advance_def)

lemma task_entry_seq [simp]: "en_seq (task_entry ety sq tid t now) = sq"
  by (simp add: task_entry_def)

lemma run_entry_seq [simp]: "en_seq (run_entry sq ty st now) = sq"
  by (simp add: run_entry_def)

subsection \<open>The tasks of a run\<close>

definition dep_done :: "(string \<rightharpoonup> task_snapshot) \<Rightarrow> nat \<Rightarrow> string \<Rightarrow> bool" where
  "dep_done m rv d \<longleftrightarrow> (\<exists>u. m (task_field rv d) = Some u \<and> task_status u = ''completed'')"

definition row_ok :: "snapshot \<Rightarrow> (string \<rightharpoonup> task_snapshot) \<Rightarrow> string \<Rightarrow> task_snapshot \<Rightarrow> bool" where
  "row_ok cur m f t \<longleftrightarrow>
     f = task_field (task_revision t) (task_id t) \<and> task_ok t \<and> task_revision t \<le> plan_revision cur \<and>
     (task_revision t = 0 \<longrightarrow> task_id t = planning_task_id \<and> depends_on t = [] \<and>
        task_status t \<noteq> ''pending_dependency'' \<and> task_status t \<noteq> ''skipped'') \<and>
     (task_status t = ''cancelled'' \<longrightarrow> terminal (run_status cur)) \<and>
     (plan_revision cur = 0 \<longrightarrow> task_status t \<noteq> ''completed'') \<and>
     (needs_deps t \<longrightarrow> (\<forall>d\<in>set (depends_on t). dep_done m (task_revision t) d))"

definition tasks_ok :: "snapshot \<Rightarrow> (string \<rightharpoonup> task_snapshot) \<Rightarrow> bool" where
  "tasks_ok cur m \<longleftrightarrow> (\<forall>f t. m f = Some t \<longrightarrow> row_ok cur m f t) \<and>
     (run_status cur = ''accepted'' \<longrightarrow> m planning_field = None) \<and> plan_revision cur \<le> max_uint64"

lemma tasks_okD: "tasks_ok cur m \<Longrightarrow> m f = Some t \<Longrightarrow> row_ok cur m f t"
  by (simp add: tasks_ok_def)

lemma row_task_ok: "tasks_ok cur m \<Longrightarrow> m f = Some t \<Longrightarrow> task_ok t"
  by (simp add: tasks_ok_def row_ok_def)

text \<open>A row that depends on others keeps what it needs while they move on.\<close>

definition map_later :: "(string \<rightharpoonup> task_snapshot) \<Rightarrow> (string \<rightharpoonup> task_snapshot) \<Rightarrow> bool" where
  "map_later m m' \<longleftrightarrow> (\<forall>f t. m f = Some t \<longrightarrow> (\<exists>t'. m' f = Some t' \<and> task_move t t'))"

lemma task_move_refl [simp]: "task_move t t"
  by (simp add: task_move_def life_def)

lemma map_laterD: "map_later m m' \<Longrightarrow> m f = Some t \<Longrightarrow> \<exists>t'. m' f = Some t' \<and> task_move t t'"
  by (simp add: map_later_def)

lemma dep_done_later: "dep_done m rv d \<Longrightarrow> map_later m m' \<Longrightarrow> dep_done m' rv d"
proof -
  assume "dep_done m rv d" and later: "map_later m m'"
  then obtain u where u: "m (task_field rv d) = Some u" "task_status u = ''completed''"
    by (auto simp: dep_done_def)
  then obtain u' where u': "m' (task_field rv d) = Some u'" "task_move u u'" using map_laterD later by blast
  then have "u' = u" using u(2) by (simp add: task_move_def task_later_def)
  then show ?thesis using u u' by (simp add: dep_done_def)
qed

lemma keeps_move: "keeps_life t t' \<Longrightarrow> task_move t t'"
  by (simp add: keeps_life_def)

lemma put_later: "m f = Some t \<Longrightarrow> task_move t t' \<Longrightarrow> map_later m (m(f \<mapsto> t'))"
  by (simp add: map_later_def)

lemma life_planning:
  "life a b \<Longrightarrow> a \<noteq> ''pending_dependency'' \<Longrightarrow> a \<noteq> ''skipped'' \<Longrightarrow> b \<noteq> ''pending_dependency'' \<and> b \<noteq> ''skipped''"
  unfolding life_def life_edges_def by auto

lemma put_row:
  assumes inv: "tasks_ok cur m" and t: "m f = Some t" and move: "task_move t t'" and ok: "task_ok t'"
    and deps: "needs_deps t' \<longrightarrow> needs_deps t \<or> (\<forall>d\<in>set (depends_on t). dep_done m (task_revision t) d)"
    and compl: "task_status t' = ''completed'' \<longrightarrow> task_status t = ''completed'' \<or> plan_revision cur \<noteq> 0"
    and canc: "task_status t' = ''cancelled'' \<longrightarrow> task_status t = ''cancelled'' \<or> terminal (run_status upd)"
    and upd: "plan_revision upd = plan_revision cur" "run_status upd = ''accepted'' \<longrightarrow> run_status cur = ''accepted''"
      "terminal (run_status cur) \<longrightarrow> terminal (run_status upd)"
  shows "tasks_ok upd (m(f \<mapsto> t'))"
proof -
  have later: "map_later m (m(f \<mapsto> t'))" by (rule put_later [of m f t t']) (rule t, rule move)
  have same: "task_id t' = task_id t" "task_revision t' = task_revision t" "depends_on t' = depends_on t"
    using move by (simp_all add: task_move_def task_later_def)
  have rowt: "row_ok cur m f t" using inv t by (rule tasks_okD)
  have "row_ok upd (m(f \<mapsto> t')) g u" if g: "(m(f \<mapsto> t')) g = Some u" for g u
  proof (cases "g = f")
    case True
    then have u: "u = t'" using g by simp
    have "\<forall>d\<in>set (depends_on t). dep_done (m(f \<mapsto> t')) (task_revision t) d" if "needs_deps t'"
    proof -
      have "\<forall>d\<in>set (depends_on t). dep_done m (task_revision t) d"
        using that deps rowt by (auto simp: row_ok_def)
      then show ?thesis using dep_done_later [OF _ later] by blast
    qed
    moreover have "plan_revision cur = 0 \<longrightarrow> task_status t' \<noteq> ''completed''" using compl rowt by (auto simp: row_ok_def)
    moreover have "task_status t' = ''cancelled'' \<longrightarrow> terminal (run_status upd)"
      using canc rowt upd(3) by (auto simp: row_ok_def)
    moreover have "task_revision t = 0 \<longrightarrow> task_status t' \<noteq> ''pending_dependency'' \<and> task_status t' \<noteq> ''skipped''"
      using rowt move life_planning by (auto simp: row_ok_def task_move_def)
    ultimately show ?thesis using rowt ok unfolding row_ok_def u True same upd by blast
  next
    case False
    then have "row_ok cur m g u" using g inv by (simp add: tasks_ok_def)
    then show ?thesis using dep_done_later [OF _ later] upd unfolding row_ok_def by auto
  qed
  moreover have "run_status upd = ''accepted'' \<longrightarrow> (m(f \<mapsto> t')) planning_field = None"
    using inv t upd(2) by (auto simp: tasks_ok_def)
  ultimately show ?thesis using inv upd by (simp add: tasks_ok_def)
qed

lemma keeps_row:
  assumes inv: "tasks_ok cur m" and t: "m f = Some t" and keep: "keeps_life t t'"
    and compl: "task_status t' = ''completed'' \<longrightarrow> task_status t = ''completed'' \<or> plan_revision cur \<noteq> 0"
    and canc: "task_status t' = ''cancelled'' \<longrightarrow> task_status t = ''cancelled'' \<or> terminal (run_status upd)"
    and upd: "plan_revision upd = plan_revision cur" "run_status upd = ''accepted'' \<longrightarrow> run_status cur = ''accepted''"
      "terminal (run_status cur) \<longrightarrow> terminal (run_status upd)"
  shows "tasks_ok upd (m(f \<mapsto> t'))"
  using put_row [OF inv t _ _ _ compl canc upd] keep by (auto simp: keeps_life_def)

lemma tasks_ok_state:
  "tasks_ok cur m \<Longrightarrow> plan_revision cur \<le> plan_revision upd \<Longrightarrow> plan_revision upd \<le> max_uint64 \<Longrightarrow>
     run_status upd \<noteq> ''accepted'' \<Longrightarrow> (terminal (run_status cur) \<longrightarrow> terminal (run_status upd)) \<Longrightarrow> tasks_ok upd m"
  unfolding tasks_ok_def row_ok_def by (fastforce intro: le_trans)

lemma tasks_ok_max: "tasks_ok cur m \<Longrightarrow> plan_revision cur \<le> max_uint64"
  by (simp add: tasks_ok_def)

subsection \<open>The invariant of a run\<close>

text \<open>Every installed plan is valid and its tasks are in the hash.\<close>

definition plan_ok :: "snapshot \<Rightarrow> (string \<rightharpoonup> task_snapshot) \<Rightarrow> nat \<Rightarrow> run_plan \<Rightarrow> bool" where
  "plan_ok cur m rv p \<longleftrightarrow> rv \<noteq> 0 \<and> rv \<le> plan_revision cur \<and> plan_rev p = rv \<and> valid_plan p \<and>
     (\<forall>d\<in>set (plan_tasks p). \<exists>t. m (task_field rv (def_task_id d)) = Some t \<and> depends_on t = def_depends_on d)"

definition plans_ok :: "snapshot \<Rightarrow> (string \<rightharpoonup> task_snapshot) \<Rightarrow> (nat \<rightharpoonup> run_plan) \<Rightarrow> bool" where
  "plans_ok cur m ps \<longleftrightarrow> (\<forall>rv p. ps rv = Some p \<longrightarrow> plan_ok cur m rv p)"

definition slot_ok :: "run_slot \<Rightarrow> bool" where
  "slot_ok s \<longleftrightarrow> log_ok (state_key s) (events_key s) \<and> distinct (map fst (tasks_key s)) \<and>
     (case state_key s of
        None \<Rightarrow> tasks_key s = [] \<and> plans_key s = []
      | Some cur \<Rightarrow> tasks_ok cur (map_of (tasks_key s)) \<and> plans_ok cur (map_of (tasks_key s)) (map_of (plans_key s)))"

definition good_step :: "run_slot \<Rightarrow> run_slot \<Rightarrow> bool" where
  "good_step s s' \<longleftrightarrow> slot_ok s' \<and> map_later (map_of (tasks_key s)) (map_of (tasks_key s'))"

lemma map_later_refl [simp]: "map_later m m"
  by (simp add: map_later_def)

lemma plans_later:
  assumes "plans_ok cur m ps" "map_later m m'" "plan_revision cur \<le> plan_revision upd"
  shows "plans_ok upd m' ps"
proof -
  have "plan_ok upd m' rv p" if "plan_ok cur m rv p" for rv p
  proof -
    have "\<exists>t. m' (task_field rv (def_task_id d)) = Some t \<and> depends_on t = def_depends_on d"
      if "d \<in> set (plan_tasks p)" for d
    proof -
      obtain t where t: "m (task_field rv (def_task_id d)) = Some t" "depends_on t = def_depends_on d"
        using \<open>plan_ok cur m rv p\<close> \<open>d \<in> set (plan_tasks p)\<close> by (auto simp: plan_ok_def)
      then obtain t' where "m' (task_field rv (def_task_id d)) = Some t'" "task_move t t'"
        using map_laterD assms(2) by blast
      then show ?thesis using t by (simp add: task_move_def task_later_def)
    qed
    then show ?thesis using that assms(3) by (simp add: plan_ok_def)
  qed
  then show ?thesis using assms(1) by (simp add: plans_ok_def)
qed

lemma good_stepI:
  assumes ok: "slot_ok s" and cur: "state_key s = Some cur" and st: "state_key s' = Some upd"
    and log: "log_ok (Some upd) (events_key s')"
    and tasks: "tasks_ok upd (map_of (tasks_key s'))" and later: "map_later (map_of (tasks_key s)) (map_of (tasks_key s'))"
    and plans: "plans_key s' = plans_key s" "plan_revision cur \<le> plan_revision upd"
    and dist: "distinct (map fst (tasks_key s'))"
  shows "good_step s s'"
proof -
  have "plans_ok cur (map_of (tasks_key s)) (map_of (plans_key s))" using ok cur by (simp add: slot_ok_def)
  then have "plans_ok upd (map_of (tasks_key s')) (map_of (plans_key s'))"
    using plans_later [OF _ later plans(2)] plans(1) by simp
  then show ?thesis using st log tasks later dist by (simp add: good_step_def slot_ok_def)
qed

lemma exec_task_pipe:
  assumes "s' = exec_pipe [HSetTask f t, HSetState v, XAddEvent e] s"
  shows "state_key s' = Some v" "tasks_key s' = AList.update f t (tasks_key s)" "plans_key s' = plans_key s"
    "events_key s' = (if last_seq (events_key s) < en_seq e then events_key s @ [e] else events_key s)"
  using assms by simp_all

text \<open>A task mutation with its new version and its event.\<close>

lemma row_step:
  assumes ok: "slot_ok s" and cur: "state_key s = Some cur" and t: "task_at s f = Some t"
    and row: "tasks_ok upd ((map_of (tasks_key s))(f \<mapsto> t'))" and move: "task_move t t'"
    and st: "state_key s' = Some upd" "tasks_key s' = AList.update f t' (tasks_key s)" "plans_key s' = plans_key s"
    and ev: "events_key s' = (if last_seq (events_key s) < en_seq e then events_key s @ [e] else events_key s)"
      "en_seq e = event_seq upd" "event_seq upd = inc64 (event_seq cur)"
    and upd: "plan_revision upd = plan_revision cur"
  shows "good_step s s'"
proof (rule good_stepI [OF ok cur st(1)])
  have log: "log_ok (Some cur) (events_key s)" using ok cur by (simp add: slot_ok_def)
  show "log_ok (Some upd) (events_key s')"
    unfolding ev(1) by (rule log_append [OF log ev(3) ev(2)])
  show "tasks_ok upd (map_of (tasks_key s'))" using row by (simp add: st(2) AList.update_conv')
  show "map_later (map_of (tasks_key s)) (map_of (tasks_key s'))"
    using put_later [of "map_of (tasks_key s)" f t t'] t move by (simp add: st(2) AList.update_conv')
  show "distinct (map fst (tasks_key s'))" using ok by (simp add: st(2) slot_ok_def distinct_update)
qed (use st upd in simp_all)

lemma slot_tasks_ok: "slot_ok s \<Longrightarrow> state_key s = Some cur \<Longrightarrow> tasks_ok cur (map_of (tasks_key s))"
  by (simp add: slot_ok_def)

lemma mutate_good:
  assumes ok: "slot_ok s" and c: "commits (mutate_tx cfg ident ev rv tid ety mut) now s r s'"
    and keep: "\<And>t t'. mut t now = Inr t' \<Longrightarrow> task_ok t \<Longrightarrow> keeps_life t t'"
    and fin: "\<And>t t'. mut t now = Inr t' \<Longrightarrow> task_status t' \<noteq> ''cancelled'' \<and> (task_status t' = ''completed'' \<longrightarrow> 0 < rv)"
  shows "good_step s s'"
proof -
  obtain cur t t' where cur: "state_key s = Some cur" "plan_revision cur = rv" and t: "task_at s (task_field rv tid) = Some t"
    and mut: "mut t now = Inr t'"
    and s': "s' = exec_pipe [HSetTask (task_field rv tid) t', HSetState (advance now cur),
               XAddEvent (task_entry ety (event_seq (advance now cur)) tid t' now)] s"
    using c by (auto simp: mutate_commits)
  have inv: "tasks_ok cur (map_of (tasks_key s))" using ok cur by (simp add: slot_tasks_ok)
  have k: "keeps_life t t'" using keep mut row_task_ok [OF inv t] by blast
  have row: "tasks_ok (advance now cur) ((map_of (tasks_key s))(task_field rv tid \<mapsto> t'))"
    by (rule keeps_row [OF inv t k]) (use fin [OF mut] cur in auto)
  note x = exec_task_pipe [OF s']
  show ?thesis
    by (rule row_step [OF ok cur(1) t row keeps_move [OF k] x(1-4)]) simp_all
qed

text \<open>One step lemma per mutation.\<close>

lemma waiting_good:
  assumes "slot_ok s" "commits (mark_capacity_waiting_tx cfg ident ev rv tid reason) now s r s'"
  shows "good_step s s'"
proof -
  have "commits (mutate_tx cfg ident ev rv tid ''agent_run.task_status'' (mark_waiting_mut reason)) now s r s'"
    using assms(2) by (simp add: mark_capacity_waiting_tx_def Let_def)
  then show ?thesis by (rule mutate_good [OF assms(1)]) (erule (1) waiting_keeps, auto dest!: waiting_mutD)
qed

lemma lease_good:
  assumes "slot_ok s" "commits (lease_task_tx cfg clk ident ev rv tid owner fc until) now s r s'"
  shows "good_step s s'"
proof -
  have "commits (mutate_tx cfg ident ev rv tid ''agent_run.task_status'' (lease_mut cfg owner fc until)) now s r s'"
    using assms(2) by (simp add: lease_task_tx_def Let_def)
  then show ?thesis by (rule mutate_good [OF assms(1)]) (erule (1) lease_keeps, auto elim!: lease_mutD)
qed

lemma start_good:
  assumes "slot_ok s" "commits (start_task_tx cfg ident ev rv tid owner fc) now s r s'"
  shows "good_step s s'"
proof -
  have "commits (mutate_tx cfg ident ev rv tid ''agent_run.task_started'' (start_mut owner fc)) now s r s'"
    using assms(2) by (simp add: start_task_tx_def Let_def)
  then show ?thesis by (rule mutate_good [OF assms(1)]) (erule (1) start_keeps, auto dest!: start_mutD)
qed

lemma complete_good:
  assumes "slot_ok s" "commits (complete_task_tx cfg ident ev rv tid owner fc rr er) now s r s'" "0 < rv"
  shows "good_step s s'"
proof -
  have c: "commits (mutate_tx cfg ident ev rv tid ''agent_run.task_completed'' (complete_mut owner fc rr er)) now s r s'"
    and e: "\<not> blank rr" "\<not> blank er" using assms(2) by (simp_all add: complete_task_tx_def)
  show ?thesis by (rule mutate_good [OF assms(1) c]) (erule complete_keeps [OF _ e], assumption, use assms(3) in \<open>auto dest!: complete_mutD\<close>)
qed

lemma fail_good:
  assumes "slot_ok s" "commits (fail_task_tx cfg ident ev rv tid owner fc reason stages) now s r s'"
  shows "good_step s s'"
proof -
  have "commits (mutate_tx cfg ident ev rv tid ''agent_run.task_failed'' (fail_mut owner fc reason (case stages of [st] \<Rightarrow> st | _ \<Rightarrow> []))) now s r s'"
    using assms(2) by (simp add: fail_task_tx_def Let_def)
  then show ?thesis by (rule mutate_good [OF assms(1)]) (erule (1) fail_keeps, auto dest!: fail_mutD)
qed

lemma skip_good:
  assumes "slot_ok s" "commits (skip_task_tx cfg ident ev rv tid reason) now s r s'"
  shows "good_step s s'"
proof -
  have "commits (mutate_tx cfg ident ev rv tid ''agent_run.task_skipped'' (skip_mut reason)) now s r s'"
    using assms(2) by (simp add: skip_task_tx_def Let_def)
  then show ?thesis by (rule mutate_good [OF assms(1)]) (erule (1) skip_keeps, auto dest!: skip_mutD)
qed

lemma expire_queued_good:
  assumes "slot_ok s" "commits (expire_queued_task_tx cfg ident ev rv tid) now s r s'"
  shows "good_step s s'"
proof -
  have "commits (mutate_tx cfg ident ev rv tid ''agent_run.task_failed'' (expire_queued_mut cfg)) now s r s'"
    using assms(2) by (simp add: expire_queued_task_tx_def Let_def)
  then show ?thesis by (rule mutate_good [OF assms(1)]) (erule (1) expire_queued_keeps, auto dest!: expire_queued_mutD)
qed

lemma expire_unstarted_good:
  assumes "slot_ok s" "commits (expire_unstarted_task_tx cfg ident ev rv tid) now s r s'"
  shows "good_step s s'"
proof -
  have "commits (mutate_tx cfg ident ev rv tid ''agent_run.task_failed'' (expire_unstarted_mut)) now s r s'"
    using assms(2) by (simp add: expire_unstarted_task_tx_def Let_def)
  then show ?thesis by (rule mutate_good [OF assms(1)]) (erule (1) expire_unstarted_keeps, auto elim!: expire_unstarted_mutD)
qed

text \<open>The steps that write the task alone.\<close>

lemma row_only:
  assumes ok: "slot_ok s" and t: "task_at s f = Some t" and k: "keeps_life t t'"
    and nc: "task_status t' = task_status t"
    and s': "s' = exec_pipe [HSetTask f t'] s"
  shows "good_step s s'"
proof -
  obtain cur where cur: "state_key s = Some cur" using ok t by (cases "state_key s") (auto simp: slot_ok_def)
  have inv: "tasks_ok cur (map_of (tasks_key s))" using ok cur by (rule slot_tasks_ok)
  show ?thesis
  proof (rule good_stepI [OF ok cur, of s' cur])
    show "tasks_ok cur (map_of (tasks_key s'))"
      using keeps_row [OF inv t k _ _ refl] nc by (simp add: s' AList.update_conv')
    show "map_later (map_of (tasks_key s)) (map_of (tasks_key s'))"
      using put_later [of "map_of (tasks_key s)" f t t'] t keeps_move [OF k] by (simp add: s' AList.update_conv')
    show "log_ok (Some cur) (events_key s')" using ok cur by (simp add: slot_ok_def s')
    show "distinct (map fst (tasks_key s'))" using ok by (simp add: s' slot_ok_def distinct_update)
  qed (simp_all add: s' cur)
qed

lemma renew_good:
  assumes ok: "slot_ok s" and c: "commits (renew_task_lease_tx cfg clk ident rv tid owner fc until) now s r s'"
  shows "good_step s s'"
proof -
  obtain t t' where t: "task_at s (task_field rv tid) = Some t" and mut: "renew_mut owner fc until t now = Inr t'"
    and s': "s' = exec_pipe [HSetTask (task_field rv tid) t'] s"
    using c by (auto simp: commits_def renew_task_lease_tx_def bind_res_Inr_iff split: option.splits)
  have "task_ok t" using ok t by (auto simp: slot_ok_def split: option.splits dest: row_task_ok)
  from renew_keeps [OF mut this] show ?thesis
    by (rule row_only [OF ok t _ _ s']) (use renew_mutD [OF mut] in auto)
qed

lemma receipt_good:
  assumes ok: "slot_ok s" and c: "commits (execution_receipt_tx cfg claim ref owner fc token result) now s r s'"
    and claim: "claim \<noteq> []"
  shows "good_step s s'"
proof -
  let ?f = "task_field (ref_revision ref) (ref_task_id ref)"
  obtain run t t' a w where t: "task_at s ?f = Some t" and allowed: "receipt_allowed ref owner fc run t now"
    and mut: "receipt_mut claim token result t = Inr (Some t', a, w)" and s': "s' = exec_pipe [HSetTask ?f t'] s"
    and tok: "result \<noteq> None \<longrightarrow> token \<noteq> []"
    using c by (auto simp: commits_def execution_receipt_tx_def bind_res_Inr_iff Let_def split: option.splits if_splits)
  have st: "task_status t = ''running''" using allowed by (simp add: receipt_allowed_def)
  have "task_ok t" using ok t by (auto simp: slot_ok_def split: option.splits dest: row_task_ok)
  then have k: "keeps_life t t'" using receipt_keeps mut st claim tok by blast
  have "task_status t' = task_status t" using mut by (auto simp: receipt_mut_def split: option.splits if_splits)
  then show ?thesis using row_only [OF ok t k _ s'] by simp
qed

text \<open>The cursor, Create, Transition.\<close>

lemma cursor_commits:
  "commits (advance_cursor_tx entry) now s u s' \<longleftrightarrow>
     (\<exists>run. state_key s = Some run \<and> \<not> terminal (run_status run)) \<and> s' = s\<lparr>cursor_key := Some entry\<rparr>"
  by (auto simp: commits_def advance_cursor_tx_def split: option.splits)

lemma cursor_good:
  assumes "slot_ok s" "commits (advance_cursor_tx entry) now s u s'"
  shows "good_step s s'"
  using assms by (auto simp: cursor_commits good_step_def slot_ok_def)

lemma create_good:
  assumes ok: "slot_ok s" and c: "commits (create_tx cfg recover t ini) now s r s'" and rev: "plan_revision ini = 0"
  shows "good_step s s'"
proof -
  obtain v e where none: "state_key s = None" and s': "s' = exec_pipe [HSetState v, XAddEvent e] s"
    and v: "plan_revision v = 0" "event_seq v = 1" "en_seq e = 1"
    using c rev by (auto simp: commits_def create_tx_def Let_def simp del: exec_pipe_simps split: option.splits if_splits)
  have "events_key s = []" "tasks_key s = []" "plans_key s = []" using ok none by (simp_all add: slot_ok_def log_ok_def)
  then have "log_ok (Some v) (events_key s')" "tasks_ok v (map_of (tasks_key s'))" "tasks_key s' = []" "plans_key s' = []"
      "state_key s' = Some v"
    using v by (simp_all add: s' log_ok_def last_seq_def tasks_ok_def)
  then show ?thesis using \<open>tasks_key s = []\<close> by (simp add: good_step_def slot_ok_def plans_ok_def)
qed

lemma transition_good:
  assumes ok: "slot_ok s" and c: "commits (transition_tx cfg ident ev st ety) now s r s'" and st: "terminal st"
  shows "good_step s s'"
proof -
  let ?upd = "\<lambda>cur. (advance now cur)\<lparr>run_status := st\<rparr>"
  obtain cur where cur: "state_key s = Some cur"
    and s': "s' = exec_pipe [HSetState (?upd cur), XAddEvent (run_entry (event_seq (?upd cur)) ety st now)] s"
    using c by (auto simp: commits_def transition_tx_def Let_def split: option.splits if_splits)
  have log: "log_ok (Some cur) (events_key s)" using ok cur by (simp add: slot_ok_def)
  have na: "run_status (?upd cur) \<noteq> ''accepted''" using st by (auto simp: terminal_def)
  show ?thesis
  proof (rule good_stepI [OF ok cur, of s' "?upd cur"])
    let ?e = "run_entry (event_seq (?upd cur)) ety st now"
    have ev: "events_key s' = (if last_seq (events_key s) < en_seq ?e then events_key s @ [?e] else events_key s)"
      by (simp add: s')
    show "log_ok (Some (?upd cur)) (events_key s')" unfolding ev by (rule log_append [OF log]) simp_all
    show "tasks_ok (?upd cur) (map_of (tasks_key s'))"
      using tasks_ok_state [OF slot_tasks_ok [OF ok cur], of "?upd cur"] na st tasks_ok_max [OF slot_tasks_ok [OF ok cur]]
      by (simp add: s')
    show "distinct (map fst (tasks_key s'))" using ok by (simp add: s' slot_ok_def)
  qed (simp_all add: s')
qed

text \<open>QueueTask: the one step after which a task needs its dependencies.\<close>

lemma deps_completed_iff: "deps_completed s rv ds = Inr () \<longleftrightarrow> (\<forall>d\<in>set ds. dep_done (map_of (tasks_key s)) rv d)"
  by (induction ds) (auto simp: dep_done_def split: option.splits)

lemma queue_good:
  assumes ok: "slot_ok s" and c: "commits (queue_task_tx cfg ident ev rv tid reason) now s r s'"
  shows "good_step s s'"
proof -
  let ?upd = "\<lambda>cur. (advance now cur)\<lparr>run_status := ''running''\<rparr>"
  let ?t' = "\<lambda>t. t\<lparr>task_status := ''queued'', attempt := inc64 (attempt t), queued_at := now, queue_reason := reason\<rparr>"
  let ?f = "task_field rv tid"
  let ?e = "\<lambda>cur t. (run_entry (event_seq (?upd cur)) ''agent_run.task_status'' ''queued'' now)
     \<lparr>en_task_id := tid, en_attempt := attempt (?t' t)\<rparr>"
  obtain cur t where cur: "state_key s = Some cur" and t: "task_at s ?f = Some t"
    and nt: "\<not> terminal (run_status cur)"
    and st: "task_status t = ''pending_dependency'' \<or> task_status t = ''retry_wait''"
    and deps: "deps_completed s rv (depends_on t) = Inr ()"
    and s': "s' = exec_pipe [HSetTask ?f (?t' t), HSetState (?upd cur), XAddEvent (?e cur t),
       XAddOutbox (run_id ident) rv tid (attempt (?t' t)) (event_seq (?upd cur))] s"
    using c by (auto simp: commits_def queue_task_tx_def Let_def bind_res_Inr_iff split: option.splits if_splits)
  have inv: "tasks_ok cur (map_of (tasks_key s))" using ok cur by (rule slot_tasks_ok)
  have row: "row_ok cur (map_of (tasks_key s)) ?f t" using inv t by (rule tasks_okD)
  then have rv: "task_revision t = rv" and tok: "task_ok t" by (simp_all add: row_ok_def)
  have pend: "task_status t = ''pending_dependency''" using st tok by (auto simp: task_ok_def status_simps)
  have move: "task_move t (?t' t)" and tok': "task_ok (?t' t)" using tok pend by (simp_all add: task_defs status_simps)
  have dd: "\<forall>d\<in>set (depends_on t). dep_done (map_of (tasks_key s)) (task_revision t) d"
    using deps by (simp add: deps_completed_iff rv)
  have new: "tasks_ok (?upd cur) ((map_of (tasks_key s))(?f \<mapsto> ?t' t))"
    by (rule put_row [OF inv t move tok']) (use dd nt in simp_all)
  show ?thesis
    by (rule row_step [OF ok cur t new move, where e = "?e cur t"]) (simp_all add: s')
qed

text \<open>Installing a plan: its tasks are new rows.\<close>

lemma good_stepI':
  assumes st: "state_key s' = Some upd" and log: "log_ok (Some upd) (events_key s')"
    and tasks: "tasks_ok upd (map_of (tasks_key s'))" and later: "map_later (map_of (tasks_key s)) (map_of (tasks_key s'))"
    and plans: "plans_ok upd (map_of (tasks_key s')) (map_of (plans_key s'))"
    and dist: "distinct (map fst (tasks_key s'))"
  shows "good_step s s'"
  using assms by (simp add: good_step_def slot_ok_def)

definition put_tasks :: "nat \<Rightarrow> task_definition list \<Rightarrow> redis_cmd list" where
  "put_tasks rv ds = map (\<lambda>d. HSetTask (task_field rv (def_task_id d)) (initial_task rv d)) ds"

lemma install_cmds_put: "install_cmds p = put_tasks (plan_rev p) (plan_tasks p)"
  by (simp add: install_cmds_def put_tasks_def)

lemma put_tasks_keys [simp]:
  "state_key (exec_pipe (put_tasks rv ds) s) = state_key s" "events_key (exec_pipe (put_tasks rv ds) s) = events_key s"
  "plans_key (exec_pipe (put_tasks rv ds) s) = plans_key s"
  by (induction ds arbitrary: s) (simp_all add: put_tasks_def)

lemma put_tasks_distinct:
  "distinct (map fst (tasks_key s)) \<Longrightarrow> distinct (map fst (tasks_key (exec_pipe (put_tasks rv ds) s)))"
  by (induction ds arbitrary: s) (simp_all add: put_tasks_def distinct_update)

lemma put_tasks_old:
  "\<forall>d\<in>set ds. f \<noteq> task_field rv (def_task_id d) \<Longrightarrow> task_at (exec_pipe (put_tasks rv ds) s) f = task_at s f"
  by (induction ds arbitrary: s) (simp_all add: put_tasks_def AList.update_conv')

lemma put_tasks_new:
  "distinct (map def_task_id ds) \<Longrightarrow> d \<in> set ds \<Longrightarrow>
     task_at (exec_pipe (put_tasks rv ds) s) (task_field rv (def_task_id d)) = Some (initial_task rv d)"
proof (induction ds arbitrary: s)
  case (Cons e ds)
  let ?s = "exec_cmd (HSetTask (task_field rv (def_task_id e)) (initial_task rv e)) s"
  have x: "exec_pipe (put_tasks rv (e # ds)) s = exec_pipe (put_tasks rv ds) ?s" by (simp add: put_tasks_def)
  show ?case
  proof (cases "d \<in> set ds")
    case True
    then show ?thesis unfolding x using Cons by simp
  next
    case False
    then have d: "d = e" using Cons.prems(2) by simp
    have "def_task_id e \<notin> def_task_id ` set ds" using Cons.prems(1) by simp
    then have "\<forall>d'\<in>set ds. task_field rv (def_task_id e) \<noteq> task_field rv (def_task_id d')" by auto
    then show ?thesis unfolding x d by (simp add: put_tasks_old AList.update_conv')
  qed
qed simp

lemma initial_task_simps [simp]:
  "task_id (initial_task rv d) = def_task_id d" "task_revision (initial_task rv d) = rv"
  "task_status (initial_task rv d) = ''pending_dependency''" "depends_on (initial_task rv d) = def_depends_on d"
  "task_ok (initial_task rv d)"
  by (simp_all add: initial_task_def no_task_def task_ok_def status_simps)

lemma put_tasks_ok:
  assumes inv: "tasks_ok upd (map_of (tasks_key s))" and rv: "rv = plan_revision upd" "rv \<noteq> 0"
    and old: "\<And>f t. task_at s f = Some t \<Longrightarrow> task_revision t < rv"
    and dist: "distinct (map def_task_id ds)" and na: "run_status upd \<noteq> ''accepted''"
  shows "tasks_ok upd (map_of (tasks_key (exec_pipe (put_tasks rv ds) s)))"
    and "map_later (map_of (tasks_key s)) (map_of (tasks_key (exec_pipe (put_tasks rv ds) s)))"
proof -
  let ?m = "map_of (tasks_key s)" and ?m' = "map_of (tasks_key (exec_pipe (put_tasks rv ds) s))"
  have keep: "?m' f = Some t" if "?m f = Some t" for f t
  proof -
    have "f = task_field (task_revision t) (task_id t)" using tasks_okD [OF inv that] by (simp add: row_ok_def)
    then have "\<forall>d\<in>set ds. f \<noteq> task_field rv (def_task_id d)" using old [OF that] by auto
    then show ?thesis using that by (simp add: put_tasks_old)
  qed
  then show later: "map_later ?m ?m'" by (auto simp: map_later_def)
  have "row_ok upd ?m' f t" if f: "?m' f = Some t" for f t
  proof (cases "\<exists>d\<in>set ds. f = task_field rv (def_task_id d)")
    case True
    then obtain d where d: "d \<in> set ds" "f = task_field rv (def_task_id d)" by blast
    then have "t = initial_task rv d" using put_tasks_new [OF dist d(1), of rv s] f by simp
    then show ?thesis using d rv by (simp add: row_ok_def status_simps)
  next
    case False
    then have "?m f = Some t" using f by (simp add: put_tasks_old)
    then have "row_ok upd ?m f t" using inv by (simp add: tasks_ok_def)
    then show ?thesis using dep_done_later [OF _ later] unfolding row_ok_def by blast
  qed
  then show "tasks_ok upd ?m'" using na inv by (simp add: tasks_ok_def)
qed

lemma valid_plan_distinct: "valid_plan p \<Longrightarrow> distinct (map def_task_id (plan_tasks p)) \<and> plan_rev p \<noteq> 0"
  using valid_plan_parts by blast

lemma put_plan_ok:
  assumes plans: "plans_ok cur m ps" and later: "map_later m m'" and rv: "plan_revision cur \<le> plan_revision upd"
    "plan_rev p = plan_revision upd" and p: "valid_plan p"
    and new: "\<And>d. d \<in> set (plan_tasks p) \<Longrightarrow> m' (task_field (plan_rev p) (def_task_id d)) = Some (initial_task (plan_rev p) d)"
  shows "plans_ok upd m' (ps(plan_rev p \<mapsto> p))"
proof -
  have "plan_rev p \<noteq> 0" using valid_plan_distinct [OF p] by simp
  then have "plan_ok upd m' (plan_rev p) p" using new p rv by (simp add: plan_ok_def)
  then show ?thesis using plans_later [OF plans later rv(1)] by (simp add: plans_ok_def)
qed

lemma inc64_pos: "inc64 n \<noteq> 0 \<Longrightarrow> n \<le> max_uint64 \<Longrightarrow> inc64 n = Suc n \<and> Suc n \<le> max_uint64"
  by (cases "n = max_uint64") (simp_all add: inc64_def max_uint64_def)

lemma install_good:
  assumes ok: "slot_ok s" and c: "commits (install_plan_tx cfg ident ev p) now s r s'"
  shows "good_step s s'"
proof -
  let ?upd = "\<lambda>cur. (advance now cur)\<lparr>plan_revision := plan_rev p, run_status := ''planning''\<rparr>"
  let ?e = "\<lambda>cur. run_entry (event_seq (?upd cur)) ''agent_run.plan_created'' ''planning'' now"
  obtain cur where cur: "state_key s = Some cur" and nt: "\<not> terminal (run_status cur)"
    and rv: "plan_rev p = inc64 (plan_revision cur)" and p: "valid_plan p"
    and s': "s' = exec_pipe ([HSetPlan (plan_rev p) p] @ install_cmds p @ [HSetState (?upd cur), XAddEvent (?e cur)]) s"
    using c by (auto simp: commits_def install_plan_tx_def Let_def simp del: exec_pipe_simps split: option.splits if_splits)
  have inv: "tasks_ok cur (map_of (tasks_key s))" using ok cur by (rule slot_tasks_ok)
  have d: "distinct (map def_task_id (plan_tasks p))" "plan_rev p \<noteq> 0" using valid_plan_distinct [OF p] by simp_all
  then have suc: "plan_rev p = Suc (plan_revision cur)" "plan_rev p \<le> max_uint64"
    using inc64_pos tasks_ok_max [OF inv] rv by metis+
  define s1 where "s1 = exec_cmd (HSetPlan (plan_rev p) p) s"
  have s1: "tasks_key s1 = tasks_key s" "events_key s1 = events_key s" "plans_key s1 = AList.update (plan_rev p) p (plans_key s)"
    by (simp_all add: s1_def)
  define s2 where "s2 = exec_pipe (put_tasks (plan_rev p) (plan_tasks p)) s1"
  have x: "s' = exec_pipe [HSetState (?upd cur), XAddEvent (?e cur)] s2"
    by (simp add: s' s2_def s1_def install_cmds_put)
  have inv1: "tasks_ok (?upd cur) (map_of (tasks_key s1))"
    unfolding s1 by (rule tasks_ok_state [OF inv]) (use suc nt in simp_all)
  have old: "task_revision t < plan_rev p" if "task_at s1 f = Some t" for f t
  proof -
    have "task_at s f = Some t" using that by (simp add: s1)
    from tasks_okD [OF inv this] show ?thesis using suc(1) by (simp add: row_ok_def)
  qed
  have new: "tasks_ok (?upd cur) (map_of (tasks_key s2))" "map_later (map_of (tasks_key s)) (map_of (tasks_key s2))"
    using put_tasks_ok [OF inv1 _ d(2) old d(1)] by (simp_all add: s2_def s1)
  have log: "log_ok (Some cur) (events_key s)" using ok cur by (simp add: slot_ok_def)
  have ev: "events_key s' = (if last_seq (events_key s) < en_seq (?e cur) then events_key s @ [?e cur] else events_key s)"
    by (simp add: x s2_def s1)
  have "plans_ok cur (map_of (tasks_key s)) (map_of (plans_key s))" using ok cur by (simp add: slot_ok_def)
  then have pl: "plans_ok (?upd cur) (map_of (tasks_key s2)) ((map_of (plans_key s))(plan_rev p \<mapsto> p))"
    by (rule put_plan_ok [OF _ new(2) _ _ p]) (use suc put_tasks_new [OF d(1)] in \<open>simp_all add: s2_def\<close>)
  show ?thesis
  proof (rule good_stepI' [of s' "?upd cur" s])
    show "log_ok (Some (?upd cur)) (events_key s')" unfolding ev by (rule log_append [OF log]) simp_all
    show "plans_ok (?upd cur) (map_of (tasks_key s')) (map_of (plans_key s'))"
      using pl by (simp add: x s2_def s1 AList.update_conv')
    show "distinct (map fst (tasks_key s'))" using ok put_tasks_distinct [of s1] by (simp add: x s2_def s1 slot_ok_def)
  qed (use new in \<open>simp_all add: x\<close>)
qed

text \<open>Planning.\<close>

lemma planning_task_simps [simp]:
  "task_id (planning_task now) = planning_task_id" "task_revision (planning_task now) = 0"
  "task_status (planning_task now) = ''queued''" "depends_on (planning_task now) = []" "task_ok (planning_task now)"
  by (simp_all add: planning_task_def no_task_def task_ok_def status_simps)

lemma start_planning_good:
  assumes ok: "slot_ok s" and c: "commits (start_planning_tx cfg ident) now s r s'"
  shows "good_step s s'"
proof -
  let ?upd = "\<lambda>cur. (advance now cur)\<lparr>run_status := ''planning''\<rparr>"
  let ?e = "\<lambda>cur. run_entry (event_seq (?upd cur)) ''agent_run.planning_queued'' ''planning'' now"
  let ?pt = "planning_task now" and ?m = "map_of (tasks_key s)"
  obtain cur where cur: "state_key s = Some cur" and acc: "run_status cur = ''accepted''" "plan_revision cur = 0"
    and s': "s' = exec_pipe [HSetState (?upd cur), HSetTask planning_field ?pt, XAddEvent (?e cur),
       XAddOutbox (run_id ident) 0 planning_task_id 1 (event_seq (?upd cur))] s"
    using c by (auto simp: commits_def start_planning_tx_def Let_def simp del: exec_pipe_simps split: option.splits if_splits)
  have inv: "tasks_ok cur ?m" using ok cur by (rule slot_tasks_ok)
  have "\<not> terminal (run_status cur)" by (simp add: acc terminal_def)
  then have inv1: "tasks_ok (?upd cur) ?m"
    by (intro tasks_ok_state [OF inv]) (use tasks_ok_max [OF inv] in simp_all)
  have fresh: "?m planning_field = None" using inv acc by (simp add: tasks_ok_def)
  have later: "map_later ?m (?m(planning_field \<mapsto> ?pt))" using fresh by (auto simp: map_later_def)
  have "row_ok (?upd cur) (?m(planning_field \<mapsto> ?pt)) f t" if "(?m(planning_field \<mapsto> ?pt)) f = Some t" for f t
  proof (cases "f = planning_field")
    case True
    then have "t = ?pt" using that by simp
    then show ?thesis using True by (simp add: row_ok_def)
  next
    case False
    then have "row_ok (?upd cur) ?m f t" using inv1 that by (simp add: tasks_ok_def)
    then show ?thesis using dep_done_later [OF _ later] unfolding row_ok_def by blast
  qed
  then have tasks: "tasks_ok (?upd cur) (?m(planning_field \<mapsto> ?pt))" using inv1 by (simp add: tasks_ok_def)
  have log: "log_ok (Some cur) (events_key s)" using ok cur by (simp add: slot_ok_def)
  have ev: "events_key s' = (if last_seq (events_key s) < en_seq (?e cur) then events_key s @ [?e cur] else events_key s)"
    by (simp add: s')
  show ?thesis
  proof (rule good_stepI [OF ok cur, of s' "?upd cur"])
    show "log_ok (Some (?upd cur)) (events_key s')" unfolding ev by (rule log_append [OF log]) simp_all
    show "tasks_ok (?upd cur) (map_of (tasks_key s'))" using tasks by (simp add: s' AList.update_conv')
    show "map_later ?m (map_of (tasks_key s'))" using later by (simp add: s' AList.update_conv')
    show "distinct (map fst (tasks_key s'))" using ok by (simp add: s' slot_ok_def distinct_update)
  qed (simp_all add: s')
qed

lemma complete_planning_good:
  assumes ok: "slot_ok s" and c: "commits (complete_planning_tx cfg ident ev owner fc p rr er) now s r s'"
  shows "good_step s s'"
proof -
  let ?upd = "\<lambda>cur. (advance now cur)\<lparr>plan_revision := plan_rev p\<rparr>"
  let ?t' = "\<lambda>t. t\<lparr>task_status := ''completed'', completed_at := now, result_ref := rr, evidence_ref := er\<rparr>"
  let ?e = "\<lambda>cur t. (run_entry (event_seq (?upd cur)) ''agent_run.plan_created'' (run_status (?upd cur)) now)
     \<lparr>en_task_id := planning_task_id, en_attempt := attempt (?t' t)\<rparr>"
  let ?m = "map_of (tasks_key s)"
  obtain cur t where cur: "state_key s = Some cur" and pl: "run_status cur = ''planning''" "plan_revision cur = 0"
    and rv: "plan_rev p = 1" and p: "valid_plan p" and ev: "\<not> blank rr" "\<not> blank er"
    and t: "task_at s planning_field = Some t" and st: "task_status t = ''running''"
    and s': "s' = exec_pipe ([HSetPlan (plan_rev p) p, HSetTask planning_field (?t' t)] @ install_cmds p @
       [HSetState (?upd cur), XAddEvent (?e cur t)]) s"
    using c by (auto simp: commits_def complete_planning_tx_def Let_def simp del: exec_pipe_simps split: option.splits if_splits)
  have inv: "tasks_ok cur ?m" using ok cur by (rule slot_tasks_ok)
  note d = valid_plan_distinct [OF p]
  have nt: "\<not> terminal (run_status cur)" by (simp add: pl terminal_def)
  have inv0: "tasks_ok (?upd cur) ?m"
    by (rule tasks_ok_state [OF inv]) (use rv pl nt in \<open>simp_all add: max_uint64_def\<close>)
  have tok: "task_ok t" by (rule row_task_ok [OF inv t])
  have k: "keeps_life t (?t' t)" using tok st ev by (simp add: keeps_life_def task_defs status_simps)
  define m1 where "m1 = ?m(planning_field \<mapsto> ?t' t)"
  have inv1: "tasks_ok (?upd cur) m1"
    unfolding m1_def by (rule keeps_row [OF inv0 t k]) (use rv in simp_all)
  have later1: "map_later ?m m1" unfolding m1_def using put_later [of ?m planning_field t] t keeps_move [OF k] by simp
  define s1 where "s1 = exec_pipe [HSetPlan (plan_rev p) p, HSetTask planning_field (?t' t)] s"
  have s1: "map_of (tasks_key s1) = m1" "events_key s1 = events_key s" "plans_key s1 = AList.update (plan_rev p) p (plans_key s)"
    "tasks_key s1 = AList.update planning_field (?t' t) (tasks_key s)"
    by (simp_all add: s1_def m1_def AList.update_conv')
  define s2 where "s2 = exec_pipe (put_tasks (plan_rev p) (plan_tasks p)) s1"
  have x: "s' = exec_pipe [HSetState (?upd cur), XAddEvent (?e cur t)] s2"
    by (simp add: s' s2_def s1_def install_cmds_put)
  have old: "task_revision u < plan_rev p" if u: "task_at s1 f = Some u" for f u
  proof -
    have "\<exists>u0. ?m f = Some u0 \<and> task_revision u = task_revision u0"
      using u t unfolding s1(1) m1_def by (auto split: if_split_asm)
    then show ?thesis using tasks_okD [OF inv] pl(2) rv by (fastforce simp: row_ok_def)
  qed
  have inv1': "tasks_ok (?upd cur) (map_of (tasks_key s1))" using inv1 by (simp only: s1(1))
  have na: "run_status (?upd cur) \<noteq> ''accepted''" using pl by simp
  have new: "tasks_ok (?upd cur) (map_of (tasks_key s2))" "map_later m1 (map_of (tasks_key s2))"
    using put_tasks_ok [OF inv1' _ _ old _ na] d unfolding s2_def s1(1) by simp_all
  have later: "map_later ?m (map_of (tasks_key s2))"
    unfolding map_later_def
  proof (intro allI impI)
    fix f u assume u: "?m f = Some u"
    then have f: "f = task_field (task_revision u) (task_id u)" "task_revision u = 0"
      using tasks_okD [OF inv u] pl(2) by (simp_all add: row_ok_def)
    then have "map_of (tasks_key s2) f = m1 f"
      unfolding s2_def s1(1) [symmetric] by (intro put_tasks_old) (use rv in auto)
    then show "\<exists>t'. map_of (tasks_key s2) f = Some t' \<and> task_move u t'" using map_laterD [OF later1 u] by simp
  qed
  have log: "log_ok (Some cur) (events_key s)" using ok cur by (simp add: slot_ok_def)
  have evs: "events_key s' = (if last_seq (events_key s) < en_seq (?e cur t) then events_key s @ [?e cur t] else events_key s)"
    by (simp add: x s2_def s1)
  have "plans_ok cur ?m (map_of (plans_key s))" using ok cur by (simp add: slot_ok_def)
  then have pls: "plans_ok (?upd cur) (map_of (tasks_key s2)) ((map_of (plans_key s))(plan_rev p \<mapsto> p))"
    by (rule put_plan_ok [OF _ later _ _ p]) (use pl d put_tasks_new in \<open>simp_all add: s2_def\<close>)
  show ?thesis
  proof (rule good_stepI' [of s' "?upd cur" s])
    show "log_ok (Some (?upd cur)) (events_key s')" unfolding evs by (rule log_append [OF log]) simp_all
    show "plans_ok (?upd cur) (map_of (tasks_key s')) (map_of (plans_key s'))"
      using pls by (simp add: x s2_def s1 AList.update_conv')
    show "distinct (map fst (tasks_key s'))"
      using ok put_tasks_distinct [of s1] by (simp add: x s2_def s1(4) slot_ok_def distinct_update)
  qed (use new later in \<open>simp_all add: x\<close>)
qed

lemma expire_planning_good:
  assumes ok: "slot_ok s" and c: "commits (expire_planning_tx cfg ident) now s r s'"
  shows "good_step s s'"
proof -
  let ?upd = "\<lambda>cur. (advance now cur)\<lparr>run_status := ''failed''\<rparr>"
  obtain cur where cur: "state_key s = Some cur" using c
    by (auto simp: commits_def expire_planning_tx_def split: option.splits)
  have inv: "tasks_ok cur (map_of (tasks_key s))" using ok cur by (rule slot_tasks_ok)
  have ended: "terminal (run_status (?upd cur))" by (simp add: terminal_def)
  have inv1: "tasks_ok (?upd cur) (map_of (tasks_key s))"
    by (rule tasks_ok_state [OF inv]) (use tasks_ok_max [OF inv] ended in simp_all)
  have log: "log_ok (Some cur) (events_key s)" using ok cur by (simp add: slot_ok_def)
  show ?thesis
  proof (cases "plan_revision cur = 0 \<and> run_status cur = ''accepted'' \<and> deadline_at cur \<le> now")
    case True
    let ?e = "(run_entry (event_seq (?upd cur)) ''agent_run.final'' ''failed'' now)\<lparr>en_reason_code := ''run.deadline''\<rparr>"
    have s': "s' = exec_pipe [HSetState (?upd cur), XAddEvent ?e] s"
      using c cur True by (auto simp: commits_def expire_planning_tx_def Let_def simp del: exec_pipe_simps)
    have ev: "events_key s' = (if last_seq (events_key s) < en_seq ?e then events_key s @ [?e] else events_key s)"
      by (simp add: s')
    show ?thesis
    proof (rule good_stepI [OF ok cur, of s' "?upd cur"])
      show "log_ok (Some (?upd cur)) (events_key s')" unfolding ev by (rule log_append [OF log]) simp_all
      show "distinct (map fst (tasks_key s'))" using ok by (simp add: s' slot_ok_def)
    qed (use inv1 in \<open>simp_all add: s'\<close>)
  next
    case False
    let ?reason = "\<lambda>t. planning_expiry cfg cur t now"
    obtain t w where t: "task_at s planning_field = Some t" and reason: "?reason t \<noteq> []"
      and rev: "plan_revision cur = 0" "run_status cur = ''planning''"
      and s': "s' = exec_pipe [HSetTask planning_field
           (t\<lparr>task_status := ''failed'', completed_at := now, reason_code := ?reason t, queue_wait_ms := w\<rparr>), HSetState (?upd cur),
         XAddEvent ((run_entry (event_seq (?upd cur)) ''agent_run.final'' ''failed'' now)
           \<lparr>en_task_id := planning_task_id, en_attempt := attempt t, en_reason_code := ?reason t\<rparr>)] s"
    proof -
      obtain t where t: "task_at s planning_field = Some t" and reason: "?reason t \<noteq> []"
        and rev: "plan_revision cur = 0" "run_status cur = ''planning''"
        using c cur False
        by (auto simp: commits_def expire_planning_tx_def Let_def simp del: exec_pipe_simps split: if_split_asm option.splits)
      let ?t1 = "t\<lparr>task_status := ''failed'', completed_at := now, reason_code := ?reason t\<rparr>"
      have "s' = exec_pipe [HSetTask planning_field (if is_zero (queued_at ?t1) then ?t1 else ?t1\<lparr>queue_wait_ms := wait_ms ?t1 now\<rparr>),
          HSetState (?upd cur), XAddEvent ((run_entry (event_seq (?upd cur)) ''agent_run.final'' ''failed'' now)
            \<lparr>en_task_id := planning_task_id, en_attempt := attempt t, en_reason_code := ?reason t\<rparr>)] s"
        using c cur False t reason rev
        by (auto simp: commits_def expire_planning_tx_def Let_def simp del: exec_pipe_simps)
      also have "(if is_zero (queued_at ?t1) then ?t1 else ?t1\<lparr>queue_wait_ms := wait_ms ?t1 now\<rparr>)
          = ?t1\<lparr>queue_wait_ms := (if is_zero (queued_at t) then queue_wait_ms t else wait_ms ?t1 now)\<rparr>" by simp
      finally show ?thesis by (rule that [OF t reason rev])
    qed
    let ?t' = "t\<lparr>task_status := ''failed'', completed_at := now, reason_code := ?reason t, queue_wait_ms := w\<rparr>"
    have row: "row_ok cur (map_of (tasks_key s)) planning_field t" using inv t by (rule tasks_okD)
    then have tok: "task_ok t" and rv0: "task_revision t = 0" by (simp_all add: row_ok_def)
    have "\<not> terminal (run_status cur)" using rev by (simp add: terminal_def)
    then have "task_status t \<noteq> ''cancelled''" "task_status t \<noteq> ''completed''"
        "task_status t \<noteq> ''pending_dependency''" "task_status t \<noteq> ''skipped''"
      using row rev rv0 by (simp_all add: row_ok_def)
    then have "task_status t = ''queued'' \<or> task_status t = ''leased'' \<or> task_status t = ''running'' \<or> task_status t = ''failed''"
      using tok unfolding task_ok_def known_status_def by blast
    then have k: "keeps_life t ?t'" using tok
      by (elim disjE) (simp_all add: keeps_life_def task_defs status_simps)
    have new: "tasks_ok (?upd cur) ((map_of (tasks_key s))(planning_field \<mapsto> ?t'))"
      by (rule keeps_row [OF inv1 t k]) simp_all
    note x = exec_task_pipe [OF s']
    show ?thesis
      by (rule row_step [OF ok cur t new keeps_move [OF k] x(1-4)]) simp_all
  qed
qed

text \<open>Cancelling: every live row once.\<close>

lemma cancel_cmds_keys:
  "distinct (map fst rows) \<Longrightarrow>
     map_of (tasks_key (exec_pipe (fst (cancel_cmds now sq rows)) s)) = map_of (tasks_key s) ++ map_of rows \<and>
     state_key (exec_pipe (fst (cancel_cmds now sq rows)) s) = state_key s \<and>
     plans_key (exec_pipe (fst (cancel_cmds now sq rows)) s) = plans_key s \<and>
     (distinct (map fst (tasks_key s)) \<longrightarrow> distinct (map fst (tasks_key (exec_pipe (fst (cancel_cmds now sq rows)) s))))"
proof (induction rows arbitrary: sq s)
  case (Cons row rows)
  obtain f t where row: "row = (f, t)" by (cases row)
  define e where "e = (run_entry (inc64 sq) ''agent_run.task_cancelled'' ''cancelled'' now)
            \<lparr>en_task_id := task_id t, en_attempt := attempt t, en_reason_code := reason_code t\<rparr>"
  define s1 where "s1 = exec_cmd (XAddEvent e) (exec_cmd (HSetTask f t) s)"
  have x: "exec_pipe (fst (cancel_cmds now sq (row # rows))) s = exec_pipe (fst (cancel_cmds now (inc64 sq) rows)) s1"
    by (simp add: row Let_def s1_def e_def split: prod.split)
  have s1: "map_of (tasks_key s1) = (map_of (tasks_key s))(f \<mapsto> t)" "state_key s1 = state_key s" "plans_key s1 = plans_key s"
    "tasks_key s1 = AList.update f t (tasks_key s)"
    by (simp_all add: s1_def AList.update_conv')
  have "f \<notin> dom (map_of rows)" using Cons.prems by (simp add: row dom_map_of_conv_image_fst)
  then have "(map_of (tasks_key s))(f \<mapsto> t) ++ map_of rows = map_of (tasks_key s) ++ map_of (row # rows)"
    by (simp add: row map_add_upd_left)
  moreover have "distinct (map fst rows)" using Cons.prems by simp
  ultimately show ?case
    unfolding x using Cons.IH [of "inc64 sq" s1] distinct_update [of "tasks_key s" f t]
    by (simp only: s1 AList.update_conv' simp_thms) blast
qed simp

lemma cancel_cmds_log:
  "log_ok (Some (cur\<lparr>event_seq := sq\<rparr>)) (events_key s) \<Longrightarrow>
     log_ok (Some (cur\<lparr>event_seq := snd (cancel_cmds now sq rows)\<rparr>)) (events_key (exec_pipe (fst (cancel_cmds now sq rows)) s))"
proof (induction rows arbitrary: sq s)
  case (Cons row rows)
  obtain f t where row: "row = (f, t)" by (cases row)
  define e where "e = (run_entry (inc64 sq) ''agent_run.task_cancelled'' ''cancelled'' now)
            \<lparr>en_task_id := task_id t, en_attempt := attempt t, en_reason_code := reason_code t\<rparr>"
  define s1 where "s1 = exec_cmd (XAddEvent e) (exec_cmd (HSetTask f t) s)"
  have x: "fst (cancel_cmds now sq (row # rows)) = HSetTask f t # XAddEvent e # fst (cancel_cmds now (inc64 sq) rows)"
    "snd (cancel_cmds now sq (row # rows)) = snd (cancel_cmds now (inc64 sq) rows)"
    by (simp_all add: row Let_def e_def split: prod.split)
  have "events_key s1 = (if last_seq (events_key s) < en_seq e then events_key s @ [e] else events_key s)"
    by (simp add: s1_def)
  moreover have "en_seq e = inc64 sq" by (simp add: e_def)
  ultimately have "log_ok (Some (cur\<lparr>event_seq := inc64 sq\<rparr>)) (events_key s1)"
    using log_append [OF Cons.prems, of "cur\<lparr>event_seq := inc64 sq\<rparr>" e] by simp
  from Cons.IH [OF this] show ?case by (simp only: x exec_pipe_simps s1_def)
qed simp

lemma cancel_rows_of:
  assumes "distinct (map fst (tasks_key s))"
  shows "distinct (map fst (cancel_rows now s))"
    and "map_of (cancel_rows now s) f = (case task_at s f of None \<Rightarrow> None
      | Some t \<Rightarrow> if task_ended (task_status t) then None else Some (cancelled_task now t))"
proof -
  let ?live = "List.filter (\<lambda>(f, t). \<not> task_ended (task_status t)) (tasks_key s)"
  let ?rows = "map (\<lambda>(f, t). (f, cancelled_task now t)) ?live"
  have fst: "map fst ?rows = map fst ?live" by (simp add: case_prod_beta o_def)
  have "distinct (map fst ?live)" using assms by (rule distinct_map_filter)
  then have d: "distinct (map fst ?rows)" by (simp only: fst)
  then have "distinct ?rows \<and> inj_on fst (set ?rows)" unfolding distinct_map [of fst] .
  then have "distinct (sort_key fst ?rows) \<and> inj_on fst (set (sort_key fst ?rows))"
    by (simp only: distinct_sort set_sort)
  then show d': "distinct (map fst (cancel_rows now s))"
    unfolding cancel_rows_def distinct_map [of fst] .
  have some: "map_of (cancel_rows now s) f = Some t' \<longleftrightarrow>
      (\<exists>t. task_at s f = Some t \<and> \<not> task_ended (task_status t) \<and> t' = cancelled_task now t)" for t'
  proof -
    have "map_of (cancel_rows now s) f = Some t' \<longleftrightarrow> (f, t') \<in> set (cancel_rows now s)"
      by (rule map_of_eq_Some_iff [OF d'])
    also have "\<dots> \<longleftrightarrow> (\<exists>t. (f, t) \<in> set (tasks_key s) \<and> \<not> task_ended (task_status t) \<and> t' = cancelled_task now t)"
      unfolding cancel_rows_def by auto
    also have "\<dots> \<longleftrightarrow> (\<exists>t. task_at s f = Some t \<and> \<not> task_ended (task_status t) \<and> t' = cancelled_task now t)"
      by (simp add: map_of_eq_Some_iff [OF assms])
    finally show ?thesis .
  qed
  show "map_of (cancel_rows now s) f = (case task_at s f of None \<Rightarrow> None
      | Some t \<Rightarrow> if task_ended (task_status t) then None else Some (cancelled_task now t))"
    by (cases "map_of (cancel_rows now s) f") (use some in \<open>auto split: option.split\<close>)
qed

lemma cancel_exec:
  assumes c: "commits (cancel_tx cfg ident) now s r s'" and cur: "state_key s = Some cur"
    and dist: "distinct (map fst (tasks_key s))"
  obtains sq where "state_key s' = Some (cur\<lparr>run_status := ''cancelled'', updated_at := now,
        version := inc64 (version cur), event_seq := inc64 sq\<rparr>)"
    "map_of (tasks_key s') = map_of (tasks_key s) ++ map_of (cancel_rows now s)" "outbox_key s' = []"
    "plans_key s' = plans_key s" "distinct (map fst (tasks_key s'))" "\<not> terminal (run_status cur)"
    "log_ok (Some cur) (events_key s) \<Longrightarrow> log_ok (state_key s') (events_key s')"
proof -
  let ?rows = "cancel_rows now s" and ?cs = "fst (cancel_cmds now (event_seq cur) (cancel_rows now s))"
  let ?sq = "snd (cancel_cmds now (event_seq cur) (cancel_rows now s))"
  let ?upd = "cur\<lparr>run_status := ''cancelled'', updated_at := now, version := inc64 (version cur), event_seq := inc64 ?sq\<rparr>"
  let ?e = "run_entry (inc64 ?sq) ''agent_run.cancelled'' ''cancelled'' now"
  have nt: "\<not> terminal (run_status cur)" using c cur by (auto simp: commits_def cancel_tx_def split: if_split_asm)
  define s1 where "s1 = exec_pipe ?cs s"
  have s': "s' = exec_pipe [HSetState ?upd, DelOutbox, XAddEvent ?e] s1"
    using c cur nt by (simp add: commits_def cancel_tx_def Let_def s1_def case_prod_beta del: exec_pipe_simps)
      (simp add: exec_pipe_def)
  note k = cancel_cmds_keys [OF cancel_rows_of(1) [OF dist, of now], where now = now and sq = "event_seq cur" and s = s, folded s1_def]
  show ?thesis
  proof (rule that [of ?sq])
    show "log_ok (state_key s') (events_key s')" if l: "log_ok (Some cur) (events_key s)"
    proof -
      have "log_ok (Some (cur\<lparr>event_seq := event_seq cur\<rparr>)) (events_key s)" using l by (simp add: log_ok_def)
      from cancel_cmds_log [OF this, of now ?rows, folded s1_def]
      have "log_ok (Some (cur\<lparr>event_seq := ?sq\<rparr>)) (events_key s1)" .
      then have "log_ok (Some ?upd) (if last_seq (events_key s1) < en_seq ?e then events_key s1 @ [?e] else events_key s1)"
        by (rule log_append) simp_all
      moreover have "state_key s' = Some ?upd"
        "events_key s' = (if last_seq (events_key s1) < en_seq ?e then events_key s1 @ [?e] else events_key s1)"
        by (simp_all add: s')
      ultimately show ?thesis by (simp only:)
    qed
  qed (use k dist nt in \<open>simp_all add: s'\<close>)
qed

lemma cancel_good:
  assumes ok: "slot_ok s" and c: "commits (cancel_tx cfg ident) now s r s'"
  shows "good_step s s'"
proof -
  let ?m = "map_of (tasks_key s)"
  obtain cur where cur: "state_key s = Some cur" using c by (auto simp: commits_def cancel_tx_def split: option.splits)
  have dist: "distinct (map fst (tasks_key s))" using ok by (simp add: slot_ok_def)
  obtain sq where st: "state_key s' = Some (cur\<lparr>run_status := ''cancelled'', updated_at := now,
        version := inc64 (version cur), event_seq := inc64 sq\<rparr>)"
    and tk: "map_of (tasks_key s') = ?m ++ map_of (cancel_rows now s)"
    and x: "plans_key s' = plans_key s" "distinct (map fst (tasks_key s'))"
      "log_ok (Some cur) (events_key s) \<Longrightarrow> log_ok (state_key s') (events_key s')"
    using cancel_exec [OF c cur dist] by blast
  define upd where "upd = cur\<lparr>run_status := ''cancelled'', updated_at := now, version := inc64 (version cur), event_seq := inc64 sq\<rparr>"
  have upd: "plan_revision upd = plan_revision cur" "run_status upd = ''cancelled''" "terminal (run_status upd)"
    by (simp_all add: upd_def terminal_def)
  have inv: "tasks_ok cur ?m" using ok cur by (rule slot_tasks_ok)
  have inv1: "tasks_ok upd ?m" by (rule tasks_ok_state [OF inv]) (use upd tasks_ok_max [OF inv] in simp_all)
  define new where "new t = (if task_ended (task_status t) then t else cancelled_task now t)" for t
  have m': "map_of (tasks_key s') f = (case ?m f of None \<Rightarrow> None | Some t \<Rightarrow> Some (new t))" for f
    unfolding tk using cancel_rows_of(2) [OF dist, of now f] by (auto simp: map_add_def new_def split: option.split)
  have move: "task_move t (new t)" "task_ok (new t)" "needs_deps (new t) \<longrightarrow> needs_deps t"
    if "task_ok t" for t
    using cancelled_keeps [of t now] that by (auto simp: new_def keeps_life_def)
  have ended: "task_ended (task_status (new t))" for t by (simp add: new_def cancelled_task_def status_simps)
  have later: "map_later ?m (map_of (tasks_key s'))"
    unfolding map_later_def m' using move(1) row_task_ok [OF inv] by auto
  have "row_ok upd (map_of (tasks_key s')) f u" if u: "map_of (tasks_key s') f = Some u" for f u
  proof -
    obtain t where t: "?m f = Some t" "u = new t" using u unfolding m' by (auto split: option.splits)
    have row: "row_ok upd ?m f t" using inv1 t(1) by (simp add: tasks_ok_def)
    then have tok: "task_ok t" by (simp add: row_ok_def)
    have same: "task_id u = task_id t" "task_revision u = task_revision t" "depends_on u = depends_on t"
      using move(1) [OF tok] by (simp_all add: t(2) task_move_def task_later_def)
    have "needs_deps u \<longrightarrow> (\<forall>d\<in>set (depends_on t). dep_done (map_of (tasks_key s')) (task_revision t) d)"
      using row move(3) [OF tok] dep_done_later [OF _ later] unfolding row_ok_def t(2) by blast
    moreover have "task_status u = ''completed'' \<longrightarrow> task_status t = ''completed''"
      "task_status u \<noteq> ''pending_dependency''" "task_status u = ''skipped'' \<longrightarrow> task_status t = ''skipped''"
      unfolding t(2) new_def cancelled_task_def by (auto simp: status_simps)
    ultimately show ?thesis using row move(2) [OF tok] upd(3) unfolding row_ok_def same [unfolded t(2)] t(2) by blast
  qed
  then have tasks: "tasks_ok upd (map_of (tasks_key s'))" using upd inv1 by (simp add: tasks_ok_def)
  have log: "log_ok (Some cur) (events_key s)" using ok cur by (simp add: slot_ok_def)
  show ?thesis
    by (rule good_stepI [OF ok cur st [folded upd_def] _ tasks later x(1)])
      (use x(2,3) log st upd in \<open>simp_all add: upd_def\<close>)
qed

subsection \<open>Every step is good, every reachable run is well-formed\<close>

lemmas step_goods = create_good transition_good install_good queue_good start_planning_good complete_planning_good
  expire_planning_good cancel_good waiting_good lease_good start_good complete_good fail_good skip_good
  expire_queued_good expire_unstarted_good renew_good receipt_good cursor_good

lemma run_step_good: "run_step cfg s s' \<Longrightarrow> slot_ok s \<Longrightarrow> good_step s s'"
  by (induction rule: run_step.induct) (blast intro: step_goods)+

lemma no_run_ok [simp]: "slot_ok no_run"
  by (simp add: slot_ok_def no_run_def log_ok_def)

lemma run_steps_ok: "run_steps cfg s s' \<Longrightarrow> slot_ok s \<Longrightarrow> slot_ok s'"
  by (induction rule: rtranclp_induct) (auto dest: run_step_good simp: good_step_def)

lemma reachable_ok: "reachable_run cfg s \<Longrightarrow> slot_ok s"
  unfolding reachable_run_def using run_steps_ok no_run_ok by blast

lemma run_steps_later:
  assumes "run_steps cfg s s'" "slot_ok s" "task_at s f = Some t"
  shows "\<exists>t'. task_at s' f = Some t' \<and> task_later t t'"
  using assms
proof (induction rule: rtranclp_induct)
  case (step y z)
  then obtain u where u: "task_at y f = Some u" "task_later t u" by blast
  have "slot_ok y" using step run_steps_ok by blast
  then have "map_later (map_of (tasks_key y)) (map_of (tasks_key z))"
    using run_step_good step.hyps(2) by (simp add: good_step_def)
  then obtain v where "task_at z f = Some v" "task_move u v" using map_laterD u(1) by blast
  then show ?case using u(2) task_later_trans by (auto simp: task_move_def)
qed auto

end
