(* ===== verification/AgentSafety.thy ===== *)
theory AgentSafety imports AgentReachable begin

section \<open>What the run store guarantees\<close>

text \<open>The properties of the run store that follow from the invariant of theory
  \<open>AgentReachable\<close>, each for every run reachable by any interleaving of its operations.\<close>

inductive_cases run_stepE: "run_step cfg s s'"

subsection \<open>A sample run\<close>

text \<open>
  A run with a one-task plan, taken through installing, queueing, leasing, starting, claiming
  and completing: it shows that the hypotheses below can hold.
\<close>

definition demo_cur :: "nat \<Rightarrow> nat \<Rightarrow> string \<Rightarrow> instant \<Rightarrow> snapshot" where
  "demo_cur v rv st at = sample_run\<lparr>version := v, event_seq := v, plan_revision := rv, run_status := st,
     created_at := 10, updated_at := at\<rparr>"

definition demo_plan :: run_plan where
  "demo_plan = \<lparr>plan_rev = 1, plan_tasks = [\<lparr>def_task_id = ''a'', def_depends_on = [], def_pool_id = [], def_node_kind = []\<rparr>],
     plan_budget = None\<rparr>"

definition demo_task :: task_snapshot where
  "demo_task = no_task\<lparr>task_id := ''a'', task_revision := 1, task_status := ''pending_dependency''\<rparr>"

abbreviation demo_field :: string where "demo_field \<equiv> task_field 1 ''a''"

definition task_queued :: task_snapshot where
  "task_queued = demo_task\<lparr>task_status := ''queued'', attempt := 1, queued_at := 30\<rparr>"
definition task_leased :: task_snapshot where
  "task_leased = task_queued\<lparr>task_status := ''leased'', lease_owner := ''w1'', fence := 7, lease_until := 1000,
     leased_at := 40, queue_wait_ms := 0\<rparr>"
definition task_started :: task_snapshot where
  "task_started = task_leased\<lparr>task_status := ''running'', started_at := 50\<rparr>"
definition task_claimed :: task_snapshot where
  "task_claimed = task_started\<lparr>execution_token := ''tok''\<rparr>"
definition task_completed :: task_snapshot where
  "task_completed = task_claimed\<lparr>task_status := ''completed'', completed_at := 60, result_ref := ''res'', evidence_ref := ''ev''\<rparr>"

lemmas demo_task_defs = demo_task_def task_queued_def task_leased_def task_started_def task_claimed_def
  task_completed_def no_task_def

definition demo_events :: "stream_entry list" where
  "demo_events =
    [run_entry 1 ''agent_run.started'' ''accepted'' 10,
     run_entry 2 ''agent_run.plan_created'' ''planning'' 20,
     (run_entry 3 ''agent_run.task_status'' ''queued'' 30)\<lparr>en_task_id := ''a'', en_attempt := 1\<rparr>,
     task_entry ''agent_run.task_status'' 4 ''a'' task_leased 40,
     task_entry ''agent_run.task_started'' 5 ''a'' task_started 50,
     task_entry ''agent_run.task_completed'' 6 ''a'' task_completed 60]"

definition demo_outbox :: outbox_entry where
  "demo_outbox = \<lparr>ob_id = 1, ob_run_id = ''r-1'', ob_revision = 1, ob_task_id = ''a'', ob_attempt = 1, ob_event_seq = 3\<rparr>"

definition demo_slot :: "snapshot \<Rightarrow> nat \<Rightarrow> (string \<times> task_snapshot) list \<Rightarrow> outbox_entry list \<Rightarrow> run_slot" where
  "demo_slot cur n ts ob = \<lparr>state_key = Some cur, events_key = take n demo_events,
     plans_key = (if 1 < n then [(1, demo_plan)] else []), tasks_key = ts, outbox_key = ob,
     outbox_last = length ob, cursor_key = None\<rparr>"

definition demo_created where "demo_created = demo_slot (demo_cur 1 0 ''accepted'' 10) 1 [] []"
definition demo_installed where
  "demo_installed = demo_slot (demo_cur 2 1 ''planning'' 20) 2 [(demo_field, demo_task)] []"
definition demo_queued where
  "demo_queued = demo_slot (demo_cur 3 1 ''running'' 30) 3 [(demo_field, task_queued)] [demo_outbox]"
definition demo_leased where
  "demo_leased = demo_slot (demo_cur 4 1 ''running'' 40) 4 [(demo_field, task_leased)] [demo_outbox]"
definition demo_started where
  "demo_started = demo_slot (demo_cur 5 1 ''running'' 50) 5 [(demo_field, task_started)] [demo_outbox]"
definition demo_claimed where
  "demo_claimed = demo_slot (demo_cur 5 1 ''running'' 50) 5 [(demo_field, task_claimed)] [demo_outbox]"
definition demo_completed where
  "demo_completed = demo_slot (demo_cur 6 1 ''running'' 60) 6 [(demo_field, task_completed)] [demo_outbox]"

definition demo_ref :: task_ref where
  "demo_ref = \<lparr>ref_tenant_uuid = ''t-1'', ref_env = ''prod'', ref_run_id = ''r-1'', ref_revision = 1,
     ref_task_id = ''a'', ref_attempt = 1\<rparr>"

lemmas demo_defs = demo_created_def demo_installed_def demo_queued_def demo_leased_def demo_started_def
  demo_claimed_def demo_completed_def demo_slot_def demo_cur_def demo_events_def demo_outbox_def sample_defs
  run_entry_def task_entry_def advance_def last_seq_def commits_def Let_def inc64_def demo_ref_def

lemma demo_checks:
  "env_pattern ''prod''" "task_id_pattern ''a''" "valid_plan demo_plan" "valid_task_revision (Suc 0) ''a''"
  "trim_space ''w1'' = ''w1''" "trim_space ''res'' = ''res''" "trim_space ''ev'' = ''ev''" "trim_space ''s'' = ''s''"
  "trim_space ''m'' = ''m''" "trim_space ''x'' = ''x''"
  "has_prefix ''agent_run.task_status'' ''agent_run.''" "has_prefix ''agent_run.task_started'' ''agent_run.''"
  "has_prefix ''agent_run.task_completed'' ''agent_run.''"
  by code_simp+

lemma demo_scope: "valid_scope sample_cfg sample_run" "valid_scope sample_cfg (ref_identity demo_ref)"
  by (simp_all add: valid_scope_def sample_defs demo_checks ref_identity_def demo_ref_def)

lemma demo_status: "\<not> terminal ''accepted''" "\<not> terminal ''planning''" "\<not> terminal ''running''"
  by (simp_all add: terminal_def)

lemma demo_step1: "commits (create_tx sample_cfg False 10 sample_run) 10 no_run (demo_cur 1 0 ''accepted'' 10) demo_created"
  by (simp add: demo_defs create_tx_def valid_identity_def valid_scope_def demo_checks no_run_def)

lemma demo_step2:
  "commits (install_plan_tx sample_cfg sample_run 1 demo_plan) 20 demo_created (demo_cur 2 1 ''planning'' 20) demo_installed"
  by (simp add: install_plan_tx_def demo_scope demo_checks)
    (simp add: demo_defs demo_status install_cmds_def initial_task_def demo_task_defs demo_plan_def)

lemma demo_step3:
  "commits (queue_task_tx sample_cfg sample_run 2 1 ''a'' []) 30 demo_installed
     (task_queued, demo_cur 3 1 ''running'' 30) demo_queued"
  by (simp add: queue_task_tx_def demo_scope demo_checks)
    (simp add: demo_defs demo_status demo_task_defs)

lemma mutate_commitI:
  assumes "valid_scope cfg ident" "ev \<noteq> 0" "valid_task_revision rv tid" "has_prefix ety ''agent_run.''"
    "mut t now = Inr t'" "state_key s = Some cur" "version cur = ev" "plan_revision cur = rv"
    "\<not> terminal (run_status cur)" "task_at s (task_field rv tid) = Some t" "r = (t', advance now cur)"
    "s' = exec_pipe [HSetTask (task_field rv tid) t', HSetState (advance now cur),
               XAddEvent (task_entry ety (event_seq (advance now cur)) tid t' now)] s"
  shows "commits (mutate_tx cfg ident ev rv tid ety mut) now s r s'"
  using assms by (auto simp: mutate_commits)

lemma demo_step4:
  "commits (lease_task_tx sample_cfg 40 sample_run 3 1 ''a'' ''w1'' 7 1000) 40 demo_queued
     (task_leased, demo_cur 4 1 ''running'' 40) demo_leased"
proof -
  have mut: "lease_mut sample_cfg ''w1'' 7 1000 task_queued 40 = Inr task_leased"
    by (simp add: lease_mut_def demo_task_defs sample_defs wait_ms_def time_sub_def milliseconds_def
        millisecond_ns_def max_int64_def min_int64_def)
  show ?thesis unfolding lease_task_tx_def require_commits
    by (intro conjI mutate_commitI [where cur = "demo_cur 3 1 ''running'' 30" and t = task_queued and t' = task_leased] mut demo_scope)
      (simp_all add: demo_checks demo_defs demo_status demo_task_defs)
qed

lemma demo_step5:
  "commits (start_task_tx sample_cfg sample_run 4 1 ''a'' ''w1'' 7) 50 demo_leased
     (task_started, demo_cur 5 1 ''running'' 50) demo_started"
proof -
  have mut: "start_mut ''w1'' 7 task_leased 50 = Inr task_started"
    by (simp add: start_mut_def demo_task_defs)
  show ?thesis unfolding start_task_tx_def require_commits
    by (intro conjI mutate_commitI [where cur = "demo_cur 4 1 ''running'' 40" and t = task_leased and t' = task_started] mut demo_scope)
      (simp_all add: demo_checks demo_defs demo_status demo_task_defs)
qed

lemma demo_step6:
  "commits (execution_receipt_tx sample_cfg ''tok'' demo_ref ''w1'' 7 [] None) 55 demo_started
     (''tok'', no_result) demo_claimed"
  by (simp add: execution_receipt_tx_def demo_scope demo_checks)
    (simp add: demo_defs demo_status demo_checks receipt_allowed_def receipt_mut_def demo_task_defs)

lemma demo_step7:
  "commits (complete_task_tx sample_cfg sample_run 5 1 ''a'' ''w1'' 7 ''res'' ''ev'') 60 demo_claimed
     (task_completed, demo_cur 6 1 ''running'' 60) demo_completed"
proof -
  have mut: "complete_mut ''w1'' 7 ''res'' ''ev'' task_claimed 60 = Inr task_completed"
    by (simp add: complete_mut_def demo_task_defs)
  show ?thesis unfolding complete_task_tx_def require_commits
    by (intro conjI mutate_commitI [where cur = "demo_cur 5 1 ''running'' 50" and t = task_claimed and t' = task_completed] mut demo_scope)
      (simp_all add: demo_checks demo_defs demo_status demo_task_defs)
qed

lemma demo_reach:
  "run_step sample_cfg no_run demo_created" "run_step sample_cfg demo_created demo_installed"
  "run_step sample_cfg demo_installed demo_queued" "run_step sample_cfg demo_queued demo_leased"
  "run_step sample_cfg demo_leased demo_started" "run_step sample_cfg demo_started demo_claimed"
  "run_step sample_cfg demo_claimed demo_completed"
  using run_step.Create [OF demo_step1] run_step.InstallPlan [OF demo_step2] run_step.QueueTask [OF demo_step3]
    run_step.Lease [OF demo_step4] run_step.Start [OF demo_step5] run_step.Receipt [OF demo_step6]
    run_step.Complete [OF demo_step7]
  by (simp_all add: sample_run_def)

lemma demo_reachable:
  "reachable_run sample_cfg demo_created" "reachable_run sample_cfg demo_installed"
  "reachable_run sample_cfg demo_queued" "reachable_run sample_cfg demo_leased"
  "reachable_run sample_cfg demo_started" "reachable_run sample_cfg demo_claimed"
  "reachable_run sample_cfg demo_completed"
proof -
  note [intro] = rtranclp.rtrancl_into_rtrancl demo_reach
  have a: "run_steps sample_cfg no_run demo_created" by blast
  then have b: "run_steps sample_cfg no_run demo_installed" by blast
  then have c: "run_steps sample_cfg no_run demo_queued" by blast
  then have d: "run_steps sample_cfg no_run demo_leased" by blast
  then have e: "run_steps sample_cfg no_run demo_started" by blast
  then have f: "run_steps sample_cfg no_run demo_claimed" by blast
  then have g: "run_steps sample_cfg no_run demo_completed" by blast
  show "reachable_run sample_cfg demo_created" "reachable_run sample_cfg demo_installed"
    "reachable_run sample_cfg demo_queued" "reachable_run sample_cfg demo_leased"
    "reachable_run sample_cfg demo_started" "reachable_run sample_cfg demo_claimed"
    "reachable_run sample_cfg demo_completed"
    unfolding reachable_run_def by (fact a b c d e f g)+
qed

lemma demo_rows:
  "task_at demo_leased demo_field = Some task_leased" "task_at demo_started demo_field = Some task_started"
  "task_at demo_claimed demo_field = Some task_claimed" "task_at demo_completed demo_field = Some task_completed"
  "state_key demo_completed = Some (demo_cur 6 1 ''running'' 60)"
  by (simp_all add: demo_leased_def demo_started_def demo_claimed_def demo_completed_def demo_slot_def)

subsection \<open>Life cycle, evidence, dependencies\<close>

text \<open>C2: Every step of the run store refines the abstract life cycle of a task: in a reachable run no
  step removes a task, changes its name, revision, dependencies or pool, lowers its fence, or
  moves it along an edge the life cycle does not have.\<close>

theorem run_step_refines_life_cycle:
  assumes "reachable_run cfg s" "run_step cfg s s'" "task_at s f = Some t"
  shows "\<exists>t'. task_at s' f = Some t' \<and> life (task_status t) (task_status t') \<and> task_later t t'"
proof -
  have "map_later (map_of (tasks_key s)) (map_of (tasks_key s'))"
    using run_step_good [OF assms(2) reachable_ok [OF assms(1)]] by (simp add: good_step_def)
  then show ?thesis using assms(3) unfolding map_later_def task_move_def by blast
qed

theorem run_step_refines_life_cycle_witness:
  "\<exists>t'. task_at demo_completed demo_field = Some t' \<and> life (task_status task_claimed) (task_status t') \<and> task_later task_claimed t'"
  by (rule run_step_refines_life_cycle [OF demo_reachable(6) demo_reach(7) demo_rows(3)])

text \<open>C3: In every reachable run, a task that is queued, leased, running or completed has all its
  dependencies completed, and a completed task has a result and an evidence reference that are
  not blank and was held under a fence.\<close>

theorem started_after_dependencies:
  assumes "reachable_run cfg s" "task_at s f = Some t"
    and "task_status t \<in> {''queued'', ''leased'', ''running'', ''completed''}"
  shows "list_all (\<lambda>d. \<exists>u. task_at s (task_field (task_revision t) d) = Some u \<and> task_status u = ''completed'') (depends_on t) \<and>
    (task_status t = ''completed'' \<longrightarrow> \<not> blank (result_ref t) \<and> \<not> blank (evidence_ref t) \<and> 0 < fence t)"
proof -
  obtain cur where "state_key s = Some cur"
    using reachable_ok [OF assms(1)] assms(2) by (cases "state_key s") (auto simp: slot_ok_def)
  then have row: "row_ok cur (map_of (tasks_key s)) f t"
    using tasks_okD [OF slot_tasks_ok [OF reachable_ok [OF assms(1)]] assms(2)] by blast
  have "dep_status (task_status t)" using assms(3) by (simp add: dep_status_def)
  then have "list_all (\<lambda>d. \<exists>u. task_at s (task_field (task_revision t) d) = Some u \<and> task_status u = ''completed'') (depends_on t)"
    using row by (simp add: row_ok_def dep_done_def list_all_iff)
  moreover have "task_status t = ''completed'' \<longrightarrow> \<not> blank (result_ref t) \<and> \<not> blank (evidence_ref t) \<and> 0 < fence t"
    using row by (auto simp: row_ok_def task_ok_def status_simps)
  ultimately show ?thesis by blast
qed

theorem started_after_dependencies_witness: "\<not> blank (result_ref task_completed) \<and> \<not> blank (evidence_ref task_completed)"
  using started_after_dependencies [OF demo_reachable(7) demo_rows(4)] by (simp add: task_completed_def)



subsection \<open>Fences\<close>

lemma mutate_task_of:
  "commits (mutate_tx cfg ident ev rv tid ety mut) now s r s' \<Longrightarrow>
     \<exists>t t'. task_at s (task_field rv tid) = Some t \<and> mut t now = Inr t'"
  by (auto simp: mutate_commits)

text \<open>Each operation of a worker under a fence finds that fence in the task.\<close>

lemma worker_fences:
  "commits (start_task_tx cfg ident ev rv tid owner fc) now s r1 s' \<Longrightarrow> \<exists>t. task_at s (task_field rv tid) = Some t \<and> fence t = fc"
  "commits (complete_task_tx cfg ident ev rv tid owner fc rr er) now s r1 s' \<Longrightarrow> \<exists>t. task_at s (task_field rv tid) = Some t \<and> fence t = fc"
  "commits (fail_task_tx cfg ident ev rv tid owner fc reason stages) now s r1 s' \<Longrightarrow> \<exists>t. task_at s (task_field rv tid) = Some t \<and> fence t = fc"
  "commits (renew_task_lease_tx cfg clk ident rv tid owner fc until) now s r2 s' \<Longrightarrow> \<exists>t. task_at s (task_field rv tid) = Some t \<and> fence t = fc"
  "commits (lease_task_tx cfg clk ident ev rv tid owner fc until) now s r1 s' \<Longrightarrow> \<exists>t. task_at s (task_field rv tid) = Some t \<and> fence t < fc"
  by (auto simp: start_task_tx_def complete_task_tx_def fail_task_tx_def lease_task_tx_def Let_def renew_task_lease_tx_def
      commits_def [of "(_, _)"] bind_res_Inr_iff split: option.splits
      dest!: mutate_task_of start_mutD complete_mutD fail_mutD renew_mutD elim!: lease_mutD)

lemma receipt_fence:
  "commits (execution_receipt_tx cfg claim ref owner fc token result) now s r s' \<Longrightarrow>
     \<exists>t. task_at s (task_field (ref_revision ref) (ref_task_id ref)) = Some t \<and> fence t = fc"
  by (auto simp: commits_def execution_receipt_tx_def receipt_allowed_def bind_res_Inr_iff Let_def
      split: option.splits if_splits)

text \<open>C5: A stale worker is locked out: once a task has been leased under a higher fence, an operation
  carrying a lower one (start, complete, fail, renew, lease, or the execution receipt) never
  commits again, whatever happens to the run in between.\<close>

theorem stale_worker_locked_out:
  assumes "reachable_run cfg s" "task_at s (task_field rv tid) = Some t" "fc < fence t" "run_steps cfg s s'"
  shows "\<not> commits (start_task_tx cfg ident ev rv tid owner fc) now s' r1 s'' \<and>
    \<not> commits (complete_task_tx cfg ident ev rv tid owner fc rr er) now s' r1 s'' \<and>
    \<not> commits (fail_task_tx cfg ident ev rv tid owner fc reason stages) now s' r1 s'' \<and>
    \<not> commits (renew_task_lease_tx cfg clk ident rv tid owner fc until) now s' r2 s'' \<and>
    \<not> commits (lease_task_tx cfg clk ident ev rv tid owner fc until) now s' r1 s'' \<and>
    \<not> commits (execution_receipt_tx cfg claim (ref\<lparr>ref_revision := rv, ref_task_id := tid\<rparr>) owner fc token result) now s' r3 s''"
proof -
  obtain t' where t': "task_at s' (task_field rv tid) = Some t'" "fence t \<le> fence t'"
    using run_steps_later [OF assms(4) reachable_ok [OF assms(1)] assms(2)] by (auto simp: task_later_def)
  have no: "\<not> (\<exists>t. task_at s' (task_field rv tid) = Some t \<and> fence t = fc)"
    "\<not> (\<exists>t. task_at s' (task_field rv tid) = Some t \<and> fence t < fc)"
    using assms(3) t' by auto
  show ?thesis
  proof (intro conjI)
    show "\<not> commits (execution_receipt_tx cfg claim (ref\<lparr>ref_revision := rv, ref_task_id := tid\<rparr>) owner fc token result) now s' r3 s''"
    proof
      assume "commits (execution_receipt_tx cfg claim (ref\<lparr>ref_revision := rv, ref_task_id := tid\<rparr>) owner fc token result) now s' r3 s''"
      from receipt_fence [OF this] show False using no(1) by simp
    qed
  qed (rule notI, drule worker_fences, use no in blast)+
qed

theorem stale_worker_locked_out_witness:
  "\<forall>r s''. \<not> commits (complete_task_tx sample_cfg sample_run 5 1 ''a'' ''w0'' 6 ''res'' ''ev'') 60 demo_claimed r s''"
proof -
  have "run_steps sample_cfg demo_leased demo_claimed"
    using demo_reach(5,6) by (meson converse_rtranclp_into_rtranclp rtranclp.rtrancl_refl)
  moreover have "6 < fence task_leased" by (simp add: task_leased_def)
  ultimately show ?thesis
    using stale_worker_locked_out [OF demo_reachable(4), of 1 "''a''" task_leased 6] demo_rows(1) by auto
qed

text \<open>C6: A live lease is exclusive: a worker gets a task that another holds only under a higher fence and
  when the other's lease has run out, and it gets a queued task only within its queue-wait budget.\<close>

theorem lease_exclusive:
  assumes "commits (lease_task_tx cfg clk ident ev rv tid owner fc until) now s (t', run) s'"
    and "task_at s (task_field rv tid) = Some t"
  shows "fence t < fc \<and> fence t' = fc \<and> lease_owner t' = owner \<and> lease_until t' = until \<and> task_status t' = ''leased'' \<and>
    task_at s' (task_field rv tid) = Some t' \<and>
    (task_status t \<in> {''leased'', ''running''} \<longrightarrow> lease_until t \<le> now) \<and>
    (task_status t = ''queued'' \<longrightarrow> is_zero (queued_at t) \<or> now < queued_at t + queue_wait_timeout cfg)"
proof -
  obtain t0 cur where t0: "task_at s (task_field rv tid) = Some t0" and m: "lease_mut cfg owner fc until t0 now = Inr t'"
    and s': "s' = exec_pipe [HSetTask (task_field rv tid) t', HSetState (advance now cur),
               XAddEvent (task_entry ''agent_run.task_status'' (event_seq (advance now cur)) tid t' now)] s"
    using assms(1) unfolding lease_task_tx_def require_commits mutate_commits by blast
  have eq: "t0 = t" using t0 assms(2) by simp
  note m = m [unfolded eq]
  have row: "task_at s' (task_field rv tid) = Some t'" using exec_task_pipe(2) [OF s'] by (simp add: AList.update_conv')
  have live: "task_status t \<in> {''leased'', ''running''} \<longrightarrow> lease_until t \<le> now"
    "task_status t = ''queued'' \<longrightarrow> is_zero (queued_at t) \<or> now < queued_at t + queue_wait_timeout cfg"
    using m by (auto simp: lease_mut_def bind_res_Inr_iff split: if_split_asm)
  obtain w where "fence t < fc" "t' = t\<lparr>task_status := ''leased'', lease_owner := owner, fence := fc, lease_until := until,
        leased_at := now, queue_wait_ms := w\<rparr>"
    using m by (rule lease_mutD)
  then show ?thesis using row live by simp
qed

theorem lease_exclusive_witness:
  "task_at demo_leased demo_field = Some task_leased \<and> lease_owner task_leased = ''w1''"
proof -
  have "task_at demo_queued demo_field = Some task_queued" by (simp add: demo_queued_def demo_slot_def)
  from lease_exclusive [OF demo_step4 this] show ?thesis by simp
qed

subsection \<open>At most one execution\<close>

lemma claimed_once:
  assumes "reachable_run cfg s" "commits (execution_receipt_tx cfg claim ref owner fc token None) now s (acquired, w) s'"
    and "claim \<noteq> []" "run_steps cfg s' s''" "ref_revision ref' = ref_revision ref" "ref_task_id ref' = ref_task_id ref"
  shows "\<not> commits (execution_receipt_tx cfg claim' ref' owner' fc' token' None) now' s'' r s3"
proof
  let ?f = "task_field (ref_revision ref) (ref_task_id ref)"
  obtain t where s': "s' = exec_pipe [HSetTask ?f (t\<lparr>execution_token := claim\<rparr>)] s"
    using assms(2) by (auto simp: commits_def execution_receipt_tx_def receipt_mut_def bind_res_Inr_iff Let_def
      simp del: exec_pipe_simps split: option.splits if_split_asm)
  have row: "task_at s' ?f = Some (t\<lparr>execution_token := claim\<rparr>)" by (simp add: s' AList.update_conv')
  have ok: "slot_ok s'"
    using receipt_good [OF reachable_ok [OF assms(1)] assms(2,3)] by (simp add: good_step_def)
  obtain u where u: "task_at s'' ?f = Some u" "execution_token u = claim"
    using run_steps_later [OF assms(4) ok row] assms(3) by (auto simp: task_later_def)
  assume "commits (execution_receipt_tx cfg claim' ref' owner' fc' token' None) now' s'' r s3"
  then obtain v where "task_at s'' ?f = Some v" "execution_token v = []"
    using assms(5,6) by (auto simp: commits_def execution_receipt_tx_def receipt_mut_def bind_res_Inr_iff Let_def
      split: option.splits if_split_asm)
  then show False using u assms(3) by simp
qed

text \<open>C7: The right to execute a task is given at most once: when a worker has claimed the execution of a
  task, no later claim, by any worker under any fence, acquires a token; it gets the stored
  receipt of the first execution, an error, or nothing.\<close>

theorem execution_claimed_once:
  assumes "reachable_run cfg s" "commits (execution_receipt_tx cfg claim ref owner fc token None) now s (acquired, w) s'"
    and "claim \<noteq> []" "run_steps cfg s' s''" "ref_revision ref' = ref_revision ref" "ref_task_id ref' = ref_task_id ref"
  shows "\<not> commits (execution_receipt_tx cfg claim' ref' owner' fc' token' None) now' s'' r s3"
  by (rule claimed_once [OF assms])

theorem execution_claimed_once_witness:
  "\<forall>r s3. \<not> commits (execution_receipt_tx sample_cfg ''tok2'' demo_ref ''w1'' 7 [] None) 56 demo_claimed r s3"
proof -
  have "''tok'' \<noteq> []" by simp
  from execution_claimed_once [OF demo_reachable(5) demo_step6 this rtranclp.rtrancl_refl refl refl] show ?thesis by blast
qed

subsection \<open>Versions\<close>

text \<open>Optimistic concurrency: of the writers that observed the same version of a run at most one
  wins. After any task mutation has committed under version \<open>ev\<close>, every other operation that
  carries \<open>ev\<close> (mutation, transition, plan installation, queueing, planning completion) fails
  with a conflict, also when the version counter wraps around.\<close>

theorem one_writer_per_version:
  assumes "commits (mutate_tx cfg ident ev rv tid ety mut) now s r s'"
  shows "snd (mutate_tx cfg ident' ev rv' tid' ety' mut') now' s' = Inl ErrConflict \<and>
    snd (transition_tx cfg ident' ev st ety') now' s' = Inl ErrConflict \<and>
    snd (install_plan_tx cfg ident' ev p) now' s' = Inl ErrConflict \<and>
    snd (queue_task_tx cfg ident' ev rv' tid' reason) now' s' = Inl ErrConflict \<and>
    snd (complete_planning_tx cfg ident' ev owner fc p rr er) now' s' = Inl ErrConflict"
proof -
  obtain cur where cur: "version cur = ev" "state_key s' = Some (advance now cur)"
    using assms by (auto simp: mutate_commits)
  have "version (advance now cur) \<noteq> ev" using cur(1) by simp
  then show ?thesis using cur(2)
    by (simp add: mutate_tx_def transition_tx_def install_plan_tx_def queue_task_tx_def complete_planning_tx_def)
qed

theorem one_writer_per_version_witness:
  "snd (transition_tx sample_cfg sample_run 3 ''failed'' ''agent_run.final'') 41 demo_leased = Inl ErrConflict"
proof -
  have "commits (mutate_tx sample_cfg sample_run 3 1 ''a'' ''agent_run.task_status'' (lease_mut sample_cfg ''w1'' 7 1000)) 40
      demo_queued (task_leased, demo_cur 4 1 ''running'' 40) demo_leased"
    using demo_step4 unfolding lease_task_tx_def require_commits by blast
  from one_writer_per_version [OF this] show ?thesis by blast
qed

subsection \<open>The event log\<close>

lemma decode_contiguous:
  assumes "map en_seq es = [n..<n + length es]" "n + length es \<le> max_uint64"
  shows "decode_entries n es = Inr (map to_event es)"
  using assms
proof (induction es arbitrary: n)
  case (Cons e es)
  have "[n..<n + length (e # es)] = n # [Suc n..<n + length (e # es)]" by (rule upt_conv_Cons) simp
  then have "[n..<n + length (e # es)] = n # [Suc n..<Suc n + length es]" by simp
  then have e: "en_seq e = n" "map en_seq es = [Suc n..<Suc n + length es]" using Cons.prems(1) by simp_all
  have "inc64 n = Suc n" using Cons.prems(2) by (simp add: inc64_small)
  then show ?case using Cons.IH [OF e(2)] Cons.prems(2) e(1) by simp
qed simp

lemma filter_above:
  assumes "map en_seq es = [Suc 0..<Suc (length es)]"
  shows "List.filter (\<lambda>e. k < en_seq e) es = drop k es"
  using assms
proof (induction es rule: rev_induct)
  case (snoc e es)
  have "[Suc 0..<Suc (length (es @ [e]))] = [Suc 0..<Suc (length es)] @ [Suc (length es)]" by simp
  then have x: "map en_seq es = [Suc 0..<Suc (length es)]" "en_seq e = Suc (length es)" using snoc.prems by simp_all
  then show ?case using snoc.IH by (cases "k < Suc (length es)") auto
qed simp

text \<open>Reading events is exact: in every reachable run (with fewer events than a 64-bit counter can
  number), a read after event \<open>k\<close> with limit \<open>l\<close> gives the events \<open>k+1, k+2, ...\<close> in order, at
  most \<open>l\<close> of them, without a gap and without an expired cursor; so consecutive pages put together
  are the log.\<close>

theorem read_events_exact:
  assumes "reachable_run cfg s" "state_key s = Some cur" "length (events_key s) < max_uint64"
    and "valid_scope cfg ident" "0 < limit" "limit \<le> 1000" "k \<le> event_seq cur"
  shows "read_events cfg ident k limit s = Inr (map to_event (take (nat limit) (drop k (events_key s))))"
proof -
  have log: "map en_seq (events_key s) = [Suc 0..<Suc (length (events_key s))]" "event_seq cur = length (events_key s)"
    using reachable_ok [OF assms(1)] assms(2,3) by (simp_all add: slot_ok_def log_ok_def)
  define es where "es = take (nat limit) (drop k (events_key s))"
  have flt: "take (nat limit) (List.filter (\<lambda>e. k < en_seq e) (events_key s)) = es"
    by (simp add: filter_above [OF log(1)] es_def)
  have len: "length es = min (nat limit) (length (events_key s) - k)" by (simp add: es_def)
  have "map en_seq es = take (nat limit) (drop k (map en_seq (events_key s)))"
    by (simp add: es_def take_map drop_map)
  also have "\<dots> = take (nat limit) [Suc 0 + k..<Suc (length (events_key s))]" by (simp only: log(1) drop_upt)
  also have "\<dots> = [Suc k..<Suc k + length es]"
  proof (cases "nat limit \<le> length (events_key s) - k")
    case True
    then show ?thesis using take_upt [of "Suc k" "nat limit" "Suc (length (events_key s))"] assms(7) log(2)
      by (simp add: len min_def del: upt_Suc)
  next
    case False
    then show ?thesis using assms(7) log(2) by (simp add: len min_def del: upt_Suc)
  qed
  finally have seqs: "map en_seq es = [Suc k..<Suc k + length es]" .
  have bound: "Suc k + length es \<le> max_uint64" using len assms(3,7) log(2) by simp
  have inc: "inc64 k = Suc k" using bound by (simp add: inc64_small)
  have "es = [] \<longleftrightarrow> k = event_seq cur" using assms(5,7) log(2) len by auto
  moreover have "es \<noteq> [] \<Longrightarrow> en_seq (hd es) = Suc k" using seqs by (cases es) (simp_all add: upt_conv_Cons del: upt_Suc)
  ultimately show ?thesis
    using assms(2,4-7) decode_contiguous [OF seqs bound]
    by (simp add: read_events_def get_run_def flt inc Let_def flip: es_def) auto
qed

theorem read_events_exact_witness:
  "read_events sample_cfg sample_run 2 3 demo_completed = Inr (map to_event (take 3 (drop 2 demo_events)))"
  using read_events_exact [OF demo_reachable(7) demo_rows(5) _ demo_scope(1), of 3 2]
  by (simp add: demo_completed_def demo_slot_def demo_events_def demo_cur_def max_uint64_def)

subsection \<open>Ended runs\<close>

text \<open>No operation that writes the run commits on an ended one.\<close>

lemma ended_run_blocks:
  assumes "state_key s = Some cur" "terminal (run_status cur)"
  shows "\<not> commits (create_tx cfg recover t ini) now s r s'" "\<not> commits (transition_tx cfg ident ev st ety) now s r s'"
    "\<not> commits (install_plan_tx cfg ident ev p) now s r s'" "\<not> commits (start_planning_tx cfg ident) now s r s'"
    "\<not> commits (complete_planning_tx cfg ident ev owner fc p rr er) now s r s'"
    "\<not> commits (expire_planning_tx cfg ident) now s r s'" "\<not> commits (cancel_tx cfg ident) now s r s'"
    "\<not> commits (queue_task_tx cfg ident ev rv tid reason) now s tr s'"
    "\<not> commits (mutate_tx cfg ident ev rv tid ety mut) now s tr s'"
    "\<not> commits (execution_receipt_tx cfg claim ref owner fc token result) now s w s'"
    "\<not> commits (advance_cursor_tx entry) now s z s'"
proof -
  have st: "run_status cur \<noteq> ''planning''" "run_status cur \<noteq> ''accepted''"
    using assms(2) by (auto simp: terminal_def)
  show "\<not> commits (create_tx cfg recover t ini) now s r s'" "\<not> commits (transition_tx cfg ident ev st ety) now s r s'"
    "\<not> commits (install_plan_tx cfg ident ev p) now s r s'" "\<not> commits (start_planning_tx cfg ident) now s r s'"
    "\<not> commits (complete_planning_tx cfg ident ev owner fc p rr er) now s r s'"
    "\<not> commits (expire_planning_tx cfg ident) now s r s'" "\<not> commits (cancel_tx cfg ident) now s r s'"
    "\<not> commits (queue_task_tx cfg ident ev rv tid reason) now s tr s'"
    "\<not> commits (mutate_tx cfg ident ev rv tid ety mut) now s tr s'"
    "\<not> commits (execution_receipt_tx cfg claim ref owner fc token result) now s w s'"
    "\<not> commits (advance_cursor_tx entry) now s z s'"
    using assms st by (simp_all add: commits_def create_tx_def transition_tx_def install_plan_tx_def start_planning_tx_def
      complete_planning_tx_def expire_planning_tx_def cancel_tx_def queue_task_tx_def mutate_tx_def
      execution_receipt_tx_def advance_cursor_tx_def Let_def)
qed

lemmas mutation_txs = mark_capacity_waiting_tx_def lease_task_tx_def start_task_tx_def complete_task_tx_def fail_task_tx_def
  skip_task_tx_def expire_queued_task_tx_def expire_unstarted_task_tx_def Let_def require_commits

text \<open>The one step an ended run still allows is the renewal of a lease.\<close>

lemma ended_run_step:
  assumes "run_step cfg s s'" "state_key s = Some cur" "terminal (run_status cur)"
  shows "\<exists>clk ident rv tid owner fc until now t. commits (renew_task_lease_tx cfg clk ident rv tid owner fc until) now s t s'"
  using assms(1)
proof (cases rule: run_step.cases)
  case Renew
  then show ?thesis by blast
qed (use ended_run_blocks [OF assms(2,3)] in \<open>simp_all add: mutation_txs\<close>)

lemma renew_frame:
  assumes "commits (renew_task_lease_tx cfg clk ident rv tid owner fc until) now s t s'"
  shows "state_key s' = state_key s \<and> events_key s' = events_key s \<and> plans_key s' = plans_key s \<and> outbox_key s' = outbox_key s"
    and "\<exists>t f. task_at s f = Some t \<and> \<not> task_ended (task_status t)"
  using assms by (auto simp: commits_def renew_task_lease_tx_def bind_res_Inr_iff split: option.splits
      dest!: renew_mutD) (auto simp: task_ended_def)


definition demo_ended :: run_slot where
  "demo_ended = demo_slot (demo_cur 6 1 ''completed'' 60) 6 [(demo_field, task_completed)] []"


text \<open>Cancel fences everything: after it has committed, the run is cancelled, every task has ended
  (one whose execution had been claimed and has no receipt asks for manual review), the dispatch
  outbox is empty, and no operation of the store can take another step.\<close>

theorem cancel_final:
  assumes "reachable_run cfg s" "commits (cancel_tx cfg ident) now s r s'"
  shows "(\<exists>cur. state_key s' = Some cur \<and> run_status cur = ''cancelled'') \<and> outbox_key s' = [] \<and>
    (\<forall>f t. task_at s f = Some t \<longrightarrow> \<not> task_ended (task_status t) \<longrightarrow>
       task_at s' f = Some (cancelled_task now t)) \<and>
    (\<forall>f t. task_at s' f = Some t \<longrightarrow> task_ended (task_status t)) \<and> (\<forall>s''. \<not> run_step cfg s' s'')"
proof -
  obtain cur where cur: "state_key s = Some cur" using assms(2) by (auto simp: commits_def cancel_tx_def split: option.splits)
  have dist: "distinct (map fst (tasks_key s))" using reachable_ok [OF assms(1)] by (simp add: slot_ok_def)
  obtain sq where st: "state_key s' = Some (cur\<lparr>run_status := ''cancelled'', updated_at := now,
        version := inc64 (version cur), event_seq := inc64 sq\<rparr>)"
    and tk: "map_of (tasks_key s') = map_of (tasks_key s) ++ map_of (cancel_rows now s)" and ob: "outbox_key s' = []"
    using cancel_exec [OF assms(2) cur dist] by blast
  have m': "task_at s' f = (case task_at s f of None \<Rightarrow> None
      | Some t \<Rightarrow> Some (if task_ended (task_status t) then t else cancelled_task now t))" for f
    unfolding tk using cancel_rows_of(2) [OF dist, of now f] by (auto simp: map_add_def split: option.split)
  have ended: "task_ended (task_status t)" if "task_at s' f = Some t" for f t
    using that unfolding m' by (auto simp: cancelled_task_def status_simps split: option.splits if_splits)
  have "\<not> run_step cfg s' s''" for s''
  proof
    assume "run_step cfg s' s''"
    from ended_run_step [OF this st] obtain clk ident rv tid owner fc until now' t where
      "commits (renew_task_lease_tx cfg clk ident rv tid owner fc until) now' s' t s''"
      by (auto simp: terminal_def)
    from renew_frame(2) [OF this] show False using ended by blast
  qed
  then show ?thesis using st ob m' ended by auto
qed

theorem cancel_final_witness: "\<exists>s'. outbox_key s' = [] \<and> task_at s' demo_field = Some (cancelled_task 70 task_claimed)"
proof -
  have "fst (cancel_tx sample_cfg sample_run)" by (simp add: cancel_tx_def demo_scope)
  moreover obtain cmds r where "snd (cancel_tx sample_cfg sample_run) 70 demo_claimed = Inr (Some cmds, r)"
    by (auto simp: cancel_tx_def demo_claimed_def demo_slot_def demo_cur_def demo_status Let_def case_prod_beta)
  ultimately have "commits (cancel_tx sample_cfg sample_run) 70 demo_claimed r (exec_pipe cmds demo_claimed)"
    by (rule commitsI) simp
  moreover have "\<not> task_ended (task_status task_claimed)"
    by (simp add: task_claimed_def task_started_def status_simps)
  ultimately show ?thesis using cancel_final [OF demo_reachable(6)] demo_rows(3) by blast
qed

subsection \<open>Interleaving\<close>

text \<open>
  The transaction loops on top of the atomic steps: whatever the other clients do between the
  read and the \<open>EXEC\<close> of each attempt, as long as they are clients of the same store, the run
  stays reachable, and a success is one atomic step at the moment of its \<open>EXEC\<close>.
\<close>

definition fair_clients :: "run_cfg \<Rightarrow> (nat \<Rightarrow> surroundings) \<Rightarrow> bool" where
  "fair_clients cfg env \<longleftrightarrow> (\<forall>i t. run_steps cfg t (at_others (env i) t))"

lemma fair_fold: "fair_clients cfg env \<Longrightarrow> run_steps cfg s (fold (\<lambda>i. at_others (env i)) ks s)"
  by (induction ks arbitrary: s) (auto simp: fair_clients_def intro: rtranclp_trans)

lemma run_tx_steps:
  assumes otx: "optimistic_tx watched (snd t)" and fair: "fair_clients cfg env" and run: "run_tx n watched t env s = (res, s')"
    and step: "\<forall>now u r u'. commits t now u r u' \<longrightarrow> run_step cfg u u'"
  shows "run_steps cfg s s' \<and> (\<forall>r. res = Inr r \<longrightarrow> (\<exists>u k. run_steps cfg s u \<and>
      (commits t (at_clock (env k)) u r s' \<or> snd t (at_clock (env k)) u = Inr (None, r))))"
proof (cases "fst t")
  case True
  then have loop: "watch_loop n watched (snd t) env s = (res, s')" using run by (simp add: run_tx_def)
  obtain k where k: "let u = fold (\<lambda>i. at_others (env i)) [0..<k] s in
    (\<exists>e. res = Inl e \<and> s' = u) \<or>
    (\<exists>r. res = Inr r \<and> k < n \<and>
       ((snd t (at_clock (env k)) u = Inr (None, r) \<and> s' = at_others (env k) u) \<or>
        (\<exists>cmds. snd t (at_clock (env k)) (at_others (env k) u) = Inr (Some cmds, r) \<and>
           s' = exec_pipe cmds (at_others (env k) u))))"
    using optimistic_tx.watch_loop_atomic [OF otx loop] by blast
  define u where "u = fold (\<lambda>i. at_others (env i)) [0..<k] s"
  have su: "run_steps cfg s u" unfolding u_def by (rule fair_fold [OF fair])
  have uv: "run_steps cfg u (at_others (env k) u)" using fair by (simp add: fair_clients_def)
  from k consider (err) e where "res = Inl e" "s' = u"
    | (read) r where "res = Inr r" "snd t (at_clock (env k)) u = Inr (None, r)" "s' = at_others (env k) u"
    | (wrote) r cmds where "res = Inr r" "snd t (at_clock (env k)) (at_others (env k) u) = Inr (Some cmds, r)"
        "s' = exec_pipe cmds (at_others (env k) u)"
    by (auto simp: Let_def u_def)
  then show ?thesis
  proof cases
    case err
    then show ?thesis using su by simp
  next
    case read
    then show ?thesis using su rtranclp_trans [OF su uv] by auto
  next
    case wrote
    then have c: "commits t (at_clock (env k)) (at_others (env k) u) r s'" using True by (simp add: commitsI)
    have "run_steps cfg s (at_others (env k) u)" by (rule rtranclp_trans [OF su uv])
    then show ?thesis using c step [rule_format, OF c] wrote(1) by (auto intro: rtranclp.rtrancl_into_rtrancl)
  qed
qed (use run in \<open>auto simp: run_tx_def\<close>)

lemma mutation_otx:
  "optimistic_tx watch_tasks (snd (lease_task_tx cfg clk ident ev rv tid owner fc until))"
  "optimistic_tx watch_tasks (snd (complete_task_tx cfg ident ev rv tid owner fc rr er))"
  unfolding lease_task_tx_def complete_task_tx_def require_simps by (rule mutate_otx.optimistic_tx_axioms)+

lemma mutation_writes: "snd (mutate_tx cfg ident ev rv tid ety mut) now s \<noteq> Inr (None, r)"
  by (auto simp: mutate_tx_def bind_res_Inr_iff Let_def split: option.splits)

lemma queue_writes: "snd (queue_task_tx cfg ident ev rv tid reason) now s \<noteq> Inr (None, r)"
  by (auto simp: queue_task_tx_def bind_res_Inr_iff Let_def split: option.splits)

text \<open>C9: The optimistic loops are atomic under contention: whatever other clients of the store do between
  the reads and the writes of its attempts, a call that leases, queues, completes or cancels and
  reports success did so in one atomic step on the keys as they were at that moment (or, for
  cancel, found the run already ended), and any call leaves the run in a state the atomic steps
  reach.\<close>

theorem operations_atomic:
  assumes "fair_clients cfg env"
  shows "(\<forall>res s'. lease_task cfg clk ident ev rv tid owner fc until env s = (res, s') \<longrightarrow> run_steps cfg s s' \<and>
      (\<forall>x. res = Inr x \<longrightarrow> (\<exists>u k. run_steps cfg s u \<and>
         commits (lease_task_tx cfg clk ident ev rv tid owner fc until) (at_clock (env k)) u x s'))) \<and>
    (\<forall>res s'. queue_task cfg ident ev rv tid reason env s = (res, s') \<longrightarrow> run_steps cfg s s' \<and>
      (\<forall>x. res = Inr x \<longrightarrow> (\<exists>u k. run_steps cfg s u \<and>
         commits (queue_task_tx cfg ident ev rv tid reason) (at_clock (env k)) u x s'))) \<and>
    (\<forall>res s'. 0 < rv \<longrightarrow> complete_task cfg ident ev rv tid owner fc rr er env s = (res, s') \<longrightarrow> run_steps cfg s s' \<and>
      (\<forall>x. res = Inr x \<longrightarrow> (\<exists>u k. run_steps cfg s u \<and>
         commits (complete_task_tx cfg ident ev rv tid owner fc rr er) (at_clock (env k)) u x s'))) \<and>
    (\<forall>res s'. cancel_run cfg ident env s = (res, s') \<longrightarrow> run_steps cfg s s' \<and>
      (\<forall>x. res = Inr x \<longrightarrow> (\<exists>u k. run_steps cfg s u \<and>
         (commits (cancel_tx cfg ident) (at_clock (env k)) u x s' \<or> state_key u = Some x \<and> terminal (run_status x)))))"
proof -
  have L: "\<forall>now u r u'. commits (lease_task_tx cfg clk ident ev rv tid owner fc until) now u r u' \<longrightarrow> run_step cfg u u'"
    by (blast intro: run_step.Lease)
  have Q: "\<forall>now u r u'. commits (queue_task_tx cfg ident ev rv tid reason) now u r u' \<longrightarrow> run_step cfg u u'"
    by (blast intro: run_step.QueueTask)
  have D: "\<forall>now u r u'. commits (complete_task_tx cfg ident ev rv tid owner fc rr er) now u r u' \<longrightarrow> run_step cfg u u'" if "0 < rv"
    using that by (blast intro: run_step.Complete)
  have X: "\<forall>now u r u'. commits (cancel_tx cfg ident) now u r u' \<longrightarrow> run_step cfg u u'"
    by (blast intro: run_step.Cancel)
  have cw: "state_key u = Some x \<and> terminal (run_status x)" if "snd (cancel_tx cfg ident) t u = Inr (None, x)" for t u x
    using that by (auto simp: cancel_tx_def Let_def split: option.splits if_splits prod.splits)
  have nl: "snd (lease_task_tx cfg clk ident ev rv tid owner fc until) t u \<noteq> Inr (None, x)" for t u x
    unfolding lease_task_tx_def require_simps by (rule mutation_writes)
  have nd: "snd (complete_task_tx cfg ident ev rv tid owner fc rr er) t u \<noteq> Inr (None, x)" for t u x
    unfolding complete_task_tx_def require_simps by (rule mutation_writes)
  show ?thesis
  proof (intro conjI allI impI, goal_cases)
    case (1 res s') then show ?case using run_tx_steps [OF mutation_otx(1) assms _ L] unfolding lease_task_def by blast
  next
    case (2 res s' x) then show ?case using run_tx_steps [OF mutation_otx(1) assms _ L] nl unfolding lease_task_def by blast
  next
    case (3 res s') then show ?case using run_tx_steps [OF queue_otx.optimistic_tx_axioms assms _ Q] unfolding queue_task_def by blast
  next
    case (4 res s' x) then show ?case using run_tx_steps [OF queue_otx.optimistic_tx_axioms assms _ Q] queue_writes
      unfolding queue_task_def by blast
  next
    case (5 res s') then show ?case using run_tx_steps [OF mutation_otx(2) assms _ D] unfolding complete_task_def by blast
  next
    case (6 res s' x) then show ?case using run_tx_steps [OF mutation_otx(2) assms _ D] nd unfolding complete_task_def by blast
  next
    case (7 res s') then show ?case using run_tx_steps [OF cancel_otx.optimistic_tx_axioms assms _ X] unfolding cancel_run_def by blast
  next
    case (8 res s' x) then show ?case using run_tx_steps [OF cancel_otx.optimistic_tx_axioms assms _ X] cw
      unfolding cancel_run_def by blast
  qed
qed

theorem operations_atomic_witness:
  "run_steps sample_cfg demo_queued
     (snd (lease_task sample_cfg 40 sample_run 3 1 ''a'' ''w1'' 7 1000 (\<lambda>_. quiet 40) demo_queued))"
proof -
  have "fair_clients sample_cfg (\<lambda>_. quiet 40)" by (simp add: fair_clients_def quiet_def)
  from operations_atomic [OF this] show ?thesis by (metis prod.collapse)
qed

end
