(* ===== verification/AgentCalls.thy ===== *)
theory AgentCalls imports AgentSafety "HOL-Library.State_Monad" begin

section \<open>Programs over the run store and the task bus\<close>

text \<open>
  \<open>ReconcilePlan\<close>, \<open>DispatchPending\<close>, \<open>RecoverRun\<close> and the workers are programs: sequences of
  calls of the run store, of the clock and of the task bus, between which other clients go on.
  They are written in the state monad over a world that has the keys of the run, what the bus
  has accepted and acknowledged, the executions started, and the number of calls made, which
  selects the surroundings of the next one.
\<close>

subsection \<open>The world\<close>

record task_message =
  msg_id :: string
  msg_tenant_key :: string
  msg_subscriber :: string
  msg_topic :: string
  msg_payload :: task_ref
  msg_run_id :: string

text \<open>
  Call \<open>k\<close> of the program meets the connection \<open>conn k\<close> (by attempt) and the answer \<open>bus k\<close> of
  the task bus: \<open>None\<close> for success, or an error and whether the call took effect all the same.
\<close>

record call_env =
  conn :: "nat \<Rightarrow> nat \<Rightarrow> surroundings"
  bus :: "nat \<Rightarrow> (string \<times> bool) option"

record agent_world =
  w_slot :: run_slot
  w_bus :: "task_message list"
  w_acked :: "string list"
  w_executed :: "(task_ref \<times> string) list"
  w_tick :: nat
  w_env :: call_env

type_synonym 'a prog = "(agent_world, 'a) state"
type_synonym 'a fallible = "(agent_world, run_error + 'a) state"

definition store_call :: "((nat \<Rightarrow> surroundings) \<Rightarrow> run_slot \<Rightarrow> (run_error + 'a) \<times> run_slot) \<Rightarrow> 'a fallible" where
  "store_call f = State (\<lambda>w. let (r, s) = f (conn (w_env w) (w_tick w)) (w_slot w)
     in (r, w\<lparr>w_slot := s, w_tick := Suc (w_tick w)\<rparr>))"

text \<open>A read sees the keys after what others have done until then, or fails.\<close>

definition read_op :: "(run_slot \<Rightarrow> run_error + 'a) \<Rightarrow> (nat \<Rightarrow> surroundings) \<Rightarrow> run_slot \<Rightarrow> (run_error + 'a) \<times> run_slot" where
  "read_op f env s = (let u = at_others (env 0) s
     in (case at_failure (env 0) of Some e \<Rightarrow> Inl (RedisError e) | None \<Rightarrow> f u, u))"

definition read_call :: "(run_slot \<Rightarrow> run_error + 'a) \<Rightarrow> 'a fallible" where
  "read_call f = store_call (read_op f)"

definition read_clock :: "instant prog" where
  "read_clock = State (\<lambda>w. let e = conn (w_env w) (w_tick w) 0
     in (at_clock e, w\<lparr>w_slot := at_others e (w_slot w), w_tick := Suc (w_tick w)\<rparr>))"

text \<open>\<open>Enqueue\<close> and \<open>Ack\<close> of the task bus.\<close>

definition bus_call :: "(agent_world \<Rightarrow> agent_world) \<Rightarrow> unit fallible" where
  "bus_call effect = State (\<lambda>w. let w' = w\<lparr>w_tick := Suc (w_tick w)\<rparr>
     in case bus (w_env w) (w_tick w) of
          None \<Rightarrow> (Inr (), effect w')
        | Some (e, done) \<Rightarrow> (Inl (RedisError e), if done then effect w' else w'))"

definition enqueue :: "task_message \<Rightarrow> unit fallible" where
  "enqueue m = bus_call (\<lambda>w. w\<lparr>w_bus := w_bus w @ [m]\<rparr>)"

definition ack :: "string \<Rightarrow> unit fallible" where
  "ack mid = bus_call (\<lambda>w. w\<lparr>w_acked := w_acked w @ [mid]\<rparr>)"

text \<open>\<open>if err != nil \{ return ..., err \}\<close>.\<close>

definition bind_ok :: "'a fallible \<Rightarrow> ('a \<Rightarrow> 'b fallible) \<Rightarrow> 'b fallible" where
  "bind_ok m f = do { r \<leftarrow> m; case r of Inl e \<Rightarrow> State_Monad.return (Inl e) | Inr x \<Rightarrow> f x }"

subsection \<open>Running\<close>

named_theorems runs "what one step of a program gives"

lemma run_return [runs]: "run_state (State_Monad.return x) w = (y, w') \<longleftrightarrow> y = x \<and> w' = w"
  by auto

lemma run_bind [runs]: "run_state (m \<bind> f) w = (y, w') \<longleftrightarrow> (\<exists>x v. run_state m w = (x, v) \<and> run_state (f x) v = (y, w'))"
  by (auto simp: run_state_bind split: prod.splits)

lemma run_bind_ok [runs]: "run_state (bind_ok m f) w = (y, w') \<longleftrightarrow>
    (\<exists>x v. run_state m w = (Inr x, v) \<and> run_state (f x) v = (y, w')) \<or>
    (\<exists>e. run_state m w = (Inl e, w') \<and> y = Inl e)"
proof -
  obtain r v where m: "run_state m w = (r, v)" by fastforce
  show ?thesis by (cases r) (auto simp: bind_ok_def run_state_bind m)
qed

lemma run_store_call: "run_state (store_call f) w = (r, w') \<longleftrightarrow>
    (\<exists>s. f (conn (w_env w) (w_tick w)) (w_slot w) = (r, s) \<and> w' = w\<lparr>w_slot := s, w_tick := Suc (w_tick w)\<rparr>)"
  by (auto simp: store_call_def split: prod.splits)

subsection \<open>Fair surroundings\<close>

text \<open>
  A world is fair when the other clients, too, use only the operations of the store. A program
  is sound when in a fair world all it does to the run is a sequence of atomic steps.
\<close>

definition fair_world :: "run_cfg \<Rightarrow> agent_world \<Rightarrow> bool" where
  "fair_world cfg w \<longleftrightarrow> (\<forall>k. fair_clients cfg (conn (w_env w) k))"

definition sound :: "run_cfg \<Rightarrow> 'a prog \<Rightarrow> bool" where
  "sound cfg m \<longleftrightarrow> (\<forall>w r w'. fair_world cfg w \<longrightarrow> run_state m w = (r, w') \<longrightarrow>
     w_env w' = w_env w \<and> run_steps cfg (w_slot w) (w_slot w'))"

definition sound_op :: "run_cfg \<Rightarrow> ((nat \<Rightarrow> surroundings) \<Rightarrow> run_slot \<Rightarrow> (run_error + 'a) \<times> run_slot) \<Rightarrow> bool" where
  "sound_op cfg f \<longleftrightarrow> (\<forall>env s r s'. fair_clients cfg env \<longrightarrow> f env s = (r, s') \<longrightarrow> run_steps cfg s s')"

named_theorems sounds "programs that only take steps of the store"

lemma soundD: "sound cfg m \<Longrightarrow> fair_world cfg w \<Longrightarrow> run_state m w = (r, w') \<Longrightarrow>
    w_env w' = w_env w \<and> fair_world cfg w' \<and> run_steps cfg (w_slot w) (w_slot w')"
  unfolding sound_def fair_world_def by metis

lemma sound_return [sounds]: "sound cfg (State_Monad.return x)"
  by (simp add: sound_def)

lemma sound_bind [sounds]:
  assumes m: "sound cfg m" and f: "\<And>x. sound cfg (f x)" shows "sound cfg (m \<bind> f)"
  unfolding sound_def
proof (intro allI impI)
  fix w r w' assume fair: "fair_world cfg w" and run: "run_state (m \<bind> f) w = (r, w')"
  then obtain x v where m_run: "run_state m w = (x, v)" and f_run: "run_state (f x) v = (r, w')"
    unfolding run_bind by blast
  from soundD [OF m fair m_run] have v: "w_env v = w_env w" "fair_world cfg v" "run_steps cfg (w_slot w) (w_slot v)" by auto
  from soundD [OF f v(2) f_run] v show "w_env w' = w_env w \<and> run_steps cfg (w_slot w) (w_slot w')"
    by (auto intro: rtranclp_trans)
qed

lemma sound_if [sounds]: "sound cfg m \<Longrightarrow> sound cfg n \<Longrightarrow> sound cfg (if b then m else n)"
  by simp

lemma sound_sum [sounds]:
  "(\<And>e. sound cfg (f e)) \<Longrightarrow> (\<And>x. sound cfg (g x)) \<Longrightarrow> sound cfg (case r of Inl e \<Rightarrow> f e | Inr x \<Rightarrow> g x)"
  by (cases r) simp_all

lemma sound_option [sounds]:
  "sound cfg m \<Longrightarrow> (\<And>x. sound cfg (f x)) \<Longrightarrow> sound cfg (case r of None \<Rightarrow> m | Some x \<Rightarrow> f x)"
  by (cases r) simp_all

lemma sound_bind_ok [sounds]: "sound cfg m \<Longrightarrow> (\<And>x. sound cfg (f x)) \<Longrightarrow> sound cfg (bind_ok m f)"
  unfolding bind_ok_def by (intro sounds)

lemma sound_store_call [sounds]: "sound_op cfg f \<Longrightarrow> sound cfg (store_call f)"
  unfolding sound_def sound_op_def fair_world_def run_store_call by fastforce

lemma sound_read [sounds]: "sound cfg (read_call f)"
  unfolding read_call_def
  by (rule sound_store_call) (auto simp: sound_op_def read_op_def fair_clients_def Let_def)

lemma sound_clock [sounds]: "sound cfg read_clock"
  by (auto simp: sound_def read_clock_def fair_world_def fair_clients_def Let_def)

lemma sound_bus: "(\<And>w. w_slot (g w) = w_slot w \<and> w_env (g w) = w_env w) \<Longrightarrow> sound cfg (bus_call g)"
  by (auto simp: sound_def bus_call_def Let_def split: option.splits)

lemma sound_enqueue [sounds]: "sound cfg (enqueue m)"
  unfolding enqueue_def by (rule sound_bus) simp

lemma sound_ack [sounds]: "sound cfg (ack m)"
  unfolding ack_def by (rule sound_bus) simp

text \<open>A transaction of the store is sound when its commits are steps.\<close>

lemma sound_tx:
  assumes "optimistic_tx watched (snd t)" "\<forall>now u r u'. commits t now u r u' \<longrightarrow> run_step cfg u u'"
  shows "sound_op cfg (run_tx n watched t)"
  unfolding sound_op_def using run_tx_steps [OF assms(1) _ _ assms(2)] by blast

lemma sound_mutation:
  assumes "\<exists>b ety mut. t = require b (mutate_tx cfg ident ev rv tid ety mut)"
    and "\<forall>now u r u'. commits t now u r u' \<longrightarrow> run_step cfg u u'"
  shows "sound_op cfg (run_tx n watch_tasks t)"
proof (rule sound_tx [OF _ assms(2)])
  show "optimistic_tx watch_tasks (snd t)" using assms(1) mutate_otx.optimistic_tx_axioms by auto
qed

lemma mutate_require: "mutate_tx cfg ident ev rv tid ety mut = require True (mutate_tx cfg ident ev rv tid ety mut)"
  by (simp add: require_def)

lemma sound_mark_capacity_waiting [sounds]: "sound_op cfg (mark_capacity_waiting cfg ident ev rv tid reason)"
  unfolding mark_capacity_waiting_def by (rule sound_mutation) (unfold mark_capacity_waiting_tx_def, blast, blast intro: run_step.Waiting [unfolded mark_capacity_waiting_tx_def])

lemma sound_lease_task [sounds]: "sound_op cfg (lease_task cfg clk ident ev rv tid owner fc until)"
  unfolding lease_task_def by (rule sound_mutation) (unfold lease_task_tx_def, blast, blast intro: run_step.Lease [unfolded lease_task_tx_def])

lemma sound_start_task [sounds]: "sound_op cfg (start_task cfg ident ev rv tid owner fc)"
  unfolding start_task_def by (rule sound_mutation) (unfold start_task_tx_def, use mutate_require in blast, blast intro: run_step.Start [unfolded start_task_tx_def])

lemma sound_fail_task [sounds]: "sound_op cfg (fail_task cfg ident ev rv tid owner fc reason stages)"
  unfolding fail_task_def by (rule sound_mutation) (unfold fail_task_tx_def Let_def, blast, blast intro: run_step.Fail [unfolded fail_task_tx_def Let_def])

lemma sound_skip_task [sounds]: "sound_op cfg (skip_task cfg ident ev rv tid reason)"
  unfolding skip_task_def by (rule sound_mutation) (unfold skip_task_tx_def, blast, blast intro: run_step.Skip [unfolded skip_task_tx_def])

lemma sound_expire_queued_task [sounds]: "sound_op cfg (expire_queued_task cfg ident ev rv tid)"
  unfolding expire_queued_task_def by (rule sound_mutation) (unfold expire_queued_task_tx_def, use mutate_require in blast, blast intro: run_step.ExpireQueued [unfolded expire_queued_task_tx_def])

lemma sound_expire_unstarted_task [sounds]: "sound_op cfg (expire_unstarted_task cfg ident ev rv tid)"
  unfolding expire_unstarted_task_def by (rule sound_mutation) (unfold expire_unstarted_task_tx_def, use mutate_require in blast, blast intro: run_step.ExpireUnstarted [unfolded expire_unstarted_task_tx_def])

lemma sound_complete [sounds]: "0 < rv \<Longrightarrow> sound_op cfg (complete_task cfg ident ev rv tid owner fc rr er)"
  unfolding complete_task_def by (rule sound_mutation) (unfold complete_task_tx_def, blast, blast intro: run_step.Complete [unfolded complete_task_tx_def])

lemma sound_queue_task [sounds]: "sound_op cfg (queue_task cfg ident ev rv tid reason)"
  unfolding queue_task_def by (rule sound_tx [OF queue_otx.optimistic_tx_axioms]) (blast intro: run_step.QueueTask)

lemma sound_start_planning [sounds]: "sound_op cfg (start_planning cfg ident)"
  unfolding start_planning_def by (rule sound_tx [OF start_planning_otx.optimistic_tx_axioms]) (blast intro: run_step.StartPlanning)

lemma sound_expire_planning [sounds]: "sound_op cfg (expire_planning cfg ident)"
  unfolding expire_planning_def by (rule sound_tx [OF expire_planning_otx.optimistic_tx_axioms]) (blast intro: run_step.ExpirePlanning)

lemma sound_complete_planning [sounds]: "sound_op cfg (complete_planning cfg ident ev owner fc p rr er)"
  unfolding complete_planning_def by (rule sound_tx [OF complete_planning_otx.optimistic_tx_axioms]) (blast intro: run_step.CompletePlanning)

lemma sound_advance_dispatch_cursor [sounds]: "sound_op cfg (advance_dispatch_cursor entry)"
  unfolding advance_dispatch_cursor_def by (rule sound_tx [OF cursor_otx.optimistic_tx_axioms]) (blast intro: run_step.Cursor)

lemma sound_renew_task_lease [sounds]: "sound_op cfg (renew_task_lease cfg clk ident rv tid owner fc until)"
  unfolding renew_task_lease_def by (rule sound_tx [OF renew_otx.optimistic_tx_axioms]) (blast intro: run_step.Renew)

lemma sound_transition [sounds]: "terminal st \<Longrightarrow> sound_op cfg (transition cfg ident ev st ety)"
  unfolding transition_def by (rule sound_tx [OF transition_otx.optimistic_tx_axioms]) (blast intro: run_step.Transition)

lemma sound_receipt [sounds]: "claim \<noteq> [] \<Longrightarrow> sound_op cfg (execution_receipt cfg claim ref owner fc token result)"
  unfolding execution_receipt_def by (rule sound_tx [OF receipt_otx.optimistic_tx_axioms]) (blast intro: run_step.Receipt)

end
