(* ===== verification/AgentReconcile.thy ===== *)
theory AgentReconcile imports AgentCalls begin

section \<open>Reconciling, dispatching and recovering a run\<close>

text \<open>
  \<open>reconcile.go\<close>, \<open>dispatcher.go\<close> and \<open>recovery.go\<close>: the program that advances a plan by
  queueing, skipping and expiring tasks until it can end the run, the one that hands the
  outbox to the task bus, and the recovery of a run that puts the two together.
\<close>

subsection \<open>GetPlan and planTasks\<close>

definition get_plan :: "run_cfg \<Rightarrow> snapshot \<Rightarrow> nat \<Rightarrow> run_slot \<Rightarrow> run_error + run_plan" where
  "get_plan cfg ident rv s =
     (if \<not> valid_scope cfg ident \<or> rv = 0 then Inl ErrInvalid
      else case map_of (plans_key s) rv of
             None \<Rightarrow> Inl ErrNotFound
           | Some p \<Rightarrow> if plan_rev p \<noteq> rv \<or> \<not> valid_plan p then Inl ErrInvalid else Inr p)"

fun tasks_of_defs :: "run_slot \<Rightarrow> nat \<Rightarrow> task_definition list \<Rightarrow> run_error + task_snapshot list" where
  "tasks_of_defs s rv [] = Inr []"
| "tasks_of_defs s rv (d # ds) =
     (case task_at s (task_field rv (def_task_id d)) of
        None \<Rightarrow> Inl ErrNotFound
      | Some t \<Rightarrow>
          if task_id t \<noteq> def_task_id d \<or> task_revision t \<noteq> rv then Inl ErrInvalid
          else bind_res (tasks_of_defs s rv ds) (\<lambda>ts. Inr (t # ts)))"

definition tasks_of_plan :: "run_plan \<Rightarrow> run_slot \<Rightarrow> run_error + task_snapshot list" where
  "tasks_of_plan p s = tasks_of_defs s (plan_rev p) (plan_tasks p)"

subsection \<open>One turn of ReconcilePlan\<close>

text \<open>
  The loop body ends with \<open>continue\<close> or with \<open>return\<close>. Its parts, too, may end the turn: they
  give \<open>None\<close> when they found nothing to do.
\<close>

datatype turn = Again | Return "run_error + snapshot"

text \<open>A change lost to another writer, or made, both start the next turn; other errors return.\<close>

definition changed :: "run_error + 'a \<Rightarrow> turn option" where
  "changed r = (case r of Inl e \<Rightarrow> if e = ErrConflict then Some Again else Some (Return (Inl e)) | Inr _ \<Rightarrow> Some Again)"

definition unstarted :: "task_snapshot \<Rightarrow> bool" where
  "unstarted t \<longleftrightarrow> task_status t = ''queued'' \<or> task_status t = ''retry_wait'' \<or> task_status t = ''pending_dependency''"

definition expire_first :: "run_cfg \<Rightarrow> snapshot \<Rightarrow> snapshot \<Rightarrow> task_snapshot list \<Rightarrow> turn option prog" where
  "expire_first cfg ident run tasks =
     (case List.find unstarted tasks of
        None \<Rightarrow> State_Monad.return None
      | Some t \<Rightarrow> do {
          r \<leftarrow> store_call (expire_unstarted_task cfg ident (version run) (plan_revision run) (task_id t));
          State_Monad.return (changed r) })"

fun expire_waiting :: "run_cfg \<Rightarrow> snapshot \<Rightarrow> snapshot \<Rightarrow> task_snapshot list \<Rightarrow> turn option prog" where
  "expire_waiting cfg ident run [] = State_Monad.return None"
| "expire_waiting cfg ident run (t # ts) =
     (if task_status t \<noteq> ''queued'' \<or> is_zero (queued_at t) then expire_waiting cfg ident run ts
      else do {
        now \<leftarrow> read_clock;
        if now < queued_at t + queue_wait_timeout cfg then expire_waiting cfg ident run ts
        else do {
          r \<leftarrow> store_call (expire_queued_task cfg ident (version run) (plan_revision run) (task_id t));
          State_Monad.return (changed r) } })"

text \<open>The state of a dependency: the empty status for a name without a task.\<close>

definition status_of :: "task_snapshot list \<Rightarrow> string \<Rightarrow> string" where
  "status_of tasks d = (case map_of (rev (map (\<lambda>t. (task_id t, task_status t)) tasks)) d of None \<Rightarrow> [] | Some st \<Rightarrow> st)"

definition dep_blocked :: "string \<Rightarrow> bool" where
  "dep_blocked st \<longleftrightarrow> st = ''failed'' \<or> st = ''skipped'' \<or> st = ''cancelled''"

definition is_blocked :: "task_snapshot list \<Rightarrow> task_snapshot \<Rightarrow> bool" where
  "is_blocked tasks t \<longleftrightarrow> list_ex (\<lambda>d. dep_blocked (status_of tasks d)) (depends_on t)"

definition is_ready :: "task_snapshot list \<Rightarrow> task_snapshot \<Rightarrow> bool" where
  "is_ready tasks t \<longleftrightarrow> list_all (\<lambda>d. status_of tasks d = ''completed'' \<or> dep_blocked (status_of tasks d)) (depends_on t)"

fun schedule_first :: "run_cfg \<Rightarrow> snapshot \<Rightarrow> snapshot \<Rightarrow> task_snapshot list \<Rightarrow> task_snapshot list \<Rightarrow> turn option prog" where
  "schedule_first cfg ident run tasks [] = State_Monad.return None"
| "schedule_first cfg ident run tasks (t # ts) =
     (if task_status t \<noteq> ''pending_dependency'' then schedule_first cfg ident run tasks ts
      else if is_blocked tasks t then do {
        r \<leftarrow> store_call (skip_task cfg ident (version run) (plan_revision run) (task_id t) ''dependency.failed'');
        State_Monad.return (changed r) }
      else if is_ready tasks t then do {
        r \<leftarrow> store_call (queue_task cfg ident (version run) (plan_revision run) (task_id t) ''dependency_ready'');
        State_Monad.return (changed r) }
      else schedule_first cfg ident run tasks ts)"

text \<open>How a run ends, once all its tasks have.\<close>

definition final_status :: "task_snapshot list \<Rightarrow> string option" where
  "final_status tasks =
     (let completed = length (List.filter (\<lambda>t. task_status t = ''completed'') tasks);
          failed = length (List.filter (\<lambda>t. task_status t = ''failed'') tasks);
          skipped = length (List.filter (\<lambda>t. task_status t = ''skipped'' \<or> task_status t = ''cancelled'') tasks);
          manual_review = list_ex (\<lambda>t. task_status t = ''failed'' \<and> reason_code t = ''manual_review_required'') tasks
      in if list_ex (\<lambda>t. \<not> task_ended (task_status t)) tasks then None
         else Some (if manual_review then ''blocked''
                    else if 0 < failed + skipped \<and> 0 < completed then ''partial''
                    else if 0 < failed + skipped then ''failed'' else ''completed''))"

definition finish_turn :: "run_cfg \<Rightarrow> snapshot \<Rightarrow> snapshot \<Rightarrow> task_snapshot list \<Rightarrow> turn prog" where
  "finish_turn cfg ident run tasks =
     (case final_status tasks of
        None \<Rightarrow> State_Monad.return (Return (Inr run))
      | Some st \<Rightarrow> do {
          r \<leftarrow> store_call (transition cfg ident (version run) st ''agent_run.final'');
          State_Monad.return (if r = Inl ErrConflict then Again else Return r) })"

text \<open>The first part that ends the turn ends it.\<close>

definition or_else :: "turn option prog \<Rightarrow> turn prog \<Rightarrow> turn prog" where
  "or_else m n = do { r \<leftarrow> m; case r of Some t \<Rightarrow> State_Monad.return t | None \<Rightarrow> n }"

definition advance_tasks :: "run_cfg \<Rightarrow> snapshot \<Rightarrow> snapshot \<Rightarrow> task_snapshot list \<Rightarrow> turn prog" where
  "advance_tasks cfg ident run tasks = do {
     now \<leftarrow> read_clock;
     or_else (if \<not> now < deadline_at run then expire_first cfg ident run tasks else State_Monad.return None)
      (or_else (expire_waiting cfg ident run tasks)
        (do {
          now \<leftarrow> read_clock;
          or_else (if now < deadline_at run then schedule_first cfg ident run tasks tasks else State_Monad.return None)
            (finish_turn cfg ident run tasks) })) }"

definition reconcile_turn :: "run_cfg \<Rightarrow> snapshot \<Rightarrow> turn prog" where
  "reconcile_turn cfg ident = do {
     r \<leftarrow> read_call (get_run cfg ident);
     case r of Inl e \<Rightarrow> State_Monad.return (Return (Inl e)) | Inr run \<Rightarrow>
       if terminal (run_status run) \<or> plan_revision run = 0 then State_Monad.return (Return (Inr run))
       else do {
         p \<leftarrow> read_call (get_plan cfg ident (plan_revision run));
         case p of Inl e \<Rightarrow> State_Monad.return (Return (Inl e)) | Inr plan \<Rightarrow> do {
           ts \<leftarrow> read_call (tasks_of_plan plan);
           case ts of Inl e \<Rightarrow> State_Monad.return (Return (Inl e)) | Inr tasks \<Rightarrow> advance_tasks cfg ident run tasks } } }"

fun reconcile_loop :: "nat \<Rightarrow> run_cfg \<Rightarrow> snapshot \<Rightarrow> snapshot fallible" where
  "reconcile_loop 0 cfg ident = State_Monad.return (Inl ErrConflict)"
| "reconcile_loop (Suc n) cfg ident = do {
     t \<leftarrow> reconcile_turn cfg ident;
     case t of Return r \<Rightarrow> State_Monad.return r | Again \<Rightarrow> reconcile_loop n cfg ident }"

definition reconcile_plan :: "run_cfg \<Rightarrow> snapshot \<Rightarrow> snapshot fallible" where
  "reconcile_plan cfg ident =
     (if \<not> valid_scope cfg ident then State_Monad.return (Inl ErrInvalid) else reconcile_loop 4096 cfg ident)"

subsection \<open>DispatchPending\<close>

definition agent_task_subscriber :: string where
  "agent_task_subscriber = ''agent-run''"

definition task_queue_tenant :: "snapshot \<Rightarrow> string" where
  "task_queue_tenant v = tenant_uuid v @ '':'' @ env_name v"

definition message_name :: "task_ref \<Rightarrow> string" where
  "message_name ref = ref_run_id ref @ '':'' @ itoa_nat (ref_revision ref) @ '':'' @ ref_task_id ref @ '':'' @
     itoa_nat (ref_attempt ref)"

definition entry_ref :: "snapshot \<Rightarrow> outbox_entry \<Rightarrow> task_ref" where
  "entry_ref ident e = \<lparr>ref_tenant_uuid = tenant_uuid ident, ref_env = env_name ident, ref_run_id = run_id ident,
     ref_revision = ob_revision e, ref_task_id = ob_task_id e, ref_attempt = ob_attempt e\<rparr>"

definition entry_message :: "snapshot \<Rightarrow> outbox_entry \<Rightarrow> task_message" where
  "entry_message ident e = (let ref = entry_ref ident e
     in \<lparr>msg_id = message_name ref, msg_tenant_key = task_queue_tenant ident, msg_subscriber = agent_task_subscriber,
         msg_topic = ''agent.run.task'', msg_payload = ref, msg_run_id = ref_run_id ref\<rparr>)"

text \<open>What \<open>XRANGE (cursor +\<close> with a limit gives.\<close>

definition pending_entries :: "nat \<Rightarrow> nat \<Rightarrow> run_slot \<Rightarrow> outbox_entry list" where
  "pending_entries cursor limit s = take limit (List.filter (\<lambda>e. cursor < ob_id e) (outbox_key s))"

text \<open>The loop over the entries: its error, if any, and how many were dispatched.\<close>

fun dispatch_entries :: "snapshot \<Rightarrow> outbox_entry list \<Rightarrow> nat \<Rightarrow> (nat \<times> run_error option) prog" where
  "dispatch_entries ident [] n = State_Monad.return (n, None)"
| "dispatch_entries ident (e # es) n =
     (if \<not> task_id_pattern (ob_task_id e) \<or> ob_run_id e \<noteq> run_id ident then State_Monad.return (n, Some ErrInvalid)
      else do {
        r \<leftarrow> enqueue (entry_message ident e);
        case r of Inl err \<Rightarrow> State_Monad.return (n, Some err) | Inr _ \<Rightarrow> do {
          c \<leftarrow> store_call (advance_dispatch_cursor (ob_id e));
          case c of Inl err \<Rightarrow> State_Monad.return (n, Some err) | Inr _ \<Rightarrow> dispatch_entries ident es (Suc n) } })"

definition dispatch_pending :: "run_cfg \<Rightarrow> snapshot \<Rightarrow> int \<Rightarrow> (nat \<times> run_error option) prog" where
  "dispatch_pending cfg ident limit =
     (if \<not> valid_scope cfg ident \<or> limit < 1 \<or> 1000 < limit then State_Monad.return (0, Some ErrInvalid)
      else do {
        r \<leftarrow> read_call (get_run cfg ident);
        case r of Inl e \<Rightarrow> State_Monad.return (0, Some e) | Inr run \<Rightarrow>
          if terminal (run_status run) then State_Monad.return (0, Some ErrConflict)
          else do {
            c \<leftarrow> read_call (\<lambda>s. Inr (cursor_key s));
            case c of Inl e \<Rightarrow> State_Monad.return (0, Some e) | Inr cursor \<Rightarrow> do {
              es \<leftarrow> read_call (\<lambda>s. Inr (pending_entries (case cursor of None \<Rightarrow> 0 | Some n \<Rightarrow> n) (nat limit) s));
              case es of Inl e \<Rightarrow> State_Monad.return (0, Some e) | Inr entries \<Rightarrow> dispatch_entries ident entries 0 } } })"

subsection \<open>RecoverRun\<close>

definition dispatch_after :: "run_cfg \<Rightarrow> snapshot \<Rightarrow> snapshot \<Rightarrow> snapshot fallible" where
  "dispatch_after cfg ident run = do {
     (n, err) \<leftarrow> dispatch_pending cfg ident 1000;
     State_Monad.return (case err of None \<Rightarrow> Inr run | Some e \<Rightarrow> Inl e) }"

definition recover_run :: "run_cfg \<Rightarrow> snapshot \<Rightarrow> snapshot fallible" where
  "recover_run cfg ident =
     bind_ok (read_call (get_run cfg ident)) (\<lambda>current.
     bind_ok (if run_status current = ''accepted'' \<and> plan_revision current = 0 then do {
                r \<leftarrow> store_call (start_planning cfg ident);
                State_Monad.return (case r of Inl e \<Rightarrow> if e = ErrConflict then Inr () else Inl e | Inr _ \<Rightarrow> Inr ()) }
              else State_Monad.return (Inr ())) (\<lambda>_.
     bind_ok (store_call (expire_planning cfg ident)) (\<lambda>_.
     bind_ok (reconcile_plan cfg ident) (\<lambda>run.
       if terminal (run_status run) then State_Monad.return (Inr run)
       else if plan_revision run = 0 \<and> run_status run \<noteq> ''planning'' then State_Monad.return (Inr run)
       else dispatch_after cfg ident run))))"

end
