(* ===== verification/AgentProgress.thy ===== *)
theory AgentProgress imports AgentReconcile begin

section \<open>Reconciliation is right and makes progress\<close>

text \<open>
  What a final status says, and that reconciliation ends: it never gives up for lack of turns,
  and it never leaves a run that is neither ended nor waiting for a worker.
\<close>

subsection \<open>The version of a run\<close>

text \<open>
  A step either leaves the run's state, its plans and the status of every task alone (a lease
  renewed, an execution receipt, the dispatch cursor), or it gives the run a new version.
\<close>

definition status_view :: "run_slot \<Rightarrow> string \<Rightarrow> (string \<times> string) option" where
  "status_view s f = map_option (\<lambda>t. (task_status t, reason_code t)) (task_at s f)"

definition calm :: "run_slot \<Rightarrow> run_slot \<Rightarrow> bool" where
  "calm s s' \<longleftrightarrow> state_key s' = state_key s \<and> plans_key s' = plans_key s \<and> status_view s' = status_view s"

definition bump :: "run_slot \<Rightarrow> run_slot \<Rightarrow> bool" where
  "bump s s' \<longleftrightarrow> (\<exists>c c'. state_key s = Some c \<and> \<not> terminal (run_status c) \<and> state_key s' = Some c' \<and>
     version c' = inc64 (version c) \<and> (terminal (run_status c') \<or> event_seq c' = inc64 (event_seq c)) \<and>
     (plan_revision c' = plan_revision c \<and> plans_key s' = plans_key s \<or> map_of (plans_key s') (plan_revision c') \<noteq> None))"

definition created :: "run_slot \<Rightarrow> run_slot \<Rightarrow> bool" where
  "created s s' \<longleftrightarrow> state_key s = None \<and> (\<exists>c. state_key s' = Some c \<and> version c = 1 \<and> event_seq c = 1 \<and> plan_revision c = 0)"

lemma calm_task:
  assumes "task_at s f = Some t" "s' = exec_pipe [HSetTask f t'] s" "task_status t' = task_status t" "reason_code t' = reason_code t"
  shows "calm s s'"
  using assms by (auto simp: calm_def status_view_def AList.update_conv')

lemma bump_mutate:
  assumes "commits (mutate_tx cfg ident ev rv tid ety mut) now s r s'" shows "bump s s'"
  using assms by (auto simp: mutate_commits bump_def)

lemma bump_state:
  assumes "state_key s = Some c" "\<not> terminal (run_status c)" "state_key s' = Some c'" "version c' = inc64 (version c)"
    "event_seq c' = inc64 (event_seq c)" "plan_revision c' = plan_revision c" "plans_key s' = plans_key s"
  shows "bump s s'"
  using assms by (auto simp: bump_def)

lemma step_shape_writers:
  "commits (create_tx cfg recover t ini) now s r s' \<Longrightarrow> plan_revision ini = 0 \<Longrightarrow> created s s'"
  "commits (transition_tx cfg ident ev st ety) now s r s' \<Longrightarrow> bump s s'"
  "commits (queue_task_tx cfg ident ev rv tid reason) now s tr s' \<Longrightarrow> bump s s'"
  "commits (start_planning_tx cfg ident) now s r s' \<Longrightarrow> bump s s'"
  "commits (expire_planning_tx cfg ident) now s r s' \<Longrightarrow> bump s s'"
proof -
  show "created s s'" if "commits (create_tx cfg recover t ini) now s r s'" "plan_revision ini = 0"
    using that by (auto simp: commits_def create_tx_def created_def Let_def split: option.splits if_splits)
  show "bump s s'" if "commits (transition_tx cfg ident ev st ety) now s r s'"
    using that by (auto simp: commits_def transition_tx_def bump_def Let_def split: option.splits if_splits)
  show "bump s s'" if "commits (queue_task_tx cfg ident ev rv tid reason) now s tr s'"
    using that by (auto simp: commits_def queue_task_tx_def bump_def Let_def bind_res_Inr_iff split: option.splits if_splits)
  show "bump s s'" if "commits (start_planning_tx cfg ident) now s r s'"
    using that by (auto simp: commits_def start_planning_tx_def bump_def Let_def split: option.splits if_splits)
  show "bump s s'" if "commits (expire_planning_tx cfg ident) now s r s'"
    using that by (auto simp: commits_def expire_planning_tx_def bump_def Let_def terminal_def split: option.splits if_splits)
qed

lemma plan_cmds_keys:
  assumes "s' = exec_pipe ([HSetPlan rv p] @ cs @ install_cmds p @ [HSetState c', XAddEvent e]) s" "cs = [] \<or> (\<exists>f t. cs = [HSetTask f t])"
  shows "state_key s' = Some c'" "map_of (plans_key s') rv = Some p"
  using assms by (auto simp: install_cmds_put AList.update_conv')

lemma bump_install:
  assumes "commits (install_plan_tx cfg ident ev p) now s r s'" shows "bump s s'"
proof -
  let ?upd = "\<lambda>cur. (advance now cur)\<lparr>plan_revision := plan_rev p, run_status := ''planning''\<rparr>"
  obtain cur e where cur: "state_key s = Some cur" "\<not> terminal (run_status cur)"
    and s': "s' = exec_pipe ([HSetPlan (plan_rev p) p] @ [] @ install_cmds p @ [HSetState (?upd cur), XAddEvent e]) s"
    using assms by (auto simp: commits_def install_plan_tx_def Let_def simp del: exec_pipe_simps split: option.splits if_splits)
  from plan_cmds_keys [OF s'] cur show ?thesis by (auto simp: bump_def)
qed

lemma bump_complete_planning:
  assumes "commits (complete_planning_tx cfg ident ev owner fc p rr er) now s r s'" shows "bump s s'"
proof -
  let ?upd = "\<lambda>cur. (advance now cur)\<lparr>plan_revision := plan_rev p\<rparr>"
  obtain cur e t where cur: "state_key s = Some cur" "run_status cur = ''planning''"
    and s': "s' = exec_pipe ([HSetPlan (plan_rev p) p] @ [HSetTask planning_field t] @ install_cmds p @ [HSetState (?upd cur), XAddEvent e]) s"
    using assms by (auto simp: commits_def complete_planning_tx_def Let_def simp del: exec_pipe_simps split: option.splits if_splits)
  have "\<not> terminal (run_status cur)" by (simp add: cur terminal_def)
  with plan_cmds_keys [OF s'] cur show ?thesis by (auto simp: bump_def)
qed

lemma bump_cancel:
  assumes "commits (cancel_tx cfg ident) now s r s'" "slot_ok s" shows "bump s s'"
proof -
  obtain cur where cur: "state_key s = Some cur" using assms(1) by (auto simp: commits_def cancel_tx_def split: option.splits)
  have dist: "distinct (map fst (tasks_key s))" using assms(2) by (simp add: slot_ok_def)
  show ?thesis by (rule cancel_exec [OF assms(1) cur dist]) (simp add: bump_def cur terminal_def)
qed

lemma calm_renew:
  assumes "commits (renew_task_lease_tx cfg clk ident rv tid owner fc until) now s t s'" shows "calm s s'"
proof -
  obtain t t' where t: "task_at s (task_field rv tid) = Some t" "renew_mut owner fc until t now = Inr t'"
    and s': "s' = exec_pipe [HSetTask (task_field rv tid) t'] s"
    using assms by (auto simp: commits_def renew_task_lease_tx_def bind_res_Inr_iff split: option.splits)
  show ?thesis by (rule calm_task [OF t(1) s']) (use renew_mutD [OF t(2)] in auto)
qed

lemma calm_receipt:
  assumes "commits (execution_receipt_tx cfg claim ref owner fc token result) now s rec s'" shows "calm s s'"
proof -
  let ?f = "task_field (ref_revision ref) (ref_task_id ref)"
  obtain t t' a w where t: "task_at s ?f = Some t" "receipt_mut claim token result t = Inr (Some t', a, w)"
    and s': "s' = exec_pipe [HSetTask ?f t'] s"
    using assms by (auto simp: commits_def execution_receipt_tx_def bind_res_Inr_iff Let_def split: option.splits if_splits)
  show ?thesis by (rule calm_task [OF t(1) s']) (use t(2) in \<open>auto simp: receipt_mut_def split: option.splits if_splits\<close>)
qed

lemma calm_cursor: "commits (advance_cursor_tx entry) now s u s' \<Longrightarrow> calm s s'"
  by (auto simp: cursor_commits calm_def status_view_def)

lemma step_shape: "run_step cfg s s' \<Longrightarrow> slot_ok s \<Longrightarrow> created s s' \<or> calm s s' \<or> bump s s'"
  by (cases rule: run_step.cases)
    (auto simp: mutation_txs dest: step_shape_writers bump_mutate bump_install bump_complete_planning bump_cancel
      calm_renew calm_receipt calm_cursor)

text \<open>The event log only grows, and while it has room the version counts the changes.\<close>

lemma exec_cmd_events: "length (events_key s) \<le> length (events_key (exec_cmd c s))"
  by (cases c) simp_all

lemma exec_pipe_events: "length (events_key s) \<le> length (events_key (exec_pipe cmds s))"
  by (induction cmds arbitrary: s) (auto intro: le_trans [OF exec_cmd_events])

lemma commits_events: "commits t now s r s' \<Longrightarrow> length (events_key s) \<le> length (events_key s')"
  by (auto simp: commits_def exec_pipe_events)

lemma step_events: "run_step cfg s s' \<Longrightarrow> length (events_key s) \<le> length (events_key s')"
  by (cases rule: run_step.cases) (auto dest: commits_events)

lemma steps_events: "run_steps cfg s s' \<Longrightarrow> length (events_key s) \<le> length (events_key s')"
  by (induction rule: rtranclp_induct) (auto dest: step_events)

definition has_room :: "run_slot \<Rightarrow> bool" where
  "has_room s \<longleftrightarrow> length (events_key s) < max_uint64"

lemma steps_room: "run_steps cfg s s' \<Longrightarrow> has_room s' \<Longrightarrow> has_room s"
  using steps_events by (fastforce simp: has_room_def)

definition counted :: "run_slot \<Rightarrow> bool" where
  "counted s \<longleftrightarrow> slot_ok s \<and> (\<forall>c. state_key s = Some c \<longrightarrow>
     (has_room s \<longrightarrow> \<not> terminal (run_status c) \<longrightarrow> 0 < version c \<and> version c \<le> length (events_key s)) \<and>
     (plan_revision c \<noteq> 0 \<longrightarrow> map_of (plans_key s) (plan_revision c) \<noteq> None))"

lemma slot_log: "slot_ok s \<Longrightarrow> state_key s = Some c \<Longrightarrow> has_room s \<Longrightarrow> event_seq c = length (events_key s)"
  by (simp add: slot_ok_def log_ok_def has_room_def)

lemma bump_grows:
  assumes "bump s s'" "run_step cfg s s'" "counted s" "has_room s'" "state_key s = Some c" "state_key s' = Some c'"
  shows "version c' = Suc (version c)" and "\<not> terminal (run_status c') \<Longrightarrow> length (events_key s') = Suc (length (events_key s))"
    and "version c \<le> length (events_key s)"
proof -
  have ok: "slot_ok s" "slot_ok s'" using assms(2,3) run_step_good by (auto simp: counted_def good_step_def)
  have room: "has_room s" using steps_room assms(2,4) by blast
  have nt: "\<not> terminal (run_status c)" "version c' = inc64 (version c)"
      "\<not> terminal (run_status c') \<longrightarrow> event_seq c' = inc64 (event_seq c)"
    using assms(1,5,6) by (auto simp: bump_def)
  then show v: "version c \<le> length (events_key s)" using assms(3,5) room by (simp add: counted_def)
  then show "version c' = Suc (version c)" using nt(2) room by (simp add: inc64_small has_room_def)
  show "length (events_key s') = Suc (length (events_key s))" if "\<not> terminal (run_status c')"
    using nt(3) that slot_log [OF ok(1) assms(5) room] slot_log [OF ok(2) assms(6,4)] room
    by (simp add: inc64_small has_room_def)
qed

lemma counted_step: "run_step cfg s s' \<Longrightarrow> counted s \<Longrightarrow> counted s'"
proof -
  assume st: "run_step cfg s s'" and inv: "counted s"
  have ok: "slot_ok s" "slot_ok s'" using st inv run_step_good by (auto simp: counted_def good_step_def)
  show ?thesis
    unfolding counted_def
  proof (intro conjI allI impI ok(2))
    fix c' assume c': "state_key s' = Some c'"
    from step_shape [OF st ok(1)] consider "created s s'" | "calm s s'" | "bump s s'" by blast
    then show "map_of (plans_key s') (plan_revision c') \<noteq> None" if "plan_revision c' \<noteq> 0"
    proof cases
      case 3
      then show ?thesis using that c' inv by (auto simp: bump_def counted_def)
    qed (use that c' inv in \<open>auto simp: created_def calm_def counted_def\<close>)
    from step_shape [OF st ok(1)] consider "created s s'" | "calm s s'" | "bump s s'" by blast
    then have "0 < version c' \<and> version c' \<le> length (events_key s')" if "has_room s'" "\<not> terminal (run_status c')"
    proof cases
      case 1
      then show ?thesis using c' slot_log [OF ok(2) c' that(1)] by (auto simp: created_def)
    next
      case 2
      then have "state_key s = Some c'" using c' by (simp add: calm_def)
      moreover have "has_room s" using steps_room st that(1) by blast
      ultimately have "0 < version c' \<and> version c' \<le> length (events_key s)"
        using inv that(2) by (simp add: counted_def)
      then show ?thesis using step_events [OF st] by simp
    next
      case 3
      then obtain c where c: "state_key s = Some c" by (auto simp: bump_def)
      note g = bump_grows [OF 3 st inv that(1) c c']
      show ?thesis using g(1) g(2) [OF that(2)] g(3) by simp
    qed
    then show "0 < version c'" "version c' \<le> length (events_key s')" if "has_room s'" "\<not> terminal (run_status c')"
      using that by simp_all
  qed
qed

lemma counted_steps: "run_steps cfg s s' \<Longrightarrow> counted s \<Longrightarrow> counted s'"
  by (induction rule: rtranclp_induct) (auto dest: counted_step)

lemma counted_reachable: "reachable_run cfg s \<Longrightarrow> counted s"
  unfolding reachable_run_def by (erule counted_steps) (simp add: counted_def, simp add: no_run_def)

text \<open>A run found again under the version it had has not changed.\<close>

lemma same_version_calm:
  assumes "run_steps cfg s s'" "counted s" "has_room s'" "state_key s = Some c"
  shows "\<exists>c'. state_key s' = Some c' \<and> (version c' = version c \<longrightarrow> calm s s') \<and> version c \<le> version c'"
  using assms(1,3)
proof (induction rule: rtranclp_induct)
  case base
  then show ?case using assms(4) by (simp add: calm_def)
next
  case (step y z)
  have room: "has_room y" using steps_room step.hyps(2) step.prems by blast
  from step.IH [OF room] obtain cy where y: "state_key y = Some cy" "version cy = version c \<longrightarrow> calm s y" "version c \<le> version cy"
    by blast
  have inv: "counted y" using counted_steps step.hyps(1) assms(2) by blast
  then have "slot_ok y" by (simp add: counted_def)
  from step_shape [OF step.hyps(2) this] consider "calm y z" | "bump y z" using y by (auto simp: created_def)
  then show ?case
  proof cases
    case 1
    then show ?thesis using y by (auto simp: calm_def)
  next
    case 2
    then obtain cz where z: "state_key z = Some cz" by (auto simp: bump_def)
    have "version cz = Suc (version cy)" by (rule bump_grows(1) [OF 2 step.hyps(2) inv step.prems y(1) z])
    then show ?thesis using z y(3) by simp
  qed
qed

subsection \<open>The programs are sound\<close>

lemma sound_or_else [sounds]: "sound cfg m \<Longrightarrow> sound cfg n \<Longrightarrow> sound cfg (or_else m n)"
  unfolding or_else_def by (intro sounds)

lemma sound_expire_first [sounds]: "sound cfg (expire_first cfg' ident run tasks)" if "cfg' = cfg"
  unfolding expire_first_def that by (intro sounds)

lemma sound_expire_waiting [sounds]: "sound cfg (expire_waiting cfg ident run ts)"
proof (induction ts)
  case (Cons t ts)
  then show ?case unfolding expire_waiting.simps by (intro sounds)
qed (simp add: sounds)

lemma sound_schedule_first [sounds]: "sound cfg (schedule_first cfg ident run tasks ts)"
proof (induction ts)
  case (Cons t ts)
  then show ?case unfolding schedule_first.simps by (intro sounds)
qed (simp add: sounds)

lemma final_status_terminal: "final_status tasks = Some st \<Longrightarrow> terminal st"
  by (auto simp: final_status_def terminal_def Let_def split: if_splits)

lemma sound_finish [sounds]: "sound cfg (finish_turn cfg ident run tasks)"
proof (cases "final_status tasks")
  case (Some st)
  note [sounds] = sound_transition [OF final_status_terminal [OF Some]]
  show ?thesis unfolding finish_turn_def Some option.case by (intro sounds)
qed (simp add: finish_turn_def sounds)

lemma sound_advance [sounds]: "sound cfg (advance_tasks cfg ident run tasks)"
  unfolding advance_tasks_def by (intro sounds refl)

lemma sound_turn [sounds]: "sound cfg (reconcile_turn cfg ident)"
  unfolding reconcile_turn_def by (intro sounds)

lemma sound_turn_case [sounds]: "sound cfg m \<Longrightarrow> (\<And>r. sound cfg (f r)) \<Longrightarrow> sound cfg (case t of Again \<Rightarrow> m | Return r \<Rightarrow> f r)"
  by (cases t) simp_all

lemma sound_loop [sounds]: "sound cfg (reconcile_loop n cfg ident)"
  by (induction n) (unfold reconcile_loop.simps, intro sounds, intro sounds)

lemma sound_reconcile [sounds]: "sound cfg (reconcile_plan cfg ident)"
  unfolding reconcile_plan_def by (intro sounds)

lemma sound_dispatch_entries [sounds]: "sound cfg (dispatch_entries ident es n)"
proof (induction es arbitrary: n)
  case (Cons e es)
  then show ?case unfolding dispatch_entries.simps by (intro sounds)
qed (simp add: sounds)

lemma sound_dispatch [sounds]: "sound cfg (dispatch_pending cfg ident limit)"
  unfolding dispatch_pending_def by (intro sounds)

lemma sound_pair [sounds]: "(\<And>a b. sound cfg (f a b)) \<Longrightarrow> sound cfg (case p of (a, b) \<Rightarrow> f a b)"
  by (cases p) simp

lemma sound_recover [sounds]: "sound cfg (recover_run cfg ident)"
  unfolding recover_run_def dispatch_after_def by (intro sounds)

subsection \<open>What the final status says\<close>

lemma run_read:
  "run_state (read_call f) w = (Inr x, w') \<Longrightarrow> f (w_slot w') = Inr x"
  by (auto simp: read_call_def run_store_call read_op_def Let_def split: option.splits)

lemma tasks_of_defs_view:
  "tasks_of_defs s rv ds = Inr ts \<Longrightarrow>
     map (\<lambda>t. Some (task_status t, reason_code t)) ts = map (\<lambda>d. status_view s (task_field rv (def_task_id d))) ds"
  by (induction ds arbitrary: ts) (auto simp: bind_res_Inr_iff status_view_def split: option.splits if_splits)

definition ended_as :: "run_plan \<Rightarrow> run_slot \<Rightarrow> string \<Rightarrow> bool" where
  "ended_as p s st \<longleftrightarrow>
     (let views = map (\<lambda>d. status_view s (task_field (plan_rev p) (def_task_id d))) (plan_tasks p)
      in (\<forall>v\<in>set views. \<exists>ts rc. v = Some (ts, rc) \<and> task_ended ts) \<and>
         st = (if Some (''failed'', ''manual_review_required'') \<in> set views then ''blocked''
               else if \<forall>v\<in>set views. \<exists>rc. v = Some (''completed'', rc) then ''completed''
               else if \<exists>v\<in>set views. \<exists>rc. v = Some (''completed'', rc) then ''partial'' else ''failed''))"

lemma filter_none: "length (List.filter P xs) = 0 \<longleftrightarrow> (\<forall>x\<in>set xs. \<not> P x)"
  by (simp add: filter_empty_conv)

lemma final_status_says:
  assumes "final_status ts = Some st" "tasks_of_plan p s = Inr ts"
  shows "ended_as p s st"
proof -
  let ?views = "map (\<lambda>d. status_view s (task_field (plan_rev p) (def_task_id d))) (plan_tasks p)"
  have views: "?views = map (\<lambda>t. Some (task_status t, reason_code t)) ts"
    using tasks_of_defs_view assms(2) by (simp add: tasks_of_plan_def)
  have ended: "task_ended (task_status t)" if "t \<in> set ts" for t
    using assms(1) that by (auto simp: final_status_def Let_def list_ex_iff split: if_splits)
  let ?c = "length (List.filter (\<lambda>t. task_status t = ''completed'') ts)"
  let ?f = "length (List.filter (\<lambda>t. task_status t = ''failed'') ts)"
  let ?k = "length (List.filter (\<lambda>t. task_status t = ''skipped'' \<or> task_status t = ''cancelled'') ts)"
  let ?m = "\<exists>t\<in>set ts. task_status t = ''failed'' \<and> reason_code t = ''manual_review_required''"
  have st: "st = (if ?m then ''blocked'' else if 0 < ?f + ?k \<and> 0 < ?c then ''partial''
      else if 0 < ?f + ?k then ''failed'' else ''completed'')"
    using assms(1) by (auto simp: final_status_def Let_def list_ex_iff split: if_splits)
  have all: "?f + ?k = 0 \<longleftrightarrow> (\<forall>t\<in>set ts. task_status t = ''completed'')"
    unfolding add_is_0 filter_none using ended by (auto simp: task_ended_def)
  have some: "?c = 0 \<longleftrightarrow> \<not> (\<exists>t\<in>set ts. task_status t = ''completed'')" unfolding filter_none by auto
  have st': "st = (if ?m then ''blocked'' else if \<forall>t\<in>set ts. task_status t = ''completed'' then ''completed''
      else if \<exists>t\<in>set ts. task_status t = ''completed'' then ''partial'' else ''failed'')"
    unfolding st using all some by (cases "?f + ?k = 0"; cases "?c = 0") simp_all
  have in_views: "Some (''failed'', ''manual_review_required'') \<in> set ?views \<longleftrightarrow> ?m" unfolding views by force
  have v: "(\<forall>v\<in>set ?views. P v) \<longleftrightarrow> (\<forall>t\<in>set ts. P (Some (task_status t, reason_code t)))"
    "(\<exists>v\<in>set ?views. P v) \<longleftrightarrow> (\<exists>t\<in>set ts. P (Some (task_status t, reason_code t)))" for P
    unfolding views by auto
  show ?thesis unfolding ended_as_def Let_def in_views v st' using ended by auto
qed

lemma ended_as_view: "status_view s' = status_view s \<Longrightarrow> ended_as p s' st = ended_as p s st"
  by (simp add: ended_as_def)

text \<open>A turn returns a run only after it read it, or after it ended it.\<close>

lemma changed_return: "changed r \<noteq> Some (Return (Inr v))"
  by (auto simp: changed_def split: sum.splits)

lemma parts_return:
  "run_state (expire_first cfg ident run tasks) w \<noteq> (Some (Return (Inr v)), w')"
  "run_state (expire_waiting cfg ident run ts) w \<noteq> (Some (Return (Inr v)), w')"
  "run_state (schedule_first cfg ident run tasks ts) w \<noteq> (Some (Return (Inr v)), w')"
proof -
  show "run_state (expire_first cfg ident run tasks) w \<noteq> (Some (Return (Inr v)), w')"
    using changed_return by (fastforce simp: expire_first_def run_state_bind split: option.splits prod.splits)
  show "run_state (expire_waiting cfg ident run ts) w \<noteq> (Some (Return (Inr v)), w')"
    using changed_return by (induction ts arbitrary: w) (auto simp: run_state_bind split: prod.splits)
  show "run_state (schedule_first cfg ident run tasks ts) w \<noteq> (Some (Return (Inr v)), w')"
    using changed_return by (induction ts arbitrary: w) (auto simp: run_state_bind split: prod.splits)
qed

lemma or_else_return:
  assumes "run_state (or_else m n) w = (t, w')" "\<And>v. run_state m w \<noteq> (Some t, v)"
  shows "\<exists>v. run_state m w = (None, v) \<and> run_state n v = (t, w')"
  using assms by (auto simp: or_else_def run_state_bind split: prod.splits option.splits)

lemma clock_bind: "run_state (read_clock \<bind> f) w = (t, w') \<Longrightarrow> \<exists>now v. run_state read_clock w = (now, v) \<and> run_state (f now) v = (t, w')"
  by (auto simp: run_state_bind split: prod.splits)

lemma advance_return:
  assumes "run_state (advance_tasks cfg ident run tasks) w = (Return (Inr v), w')" "fair_world cfg w"
  shows "\<exists>u. fair_world cfg u \<and> run_steps cfg (w_slot w) (w_slot u) \<and>
    run_state (finish_turn cfg ident run tasks) u = (Return (Inr v), w')"
proof -
  have opt: "run_state (if b then expire_first cfg ident run tasks else State_Monad.return None) x \<noteq> (Some (Return (Inr v)), y)"
    "run_state (if b then schedule_first cfg ident run tasks tasks else State_Monad.return None) x \<noteq> (Some (Return (Inr v)), y)"
    for b x y using parts_return by simp_all
  obtain now1 u1 where u1: "run_state read_clock w = (now1, u1)" and
    r1: "run_state (or_else (if \<not> now1 < deadline_at run then expire_first cfg ident run tasks else State_Monad.return None)
      (or_else (expire_waiting cfg ident run tasks)
        (do { now \<leftarrow> read_clock;
          or_else (if now < deadline_at run then schedule_first cfg ident run tasks tasks else State_Monad.return None)
            (finish_turn cfg ident run tasks) }))) u1 = (Return (Inr v), w')"
    using clock_bind [OF assms(1) [unfolded advance_tasks_def]] by blast
  obtain u2 where u2: "run_state (if \<not> now1 < deadline_at run then expire_first cfg ident run tasks else State_Monad.return None) u1 = (None, u2)"
    and r2: "run_state (or_else (expire_waiting cfg ident run tasks)
        (do { now \<leftarrow> read_clock;
          or_else (if now < deadline_at run then schedule_first cfg ident run tasks tasks else State_Monad.return None)
            (finish_turn cfg ident run tasks) })) u2 = (Return (Inr v), w')"
    using or_else_return [OF r1 opt(1)] by blast
  obtain u3 where u3: "run_state (expire_waiting cfg ident run tasks) u2 = (None, u3)"
    and r3: "run_state (do { now \<leftarrow> read_clock;
          or_else (if now < deadline_at run then schedule_first cfg ident run tasks tasks else State_Monad.return None)
            (finish_turn cfg ident run tasks) }) u3 = (Return (Inr v), w')"
    using or_else_return [OF r2 parts_return(2)] by blast
  obtain now2 u4 where u4: "run_state read_clock u3 = (now2, u4)"
    and r4: "run_state (or_else (if now2 < deadline_at run then schedule_first cfg ident run tasks tasks else State_Monad.return None)
            (finish_turn cfg ident run tasks)) u4 = (Return (Inr v), w')"
    using clock_bind [OF r3] by blast
  obtain u5 where u5: "run_state (if now2 < deadline_at run then schedule_first cfg ident run tasks tasks else State_Monad.return None) u4 = (None, u5)"
    and r5: "run_state (finish_turn cfg ident run tasks) u5 = (Return (Inr v), w')"
    using or_else_return [OF r4 opt(2)] by blast
  have s1: "sound cfg (if \<not> now1 < deadline_at run then expire_first cfg ident run tasks else State_Monad.return None)"
    "sound cfg (if now2 < deadline_at run then schedule_first cfg ident run tasks tasks else State_Monad.return None)"
    by (intro sounds refl)+
  note x1 = soundD [OF sound_clock assms(2) u1]
  note x2 = soundD [OF s1(1) _ u2] note x3 = soundD [OF sound_expire_waiting _ u3]
  note x4 = soundD [OF sound_clock _ u4] note x5 = soundD [OF s1(2) _ u5]
  have "fair_world cfg u5" using x1 x2 x3 x4 x5 by blast
  moreover have "run_steps cfg (w_slot w) (w_slot u5)" using x1 x2 x3 x4 x5 by (meson rtranclp_trans)
  ultimately show ?thesis using r5 by blast
qed

lemma finish_return:
  assumes run: "run_state (finish_turn cfg ident run tasks) w = (Return (Inr v), w')" and fair: "fair_world cfg w"
  shows "(v = run \<and> w' = w) \<or> (\<exists>st u now. final_status tasks = Some st \<and> run_steps cfg (w_slot w) u \<and>
    commits (transition_tx cfg ident (version run) st ''agent_run.final'') now u v (w_slot w'))"
proof (cases "final_status tasks")
  case None
  then show ?thesis using run by (simp add: finish_turn_def)
next
  case (Some st)
  let ?t = "transition_tx cfg ident (version run) st ''agent_run.final''"
  let ?env = "conn (w_env w) (w_tick w)"
  obtain r s' where op: "transition cfg ident (version run) st ''agent_run.final'' ?env (w_slot w) = (r, s')" by fastforce
  have r: "r = Inr v" "w_slot w' = s'"
    using run op by (auto simp: finish_turn_def Some run_state_bind store_call_def split: prod.splits if_splits)
  have "\<forall>now u r u'. commits ?t now u r u' \<longrightarrow> run_step cfg u u'"
    using final_status_terminal [OF Some] by (blast intro: run_step.Transition)
  from run_tx_steps [OF transition_otx.optimistic_tx_axioms _ op [unfolded transition_def] this] fair r(1)
  obtain u k where "run_steps cfg (w_slot w) u" "commits ?t (at_clock (?env k)) u v s' \<or> snd ?t (at_clock (?env k)) u = Inr (None, v)"
    by (auto simp: fair_world_def)
  moreover have "snd ?t t u \<noteq> Inr (None, v)" for t by (auto simp: transition_tx_def Let_def split: option.splits if_splits)
  ultimately show ?thesis using Some r(2) by blast
qed

definition ended_by :: "run_cfg \<Rightarrow> snapshot \<Rightarrow> run_slot \<Rightarrow> snapshot \<Rightarrow> run_slot \<Rightarrow> bool" where
  "ended_by cfg ident u v s' \<longleftrightarrow> (\<exists>p ev now. map_of (plans_key u) (plan_revision v) = Some p \<and>
     ended_as p u (run_status v) \<and> commits (transition_tx cfg ident ev (run_status v) ''agent_run.final'') now u v s')"

lemma transition_result:
  "commits (transition_tx cfg ident ev st ety) now u v s' \<Longrightarrow> \<exists>cur. state_key u = Some cur \<and> version cur = ev \<and>
     run_status v = st \<and> plan_revision v = plan_revision cur \<and> state_key s' = Some v"
  by (auto simp: commits_def transition_tx_def Let_def split: option.splits if_splits)

lemma turn_return:
  assumes fair: "fair_world cfg w" and inv: "counted (w_slot w)" and room: "has_room (w_slot w')"
    and run: "run_state (reconcile_turn cfg ident) w = (Return (Inr v), w')"
  shows "\<exists>u. run_steps cfg (w_slot w) u \<and> (state_key u = Some v \<or> ended_by cfg ident u v (w_slot w'))"
proof -
  obtain r0 w1 where w1: "run_state (read_call (get_run cfg ident)) w = (r0, w1)" by fastforce
  note x1 = soundD [OF sound_read fair w1]
  from run w1 obtain run where r0: "r0 = Inr run"
    by (cases r0) (auto simp: reconcile_turn_def run_state_bind)
  have st1: "state_key (w_slot w1) = Some run" using run_read [OF w1 [unfolded r0]] by (simp add: get_run_Inr)
  show ?thesis
  proof (cases "terminal (run_status run) \<or> plan_revision run = 0")
    case True
    then have "v = run" using run w1 r0 by (auto simp: reconcile_turn_def run_state_bind)
    then show ?thesis using x1 st1 by blast
  next
    case False
    obtain p0 w2 where w2: "run_state (read_call (get_plan cfg ident (plan_revision run))) w1 = (p0, w2)" by fastforce
    have x2: "w_env w2 = w_env w1 \<and> fair_world cfg w2 \<and> run_steps cfg (w_slot w1) (w_slot w2)"
      by (rule soundD [OF sound_read _ w2]) (use x1 in blast)
    from run w1 r0 False w2 obtain p where p0: "p0 = Inr p"
      by (cases p0) (auto simp: reconcile_turn_def run_state_bind split: if_splits)
    have p: "map_of (plans_key (w_slot w2)) (plan_revision run) = Some p"
      using run_read [OF w2 [unfolded p0]] by (auto simp: get_plan_def split: if_splits option.splits)
    obtain t0 w3 where w3: "run_state (read_call (tasks_of_plan p)) w2 = (t0, w3)" by fastforce
    have x3: "w_env w3 = w_env w2 \<and> fair_world cfg w3 \<and> run_steps cfg (w_slot w2) (w_slot w3)"
      by (rule soundD [OF sound_read _ w3]) (use x2 in blast)
    from run w1 r0 False w2 p0 w3 obtain tasks where t0: "t0 = Inr tasks"
      by (cases t0) (auto simp: reconcile_turn_def run_state_bind split: if_splits)
    have ts: "tasks_of_plan p (w_slot w3) = Inr tasks" using run_read [OF w3 [unfolded t0]] .
    have adv: "run_state (advance_tasks cfg ident run tasks) w3 = (Return (Inr v), w')"
      using run w1 r0 False w2 p0 w3 t0 by (simp add: reconcile_turn_def run_state_bind)
    obtain w4 where w4: "fair_world cfg w4" "run_steps cfg (w_slot w3) (w_slot w4)"
      and fin: "run_state (finish_turn cfg ident run tasks) w4 = (Return (Inr v), w')"
      using advance_return [OF adv] x3 by blast
    have to1: "run_steps cfg (w_slot w) (w_slot w1)" and to4: "run_steps cfg (w_slot w3) (w_slot w4)"
      using x1 w4 by auto
    from finish_return [OF fin w4(1)] show ?thesis
    proof (elim disjE exE conjE)
      assume "v = run" then show ?thesis using to1 st1 by blast
    next
      fix st u now
      assume st: "final_status tasks = Some st" and u: "run_steps cfg (w_slot w4) u"
        and c: "commits (transition_tx cfg ident (version run) st ''agent_run.final'') now u v (w_slot w')"
      have steps: "run_steps cfg (w_slot w1) (w_slot w2)" "run_steps cfg (w_slot w2) (w_slot w3)" "run_steps cfg (w_slot w3) u"
        using x2 x3 rtranclp_trans [OF to4 u] by auto
      have last: "run_steps cfg u (w_slot w')"
        using c final_status_terminal [OF st] by (blast intro: run_step.Transition)
      have room_u: "has_room u" by (rule steps_room [OF last room])
      have room3: "has_room (w_slot w3)" "has_room (w_slot w2)"
        using steps_room [OF steps(3) room_u] steps_room [OF steps(2)] by auto
      have inv1: "counted (w_slot w1)" using counted_steps to1 inv by blast
      obtain cur where cur: "state_key u = Some cur" "version cur = version run" "run_status v = st"
          "plan_revision v = plan_revision cur"
        using transition_result [OF c] by blast
      have to_u: "run_steps cfg (w_slot w1) u" using steps by (meson rtranclp_trans)
      have calm_u: "calm (w_slot w1) u"
        using same_version_calm [OF to_u inv1 room_u st1] cur by auto
      have calm_mid: "calm (w_slot w1) x"
        if before: "run_steps cfg (w_slot w1) x" and after: "run_steps cfg x u" and room_x: "has_room x" for x
      proof -
        obtain cx where cx: "state_key x = Some cx" "version run \<le> version cx"
            "version cx = version run \<longrightarrow> calm (w_slot w1) x"
          using same_version_calm [OF before inv1 room_x st1] by blast
        have "counted x" using counted_steps before inv1 by blast
        from same_version_calm [OF after this room_u cx(1)] cur(1,2) cx(2) have "version cx = version run" by auto
        then show ?thesis using cx(3) by blast
      qed
      have c2: "calm (w_slot w1) (w_slot w2)"
        by (rule calm_mid) (use steps room3 in \<open>auto intro: rtranclp_trans\<close>)
      have c3: "calm (w_slot w1) (w_slot w3)"
        by (rule calm_mid) (use steps room3 in \<open>auto intro: rtranclp_trans\<close>)
      have "run = cur" using calm_u cur(1) st1 by (simp add: calm_def)
      then have plan_u: "map_of (plans_key u) (plan_revision v) = Some p"
        using p cur(4) c2 calm_u by (simp add: calm_def)
      have "ended_as p (w_slot w3) st" by (rule final_status_says [OF st ts])
      then have "ended_as p u (run_status v)"
        using ended_as_view [of u "w_slot w3" p st] c3 calm_u cur(3) by (simp add: calm_def)
      then have "ended_by cfg ident u v (w_slot w')" using plan_u c cur(3) unfolding ended_by_def by blast
      moreover have "run_steps cfg (w_slot w) u" using to1 to_u by (rule rtranclp_trans)
      ultimately show ?thesis by blast
    qed
  qed
qed

lemma loop_return:
  assumes "fair_world cfg w" "counted (w_slot w)" "has_room (w_slot w')"
    "run_state (reconcile_loop n cfg ident) w = (Inr v, w')"
  shows "\<exists>u. run_steps cfg (w_slot w) u \<and> (state_key u = Some v \<or> ended_by cfg ident u v (w_slot w'))"
  using assms
proof (induction n arbitrary: w)
  case (Suc n)
  obtain t w1 where t: "run_state (reconcile_turn cfg ident) w = (t, w1)" by fastforce
  note x = soundD [OF sound_turn Suc.prems(1) t]
  show ?case
  proof (cases t)
    case Again
    then have "run_state (reconcile_loop n cfg ident) w1 = (Inr v, w')" using Suc.prems(4) t by (simp add: run_state_bind)
    moreover have "counted (w_slot w1)" using counted_steps x Suc.prems(2) by blast
    ultimately obtain u where "run_steps cfg (w_slot w1) u" "state_key u = Some v \<or> ended_by cfg ident u v (w_slot w')"
      using Suc.IH x Suc.prems(3) by blast
    then show ?thesis using x by (meson rtranclp_trans)
  next
    case (Return r)
    then have "run_state (reconcile_turn cfg ident) w = (Return (Inr v), w')" using Suc.prems(4) t by (simp add: run_state_bind)
    from turn_return [OF Suc.prems(1-3) this] show ?thesis .
  qed
qed simp


text \<open>A transaction that nothing disturbs.\<close>

lemma run_tx_alone:
  assumes "0 < n" "at_failure (env 0) = None" "at_others (env 0) = (\<lambda>s. s)"
  shows "run_tx n watched t env s =
    (if fst t then case snd t (at_clock (env 0)) s of
        Inl e \<Rightarrow> (Inl e, s)
      | Inr (c, r) \<Rightarrow> (Inr r, case c of None \<Rightarrow> s | Some cmds \<Rightarrow> exec_pipe cmds s)
     else (Inl ErrInvalid, s))"
  using assms by (cases n) (auto simp: run_tx_def Let_def split: sum.splits option.splits)

definition demo_world :: "run_slot \<Rightarrow> agent_world" where
  "demo_world s = \<lparr>w_slot = s, w_bus = [], w_acked = [], w_executed = [], w_tick = 0,
     w_env = \<lparr>conn = (\<lambda>_ _. quiet 70), bus = (\<lambda>_. None)\<rparr>\<rparr>"

lemma demo_world_fair: "fair_world cfg (demo_world s)"
  by (simp add: fair_world_def demo_world_def fair_clients_def quiet_def)

lemma demo_cur_simps [simp]:
  "version (demo_cur v rv st at) = v" "event_seq (demo_cur v rv st at) = v" "plan_revision (demo_cur v rv st at) = rv"
  "run_status (demo_cur v rv st at) = st" "deadline_at (demo_cur v rv st at) = deadline_at sample_run"
  "(advance now (demo_cur v rv st at))\<lparr>run_status := st'\<rparr> = (demo_cur (inc64 v) rv st' now)"
  by (simp_all add: demo_cur_def advance_def)

lemma demo_reconciles:
  "\<exists>w'. run_state (reconcile_plan sample_cfg sample_run) (demo_world demo_completed) = (Inr (demo_cur 7 1 ''completed'' 70), w') \<and>
     has_room (w_slot w')"
proof -
  have loop: "reconcile_loop 4096 sample_cfg sample_run = do {
      t \<leftarrow> reconcile_turn sample_cfg sample_run;
      case t of Return r \<Rightarrow> State_Monad.return r | Again \<Rightarrow> reconcile_loop 4095 sample_cfg sample_run }"
    using reconcile_loop.simps(2) [of 4095] by simp
  have plan: "plan_rev demo_plan = 1" by (simp add: demo_plan_def)
  have ts: "tasks_of_defs s (Suc 0) (plan_tasks demo_plan) = Inr [task_completed]"
    if "task_at s (task_field (Suc 0) ''a'') = Some task_completed" for s
    using that by (simp add: demo_plan_def demo_task_defs)
  have checks: "valid_status ''completed''" "has_prefix ''agent_run.final'' ''agent_run.''" "inc64 6 = 7"
    "task_status task_completed = ''completed''" "70 < deadline_at sample_run"
    by (simp_all add: valid_status_def has_prefix_def inc64_def demo_task_defs sample_defs)
  show ?thesis
    unfolding reconcile_plan_def loop
    by (simp add: demo_scope demo_checks demo_status checks plan ts reconcile_turn_def run_state_bind read_call_def store_call_def
      read_op_def demo_world_def quiet_def get_run_def get_plan_def tasks_of_plan_def advance_tasks_def read_clock_def
      or_else_def finish_turn_def final_status_def transition_def run_tx_alone transition_tx_def
      Let_def demo_completed_def demo_slot_def task_ended_simps has_room_def demo_events_def max_uint64_def)
qed


end
