(* ===== verification/AgentLiveness.thy ===== *)
theory AgentLiveness imports AgentProgress begin

section \<open>Reconciliation makes progress\<close>

text \<open>
  A reconciler that no other client disturbs, with a connection that works and a clock that does
  not run backwards, ends within its 4096 turns: every turn that does not return moves a task
  on, and a task can be moved at most twice. When it returns, the run has ended, or a worker has
  something to do, or the deadline has passed and the next call ends the run.
\<close>

subsection \<open>A world of one's own\<close>

definition alone :: "agent_world \<Rightarrow> bool" where
  "alone w \<longleftrightarrow> (\<forall>k i. at_failure (conn (w_env w) k i) = None \<and> at_others (conn (w_env w) k i) = (\<lambda>s. s)) \<and>
     (\<forall>k l. k \<le> l \<longrightarrow> at_clock (conn (w_env w) k 0) \<le> at_clock (conn (w_env w) l 0))"

definition time_at :: "agent_world \<Rightarrow> instant" where
  "time_at w = at_clock (conn (w_env w) (w_tick w) 0)"

definition later :: "agent_world \<Rightarrow> agent_world" where
  "later w = w\<lparr>w_tick := Suc (w_tick w)\<rparr>"

lemma later_simps [simp]:
  "w_slot (later w) = w_slot w" "w_env (later w) = w_env w" "alone (later w) = alone w" "w_bus (later w) = w_bus w"
  "alone (w\<lparr>w_slot := s\<rparr>) = alone w" "w_tick (later w) = Suc (w_tick w)"
  by (simp_all add: later_def alone_def)

lemma alone_fair: "alone w \<Longrightarrow> fair_world cfg w"
  by (simp add: alone_def fair_world_def fair_clients_def)

lemma time_mono: "alone w \<Longrightarrow> w_env v = w_env w \<Longrightarrow> w_tick w \<le> w_tick v \<Longrightarrow> time_at w \<le> time_at v"
  by (simp add: alone_def time_at_def)

lemma read_alone: "alone w \<Longrightarrow> run_state (read_call f) w = (f (w_slot w), later w)"
  by (simp add: alone_def read_call_def store_call_def read_op_def later_def Let_def)

lemma clock_alone: "alone w \<Longrightarrow> run_state read_clock w = (time_at w, later w)"
  by (simp add: alone_def read_clock_def later_def time_at_def Let_def)

lemma tx_alone:
  "alone w \<Longrightarrow> 0 < n \<Longrightarrow> run_state (store_call (run_tx n watched t)) w =
    (if fst t then case snd t (time_at w) (w_slot w) of
        Inl e \<Rightarrow> (Inl e, later w)
      | Inr (c, r) \<Rightarrow> (Inr r, (later w)\<lparr>w_slot := (case c of None \<Rightarrow> w_slot w | Some cmds \<Rightarrow> exec_pipe cmds (w_slot w))\<rparr>)
     else (Inl ErrInvalid, later w))"
  by (auto simp: store_call_def alone_def run_tx_alone later_def time_at_def split: sum.splits)

subsection \<open>What is left to do\<close>

definition weight :: "string \<Rightarrow> nat" where
  "weight st = (if st = ''pending_dependency'' then 2 else if st = ''queued'' \<or> st = ''retry_wait'' then 1 else 0)"

definition weight_at :: "run_slot \<Rightarrow> string \<Rightarrow> nat" where
  "weight_at s f = (case task_at s f of None \<Rightarrow> 0 | Some t \<Rightarrow> weight (task_status t))"

definition plan_field :: "run_plan \<Rightarrow> task_definition \<Rightarrow> string" where
  "plan_field p d = task_field (plan_rev p) (def_task_id d)"

definition todo :: "run_plan \<Rightarrow> run_slot \<Rightarrow> nat" where
  "todo p s = sum_list (map (\<lambda>d. weight_at s (plan_field p d)) (plan_tasks p))"

lemma weight_le: "weight st \<le> 2"
  by (simp add: weight_def)

lemma todo_le: "todo p s \<le> 2 * length (plan_tasks p)"
proof -
  have "sum_list (map (\<lambda>d. weight_at s (plan_field p d)) ds) \<le> 2 * length ds" for ds
    by (induction ds) (auto simp: weight_at_def weight_def split: option.split)
  then show ?thesis by (simp add: todo_def)
qed

lemma todo_less:
  assumes d: "d \<in> set (plan_tasks p)" and dist: "distinct (map def_task_id (plan_tasks p))"
    and t: "task_at s (plan_field p d) = Some t" and s': "map_of (tasks_key s') = (map_of (tasks_key s))(plan_field p d \<mapsto> t')"
    and less: "weight (task_status t') < weight (task_status t)"
  shows "todo p s' < todo p s"
proof -
  obtain xs ys where split: "plan_tasks p = xs @ d # ys" using d split_list by metis
  have "weight_at s' (plan_field p e) = weight_at s (plan_field p e)" if "e \<in> set xs \<union> set ys" for e
  proof -
    have "def_task_id d \<notin> def_task_id ` (set xs \<union> set ys)" using dist unfolding split by auto
    then have "def_task_id e \<noteq> def_task_id d" using that by (metis image_eqI)
    then show ?thesis by (simp add: weight_at_def s' plan_field_def)
  qed
  then have "sum_list (map (\<lambda>e. weight_at s' (plan_field p e)) xs) = sum_list (map (\<lambda>e. weight_at s (plan_field p e)) xs)"
    "sum_list (map (\<lambda>e. weight_at s' (plan_field p e)) ys) = sum_list (map (\<lambda>e. weight_at s (plan_field p e)) ys)"
    by (auto intro!: arg_cong [of _ _ sum_list])
  moreover have "weight_at s' (plan_field p d) < weight_at s (plan_field p d)"
    using less t by (simp add: weight_at_def s')
  ultimately show ?thesis unfolding todo_def split by simp
qed

subsection \<open>A run under reconciliation\<close>

definition under_way :: "run_cfg \<Rightarrow> snapshot \<Rightarrow> run_plan \<Rightarrow> snapshot \<Rightarrow> run_slot \<Rightarrow> bool" where
  "under_way cfg ident p run s \<longleftrightarrow> valid_scope cfg ident \<and> counted s \<and> state_key s = Some run \<and>
     \<not> terminal (run_status run) \<and> plan_revision run \<noteq> 0 \<and> map_of (plans_key s) (plan_revision run) = Some p \<and>
     length (events_key s) + todo p s < max_uint64"

lemma under_way_plan:
  assumes "under_way cfg ident p run s"
  shows "plan_rev p = plan_revision run" "valid_plan p" "distinct (map def_task_id (plan_tasks p))" "version run \<noteq> 0"
    "tasks_ok run (map_of (tasks_key s))" "has_room s" "valid_scope cfg ident" "\<not> terminal (run_status run)"
    "state_key s = Some run" "plan_revision run \<noteq> 0" "map_of (plans_key s) (plan_revision run) = Some p" "counted s" "slot_ok s"
proof -
  have ok: "slot_ok s" and st: "state_key s = Some run" and p: "map_of (plans_key s) (plan_revision run) = Some p"
    using assms by (simp_all add: under_way_def counted_def)
  then have po: "plan_ok run (map_of (tasks_key s)) (plan_revision run) p"
    by (simp add: slot_ok_def plans_ok_def)
  then show "plan_rev p = plan_revision run" "valid_plan p" by (simp_all add: plan_ok_def)
  then show "distinct (map def_task_id (plan_tasks p))" using valid_plan_distinct by blast
  show room: "has_room s" using assms by (simp add: under_way_def has_room_def)
  then show "version run \<noteq> 0" using assms by (auto simp: under_way_def counted_def)
  show "tasks_ok run (map_of (tasks_key s))" using ok st by (rule slot_tasks_ok)
qed (use assms in \<open>simp_all add: under_way_def counted_def\<close>)

lemma under_way_row:
  assumes u: "under_way cfg ident p run s" and d: "d \<in> set (plan_tasks p)"
  obtains t where "task_at s (plan_field p d) = Some t" "task_id t = def_task_id d" "task_revision t = plan_rev p"
    "depends_on t = def_depends_on d" "known_status (task_status t)"
proof -
  have "plan_ok run (map_of (tasks_key s)) (plan_revision run) p"
    using under_way_plan [OF u] by (simp add: slot_ok_def plans_ok_def)
  then obtain t where t: "task_at s (plan_field p d) = Some t" "depends_on t = def_depends_on d"
    using d under_way_plan(1) [OF u] by (auto simp: plan_ok_def plan_field_def)
  have "row_ok run (map_of (tasks_key s)) (plan_field p d) t"
    using under_way_plan(5) [OF u] t(1) by (rule tasks_okD)
  then show ?thesis using that t by (auto simp: row_ok_def plan_field_def task_ok_def)
qed

definition plan_rows :: "run_plan \<Rightarrow> run_slot \<Rightarrow> task_snapshot list" where
  "plan_rows p s = map (\<lambda>d. the (task_at s (plan_field p d))) (plan_tasks p)"

lemma tasks_of_plan_alone:
  assumes u: "under_way cfg ident p run s"
  shows "tasks_of_plan p s = Inr (plan_rows p s)"
proof -
  have "tasks_of_defs s (plan_rev p) ds = Inr (map (\<lambda>d. the (task_at s (plan_field p d))) ds)"
    if "set ds \<subseteq> set (plan_tasks p)" for ds
    using that
  proof (induction ds)
    case (Cons d ds)
    have d: "d \<in> set (plan_tasks p)" using Cons.prems by simp
    obtain t where t: "task_at s (plan_field p d) = Some t" "task_id t = def_task_id d" "task_revision t = plan_rev p"
      by (rule under_way_row [OF u d])
    have "task_at s (task_field (plan_rev p) (def_task_id d)) = Some t" using t(1) by (simp add: plan_field_def)
    then show ?case using Cons t by simp
  qed simp
  then show ?thesis by (simp add: tasks_of_plan_def plan_rows_def)
qed

lemma plan_rowsE:
  assumes u: "under_way cfg ident p run s" and t: "t \<in> set (plan_rows p s)"
  obtains d where "d \<in> set (plan_tasks p)" "task_at s (plan_field p d) = Some t" "task_id t = def_task_id d"
    "depends_on t = def_depends_on d" "known_status (task_status t)"
proof -
  obtain d where d: "d \<in> set (plan_tasks p)" "t = the (task_at s (plan_field p d))"
    using t by (auto simp: plan_rows_def)
  obtain t' where "task_at s (plan_field p d) = Some t'" "task_id t' = def_task_id d"
    "depends_on t' = def_depends_on d" "known_status (task_status t')"
    by (rule under_way_row [OF u d(1)])
  then show ?thesis using that d by simp
qed

text \<open>A step that keeps the run going, moves one task on and records one event.\<close>

lemma under_way_step:
  assumes u: "under_way cfg ident p run s" and st: "run_step cfg s s'" and d: "d \<in> set (plan_tasks p)"
    and t: "task_at s (plan_field p d) = Some t" and less: "weight (task_status t') < weight (task_status t)"
    and s': "state_key s' = Some run'" "plan_revision run' = plan_revision run" "\<not> terminal (run_status run')"
      "plans_key s' = plans_key s" "tasks_key s' = AList.update (plan_field p d) t' (tasks_key s)"
      "length (events_key s') \<le> Suc (length (events_key s))"
  shows "under_way cfg ident p run' s'" "todo p s' < todo p s"
proof -
  show less': "todo p s' < todo p s"
    by (rule todo_less [OF d under_way_plan(3) [OF u] t _ less]) (simp add: s' AList.update_conv')
  show "under_way cfg ident p run' s'"
    using under_way_plan [OF u] counted_step [OF st] s' less' u by (simp add: under_way_def)
qed

definition moved :: "run_cfg \<Rightarrow> snapshot \<Rightarrow> run_plan \<Rightarrow> agent_world \<Rightarrow> agent_world \<Rightarrow> bool" where
  "moved cfg ident p w w' \<longleftrightarrow> alone w' \<and> (\<exists>run'. under_way cfg ident p run' (w_slot w')) \<and>
     todo p (w_slot w') < todo p (w_slot w)"

lemma plan_task_id: "under_way cfg ident p run s \<Longrightarrow> d \<in> set (plan_tasks p) \<Longrightarrow>
    task_id_pattern (def_task_id d) \<and> valid_task_revision (plan_revision run) (def_task_id d)"
  using under_way_plan(2,10) valid_plan_exact by (fastforce simp: list_all_iff task_shape_ok_def valid_task_revision_def)

lemma mutate_alone:
  assumes u: "under_way cfg ident p run (w_slot w)" and w: "alone w" and d: "d \<in> set (plan_tasks p)"
    and t: "task_at (w_slot w) (plan_field p d) = Some t" and mut: "mut t (time_at w) = Inr t'"
    and less: "weight (task_status t') < weight (task_status t)" and pre: "has_prefix ety ''agent_run.''" "b"
    and tx: "tx = require b (mutate_tx cfg ident (version run) (plan_revision run) (def_task_id d) ety mut)"
    and step: "\<And>now a r a'. commits tx now a r a' \<Longrightarrow> run_step cfg a a'"
  shows "\<exists>r w'. run_state (store_call (run_tx 5 watch_tasks tx)) w = (Inr r, w') \<and> moved cfg ident p w w'"
proof -
  note pl = under_way_plan [OF u]
  let ?f = "plan_field p d" and ?run' = "advance (time_at w) run"
  have f: "task_field (plan_revision run) (def_task_id d) = ?f" by (simp add: plan_field_def pl)
  have id: "valid_task_revision (plan_revision run) (def_task_id d)" using plan_task_id [OF u d] by simp
  let ?cmds = "[HSetTask ?f t', HSetState ?run', XAddEvent (task_entry ety (event_seq ?run') (def_task_id d) t' (time_at w))]"
  have body: "snd tx (time_at w) (w_slot w) = Inr (Some ?cmds, (t', ?run'))" "fst tx"
    using pl id t mut pre by (simp_all add: tx mutate_tx_def f Let_def)
  let ?s' = "exec_pipe ?cmds (w_slot w)"
  have "commits tx (time_at w) (w_slot w) (t', ?run') ?s'" by (rule commitsI [OF body(2,1) refl])
  from under_way_step [OF u step [OF this] d t less, of ?run'] pl(8)
  have "under_way cfg ident p ?run' ?s'" "todo p ?s' < todo p (w_slot w)" by simp_all
  moreover have "run_state (store_call (run_tx 5 watch_tasks tx)) w = (Inr (t', ?run'), (later w)\<lparr>w_slot := ?s'\<rparr>)"
    using tx_alone [OF w, of 5 watch_tasks tx] body by simp
  ultimately show ?thesis using w by (auto simp: moved_def)
qed

lemma prefixes: "has_prefix ''agent_run.task_failed'' ''agent_run.''" "has_prefix ''agent_run.task_skipped'' ''agent_run.''"
  "has_prefix ''agent_run.final'' ''agent_run.''"
  by (simp_all add: has_prefix_def)

lemma expire_unstarted_alone:
  assumes u: "under_way cfg ident p run (w_slot w)" and w: "alone w" and d: "d \<in> set (plan_tasks p)"
    and t: "task_at (w_slot w) (plan_field p d) = Some t" "unstarted t"
  shows "\<exists>r w'. run_state (store_call (expire_unstarted_task cfg ident (version run) (plan_revision run) (def_task_id d))) w = (Inr r, w')
    \<and> moved cfg ident p w w'"
proof -
  obtain t' where t': "expire_unstarted_mut t (time_at w) = Inr t'" and st: "task_status t' = ''failed'' \<or> task_status t' = ''skipped''"
    using t(2) by (auto simp: expire_unstarted_mut_def unstarted_def Let_def)
  have "weight (task_status t') < weight (task_status t)" using st t(2) by (auto simp: weight_def unstarted_def)
  moreover have "expire_unstarted_task_tx cfg ident (version run) (plan_revision run) (def_task_id d) = require True
      (mutate_tx cfg ident (version run) (plan_revision run) (def_task_id d) ''agent_run.task_failed'' expire_unstarted_mut)"
    by (simp add: expire_unstarted_task_tx_def require_def)
  ultimately show ?thesis
    unfolding expire_unstarted_task_def
    by - (rule mutate_alone [OF u w d t(1) _ _ prefixes(1) TrueI _ run_step.ExpireUnstarted], rule t')
qed

lemma expire_queued_alone:
  assumes u: "under_way cfg ident p run (w_slot w)" and w: "alone w" and d: "d \<in> set (plan_tasks p)"
    and t: "task_at (w_slot w) (plan_field p d) = Some t" "task_status t = ''queued''" "\<not> is_zero (queued_at t)"
      "queued_at t + queue_wait_timeout cfg \<le> time_at w"
  shows "\<exists>r w'. run_state (store_call (expire_queued_task cfg ident (version run) (plan_revision run) (def_task_id d))) w = (Inr r, w')
    \<and> moved cfg ident p w w'"
proof -
  obtain t' where t': "expire_queued_mut cfg t (time_at w) = Inr t'" and st: "task_status t' = ''failed''"
    using t(2-4) by (auto simp: expire_queued_mut_def)
  have "weight (task_status t') < weight (task_status t)" using st t(2) by (auto simp: weight_def)
  moreover have "expire_queued_task_tx cfg ident (version run) (plan_revision run) (def_task_id d) = require True
      (mutate_tx cfg ident (version run) (plan_revision run) (def_task_id d) ''agent_run.task_failed'' (expire_queued_mut cfg))"
    by (simp add: expire_queued_task_tx_def require_def)
  ultimately show ?thesis
    unfolding expire_queued_task_def
    by - (rule mutate_alone [OF u w d t(1) _ _ prefixes(1) TrueI _ run_step.ExpireQueued], rule t')
qed

lemma skip_alone:
  assumes u: "under_way cfg ident p run (w_slot w)" and w: "alone w" and d: "d \<in> set (plan_tasks p)"
    and t: "task_at (w_slot w) (plan_field p d) = Some t" "task_status t = ''pending_dependency''"
  shows "\<exists>r w'. run_state (store_call (skip_task cfg ident (version run) (plan_revision run) (def_task_id d) ''dependency.failed'')) w = (Inr r, w')
    \<and> moved cfg ident p w w'"
proof -
  obtain t' where t': "skip_mut ''dependency.failed'' t (time_at w) = Inr t'" and st: "task_status t' = ''skipped''"
    using t(2) by (auto simp: skip_mut_def)
  have less: "weight (task_status t') < weight (task_status t)" using st t(2) by (auto simp: weight_def)
  show ?thesis
    unfolding skip_task_def
    by (rule mutate_alone [OF u w d t(1) t' less prefixes(2) _ skip_task_tx_def run_step.Skip]) simp_all
qed

lemma queue_alone:
  assumes u: "under_way cfg ident p run (w_slot w)" and w: "alone w" and d: "d \<in> set (plan_tasks p)"
    and t: "task_at (w_slot w) (plan_field p d) = Some t" "task_status t = ''pending_dependency''"
    and deps: "deps_completed (w_slot w) (plan_revision run) (depends_on t) = Inr ()"
  shows "\<exists>r w'. run_state (store_call (queue_task cfg ident (version run) (plan_revision run) (def_task_id d) reason)) w = (Inr r, w')
    \<and> moved cfg ident p w w'"
proof -
  note pl = under_way_plan [OF u]
  let ?f = "plan_field p d" and ?tx = "queue_task_tx cfg ident (version run) (plan_revision run) (def_task_id d) reason"
  let ?run' = "(advance (time_at w) run)\<lparr>run_status := ''running''\<rparr>"
  let ?t' = "t\<lparr>task_status := ''queued'', attempt := inc64 (attempt t), queued_at := time_at w, queue_reason := reason\<rparr>"
  have f: "task_field (plan_revision run) (def_task_id d) = ?f" by (simp add: plan_field_def pl)
  have id: "task_id_pattern (def_task_id d)" using plan_task_id [OF u d] by simp
  let ?cmds = "[HSetTask ?f ?t', HSetState ?run',
      XAddEvent ((run_entry (event_seq ?run') ''agent_run.task_status'' ''queued'' (time_at w))
        \<lparr>en_task_id := def_task_id d, en_attempt := attempt ?t'\<rparr>),
      XAddOutbox (run_id ident) (plan_revision run) (def_task_id d) (attempt ?t') (event_seq ?run')]"
  have body: "snd ?tx (time_at w) (w_slot w) = Inr (Some ?cmds, (?t', ?run'))" "fst ?tx"
    using pl id t deps by (simp_all add: queue_task_tx_def f Let_def)
  let ?s' = "exec_pipe ?cmds (w_slot w)"
  have "commits ?tx (time_at w) (w_slot w) (?t', ?run') ?s'" by (rule commitsI [OF body(2,1) refl])
  from under_way_step [OF u run_step.QueueTask [OF this] d t(1), of ?t' ?run'] t(2)
  have "under_way cfg ident p ?run' ?s'" "todo p ?s' < todo p (w_slot w)" by (simp_all add: weight_def terminal_def)
  moreover have "run_state (store_call (queue_task cfg ident (version run) (plan_revision run) (def_task_id d) reason)) w =
      (Inr (?t', ?run'), (later w)\<lparr>w_slot := ?s'\<rparr>)"
    unfolding queue_task_def using tx_alone [OF w, of 5 watch_tasks ?tx] body by simp
  ultimately show ?thesis using w by (auto simp: moved_def)
qed

subsection \<open>The parts of a turn\<close>

definition stayed :: "agent_world \<Rightarrow> agent_world \<Rightarrow> bool" where
  "stayed w w' \<longleftrightarrow> alone w' \<and> w_env w' = w_env w \<and> w_slot w' = w_slot w \<and> w_tick w \<le> w_tick w'"

lemma stayed_later: "alone w \<Longrightarrow> stayed w (later w)"
  by (simp add: stayed_def)

lemma stayed_trans: "stayed a b \<Longrightarrow> stayed b c \<Longrightarrow> stayed a c"
  by (simp add: stayed_def)

lemma moved_stayed: "stayed a b \<Longrightarrow> moved cfg ident p b c \<Longrightarrow> moved cfg ident p a c"
  by (simp add: stayed_def moved_def)

lemma changed_Inr [simp]: "changed (Inr r) = Some Again"
  by (simp add: changed_def)

lemma expire_first_alone:
  assumes u: "under_way cfg ident p run (w_slot w)" and w: "alone w"
  shows "(run_state (expire_first cfg ident run (plan_rows p (w_slot w))) w = (None, w) \<and>
      (\<forall>t\<in>set (plan_rows p (w_slot w)). \<not> unstarted t)) \<or>
    (\<exists>w'. run_state (expire_first cfg ident run (plan_rows p (w_slot w))) w = (Some Again, w') \<and> moved cfg ident p w w')"
proof (cases "List.find unstarted (plan_rows p (w_slot w))")
  case None
  then have "run_state (expire_first cfg ident run (plan_rows p (w_slot w))) w = (None, w)" by (simp add: expire_first_def)
  moreover have "\<forall>t\<in>set (plan_rows p (w_slot w)). \<not> unstarted t" using None by (auto simp: find_None_iff)
  ultimately show ?thesis by blast
next
  case (Some t)
  then have t: "t \<in> set (plan_rows p (w_slot w))" "unstarted t" by (auto simp: find_Some_iff)
  obtain d where d: "d \<in> set (plan_tasks p)" "task_at (w_slot w) (plan_field p d) = Some t" "task_id t = def_task_id d"
    by (rule plan_rowsE [OF u t(1)])
  obtain r w' where "run_state (store_call (expire_unstarted_task cfg ident (version run) (plan_revision run) (def_task_id d))) w = (Inr r, w')"
    "moved cfg ident p w w'"
    using expire_unstarted_alone [OF u w d(1,2) t(2)] by blast
  then show ?thesis by (simp add: expire_first_def Some d(3) run_state_bind)
qed

lemma expire_waiting_alone:
  assumes "under_way cfg ident p run (w_slot w)" "alone w" "set ts \<subseteq> set (plan_rows p (w_slot w))"
  shows "(\<exists>w'. run_state (expire_waiting cfg ident run ts) w = (None, w') \<and> stayed w w') \<or>
    (\<exists>w'. run_state (expire_waiting cfg ident run ts) w = (Some Again, w') \<and> moved cfg ident p w w')"
  using assms
proof (induction ts arbitrary: w)
  case Nil
  then show ?case by (simp add: stayed_def)
next
  case (Cons t ts)
  have sub: "set ts \<subseteq> set (plan_rows p (w_slot w))" using Cons.prems(3) by simp
  show ?case
  proof (cases "task_status t \<noteq> ''queued'' \<or> is_zero (queued_at t)")
    case True
    then show ?thesis using Cons.IH [OF Cons.prems(1,2) sub] by simp
  next
    case waits: False
    have st: "stayed w (later w)" by (rule stayed_later [OF Cons.prems(2)])
    show ?thesis
    proof (cases "time_at w < queued_at t + queue_wait_timeout cfg")
      case True
      have "run_state (expire_waiting cfg ident run (t # ts)) w = run_state (expire_waiting cfg ident run ts) (later w)"
        using waits True by (simp add: run_state_bind clock_alone [OF Cons.prems(2)])
      moreover note Cons.IH [of "later w"]
      ultimately show ?thesis using Cons.prems sub st stayed_trans moved_stayed by auto
    next
      case False
      have "t \<in> set (plan_rows p (w_slot w))" using Cons.prems(3) by simp
      then obtain d where d: "d \<in> set (plan_tasks p)" "task_at (w_slot w) (plan_field p d) = Some t" "task_id t = def_task_id d"
        by (rule plan_rowsE [OF Cons.prems(1)])
      have "time_at w \<le> time_at (later w)" by (rule time_mono [OF Cons.prems(2)]) simp_all
      then have due: "queued_at t + queue_wait_timeout cfg \<le> time_at (later w)" using False by simp
      obtain r w' where call: "run_state (store_call (expire_queued_task cfg ident (version run) (plan_revision run) (def_task_id d))) (later w) = (Inr r, w')"
        and mv: "moved cfg ident p (later w) w'"
        using expire_queued_alone [of cfg ident p run "later w" d t] Cons.prems d waits due by auto
      have "run_state (expire_waiting cfg ident run (t # ts)) w = (Some Again, w')"
        using waits False call d(3) by (simp add: run_state_bind clock_alone [OF Cons.prems(2)])
      then show ?thesis using moved_stayed [OF st mv] by simp
    qed
  qed
qed

lemma status_of_rows:
  assumes u: "under_way cfg ident p run s"
  shows "status_of (plan_rows p s) n = (if n \<in> def_task_id ` set (plan_tasks p)
    then task_status (the (task_at s (task_field (plan_rev p) n))) else [])"
proof -
  have "map (\<lambda>t. (task_id t, task_status t)) (plan_rows p s) =
      map (\<lambda>d. (def_task_id d, task_status (the (task_at s (plan_field p d))))) (plan_tasks p)"
  proof -
    have "task_id (the (task_at s (plan_field p d))) = def_task_id d" if "d \<in> set (plan_tasks p)" for d
      by (rule under_way_row [OF u that]) simp
    then show ?thesis by (simp add: plan_rows_def)
  qed
  also have "\<dots> = map (\<lambda>n. (n, task_status (the (task_at s (task_field (plan_rev p) n))))) (map def_task_id (plan_tasks p))"
    by (simp add: plan_field_def)
  finally have "map_of (rev (map (\<lambda>t. (task_id t, task_status t)) (plan_rows p s))) n =
      map_of (map (\<lambda>n. (n, task_status (the (task_at s (task_field (plan_rev p) n))))) (rev (map def_task_id (plan_tasks p)))) n"
    by (simp only: rev_map)
  then show ?thesis by (auto simp: status_of_def map_of_map_restrict restrict_map_def)
qed

lemma deps_ready:
  assumes u: "under_way cfg ident p run s" and ready: "is_ready (plan_rows p s) t" "\<not> is_blocked (plan_rows p s) t"
  shows "deps_completed s (plan_revision run) (depends_on t) = Inr ()"
proof -
  have "dep_done (map_of (tasks_key s)) (plan_revision run) n" if n: "n \<in> set (depends_on t)" for n
  proof -
    have st: "status_of (plan_rows p s) n = ''completed''"
      using ready n by (auto simp: is_ready_def is_blocked_def list_all_iff list_ex_iff)
    then obtain d where d: "d \<in> set (plan_tasks p)" "n = def_task_id d"
      unfolding status_of_rows [OF u] by (auto split: if_splits)
    obtain r where r: "task_at s (plan_field p d) = Some r" by (rule under_way_row [OF u d(1)])
    then have "task_at s (task_field (plan_revision run) n) = Some r"
      using d(2) under_way_plan(1) [OF u] by (simp add: plan_field_def)
    moreover have "task_status r = ''completed''"
      using st r d by (auto simp: status_of_rows [OF u] plan_field_def)
    ultimately show ?thesis by (simp add: dep_done_def)
  qed
  then show ?thesis by (simp add: deps_completed_iff)
qed

lemma schedule_first_alone:
  assumes u: "under_way cfg ident p run (w_slot w)" and w: "alone w" and sub: "set ts \<subseteq> set (plan_rows p (w_slot w))"
  shows "(run_state (schedule_first cfg ident run (plan_rows p (w_slot w)) ts) w = (None, w) \<and>
      (\<forall>t\<in>set ts. task_status t = ''pending_dependency'' \<longrightarrow>
        \<not> is_blocked (plan_rows p (w_slot w)) t \<and> \<not> is_ready (plan_rows p (w_slot w)) t)) \<or>
    (\<exists>w'. run_state (schedule_first cfg ident run (plan_rows p (w_slot w)) ts) w = (Some Again, w') \<and> moved cfg ident p w w')"
  using sub
proof (induction ts)
  case (Cons t ts)
  let ?rows = "plan_rows p (w_slot w)"
  have IH: "(run_state (schedule_first cfg ident run ?rows ts) w = (None, w) \<and>
      (\<forall>t\<in>set ts. task_status t = ''pending_dependency'' \<longrightarrow> \<not> is_blocked ?rows t \<and> \<not> is_ready ?rows t)) \<or>
    (\<exists>w'. run_state (schedule_first cfg ident run ?rows ts) w = (Some Again, w') \<and> moved cfg ident p w w')"
    using Cons by simp
  have "t \<in> set ?rows" using Cons.prems by simp
  then obtain d where d: "d \<in> set (plan_tasks p)" "task_at (w_slot w) (plan_field p d) = Some t" "task_id t = def_task_id d"
    by (rule plan_rowsE [OF u])
  consider "task_status t \<noteq> ''pending_dependency''" | "task_status t = ''pending_dependency''" "is_blocked ?rows t"
    | "task_status t = ''pending_dependency''" "\<not> is_blocked ?rows t" "is_ready ?rows t"
    | "task_status t = ''pending_dependency''" "\<not> is_blocked ?rows t" "\<not> is_ready ?rows t" by blast
  then show ?case
  proof cases
    case 2
    obtain r w' where "run_state (store_call (skip_task cfg ident (version run) (plan_revision run) (def_task_id d) ''dependency.failed'')) w = (Inr r, w')"
      "moved cfg ident p w w'"
      using skip_alone [OF u w d(1,2) 2(1)] by blast
    then show ?thesis using 2 d(3) by (simp add: run_state_bind)
  next
    case 3
    obtain r w' where "run_state (store_call (queue_task cfg ident (version run) (plan_revision run) (def_task_id d) ''dependency_ready'')) w = (Inr r, w')"
      "moved cfg ident p w w'"
      using queue_alone [OF u w d(1,2) 3(1) deps_ready [OF u 3(3,2)]] by blast
    then show ?thesis using 3 d(3) by (simp add: run_state_bind)
  qed (use IH in auto)
qed simp

subsection \<open>No deadlock\<close>

definition in_flight :: "run_plan \<Rightarrow> run_slot \<Rightarrow> bool" where
  "in_flight p s \<longleftrightarrow> list_ex (\<lambda>d. case task_at s (plan_field p d) of None \<Rightarrow> False
     | Some t \<Rightarrow> task_status t \<in> {''queued'', ''leased'', ''running''}) (plan_tasks p)"

lemma in_flightI:
  "d \<in> set (plan_tasks p) \<Longrightarrow> task_at s (plan_field p d) = Some t \<Longrightarrow> known_status (task_status t) \<Longrightarrow>
     \<not> task_ended (task_status t) \<Longrightarrow> task_status t \<noteq> ''pending_dependency'' \<Longrightarrow> in_flight p s"
  by (auto simp: in_flight_def list_ex_iff known_status_def task_ended_def intro!: bexI [of _ d])

text \<open>
  When no task can be queued or skipped and not all have ended, some task is in a worker's hands
  or on its way to one: among the tasks that wait for others there is one, the dependencies
  being acyclic, that waits for none of them.
\<close>

lemma some_in_flight:
  assumes u: "under_way cfg ident p run s" and open_: "final_status (plan_rows p s) = None"
    and idle: "\<And>t. t \<in> set (plan_rows p s) \<Longrightarrow> task_status t = ''pending_dependency'' \<Longrightarrow>
      \<not> is_blocked (plan_rows p s) t \<and> \<not> is_ready (plan_rows p s) t"
  shows "in_flight p s"
proof (rule ccontr)
  assume none: "\<not> in_flight p s"
  have ended: "task_ended (task_status t) \<or> task_status t = ''pending_dependency''"
    if d: "d \<in> set (plan_tasks p)" and t: "task_at s (plan_field p d) = Some t" for d t
  proof -
    obtain t' where "task_at s (plan_field p d) = Some t'" "known_status (task_status t')" by (rule under_way_row [OF u d])
    then show ?thesis using in_flightI [OF d t] t none by auto
  qed
  let ?P = "{n. \<exists>d\<in>set (plan_tasks p). \<exists>t. n = def_task_id d \<and> task_at s (plan_field p d) = Some t \<and>
      task_status t = ''pending_dependency''}"
  obtain t0 where t0: "t0 \<in> set (plan_rows p s)" "\<not> task_ended (task_status t0)"
    using open_ by (auto simp: final_status_def Let_def list_ex_iff split: if_splits)
  obtain d0 where "d0 \<in> set (plan_tasks p)" "task_at s (plan_field p d0) = Some t0" by (rule plan_rowsE [OF u t0(1)])
  then have "def_task_id d0 \<in> ?P" using ended t0(2) by blast
  have plan: "snd ` plan_edges p \<subseteq> set (map def_task_id (plan_tasks p))" "acyclic (plan_edges p)"
    using under_way_plan(2) [OF u] by (simp_all add: valid_plan_exact)
  have "plan_edges p = (\<Union>t\<in>set (plan_tasks p). (\<lambda>d. (def_task_id t, d)) ` set (def_depends_on t))"
    by (auto simp: plan_edges_def)
  then have "finite (plan_edges p)" by simp
  then have "wf ((plan_edges p)\<inverse>)" using plan(2) by (rule finite_acyclic_wf_converse)
  then obtain n where n: "n \<in> ?P" and least: "\<And>m. (m, n) \<in> (plan_edges p)\<inverse> \<Longrightarrow> m \<notin> ?P"
    using wfE_min [of "(plan_edges p)\<inverse>" "def_task_id d0" ?P] \<open>def_task_id d0 \<in> ?P\<close> by blast
  from n obtain d t where d: "d \<in> set (plan_tasks p)" "n = def_task_id d"
    and t: "task_at s (plan_field p d) = Some t" "task_status t = ''pending_dependency''" by blast
  have row: "t \<in> set (plan_rows p s)" using d t(1) by (auto simp: plan_rows_def image_iff intro!: bexI [of _ d])
  obtain t' where t': "task_at s (plan_field p d) = Some t'" "depends_on t' = def_depends_on d" by (rule under_way_row [OF u d(1)])
  obtain m where m: "m \<in> set (depends_on t)" "status_of (plan_rows p s) m \<noteq> ''completed''"
      "\<not> dep_blocked (status_of (plan_rows p s) m)"
    using idle [OF row t(2)] by (auto simp: is_blocked_def is_ready_def list_all_iff list_ex_iff)
  have edge: "(n, m) \<in> plan_edges p" using m(1) d t t' by (auto simp: plan_edges_def)
  then have "m \<in> snd ` plan_edges p" by force
  then obtain e where e: "e \<in> set (plan_tasks p)" "m = def_task_id e" using plan(1) by auto
  obtain r where r: "task_at s (plan_field p e) = Some r" by (rule under_way_row [OF u e(1)])
  have "status_of (plan_rows p s) m = task_status r"
    using e r by (auto simp: status_of_rows [OF u] plan_field_def)
  then have "\<not> task_ended (task_status r)" using m by (auto simp: dep_blocked_def task_ended_def)
  then have "task_status r = ''pending_dependency''" using ended [OF e(1) r] by simp
  then have "m \<in> ?P" using e r by blast
  then show False using least edge by blast
qed

lemma transition_alone:
  assumes u: "under_way cfg ident p run (w_slot w)" and w: "alone w" and st: "terminal st"
  shows "\<exists>v w'. run_state (store_call (transition cfg ident (version run) st ''agent_run.final'')) w = (Inr v, w') \<and>
    state_key (w_slot w') = Some v \<and> terminal (run_status v)"
proof -
  note pl = under_way_plan [OF u]
  let ?tx = "transition_tx cfg ident (version run) st ''agent_run.final''"
  let ?v = "(advance (time_at w) run)\<lparr>run_status := st\<rparr>"
  have "valid_status st" using st by (auto simp: terminal_def valid_status_def)
  then have "fst ?tx" "snd ?tx (time_at w) (w_slot w) =
      Inr (Some [HSetState ?v, XAddEvent (run_entry (event_seq ?v) ''agent_run.final'' st (time_at w))], ?v)"
    using pl prefixes(3) by (simp_all add: transition_tx_def Let_def)
  then show ?thesis unfolding transition_def using tx_alone [OF w, of 5 watch_state ?tx] st by simp
qed

definition settled :: "run_plan \<Rightarrow> snapshot \<Rightarrow> agent_world \<Rightarrow> bool" where
  "settled p v w \<longleftrightarrow> state_key (w_slot w) = Some v \<and>
     (terminal (run_status v) \<or> in_flight p (w_slot w) \<or> deadline_at v \<le> time_at w)"

lemma finish_alone:
  assumes u: "under_way cfg ident p run (w_slot w)" and w: "alone w"
    and idle: "deadline_at run \<le> time_at w \<or> (\<forall>t\<in>set (plan_rows p (w_slot w)). task_status t = ''pending_dependency'' \<longrightarrow>
      \<not> is_blocked (plan_rows p (w_slot w)) t \<and> \<not> is_ready (plan_rows p (w_slot w)) t)"
  shows "\<exists>v w'. run_state (finish_turn cfg ident run (plan_rows p (w_slot w))) w = (Return (Inr v), w') \<and> settled p v w'"
proof (cases "final_status (plan_rows p (w_slot w))")
  case None
  have "deadline_at run \<le> time_at w \<or> in_flight p (w_slot w)" using idle some_in_flight [OF u None] by blast
  then show ?thesis using under_way_plan(9) [OF u] None by (auto simp: finish_turn_def settled_def)
next
  case (Some st)
  obtain v w' where "run_state (store_call (transition cfg ident (version run) st ''agent_run.final'')) w = (Inr v, w')"
    "state_key (w_slot w') = Some v" "terminal (run_status v)"
    using transition_alone [OF u w final_status_terminal [OF Some]] by blast
  then show ?thesis by (simp add: finish_turn_def Some run_state_bind settled_def)
qed

lemma or_else_None: "run_state m w = (None, v) \<Longrightarrow> run_state (or_else m n) w = run_state n v"
  by (simp add: or_else_def run_state_bind)

lemma or_else_Some: "run_state m w = (Some t, v) \<Longrightarrow> run_state (or_else m n) w = (t, v)"
  by (simp add: or_else_def run_state_bind)

lemma advance_alone:
  assumes u: "under_way cfg ident p run (w_slot w)" and w: "alone w"
  shows "(\<exists>w'. run_state (advance_tasks cfg ident run (plan_rows p (w_slot w))) w = (Again, w') \<and> moved cfg ident p w w') \<or>
    (\<exists>v w'. run_state (advance_tasks cfg ident run (plan_rows p (w_slot w))) w = (Return (Inr v), w') \<and> settled p v w')"
proof -
  let ?rows = "plan_rows p (w_slot w)"
  let ?rest = "do { now \<leftarrow> read_clock;
      or_else (if now < deadline_at run then schedule_first cfg ident run ?rows ?rows else State_Monad.return None)
        (finish_turn cfg ident run ?rows) }"
  have run: "run_state (advance_tasks cfg ident run ?rows) w =
      run_state (or_else (if \<not> time_at w < deadline_at run then expire_first cfg ident run ?rows else State_Monad.return None)
        (or_else (expire_waiting cfg ident run ?rows) ?rest)) (later w)"
    by (simp add: advance_tasks_def run_state_bind clock_alone [OF w])
  have st1: "stayed w (later w)" by (rule stayed_later [OF w])
  have rest: "(\<exists>w'. run_state (or_else (expire_waiting cfg ident run ?rows) ?rest) (later w) = (Again, w') \<and> moved cfg ident p w w') \<or>
    (\<exists>v w'. run_state (or_else (expire_waiting cfg ident run ?rows) ?rest) (later w) = (Return (Inr v), w') \<and> settled p v w')"
    if first: "deadline_at run \<le> time_at w \<longrightarrow> (\<forall>t\<in>set ?rows. \<not> unstarted t)"
  proof -
    have u1: "under_way cfg ident p run (w_slot (later w))" "alone (later w)" using u w by simp_all
    from expire_waiting_alone [OF u1, of ?rows] consider
        (none) w2 where "run_state (expire_waiting cfg ident run ?rows) (later w) = (None, w2)" "stayed (later w) w2"
      | (again) w2 where "run_state (expire_waiting cfg ident run ?rows) (later w) = (Some Again, w2)" "moved cfg ident p (later w) w2"
      by auto
    then show ?thesis
    proof cases
      case again
      then show ?thesis using or_else_Some [OF again(1)] moved_stayed [OF st1 again(2)] by blast
    next
      case none
      have st2: "stayed w w2" using st1 none(2) by (rule stayed_trans)
      then have w2: "alone w2" "w_slot w2 = w_slot w" "time_at w \<le> time_at w2"
        using time_mono [OF w, of w2] by (simp_all add: stayed_def)
      let ?w3 = "later w2"
      have w3: "alone ?w3" "w_slot ?w3 = w_slot w" "time_at w2 \<le> time_at ?w3"
        using w2 time_mono [OF w2(1), of ?w3] by simp_all
      have u3: "under_way cfg ident p run (w_slot ?w3)" using u w2 by simp
      let ?tail = "or_else (if time_at w2 < deadline_at run then schedule_first cfg ident run ?rows ?rows else State_Monad.return None)
        (finish_turn cfg ident run ?rows)"
      have tail: "run_state (or_else (expire_waiting cfg ident run ?rows) ?rest) (later w) = run_state ?tail ?w3"
        unfolding or_else_None [OF none(1)] by (simp add: run_state_bind clock_alone [OF w2(1)])
      have "(\<exists>w'. run_state ?tail ?w3 = (Again, w') \<and> moved cfg ident p ?w3 w') \<or>
        (\<exists>v w'. run_state ?tail ?w3 = (Return (Inr v), w') \<and> settled p v w')"
      proof (cases "time_at w2 < deadline_at run")
        case True
        from schedule_first_alone [OF u3 w3(1), of ?rows] w3(2) consider
            (none) "run_state (schedule_first cfg ident run ?rows ?rows) ?w3 = (None, ?w3)"
              "\<forall>t\<in>set ?rows. task_status t = ''pending_dependency'' \<longrightarrow> \<not> is_blocked ?rows t \<and> \<not> is_ready ?rows t"
          | (again) w4 where "run_state (schedule_first cfg ident run ?rows ?rows) ?w3 = (Some Again, w4)" "moved cfg ident p ?w3 w4"
          by auto
        then show ?thesis
        proof cases
          case none
          then show ?thesis using or_else_None [OF none(1)] finish_alone [OF u3 w3(1)] w3(2) True by auto
        next
          case again
          then show ?thesis using or_else_Some [OF again(1)] True by auto
        qed
      next
        case False
        then have "deadline_at run \<le> time_at ?w3" using w3(3) by simp
        then show ?thesis using finish_alone [OF u3 w3(1)] w3(2) False by (simp add: or_else_def run_state_bind)
      qed
      then show ?thesis unfolding tail using moved_stayed [OF stayed_trans [OF st2 stayed_later [OF w2(1)]]] by blast
    qed
  qed
  show ?thesis
  proof (cases "time_at w < deadline_at run")
    case True
    then have "run_state (advance_tasks cfg ident run ?rows) w = run_state (or_else (expire_waiting cfg ident run ?rows) ?rest) (later w)"
      unfolding run by (simp add: or_else_def run_state_bind)
    then show ?thesis using rest True by simp
  next
    case False
    have "under_way cfg ident p run (w_slot (later w))" "alone (later w)" using u w by simp_all
    from expire_first_alone [OF this] consider
        (none) "run_state (expire_first cfg ident run ?rows) (later w) = (None, later w)" "\<forall>t\<in>set ?rows. \<not> unstarted t"
      | (again) w2 where "run_state (expire_first cfg ident run ?rows) (later w) = (Some Again, w2)" "moved cfg ident p (later w) w2"
      by auto
    then show ?thesis
    proof cases
      case none
      then show ?thesis using rest False or_else_None [OF none(1)] unfolding run by auto
    next
      case again
      then show ?thesis using False or_else_Some [OF again(1)] moved_stayed [OF st1 again(2)] unfolding run by auto
    qed
  qed
qed

subsection \<open>Turns and the loop\<close>

lemma turn_alone:
  assumes u: "under_way cfg ident p run (w_slot w)" and w: "alone w"
  shows "(\<exists>w'. run_state (reconcile_turn cfg ident) w = (Again, w') \<and> moved cfg ident p w w') \<or>
    (\<exists>v w'. run_state (reconcile_turn cfg ident) w = (Return (Inr v), w') \<and> settled p v w')"
proof -
  note pl = under_way_plan [OF u]
  let ?w3 = "later (later (later w))"
  have get: "get_run cfg ident (w_slot w) = Inr run" using pl by (simp add: get_run_Inr)
  have plan: "get_plan cfg ident (plan_revision run) (w_slot w) = Inr p" using pl by (simp add: get_plan_def)
  have "run_state (reconcile_turn cfg ident) w = run_state (advance_tasks cfg ident run (plan_rows p (w_slot w))) ?w3"
    using pl(8,10) by (simp add: reconcile_turn_def run_state_bind read_alone w get plan tasks_of_plan_alone [OF u])
  moreover have st: "stayed w ?w3" using w by (simp add: stayed_def)
  moreover have "under_way cfg ident p run (w_slot ?w3)" "alone ?w3" using u w by simp_all
  from advance_alone [OF this] have "(\<exists>w'. run_state (advance_tasks cfg ident run (plan_rows p (w_slot w))) ?w3 = (Again, w') \<and>
      moved cfg ident p ?w3 w') \<or>
    (\<exists>v w'. run_state (advance_tasks cfg ident run (plan_rows p (w_slot w))) ?w3 = (Return (Inr v), w') \<and> settled p v w')" by simp
  ultimately show ?thesis using moved_stayed [OF st] by auto
qed

lemma loop_alone:
  assumes "under_way cfg ident p run (w_slot w)" "alone w" "todo p (w_slot w) < n"
  shows "\<exists>v w'. run_state (reconcile_loop n cfg ident) w = (Inr v, w') \<and> settled p v w'"
  using assms
proof (induction n arbitrary: w run)
  case (Suc n)
  from turn_alone [OF Suc.prems(1,2)] show ?case
  proof (elim disjE exE conjE)
    fix w1 assume t: "run_state (reconcile_turn cfg ident) w = (Again, w1)" and mv: "moved cfg ident p w w1"
    then obtain run' where "under_way cfg ident p run' (w_slot w1)" "alone w1" "todo p (w_slot w1) < n"
      using Suc.prems(3) by (auto simp: moved_def)
    from Suc.IH [OF this] show ?thesis using t by (simp add: run_state_bind)
  next
    fix v w' assume "run_state (reconcile_turn cfg ident) w = (Return (Inr v), w')" "settled p v w'"
    then show ?thesis by (simp add: run_state_bind)
  qed
qed simp



subsection \<open>Dispatching\<close>

definition undisturbed :: "agent_world \<Rightarrow> bool" where
  "undisturbed w \<longleftrightarrow> (\<forall>k i. at_others (conn (w_env w) k i) = (\<lambda>s. s))"

lemma watch_loop_undisturbed:
  "0 < n \<Longrightarrow> at_others (env 0) = (\<lambda>s. s) \<Longrightarrow> watch_loop n watched body env s =
     (case at_failure (env 0) of Some e \<Rightarrow> (Inl (RedisError e), s)
      | None \<Rightarrow> case body (at_clock (env 0)) s of Inl e \<Rightarrow> (Inl e, s)
          | Inr (c, r) \<Rightarrow> (Inr r, case c of None \<Rightarrow> s | Some cmds \<Rightarrow> exec_pipe cmds s))"
  by (cases n) (auto simp: Let_def split: option.split sum.split)

lemma cursor_alone:
  assumes "undisturbed w" "run_state (store_call (advance_dispatch_cursor n)) w = (c, w')"
  shows "w_env w' = w_env w \<and> w_bus w' = w_bus w \<and>
    ((\<exists>e. c = Inl e) \<and> w_slot w' = w_slot w \<or> c = Inr () \<and> w_slot w' = (w_slot w)\<lparr>cursor_key := Some n\<rparr>)"
  using assms unfolding advance_dispatch_cursor_def
  by (auto simp: run_store_call undisturbed_def run_tx_def advance_cursor_tx_def watch_loop_undisturbed
    split: option.splits if_splits)

lemma enqueue_cases:
  "run_state (enqueue m) w = (r, w') \<Longrightarrow> w_env w' = w_env w \<and> w_slot w' = w_slot w \<and>
     (r = Inr () \<and> w_bus w' = w_bus w @ [m] \<or> (\<exists>e. r = Inl e) \<and> (w_bus w' = w_bus w \<or> w_bus w' = w_bus w @ [m]))"
  by (auto simp: enqueue_def bus_call_def Let_def split: option.splits if_splits)

definition dispatched :: "snapshot \<Rightarrow> outbox_entry list \<Rightarrow> nat \<Rightarrow> nat \<Rightarrow> agent_world \<Rightarrow> agent_world \<Rightarrow> bool" where
  "dispatched ident es j k w w' \<longleftrightarrow> j \<le> k \<and> k \<le> Suc j \<and> k \<le> length es \<and>
     w_bus w' = w_bus w @ map (entry_message ident) (take k es) \<and>
     w_slot w' = (w_slot w)\<lparr>cursor_key := (if j = 0 then cursor_key (w_slot w) else Some (ob_id (es ! (j - 1))))\<rparr>"

lemma dispatched_Cons:
  assumes "dispatched ident es j k w1 w'" "w_bus w1 = w_bus w @ [entry_message ident e]"
    "w_slot w1 = (w_slot w)\<lparr>cursor_key := Some (ob_id e)\<rparr>"
  shows "dispatched ident (e # es) (Suc j) (Suc k) w w'"
  using assms by (cases j) (auto simp: dispatched_def)

lemma dispatch_entries_order:
  assumes "undisturbed w" "run_state (dispatch_entries ident es n) w = ((m, err), w')"
  shows "\<exists>j k. m = n + j \<and> dispatched ident es j k w w' \<and> (err = None \<longrightarrow> j = length es)"
  using assms
proof (induction es arbitrary: n w)
  case Nil
  then show ?case by (simp add: dispatched_def)
next
  case (Cons e es)
  have stop: "dispatched ident (e # es) 0 0 w w'" "dispatched ident (e # es) 0 (Suc 0) w v"
    if "w_bus w' = w_bus w" "w_slot w' = w_slot w" "w_bus v = w_bus w @ [entry_message ident e]" "w_slot v = w_slot w" for w' v
    using that by (simp_all add: dispatched_def)
  show ?case
  proof (cases "\<not> task_id_pattern (ob_task_id e) \<or> ob_run_id e \<noteq> run_id ident")
    case True
    then show ?thesis using Cons.prems(2) by (auto simp: dispatched_def intro!: exI [of _ "0::nat"])
  next
    case False
    obtain r w1 where enq: "run_state (enqueue (entry_message ident e)) w = (r, w1)" by fastforce
    note e1 = enqueue_cases [OF enq]
    show ?thesis
    proof (cases r)
      case (Inl x)
      then have "m = n" "err = Some x" "w' = w1" using Cons.prems(2) False enq by (simp_all add: run_state_bind)
      then show ?thesis using e1 Inl by (auto simp: dispatched_def intro: exI [of _ "0::nat"] exI [of _ "Suc 0"])
    next
      case (Inr x)
      then have bus1: "w_bus w1 = w_bus w @ [entry_message ident e]" "w_slot w1 = w_slot w" "w_env w1 = w_env w" using e1 by auto
      then have un1: "undisturbed w1" using Cons.prems(1) by (simp add: undisturbed_def)
      obtain c w2 where cur: "run_state (store_call (advance_dispatch_cursor (ob_id e))) w1 = (c, w2)" by fastforce
      note c1 = cursor_alone [OF un1 cur]
      show ?thesis
      proof (cases c)
        case (Inl y)
        then have "m = n" "err = Some y" "w' = w2" using Cons.prems(2) False enq Inr cur by (simp_all add: run_state_bind)
        then show ?thesis using c1 Inl bus1 by (auto simp: dispatched_def intro!: exI [of _ "0::nat"] exI [of _ "Suc 0"])
      next
        case (Inr y)
        then have rest: "run_state (dispatch_entries ident es (Suc n)) w2 = ((m, err), w')"
          using Cons.prems(2) False enq \<open>r = Inr x\<close> cur by (simp add: run_state_bind)
        have un2: "undisturbed w2" using c1 un1 by (simp add: undisturbed_def)
        obtain j k where "m = Suc n + j" "dispatched ident es j k w2 w'" "err = None \<longrightarrow> j = length es"
          using Cons.IH [OF un2 rest] by auto
        moreover from this(2) have "dispatched ident (e # es) (Suc j) (Suc k) w w'"
          by (rule dispatched_Cons) (use c1 Inr bus1 in auto)
        ultimately show ?thesis by (intro exI [of _ "Suc j"] exI [of _ "Suc k"]) simp
      qed
    qed
  qed
qed

definition dispatch_queue :: "int \<Rightarrow> run_slot \<Rightarrow> outbox_entry list" where
  "dispatch_queue limit s = pending_entries (case cursor_key s of None \<Rightarrow> 0 | Some n \<Rightarrow> n) (nat limit) s"

lemma read_undisturbed:
  "undisturbed w \<Longrightarrow> run_state (read_call f) w =
     (case at_failure (conn (w_env w) (w_tick w) 0) of Some e \<Rightarrow> Inl (RedisError e) | None \<Rightarrow> f (w_slot w), later w)"
  by (auto simp: undisturbed_def read_call_def store_call_def read_op_def later_def Let_def split: option.split)

lemma undisturbed_later [simp]: "undisturbed (later w) = undisturbed w"
  by (simp add: undisturbed_def)

lemma dispatched_later: "dispatched ident es j k (later w) w' = dispatched ident es j k w w'"
  by (simp add: dispatched_def)

lemma dispatched_none: "w_bus w' = w_bus w \<Longrightarrow> w_slot w' = w_slot w \<Longrightarrow> dispatched ident es 0 0 w w'"
  by (simp add: dispatched_def)



end
