(* ===== verification/AgentWorker.thy ===== *)
theory AgentWorker imports AgentLiveness begin

section \<open>Workers\<close>

text \<open>
  \<open>worker.go\<close> and \<open>planning_worker.go\<close>: one delivery of the task bus, from the checks of the
  message to its acknowledgement. What a worker meets is a parameter: the outcome of the
  executor or planner, the state of its context before and after, an error of its heartbeat, and
  the random claim of its receipt. The heartbeat itself renews the lease while the worker is at
  work; its writes are those of another client of the store.
\<close>

subsection \<open>What a worker meets\<close>

record delivery =
  dl_message :: task_message
  dl_lease_message_id :: string
  dl_owner :: string
  dl_token :: nat
  dl_expires_at :: instant

datatype ctx_error = DeadlineExceeded | Canceled

datatype exec_error = Staged string string | StoreError run_error | ContextError ctx_error | Plain string

text \<open>\<open>evidence.FailureDetails\<close>: the code and the stage of a failure the platform knows.\<close>

definition known_failures :: "(string \<times> string) list" where
  "known_failures = [(''evidence.storage_unavailable'', ''evidence_validation''),
     (''evidence.archive_invalid'', ''evidence_validation''), (''agent.response_contract_invalid'', ''final_validation'')]"

definition failure_details :: "exec_error option \<Rightarrow> (string \<times> string) option" where
  "failure_details err = (case err of
     Some (Staged code stage) \<Rightarrow> Some (code, stage)
   | Some (Plain msg) \<Rightarrow> List.find (\<lambda>(code, _). has_prefix msg code) known_failures
   | Some (StoreError (RedisError msg)) \<Rightarrow> List.find (\<lambda>(code, _). has_prefix msg code) known_failures
   | _ \<Rightarrow> None)"

record fate =
  claim_uuid :: string
  ctx_before :: "ctx_error option"
  ctx_after :: "ctx_error option"
  heartbeat_error :: "string option"
  executor_outcome :: "(work_result \<times> exec_error option) option"

text \<open>\<open>executeWithReceiptGuard\<close>: a panic of the executor, no outcome, becomes an uncertain execution.\<close>

definition execute_with_receipt_guard :: "fate \<Rightarrow> task_ref \<Rightarrow> string \<Rightarrow> (work_result \<times> exec_error option) prog" where
  "execute_with_receipt_guard fate ref key = State (\<lambda>w.
     let e = conn (w_env w) (w_tick w) 0
     in (case executor_outcome fate of
           Some out \<Rightarrow> out
         | None \<Rightarrow> (no_result\<lparr>res_reason_code := ''manual_review_required''\<rparr>, Some (StoreError ErrExecutionUncertain)),
         w\<lparr>w_executed := w_executed w @ [(ref, key)], w_slot := at_others e (w_slot w), w_tick := Suc (w_tick w)\<rparr>))"

subsection \<open>ProcessDelivery\<close>

text \<open>\<open>for retry := 0; retry < 10; retry++\<close>: read the run, try the transition under its version.\<close>

fun cas_retry :: "nat \<Rightarrow> run_cfg \<Rightarrow> snapshot \<Rightarrow> (snapshot \<Rightarrow> 'a fallible) \<Rightarrow> 'a fallible" where
  "cas_retry 0 cfg ident step = State_Monad.return (Inl ErrConflict)"
| "cas_retry (Suc n) cfg ident step =
     bind_ok (read_call (get_run cfg ident)) (\<lambda>run. do {
       r \<leftarrow> step run;
       if r = Inl ErrConflict then cas_retry n cfg ident step else State_Monad.return r })"

definition lease_call :: "run_cfg \<Rightarrow> snapshot \<Rightarrow> snapshot \<Rightarrow> nat \<Rightarrow> string \<Rightarrow> delivery \<Rightarrow> (task_snapshot \<times> snapshot) fallible" where
  "lease_call cfg ident run rv tid dl = do {
     clk \<leftarrow> read_clock;
     store_call (lease_task cfg clk ident (version run) rv tid (dl_owner dl) (dl_token dl) (dl_expires_at dl)) }"

definition start_call :: "run_cfg \<Rightarrow> snapshot \<Rightarrow> snapshot \<Rightarrow> nat \<Rightarrow> string \<Rightarrow> delivery \<Rightarrow> (task_snapshot \<times> snapshot) fallible" where
  "start_call cfg ident run rv tid dl =
     store_call (start_task cfg ident (version run) rv tid (dl_owner dl) (dl_token dl))"

text \<open>The execution between two receipts: the claim before it, the result after it.\<close>

definition run_claimed :: "run_cfg \<Rightarrow> fate \<Rightarrow> task_ref \<Rightarrow> delivery \<Rightarrow> (work_result \<times> exec_error option) prog" where
  "run_claimed cfg fate ref dl =
     (case ctx_before fate of
        Some c \<Rightarrow> State_Monad.return (no_result, Some (ContextError c))
      | None \<Rightarrow> do {
          r \<leftarrow> store_call (execution_receipt cfg (claim_uuid fate) ref (dl_owner dl) (dl_token dl) [] None);
          case r of
            Inl e \<Rightarrow> State_Monad.return (no_result, Some (StoreError e))
          | Inr (token, receipt) \<Rightarrow>
              if token = [] then State_Monad.return (receipt, None)
              else do {
                (result, err) \<leftarrow> execute_with_receipt_guard fate ref
                   (''agent:'' @ ref_run_id ref @ '':'' @ itoa_nat (ref_revision ref) @ '':'' @ ref_task_id ref);
                case err of
                  Some e \<Rightarrow> State_Monad.return (result, Some e)
                | None \<Rightarrow> do {
                    s \<leftarrow> store_call (execution_receipt cfg (claim_uuid fate) ref (dl_owner dl) (dl_token dl) token (Some result));
                    State_Monad.return (result, case s of Inl e \<Rightarrow> Some (StoreError e) | Inr _ \<Rightarrow> None) } } })"

text \<open>What the context and the references make of the outcome.\<close>

definition classify :: "fate \<Rightarrow> work_result \<times> exec_error option \<Rightarrow> work_result \<times> exec_error option" where
  "classify fate out =
     (let (result, err) = out;
          (result, err) = (case ctx_after fate of
              Some c \<Rightarrow>
                if failure_details err \<noteq> None then (result, err)
                else (result\<lparr>res_reason_code := (if c = DeadlineExceeded then ''run.deadline'' else ''manual_review_required'')\<rparr>,
                      Some (ContextError c))
            | None \<Rightarrow> (result, err))
      in if err = None \<and> (blank (res_result_ref result) \<or> blank (res_evidence_ref result))
         then (result\<lparr>res_reason_code := ''manual_review_required''\<rparr>, Some (StoreError ErrInvalid))
         else (result, err))"

definition failure_reason :: "work_result \<Rightarrow> exec_error option \<Rightarrow> string \<times> string" where
  "failure_reason result err =
     (let (reason, stage) = (case failure_details err of
            Some (code, stage) \<Rightarrow> (code, stage) | None \<Rightarrow> (trim_space (res_reason_code result), []))
      in (if reason = [] then ''manual_review_required'' else reason, stage))"

text \<open>After the commit: acknowledge, reconcile, dispatch.\<close>

definition acknowledge_and_advance :: "run_cfg \<Rightarrow> snapshot \<Rightarrow> delivery \<Rightarrow> unit fallible" where
  "acknowledge_and_advance cfg ident dl =
     bind_ok (ack (msg_id (dl_message dl))) (\<lambda>_.
     bind_ok (reconcile_plan cfg ident) (\<lambda>advanced.
       if terminal (run_status advanced) then State_Monad.return (Inr ())
       else do {
         (n, err) \<leftarrow> dispatch_pending cfg ident 1000;
         State_Monad.return (case err of None \<Rightarrow> Inr () | Some e \<Rightarrow> Inl e) }))"

definition record_outcome :: "run_cfg \<Rightarrow> snapshot \<Rightarrow> task_ref \<Rightarrow> delivery \<Rightarrow> work_result \<Rightarrow> exec_error option \<Rightarrow> snapshot
    \<Rightarrow> (task_snapshot \<times> snapshot) fallible" where
  "record_outcome cfg ident ref dl result err run =
     (if err = None
      then store_call (complete_task cfg ident (version run) (ref_revision ref) (ref_task_id ref) (dl_owner dl) (dl_token dl)
             (res_result_ref result) (res_evidence_ref result))
      else let (reason, stage) = failure_reason result err
           in store_call (fail_task cfg ident (version run) (ref_revision ref) (ref_task_id ref) (dl_owner dl) (dl_token dl)
                reason [stage]))"

fun finish_delivery :: "nat \<Rightarrow> run_cfg \<Rightarrow> snapshot \<Rightarrow> task_ref \<Rightarrow> delivery \<Rightarrow> work_result \<Rightarrow> exec_error option \<Rightarrow> unit fallible" where
  "finish_delivery 0 cfg ident ref dl result err = State_Monad.return (Inl ErrConflict)"
| "finish_delivery (Suc n) cfg ident ref dl result err =
     bind_ok (read_call (get_run cfg ident)) (\<lambda>run. do {
       r \<leftarrow> record_outcome cfg ident ref dl result err run;
       if r = Inl ErrConflict then do {
         t \<leftarrow> read_call (get_task cfg ident (ref_revision ref) (ref_task_id ref));
         case t of
           Inl _ \<Rightarrow> State_Monad.return (Inl ErrConflict)
         | Inr task \<Rightarrow>
             if fence task \<noteq> dl_token dl \<or> task_status task = ''completed'' \<or> task_status task = ''failed''
             then State_Monad.return (Inl ErrConflict)
             else finish_delivery n cfg ident ref dl result err }
       else case r of
         Inl e \<Rightarrow> State_Monad.return (Inl e)
       | Inr _ \<Rightarrow> acknowledge_and_advance cfg ident dl })"

definition valid_delivery :: "run_cfg \<Rightarrow> delivery \<Rightarrow> bool" where
  "valid_delivery cfg dl \<longleftrightarrow>
     (let ref = msg_payload (dl_message dl); ident = ref_identity ref
      in valid_scope cfg ident \<and> task_id_pattern (ref_task_id ref) \<and> ref_revision ref \<noteq> 0 \<and> ref_attempt ref \<noteq> 0 \<and>
         msg_id (dl_message dl) = message_name ref \<and> msg_tenant_key (dl_message dl) = task_queue_tenant ident \<and>
         msg_subscriber (dl_message dl) = agent_task_subscriber \<and> dl_lease_message_id dl = message_name ref)"

text \<open>A heartbeat that failed leaves the outcome to the next delivery.\<close>

definition after_execution :: "run_cfg \<Rightarrow> fate \<Rightarrow> delivery \<Rightarrow> work_result \<times> exec_error option \<Rightarrow> unit fallible" where
  "after_execution cfg fate dl out = (case heartbeat_error fate of Some e \<Rightarrow> State_Monad.return (Inl (RedisError e))
      | None \<Rightarrow> let (result, err) = classify fate out
                in finish_delivery 5 cfg (ref_identity (msg_payload (dl_message dl))) (msg_payload (dl_message dl)) dl result err)"

definition process_delivery :: "run_cfg \<Rightarrow> fate \<Rightarrow> delivery \<Rightarrow> unit fallible" where
  "process_delivery cfg fate dl =
     (if \<not> valid_delivery cfg dl then State_Monad.return (Inl ErrInvalid)
      else let ref = msg_payload (dl_message dl); ident = ref_identity ref; rv = ref_revision ref; tid = ref_task_id ref in
        bind_ok (read_call (get_run cfg ident)) (\<lambda>_.
        bind_ok (read_call (get_task cfg ident rv tid)) (\<lambda>task.
          if attempt task \<noteq> ref_attempt ref then State_Monad.return (Inl ErrConflict)
          else if task_status task = ''completed'' \<or> task_status task = ''failed'' \<or> task_status task = ''cancelled''
          then ack (msg_id (dl_message dl))
          else
            bind_ok (cas_retry 10 cfg ident (\<lambda>run. lease_call cfg ident run rv tid dl)) (\<lambda>_.
            bind_ok (cas_retry 10 cfg ident (\<lambda>run. start_call cfg ident run rv tid dl)) (\<lambda>_. do {
              out \<leftarrow> run_claimed cfg fate ref dl;
              after_execution cfg fate dl out })))))"

subsection \<open>ProcessPlanningDelivery\<close>

record planning_result =
  pr_reason_code :: string
  pr_plan :: run_plan
  pr_result_ref :: string
  pr_evidence_ref :: string

text \<open>The outcome of the planner: a result and whether it failed; none for a panic.\<close>

record planning_fate =
  pf_ctx_after :: "ctx_error option"
  pf_heartbeat_error :: "string option"
  planner_outcome :: "(planning_result \<times> bool) option"

definition no_plan :: run_plan where
  "no_plan = \<lparr>plan_rev = 0, plan_tasks = [], plan_budget = None\<rparr>"

definition build_planning_safely :: "planning_fate \<Rightarrow> (planning_result \<times> bool) prog" where
  "build_planning_safely fate = State (\<lambda>w.
     let e = conn (w_env w) (w_tick w) 0
     in (case planner_outcome fate of
           Some out \<Rightarrow> out
         | None \<Rightarrow> (\<lparr>pr_reason_code = ''planner.panicked'', pr_plan = no_plan, pr_result_ref = [], pr_evidence_ref = []\<rparr>, True),
         w\<lparr>w_slot := at_others e (w_slot w), w_tick := Suc (w_tick w)\<rparr>))"

definition ctx_message :: "ctx_error \<Rightarrow> string" where
  "ctx_message c = (case c of DeadlineExceeded \<Rightarrow> ''context deadline exceeded'' | Canceled \<Rightarrow> ''context canceled'')"

fun fail_planning :: "nat \<Rightarrow> run_cfg \<Rightarrow> snapshot \<Rightarrow> delivery \<Rightarrow> string \<Rightarrow> unit fallible" where
  "fail_planning 0 cfg ident dl reason = State_Monad.return (Inl ErrConflict)"
| "fail_planning (Suc n) cfg ident dl reason =
     bind_ok (read_call (get_run cfg ident)) (\<lambda>current.
       if terminal (run_status current) then ack (msg_id (dl_message dl))
       else do {
         r \<leftarrow> store_call (fail_task cfg ident (version current) 0 planning_task_id (dl_owner dl) (dl_token dl) reason []);
         if r = Inl ErrConflict then fail_planning n cfg ident dl reason
         else case r of
           Inl e \<Rightarrow> State_Monad.return (Inl e)
         | Inr _ \<Rightarrow> bind_ok (store_call (expire_planning cfg ident)) (\<lambda>_. ack (msg_id (dl_message dl))) })"

fun publish_plan :: "nat \<Rightarrow> run_cfg \<Rightarrow> snapshot \<Rightarrow> delivery \<Rightarrow> planning_result \<Rightarrow> unit fallible" where
  "publish_plan 0 cfg ident dl result = State_Monad.return (Inl ErrConflict)"
| "publish_plan (Suc n) cfg ident dl result =
     bind_ok (read_call (get_run cfg ident)) (\<lambda>run. do {
       r \<leftarrow> store_call (complete_planning cfg ident (version run) (dl_owner dl) (dl_token dl) (pr_plan result)
              (pr_result_ref result) (pr_evidence_ref result));
       if r = Inl ErrConflict \<and> plan_revision run = 0 then publish_plan n cfg ident dl result
       else case r of
         Inl e \<Rightarrow> State_Monad.return (Inl e)
       | Inr _ \<Rightarrow> bind_ok (ack (msg_id (dl_message dl))) (\<lambda>_.
                   bind_ok (recover_run cfg ident) (\<lambda>_. State_Monad.return (Inr ()))) })"

definition valid_planning_delivery :: "run_cfg \<Rightarrow> delivery \<Rightarrow> bool" where
  "valid_planning_delivery cfg dl \<longleftrightarrow>
     (let ref = msg_payload (dl_message dl); ident = ref_identity ref;
          expected = ref_run_id ref @ '':0:'' @ planning_task_id @ '':1''
      in valid_scope cfg ident \<and> ref_revision ref = 0 \<and> ref_task_id ref = planning_task_id \<and> ref_attempt ref = 1 \<and>
         msg_id (dl_message dl) = expected \<and> dl_lease_message_id dl = expected \<and>
         msg_tenant_key (dl_message dl) = task_queue_tenant ident \<and> msg_subscriber (dl_message dl) = agent_task_subscriber)"

definition process_planning_delivery :: "run_cfg \<Rightarrow> planning_fate \<Rightarrow> delivery \<Rightarrow> unit fallible" where
  "process_planning_delivery cfg fate dl =
     (if \<not> valid_planning_delivery cfg dl then State_Monad.return (Inl ErrInvalid)
      else let ident = ref_identity (msg_payload (dl_message dl)) in
        bind_ok (read_call (get_run cfg ident)) (\<lambda>run.
          if 0 < plan_revision run \<or> terminal (run_status run) then
            bind_ok (ack (msg_id (dl_message dl))) (\<lambda>_.
              if terminal (run_status run) then State_Monad.return (Inr ())
              else bind_ok (recover_run cfg ident) (\<lambda>_. State_Monad.return (Inr ())))
          else do {
            now \<leftarrow> read_clock;
            if run_status run \<noteq> ''planning'' \<or> \<not> now < deadline_at run then State_Monad.return (Inl ErrConflict)
            else do {
              t \<leftarrow> read_call (get_task cfg ident 0 planning_task_id);
              if (case t of Inl _ \<Rightarrow> True | Inr task \<Rightarrow> attempt task \<noteq> 1) then State_Monad.return (Inl ErrConflict)
              else
                bind_ok (lease_call cfg ident run 0 planning_task_id dl) (\<lambda>(_, run).
                bind_ok (start_call cfg ident run 0 planning_task_id dl) (\<lambda>_. do {
                  (result, failed) \<leftarrow> build_planning_safely fate;
                  case pf_heartbeat_error fate of
                    Some e \<Rightarrow> State_Monad.return (Inl (RedisError e))
                  | None \<Rightarrow>
                      case pf_ctx_after fate of
                        Some c \<Rightarrow> State_Monad.return (Inl (RedisError (ctx_message c)))
                      | None \<Rightarrow>
                          if failed then fail_planning 5 cfg ident dl
                            (if pr_reason_code result = [] then ''planner.failed'' else pr_reason_code result)
                          else publish_plan 5 cfg ident dl result })) } }))"

subsection \<open>The workers are sound\<close>

lemma sound_let [sounds]: "sound cfg (f x) \<Longrightarrow> sound cfg (let y = x in f y)"
  by simp

lemma sound_executor [sounds]: "sound cfg (execute_with_receipt_guard fate ref key)"
  by (auto simp: sound_def execute_with_receipt_guard_def fair_world_def fair_clients_def Let_def)

lemma sound_planner [sounds]: "sound cfg (build_planning_safely fate)"
  by (auto simp: sound_def build_planning_safely_def fair_world_def fair_clients_def Let_def)

lemma sound_cas_retry [sounds]: "(\<And>run. sound cfg (step run)) \<Longrightarrow> sound cfg (cas_retry n cfg' ident step)"
proof (induction n)
  case (Suc n)
  then show ?case unfolding cas_retry.simps by (intro sounds) simp_all
qed (simp add: sounds)

lemma sound_calls [sounds]: "sound cfg (lease_call cfg ident run rv tid dl)" "sound cfg (start_call cfg ident run rv tid dl)"
  unfolding lease_call_def start_call_def by (intro sounds)+

lemma sound_run_claimed [sounds]: "claim_uuid fate \<noteq> [] \<Longrightarrow> sound cfg (run_claimed cfg fate ref dl)"
  unfolding run_claimed_def by (intro sounds)

lemma sound_record_outcome [sounds]: "0 < ref_revision ref \<Longrightarrow> sound cfg (record_outcome cfg ident ref dl result err run)"
  unfolding record_outcome_def by (intro sounds)

lemma sound_acknowledge [sounds]: "sound cfg (acknowledge_and_advance cfg ident dl)"
  unfolding acknowledge_and_advance_def by (intro sounds)

lemma sound_finish_delivery [sounds]: "0 < ref_revision ref \<Longrightarrow> sound cfg (finish_delivery n cfg ident ref dl result err)"
  by (induction n) (unfold finish_delivery.simps, intro sounds, intro sounds)

lemma sound_process_delivery [sounds]:
  assumes "claim_uuid fate \<noteq> []" shows "sound cfg (process_delivery cfg fate dl)"
proof (cases "valid_delivery cfg dl")
  case True
  then have "0 < ref_revision (msg_payload (dl_message dl))" by (simp add: valid_delivery_def Let_def)
  then show ?thesis unfolding process_delivery_def after_execution_def Let_def by (intro sounds assms)
qed (simp add: process_delivery_def sounds)

lemma sound_fail_planning [sounds]: "sound cfg (fail_planning n cfg ident dl reason)"
  by (induction n) (unfold fail_planning.simps, intro sounds, intro sounds)

lemma sound_publish_plan [sounds]: "sound cfg (publish_plan n cfg ident dl result)"
  by (induction n) (unfold publish_plan.simps, intro sounds, intro sounds)

lemma sound_process_planning [sounds]: "sound cfg (process_planning_delivery cfg fate dl)"
  unfolding process_planning_delivery_def Let_def by (intro sounds)

subsection \<open>What the calls of the store leave alone\<close>

text \<open>
  A part of the world that neither the store nor \<open>Enqueue\<close> touches, such as the executions
  started or the messages acknowledged: reconciling, dispatching and recovering leave it alone.
\<close>

locale observer =
  fixes look :: "agent_world \<Rightarrow> 'b"
  assumes look_store: "look (w\<lparr>w_slot := s, w_tick := n\<rparr>) = look w"
    and look_bus: "look (w\<lparr>w_tick := n, w_bus := b\<rparr>) = look w"
begin

definition blind :: "'a prog \<Rightarrow> bool" where
  "blind m \<longleftrightarrow> (\<forall>w. look (snd (run_state m w)) = look w)"

lemma blindD: "blind m \<Longrightarrow> run_state m w = (r, w') \<Longrightarrow> look w' = look w"
  unfolding blind_def by (metis snd_conv)

lemma look_tick: "look (w\<lparr>w_tick := n\<rparr>) = look w"
  using look_store [where w = w and s = "w_slot w" and n = n] by simp

lemma blind_return: "blind (State_Monad.return x)"
  by (simp add: blind_def)

lemma blind_bind: "blind m \<Longrightarrow> (\<And>x. blind (f x)) \<Longrightarrow> blind (m \<bind> f)"
  by (simp add: blind_def run_state_bind split: prod.split) (metis snd_conv)

lemma blind_bind_ok: "blind m \<Longrightarrow> (\<And>x. blind (f x)) \<Longrightarrow> blind (bind_ok m f)"
  unfolding bind_ok_def by (intro blind_bind) (auto simp: blind_return split: sum.split)

lemma blind_if: "blind m \<Longrightarrow> blind n \<Longrightarrow> blind (if b then m else n)"
  by simp

lemma blind_sum: "(\<And>e. blind (f e)) \<Longrightarrow> (\<And>x. blind (g x)) \<Longrightarrow> blind (case r of Inl e \<Rightarrow> f e | Inr x \<Rightarrow> g x)"
  by (cases r) simp_all

lemma blind_option: "blind m \<Longrightarrow> (\<And>x. blind (f x)) \<Longrightarrow> blind (case r of None \<Rightarrow> m | Some x \<Rightarrow> f x)"
  by (cases r) simp_all

lemma blind_turn: "blind m \<Longrightarrow> (\<And>r. blind (f r)) \<Longrightarrow> blind (case t of Again \<Rightarrow> m | Return r \<Rightarrow> f r)"
  by (cases t) simp_all

lemma blind_pair: "(\<And>a b. blind (f a b)) \<Longrightarrow> blind (case p of (a, b) \<Rightarrow> f a b)"
  by (cases p) simp

lemma blind_let: "blind (f x) \<Longrightarrow> blind (let y = x in f y)"
  by simp

lemma blind_store: "blind (store_call f)"
  by (simp add: blind_def store_call_def look_store split: prod.split)

lemma blind_read: "blind (read_call f)"
  unfolding read_call_def by (rule blind_store)

lemma blind_clock: "blind read_clock"
  by (simp add: blind_def read_clock_def Let_def look_store)

lemma blind_enqueue: "blind (enqueue m)"
  by (auto simp: blind_def enqueue_def bus_call_def Let_def look_tick look_bus split: option.split)

lemmas blinds = blind_return blind_bind blind_bind_ok blind_if blind_sum blind_option blind_turn blind_pair blind_let
  blind_store blind_read blind_clock blind_enqueue

lemma blind_expire_waiting: "blind (expire_waiting cfg ident run ts)"
  by (induction ts) (unfold expire_waiting.simps, intro blinds, intro blinds)

lemma blind_schedule_first: "blind (schedule_first cfg ident run tasks ts)"
  by (induction ts) (unfold schedule_first.simps, intro blinds, intro blinds)

lemma blind_turn_of: "blind (reconcile_turn cfg ident)"
  unfolding reconcile_turn_def advance_tasks_def or_else_def expire_first_def finish_turn_def
  by (intro blinds blind_expire_waiting blind_schedule_first)

lemma blind_loop: "blind (reconcile_loop n cfg ident)"
  by (induction n) (unfold reconcile_loop.simps, intro blinds, intro blinds blind_turn_of)

lemma blind_reconcile: "blind (reconcile_plan cfg ident)"
  unfolding reconcile_plan_def by (intro blinds blind_loop)

lemma blind_dispatch_entries: "blind (dispatch_entries ident es n)"
  by (induction es arbitrary: n) (unfold dispatch_entries.simps, intro blinds, intro blinds)

lemma blind_dispatch: "blind (dispatch_pending cfg ident limit)"
  unfolding dispatch_pending_def by (intro blinds blind_dispatch_entries)

lemma blind_recover: "blind (recover_run cfg ident)"
  unfolding recover_run_def dispatch_after_def by (intro blinds blind_reconcile blind_dispatch)

lemma blind_cas_retry:
  assumes "\<And>run. blind (step run)" shows "blind (cas_retry n cfg ident step)"
proof (induction n)
  case (Suc n)
  then show ?case unfolding cas_retry.simps by (intro blinds assms)
qed (simp add: blind_return)

lemma blind_calls: "blind (lease_call cfg ident run rv tid dl)" "blind (start_call cfg ident run rv tid dl)"
  "blind (record_outcome cfg ident ref dl result err run)"
  unfolding lease_call_def start_call_def record_outcome_def by (intro blinds)+

end

interpretation executions: observer w_executed
  by unfold_locales simp_all

interpretation acknowledgements: observer w_acked
  by unfold_locales simp_all

text \<open>An acknowledgement starts no execution.\<close>

lemma ack_executes_nothing: "executions.blind (ack m)"
  by (auto simp: executions.blind_def ack_def bus_call_def Let_def split: option.split)

lemma finish_executes_nothing: "executions.blind (finish_delivery n cfg ident ref dl result err)"
proof (induction n)
  case (Suc n)
  then show ?case unfolding finish_delivery.simps acknowledge_and_advance_def
    by (intro executions.blinds executions.blind_calls executions.blind_reconcile executions.blind_dispatch ack_executes_nothing)
qed (simp add: executions.blind_return)

subsection \<open>One execution\<close>

lemma claim_commits:
  assumes fair: "fair_world cfg w" and claim: "claim \<noteq> []" and tok: "tok \<noteq> []"
    and call: "run_state (store_call (execution_receipt cfg claim ref owner fc [] None)) w = (Inr (tok, receipt), w')"
  shows "\<exists>u now. run_steps cfg (w_slot w) u \<and>
    commits (execution_receipt_tx cfg claim ref owner fc [] None) now u (tok, receipt) (w_slot w')"
proof -
  let ?tx = "execution_receipt_tx cfg claim ref owner fc [] None"
  obtain s where s: "execution_receipt cfg claim ref owner fc [] None (conn (w_env w) (w_tick w)) (w_slot w) = (Inr (tok, receipt), s)"
    "w_slot w' = s"
    using call by (auto simp: run_store_call)
  have "\<forall>now u r u'. commits ?tx now u r u' \<longrightarrow> run_step cfg u u'" using claim by (blast intro: run_step.Receipt)
  from run_tx_steps [OF receipt_otx.optimistic_tx_axioms _ s(1) [unfolded execution_receipt_def] this] fair
  obtain u k where u: "run_steps cfg (w_slot w) u"
    "commits ?tx (at_clock (conn (w_env w) (w_tick w) k)) u (tok, receipt) s \<or>
     snd ?tx (at_clock (conn (w_env w) (w_tick w) k)) u = Inr (None, tok, receipt)"
    by (auto simp: fair_world_def)
  have "snd ?tx now u \<noteq> Inr (None, tok, receipt)" for now
    using tok by (auto simp: execution_receipt_tx_def receipt_mut_def bind_res_Inr_iff Let_def split: option.splits if_splits)
  then show ?thesis using u s(2) by blast
qed

text \<open>
  The claim that took a run from \<open>u\<close> to \<open>v\<close> is the only one its task ever sees: none came before
  it in any history of the store, none comes after.
\<close>

definition sole_claim :: "run_cfg \<Rightarrow> task_ref \<Rightarrow> run_slot \<Rightarrow> run_slot \<Rightarrow> bool" where
  "sole_claim cfg ref u v \<longleftrightarrow>
     (\<exists>claim owner fc now r. claim \<noteq> [] \<and> commits (execution_receipt_tx cfg claim ref owner fc [] None) now u r v) \<and>
     (\<forall>claim ref' owner fc now r s s'. claim \<noteq> [] \<longrightarrow> ref_revision ref' = ref_revision ref \<longrightarrow> ref_task_id ref' = ref_task_id ref \<longrightarrow>
        commits (execution_receipt_tx cfg claim ref' owner fc [] None) now s r s' \<longrightarrow>
        \<not> (reachable_run cfg s \<and> run_steps cfg s' u) \<and> \<not> run_steps cfg v s)"

lemma claim_is_sole:
  assumes "reachable_run cfg u" "claim \<noteq> []" "commits (execution_receipt_tx cfg claim ref owner fc [] None) now u (tok, receipt) v"
  shows "sole_claim cfg ref u v"
  unfolding sole_claim_def
proof (intro allI impI conjI notI)
  show "\<exists>claim owner fc now r. claim \<noteq> [] \<and> commits (execution_receipt_tx cfg claim ref owner fc [] None) now u r v"
    using assms(2,3) by blast
next
  fix claim' ref' owner' fc' now' r s s'
  assume claim': "claim' \<noteq> []" and same: "ref_revision ref' = ref_revision ref" "ref_task_id ref' = ref_task_id ref"
    and c: "commits (execution_receipt_tx cfg claim' ref' owner' fc' [] None) now' s r s'"
  obtain a b where r: "r = (a, b)" by (cases r)
  show False if "reachable_run cfg s \<and> run_steps cfg s' u"
    using claimed_once [OF _ c [unfolded r] claim', of u ref] that same assms(3) by auto
  show False if "run_steps cfg v s"
    using claimed_once [OF assms(1,3,2) that same] c by blast
qed

lemma run_claimed_once:
  assumes fair: "fair_world cfg w" and claim: "claim_uuid fate \<noteq> []"
    and run: "run_state (run_claimed cfg fate ref dl) w = (out, w')"
  shows "w_executed w' = w_executed w \<or> ((\<exists>key. w_executed w' = w_executed w @ [(ref, key)]) \<and>
    (\<exists>u v now tok receipt. run_steps cfg (w_slot w) u \<and> run_steps cfg v (w_slot w') \<and>
       commits (execution_receipt_tx cfg (claim_uuid fate) ref (dl_owner dl) (dl_token dl) [] None) now u (tok, receipt) v))"
proof (cases "ctx_before fate")
  case (Some c)
  then show ?thesis using run by (simp add: run_claimed_def)
next
  case None
  let ?call = "store_call (execution_receipt cfg (claim_uuid fate) ref (dl_owner dl) (dl_token dl) [] None)"
  let ?key = "''agent:'' @ ref_run_id ref @ '':'' @ itoa_nat (ref_revision ref) @ '':'' @ ref_task_id ref"
  obtain r w1 where c: "run_state ?call w = (r, w1)" by fastforce
  have ex1: "w_executed w1 = w_executed w" by (rule executions.blindD [OF executions.blind_store c])
  have step1: "fair_world cfg w1" "run_steps cfg (w_slot w) (w_slot w1)"
    using soundD [OF sound_store_call [OF sound_receipt [OF claim]] fair c] by auto
  consider (no) "out = (fst out, snd out)" "w' = w1" | (yes) tok receipt where "r = Inr (tok, receipt)" "tok \<noteq> []"
    using run c None by (cases r) (auto simp: run_claimed_def run_state_bind split: if_splits)
  then show ?thesis
  proof cases
    case no
    then show ?thesis using ex1 by simp
  next
    case yes
    obtain out2 w2 where e: "run_state (execute_with_receipt_guard fate ref ?key) w1 = (out2, w2)" by fastforce
    have ex2: "w_executed w2 = w_executed w @ [(ref, ?key)]"
      using e ex1 by (auto simp: execute_with_receipt_guard_def Let_def)
    have step2: "fair_world cfg w2" "run_steps cfg (w_slot w1) (w_slot w2)" using soundD [OF sound_executor step1(1) e] by auto
    obtain result err where out2: "out2 = (result, err)" by (cases out2)
    have last: "w_executed w' = w_executed w2 \<and> run_steps cfg (w_slot w2) (w_slot w')"
    proof (cases err)
      case (Some x)
      then show ?thesis using run c None yes e out2 by (auto simp: run_claimed_def run_state_bind)
    next
      case no_err: None
      let ?store = "store_call (execution_receipt cfg (claim_uuid fate) ref (dl_owner dl) (dl_token dl) tok (Some result))"
      obtain t w3 where st: "run_state ?store w2 = (t, w3)" by fastforce
      have "w' = w3" using run c None yes e out2 no_err st by (auto simp: run_claimed_def run_state_bind)
      then show ?thesis
        using executions.blindD [OF executions.blind_store st] soundD [OF sound_store_call [OF sound_receipt [OF claim]] step2(1) st] by simp
    qed
    obtain u now where "run_steps cfg (w_slot w) u"
      "commits (execution_receipt_tx cfg (claim_uuid fate) ref (dl_owner dl) (dl_token dl) [] None) now u (tok, receipt) (w_slot w1)"
      using claim_commits [OF fair claim yes(2) c [unfolded yes(1)]] by blast
    moreover have "run_steps cfg (w_slot w1) (w_slot w')" using step2(2) last by (auto intro: rtranclp_trans)
    ultimately show ?thesis using last ex2 by metis
  qed
qed

lemma bind_ok_Inr: "run_state m w = (Inr x, v) \<Longrightarrow> run_state (bind_ok m f) w = run_state (f x) v"
  by (simp add: bind_ok_def run_state_bind)

lemma bind_ok_Inl: "run_state m w = (Inl e, v) \<Longrightarrow> run_state (bind_ok m f) w = (Inl e, v)"
  by (simp add: bind_ok_def run_state_bind)

text \<open>
  How far a delivery gets: to nothing, to the acknowledgement of a task found ended, or through
  lease and start to the execution and what follows it.
\<close>

definition dl_field :: "delivery \<Rightarrow> string" where
  "dl_field dl = task_field (ref_revision (msg_payload (dl_message dl))) (ref_task_id (msg_payload (dl_message dl)))"

definition untouched :: "run_cfg \<Rightarrow> agent_world \<Rightarrow> agent_world \<Rightarrow> bool" where
  "untouched cfg w v \<longleftrightarrow> fair_world cfg v \<and> run_steps cfg (w_slot w) (w_slot v) \<and>
     w_executed v = w_executed w \<and> w_acked v = w_acked w"

lemma untouchedI:
  assumes "untouched cfg w u" "sound cfg m" "executions.blind m" "acknowledgements.blind m" "run_state m u = (x, v)"
  shows "untouched cfg w v"
  using assms soundD [OF assms(2) _ assms(5)] executions.blindD [OF assms(3,5)] acknowledgements.blindD [OF assms(4,5)]
  by (auto simp: untouched_def intro: rtranclp_trans)

lemma process_delivery_reaches:
  assumes fair: "fair_world cfg w" and run: "run_state (process_delivery cfg fate dl) w = (r, w')"
  shows "(w_executed w' = w_executed w \<and> w_acked w' = w_acked w) \<or>
    (\<exists>u t. untouched cfg w u \<and> task_at (w_slot u) (dl_field dl) = Some t \<and> task_ended (task_status t) \<and>
       run_state (ack (msg_id (dl_message dl))) u = (r, w')) \<or>
    (0 < ref_revision (msg_payload (dl_message dl)) \<and> (\<exists>u v out. untouched cfg w u \<and>
       run_state (run_claimed cfg fate (msg_payload (dl_message dl)) dl) u = (out, v) \<and>
       run_state (after_execution cfg fate dl out) v = (r, w')))"
proof (cases "valid_delivery cfg dl")
  case False
  then show ?thesis using run by (simp add: process_delivery_def)
next
  case valid: True
  let ?ref = "msg_payload (dl_message dl)" and ?ident = "ref_identity (msg_payload (dl_message dl))"
  let ?get = "read_call (get_run cfg ?ident)" and ?task = "read_call (get_task cfg ?ident (ref_revision ?ref) (ref_task_id ?ref))"
  let ?lease = "cas_retry 10 cfg ?ident (\<lambda>run. lease_call cfg ?ident run (ref_revision ?ref) (ref_task_id ?ref) dl)"
  let ?start = "cas_retry 10 cfg ?ident (\<lambda>run. start_call cfg ?ident run (ref_revision ?ref) (ref_task_id ?ref) dl)"
  let ?after = "\<lambda>_::task_snapshot \<times> snapshot. do { out \<leftarrow> run_claimed cfg fate ?ref dl; after_execution cfg fate dl out }"
  let ?body = "\<lambda>task. if attempt task \<noteq> ref_attempt ?ref then State_Monad.return (Inl ErrConflict)
      else if task_status task = ''completed'' \<or> task_status task = ''failed'' \<or> task_status task = ''cancelled''
      then ack (msg_id (dl_message dl)) else bind_ok ?lease (\<lambda>_. bind_ok ?start ?after)"
  have run1: "run_state (bind_ok ?get (\<lambda>_. bind_ok ?task ?body)) w = (r, w')"
    using run valid by (simp add: process_delivery_def Let_def)
  have u0: "untouched cfg w w" using fair by (simp add: untouched_def)
  have stop: ?thesis if "untouched cfg w w'" using that by (simp add: untouched_def)
  obtain x1 w1 where g1: "run_state ?get w = (x1, w1)" by fastforce
  have u1: "untouched cfg w w1"
    by (rule untouchedI [OF u0 sound_read executions.blind_read acknowledgements.blind_read g1])
  obtain x2 w2 where g2: "run_state ?task w1 = (x2, w2)" by fastforce
  have u2: "untouched cfg w w2"
    by (rule untouchedI [OF u1 sound_read executions.blind_read acknowledgements.blind_read g2])
  obtain x3 w3 where g3: "run_state ?lease w2 = (x3, w3)" by fastforce
  have u3: "untouched cfg w w3"
    by (rule untouchedI [OF u2 sound_cas_retry executions.blind_cas_retry acknowledgements.blind_cas_retry g3])
      (rule sound_calls executions.blind_calls acknowledgements.blind_calls)+
  obtain x4 w4 where g4: "run_state ?start w3 = (x4, w4)" by fastforce
  have u4: "untouched cfg w w4"
    by (rule untouchedI [OF u3 sound_cas_retry executions.blind_cas_retry acknowledgements.blind_cas_retry g4])
      (rule sound_calls executions.blind_calls acknowledgements.blind_calls)+
  show ?thesis
  proof (cases x1)
    case (Inl e)
    have "w' = w1" using run1 unfolding bind_ok_Inl [OF g1 [unfolded Inl]] by simp
    then show ?thesis using stop u1 by blast
  next
    case x1: (Inr run0)
    have run2: "run_state (bind_ok ?task ?body) w1 = (r, w')" using run1 unfolding bind_ok_Inr [OF g1 [unfolded x1]] .
    show ?thesis
    proof (cases x2)
      case (Inl e)
      have "w' = w2" using run2 unfolding bind_ok_Inl [OF g2 [unfolded Inl]] by simp
    then show ?thesis using stop u2 by blast
    next
      case x2: (Inr task)
      have run3: "run_state (?body task) w2 = (r, w')" using run2 unfolding bind_ok_Inr [OF g2 [unfolded x2]] .
      have row: "task_at (w_slot w2) (dl_field dl) = Some task"
        using run_read [OF g2 [unfolded x2]] by (auto simp: get_task_def dl_field_def bind_res_Inr_iff split: if_splits option.splits)
      consider "attempt task \<noteq> ref_attempt ?ref"
        | (ended) "attempt task = ref_attempt ?ref" "task_status task = ''completed'' \<or> task_status task = ''failed'' \<or> task_status task = ''cancelled''"
        | (go) "attempt task = ref_attempt ?ref" "\<not> (task_status task = ''completed'' \<or> task_status task = ''failed'' \<or> task_status task = ''cancelled'')"
        by blast
      then show ?thesis
      proof cases
        case 1
        then have "w' = w2" using run3 by simp
        then show ?thesis using stop u2 by blast
      next
        case ended
        then have "run_state (ack (msg_id (dl_message dl))) w2 = (r, w')" using run3 by simp
        moreover have "task_ended (task_status task)" using ended(2) by (auto simp: task_ended_def)
        ultimately show ?thesis using u2 row by blast
      next
        case go
        then have run4: "run_state (bind_ok ?lease (\<lambda>_. bind_ok ?start ?after)) w2 = (r, w')" using run3 by simp
        show ?thesis
        proof (cases x3)
          case (Inl e)
          have "w' = w3" using run4 unfolding bind_ok_Inl [OF g3 [unfolded Inl]] by simp
    then show ?thesis using stop u3 by blast
        next
          case x3: (Inr p3)
          have run5: "run_state (bind_ok ?start ?after) w3 = (r, w')" using run4 unfolding bind_ok_Inr [OF g3 [unfolded x3]] .
          show ?thesis
          proof (cases x4)
            case (Inl e)
            have "w' = w4" using run5 unfolding bind_ok_Inl [OF g4 [unfolded Inl]] by simp
    then show ?thesis using stop u4 by blast
          next
            case x4: (Inr p4)
            have run6: "run_state (?after p4) w4 = (r, w')" using run5 unfolding bind_ok_Inr [OF g4 [unfolded x4]] .
            obtain out w5 where g5: "run_state (run_claimed cfg fate ?ref dl) w4 = (out, w5)" by fastforce
            have "run_state (after_execution cfg fate dl out) w5 = (r, w')" using run6 by (simp add: run_state_bind g5)
            moreover have "0 < ref_revision ?ref" using valid by (simp add: valid_delivery_def Let_def)
            ultimately show ?thesis using u4 g5 by blast
          qed
        qed
      qed
    qed
  qed
qed

lemma after_executes_nothing: "executions.blind (after_execution cfg fate dl out)"
  unfolding after_execution_def by (intro executions.blinds finish_executes_nothing)

lemma sound_after [sounds]: "0 < ref_revision (msg_payload (dl_message dl)) \<Longrightarrow> sound cfg (after_execution cfg fate dl out)"
  unfolding after_execution_def by (intro sounds)

text \<open>C13: The executor runs at most once per task, whatever workers, deliveries and reclaimed leases
  there are: a delivery that starts an execution starts one, after a claim that is the only claim the
  task ever sees, in the whole history of the store before it and after it, by any worker under any
  fence.\<close>

theorem executor_runs_at_most_once:
  assumes "fair_world cfg w" "reachable_run cfg (w_slot w)" "claim_uuid fate \<noteq> []"
    and "run_state (process_delivery cfg fate dl) w = (r, w')" "w_executed w' \<noteq> w_executed w"
  shows "(\<exists>key. w_executed w' = w_executed w @ [(msg_payload (dl_message dl), key)]) \<and>
    (\<exists>u v. run_steps cfg (w_slot w) u \<and> run_steps cfg v (w_slot w') \<and> sole_claim cfg (msg_payload (dl_message dl)) u v)"
proof -
  let ?ref = "msg_payload (dl_message dl)"
  from process_delivery_reaches [OF assms(1,4)] assms(5) obtain a b out where rv: "0 < ref_revision ?ref"
    and a: "untouched cfg w a" and exec: "run_state (run_claimed cfg fate ?ref dl) a = (out, b)"
    and rest: "run_state (after_execution cfg fate dl out) b = (r, w')"
    using executions.blindD [OF ack_executes_nothing] by (auto simp: untouched_def)
  have fair_a: "fair_world cfg a" "run_steps cfg (w_slot w) (w_slot a)" "w_executed a = w_executed w"
    using a by (simp_all add: untouched_def)
  have fair_b: "fair_world cfg b" using soundD [OF sound_run_claimed [OF assms(3)] fair_a(1) exec] by simp
  have same: "w_executed w' = w_executed b" by (rule executions.blindD [OF after_executes_nothing rest])
  have steps: "run_steps cfg (w_slot b) (w_slot w')" using soundD [OF sound_after [OF rv] fair_b rest] by simp
  from run_claimed_once [OF fair_a(1) assms(3) exec] same fair_a(3) assms(5)
  obtain key u v now tok receipt where key: "w_executed b = w_executed a @ [(?ref, key)]"
    and u: "run_steps cfg (w_slot a) u" "run_steps cfg v (w_slot b)"
    and c: "commits (execution_receipt_tx cfg (claim_uuid fate) ?ref (dl_owner dl) (dl_token dl) [] None) now u (tok, receipt) v"
    by auto
  have wu: "run_steps cfg (w_slot w) u" using fair_a(2) u(1) by (rule rtranclp_trans)
  then have "reachable_run cfg u" using assms(2) by (simp add: reachable_run_def)
  then have "sole_claim cfg ?ref u v" by (rule claim_is_sole [OF _ assms(3) c])
  moreover have "run_steps cfg v (w_slot w')" using u(2) steps by (rule rtranclp_trans)
  ultimately show ?thesis using key same fair_a(3) wu by auto
qed

text \<open>A delivery on which all that could go wrong after the claim does.\<close>

definition demo_delivery :: delivery where
  "demo_delivery = \<lparr>dl_message = \<lparr>msg_id = message_name demo_ref, msg_tenant_key = task_queue_tenant (ref_identity demo_ref),
       msg_subscriber = agent_task_subscriber, msg_topic = ''agent.run.task'', msg_payload = demo_ref, msg_run_id = ''r-1''\<rparr>,
     dl_lease_message_id = message_name demo_ref, dl_owner = ''w1'', dl_token = 7, dl_expires_at = 1000\<rparr>"

definition demo_fate :: fate where
  "demo_fate = \<lparr>claim_uuid = ''tok'', ctx_before = None, ctx_after = None, heartbeat_error = Some ''lost'',
     executor_outcome = None\<rparr>"

definition worker_world :: "run_slot \<Rightarrow> agent_world" where
  "worker_world s = \<lparr>w_slot = s, w_bus = [], w_acked = [], w_executed = [], w_tick = 0,
     w_env = \<lparr>conn = (\<lambda>k _. quiet (if k \<le> 4 then 40 else if k \<le> 6 then 50 else 55)), bus = (\<lambda>_. None)\<rparr>\<rparr>"

lemma worker_world_alone: "alone (worker_world s)" "fair_world cfg (worker_world s)" "w_slot (worker_world s) = s"
  "w_executed (worker_world s) = []" "w_acked (worker_world s) = []"
  by (auto simp: alone_def worker_world_def quiet_def fair_world_def fair_clients_def)

lemma tx_commits_alone:
  "alone w \<Longrightarrow> 0 < n \<Longrightarrow> commits t (time_at w) (w_slot w) r s' \<Longrightarrow>
     run_state (store_call (run_tx n watched t)) w = (Inr r, (later w)\<lparr>w_slot := s'\<rparr>)"
  by (auto simp: tx_alone commits_def)

lemma cas_retry_alone:
  "0 < n \<Longrightarrow> alone w \<Longrightarrow> get_run cfg ident (w_slot w) = Inr run \<Longrightarrow> run_state (step run) (later w) = (Inr x, w') \<Longrightarrow>
     run_state (cas_retry n cfg ident step) w = (Inr x, w')"
  by (cases n) (simp_all add: bind_ok_def run_state_bind read_alone)

lemma mutate_identity:
  "valid_scope cfg i \<Longrightarrow> valid_scope cfg j \<Longrightarrow> commits (mutate_tx cfg i ev rv tid ety mut) = commits (mutate_tx cfg j ev rv tid ety mut)"
  by (simp add: fun_eq_iff mutate_commits)

lemma demo_executes:
  "\<exists>w'. run_state (process_delivery sample_cfg demo_fate demo_delivery) (worker_world demo_queued) = (Inl (RedisError ''lost''), w') \<and>
     w_executed w' \<noteq> []"
proof -
  let ?i = "ref_identity demo_ref"
  define w0 where "w0 = worker_world demo_queued"
  define w2 where "w2 = later (later w0)"
  define w5 where "w5 = (later (later (later w2)))\<lparr>w_slot := demo_leased\<rparr>"
  define w7 where "w7 = (later (later w5))\<lparr>w_slot := demo_started\<rparr>"
  define w8 where "w8 = (later w7)\<lparr>w_slot := demo_claimed\<rparr>"
  have al: "alone w0" "alone w2" "alone w5" "alone w7"
    by (simp_all add: w0_def w2_def w5_def w7_def worker_world_alone)
  have slot: "w_slot w0 = demo_queued" "w_slot w2 = demo_queued" "w_slot w5 = demo_leased" "w_slot w7 = demo_started"
    "w_slot (later w0) = demo_queued" "w_slot (later w2) = demo_queued" "w_slot (later (later w2)) = demo_queued" "w_slot (later w5) = demo_leased"
    by (simp_all add: w0_def w2_def w5_def w7_def worker_world_alone)
  have times: "time_at (later w2) = 40" "time_at (later (later w2)) = 40" "time_at (later w5) = 50" "time_at w7 = 55"
    by (simp_all add: time_at_def w2_def w5_def w7_def w0_def worker_world_def quiet_def)
  have scope: "valid_scope sample_cfg ?i" by (rule demo_scope)
  have runs: "get_run sample_cfg ?i demo_queued = Inr (demo_cur 3 1 ''running'' 30)"
    "get_run sample_cfg ?i demo_leased = Inr (demo_cur 4 1 ''running'' 40)"
    by (simp_all add: get_run_def scope demo_queued_def demo_leased_def demo_slot_def)
  have task: "get_task sample_cfg ?i 1 ''a'' demo_queued = Inr task_queued"
    using runs scope by (simp add: get_task_def demo_checks demo_queued_def demo_slot_def)
  have lease: "run_state (lease_call sample_cfg ?i (demo_cur 3 1 ''running'' 30) 1 ''a'' demo_delivery) (later w2) =
      (Inr (task_leased, demo_cur 4 1 ''running'' 40), w5)"
  proof -
    have "commits (lease_task_tx sample_cfg 40 ?i 3 1 ''a'' ''w1'' 7 1000) 40 demo_queued (task_leased, demo_cur 4 1 ''running'' 40) demo_leased"
      using demo_step4 mutate_identity [OF demo_scope(1) scope] unfolding lease_task_tx_def require_commits by metis
    then have "commits (lease_task_tx sample_cfg 40 ?i 3 1 ''a'' ''w1'' 7 1000) (time_at (later (later w2))) (w_slot (later (later w2)))
        (task_leased, demo_cur 4 1 ''running'' 40) demo_leased" by (simp only: times slot)
    from tx_commits_alone [OF _ _ this, of 5 watch_tasks] al
    show ?thesis by (simp add: lease_call_def run_state_bind clock_alone times lease_task_def demo_delivery_def w5_def)
  qed
  have start: "run_state (start_call sample_cfg ?i (demo_cur 4 1 ''running'' 40) 1 ''a'' demo_delivery) (later w5) =
      (Inr (task_started, demo_cur 5 1 ''running'' 50), w7)"
  proof -
    have "commits (start_task_tx sample_cfg ?i 4 1 ''a'' ''w1'' 7) 50 demo_leased (task_started, demo_cur 5 1 ''running'' 50) demo_started"
      using demo_step5 mutate_identity [OF demo_scope(1) scope] unfolding start_task_tx_def by metis
    then have "commits (start_task_tx sample_cfg ?i 4 1 ''a'' ''w1'' 7) (time_at (later w5)) (w_slot (later w5))
        (task_started, demo_cur 5 1 ''running'' 50) demo_started" by (simp only: times slot)
    from tx_commits_alone [OF _ _ this, of 5 watch_tasks] al
    show ?thesis by (simp add: start_call_def start_task_def demo_delivery_def w7_def)
  qed
  have claim: "run_state (store_call (execution_receipt sample_cfg ''tok'' demo_ref ''w1'' 7 [] None)) w7 = (Inr (''tok'', no_result), w8)"
    using tx_commits_alone [of w7 10 "execution_receipt_tx sample_cfg ''tok'' demo_ref ''w1'' 7 [] None" "(''tok'', no_result)" demo_claimed watch_tasks]
      demo_step6 al by (simp add: execution_receipt_def times slot w8_def)
  have cas1: "run_state (cas_retry 10 sample_cfg ?i (\<lambda>run. lease_call sample_cfg ?i run 1 ''a'' demo_delivery)) w2 =
      (Inr (task_leased, demo_cur 4 1 ''running'' 40), w5)"
    by (rule cas_retry_alone [where run = "demo_cur 3 1 ''running'' 30"]) (simp_all add: slot runs al lease [simplified])
  have cas2: "run_state (cas_retry 10 sample_cfg ?i (\<lambda>run. start_call sample_cfg ?i run 1 ''a'' demo_delivery)) w5 =
      (Inr (task_started, demo_cur 5 1 ''running'' 50), w7)"
    by (rule cas_retry_alone [where run = "demo_cur 4 1 ''running'' 40"]) (simp_all add: slot runs al start [simplified])
  have ref: "msg_payload (dl_message demo_delivery) = demo_ref" "ref_revision demo_ref = 1" "ref_task_id demo_ref = ''a''"
    "ref_attempt demo_ref = 1" "dl_owner demo_delivery = ''w1''" "dl_token demo_delivery = 7"
    by (simp_all add: demo_delivery_def demo_ref_def)
  have valid: "valid_delivery sample_cfg demo_delivery"
    by (simp add: valid_delivery_def Let_def scope ref demo_checks) (simp add: demo_delivery_def)
  have fate: "claim_uuid demo_fate = ''tok''" "ctx_before demo_fate = None" "heartbeat_error demo_fate = Some ''lost''"
    "executor_outcome demo_fate = None" by (simp_all add: demo_fate_def)
  have queued: "attempt task_queued = 1" "task_status task_queued = ''queued''" by (simp_all add: demo_task_defs)
  show ?thesis
    using valid al(1) runs(1) task cas1 cas2 claim
    unfolding w0_def [symmetric]
    by (simp add: process_delivery_def Let_def ref bind_ok_def run_state_bind read_alone slot w2_def [symmetric] queued
      run_claimed_def fate execute_with_receipt_guard_def after_execution_def)
qed

theorem executor_runs_at_most_once_witness:
  "\<exists>u v. sole_claim sample_cfg demo_ref u v"
proof -
  obtain r w' where run: "run_state (process_delivery sample_cfg demo_fate demo_delivery) (worker_world demo_queued) = (r, w')"
    and more: "w_executed w' \<noteq> w_executed (worker_world demo_queued)"
    using demo_executes worker_world_alone(4) by metis
  have reach: "reachable_run sample_cfg (w_slot (worker_world demo_queued))" by (simp add: worker_world_alone demo_reachable)
  have claim: "claim_uuid demo_fate \<noteq> []" by (simp add: demo_fate_def)
  from executor_runs_at_most_once [OF worker_world_alone(2) reach claim run more]
  show ?thesis by (auto simp: demo_delivery_def)
qed

subsection \<open>Acknowledging\<close>

lemma ack_effect:
  "run_state (ack m) w = (r, w') \<Longrightarrow> w_slot w' = w_slot w \<and> (w_acked w' = w_acked w \<or> w_acked w' = w_acked w @ [m])"
  by (auto simp: ack_def bus_call_def Let_def split: option.splits if_splits)

lemma blind_after_ack:
  "acknowledgements.blind (bind_ok (reconcile_plan cfg ident) (\<lambda>advanced.
       if terminal (run_status advanced) then State_Monad.return (Inr ())
       else do {
         (n, err) \<leftarrow> dispatch_pending cfg ident 1000;
         State_Monad.return (case err of None \<Rightarrow> Inr () | Some e \<Rightarrow> Inl e) }))"
  by (intro acknowledgements.blinds acknowledgements.blind_reconcile acknowledgements.blind_dispatch)

lemma acknowledge_effect:
  assumes "run_state (acknowledge_and_advance cfg ident dl) w = (r, w')"
  shows "w_acked w' = w_acked w \<or> w_acked w' = w_acked w @ [msg_id (dl_message dl)]"
proof -
  obtain x v where a: "run_state (ack (msg_id (dl_message dl))) w = (x, v)" by fastforce
  note e = ack_effect [OF a]
  show ?thesis
  proof (cases x)
    case (Inl y)
    have "w' = v" using assms unfolding acknowledge_and_advance_def bind_ok_Inl [OF a [unfolded Inl]] by simp
    then show ?thesis using e by simp
  next
    case (Inr y)
    have "w_acked w' = w_acked v"
      by (rule acknowledgements.blindD [OF blind_after_ack])
        (use assms in \<open>unfold acknowledge_and_advance_def bind_ok_Inr [OF a [unfolded Inr]]\<close>, assumption)
    then show ?thesis using e by simp
  qed
qed

text \<open>An outcome that was recorded ends the task.\<close>

lemma mutation_ends:
  assumes "commits (mutate_tx cfg ident ev rv tid ety mut) now u x s" "\<And>t t'. mut t now = Inr t' \<Longrightarrow> task_ended (task_status t')"
  shows "\<exists>t. task_at s (task_field rv tid) = Some t \<and> task_ended (task_status t)"
  using assms by (auto simp: mutate_commits AList.update_conv')

lemma outcome_ends:
  assumes fair: "fair_world cfg w" and rv: "0 < ref_revision ref"
    and run: "run_state (record_outcome cfg ident ref dl result err rn) w = (Inr x, w')"
  shows "\<exists>t. task_at (w_slot w') (task_field (ref_revision ref) (ref_task_id ref)) = Some t \<and> task_ended (task_status t)"
proof -
  let ?f = "task_field (ref_revision ref) (ref_task_id ref)"
  have call: "\<exists>u now. commits tx now u x (w_slot w')"
    if tx_run: "run_state (store_call (run_tx 5 watch_tasks tx)) w = (Inr x, w')" and otx: "optimistic_tx watch_tasks (snd tx)"
      and step: "\<forall>now u r u'. commits tx now u r u' \<longrightarrow> run_step cfg u u'" and w: "\<And>now u. snd tx now u \<noteq> Inr (None, x)" for tx
  proof -
    obtain s where "run_tx 5 watch_tasks tx (conn (w_env w) (w_tick w)) (w_slot w) = (Inr x, s)" "w_slot w' = s"
      using tx_run by (auto simp: run_store_call)
    from run_tx_steps [OF otx _ this(1) step] fair this(2) w show ?thesis by (fastforce simp: fair_world_def)
  qed
  show ?thesis
  proof (cases err)
    case None
    let ?tx = "complete_task_tx cfg ident (version rn) (ref_revision ref) (ref_task_id ref) (dl_owner dl) (dl_token dl)
        (res_result_ref result) (res_evidence_ref result)"
    have "run_state (store_call (run_tx 5 watch_tasks ?tx)) w = (Inr x, w')"
      using run None by (simp add: record_outcome_def complete_task_def)
    moreover have "optimistic_tx watch_tasks (snd ?tx)" by (rule mutation_otx)
    moreover have "\<forall>now u r u'. commits ?tx now u r u' \<longrightarrow> run_step cfg u u'" using rv by (blast intro: run_step.Complete)
    moreover have "snd ?tx now u \<noteq> Inr (None, x)" for now u unfolding complete_task_tx_def require_simps by (rule mutation_writes)
    ultimately obtain u now where "commits ?tx now u x (w_slot w')" using call by blast
    then show ?thesis unfolding complete_task_tx_def require_commits
      by (elim conjE) (erule mutation_ends, auto simp: complete_mut_def task_ended_simps split: if_splits)
  next
    case (Some e)
    obtain reason stage where rs: "failure_reason result err = (reason, stage)" by fastforce
    let ?tx = "fail_task_tx cfg ident (version rn) (ref_revision ref) (ref_task_id ref) (dl_owner dl) (dl_token dl) reason [stage]"
    have "run_state (store_call (run_tx 5 watch_tasks ?tx)) w = (Inr x, w')"
      using run Some rs by (simp add: record_outcome_def fail_task_def)
    moreover have "optimistic_tx watch_tasks (snd ?tx)"
      unfolding fail_task_tx_def Let_def require_simps by (rule mutate_otx.optimistic_tx_axioms)
    moreover have "\<forall>now u r u'. commits ?tx now u r u' \<longrightarrow> run_step cfg u u'" by (blast intro: run_step.Fail)
    moreover have "snd ?tx now u \<noteq> Inr (None, x)" for now u
      unfolding fail_task_tx_def Let_def require_simps by (rule mutation_writes)
    ultimately obtain u now where "commits ?tx now u x (w_slot w')" using call by blast
    then show ?thesis unfolding fail_task_tx_def Let_def require_commits
      by (elim conjE) (erule mutation_ends, auto simp: fail_mut_def task_ended_simps split: if_splits)
  qed
qed

lemma finish_acks:
  assumes "fair_world cfg w" "0 < ref_revision ref"
    "run_state (finish_delivery n cfg ident ref dl result err) w = (r, w')" "w_acked w' \<noteq> w_acked w"
  shows "w_acked w' = w_acked w @ [msg_id (dl_message dl)] \<and> (\<exists>u t. run_steps cfg (w_slot w) u \<and> run_steps cfg u (w_slot w') \<and>
    task_at u (task_field (ref_revision ref) (ref_task_id ref)) = Some t \<and> task_ended (task_status t))"
  using assms
proof (induction n arbitrary: w)
  case (Suc n)
  let ?get = "read_call (get_run cfg ident)" and ?out = "record_outcome cfg ident ref dl result err"
  let ?task = "read_call (get_task cfg ident (ref_revision ref) (ref_task_id ref))"
  obtain x w1 where g: "run_state ?get w = (x, w1)" by fastforce
  have s1: "fair_world cfg w1" "run_steps cfg (w_slot w) (w_slot w1)" "w_acked w1 = w_acked w"
    using soundD [OF sound_read Suc.prems(1) g] acknowledgements.blindD [OF acknowledgements.blind_read g] by auto
  obtain rn where x: "x = Inr rn"
    using Suc.prems(3,4) s1(3) g by (cases x) (auto simp: bind_ok_Inl)
  obtain y w2 where o: "run_state (?out rn) w1 = (y, w2)" by fastforce
  have s2: "fair_world cfg w2" "run_steps cfg (w_slot w1) (w_slot w2)" "w_acked w2 = w_acked w"
    using soundD [OF sound_record_outcome [OF Suc.prems(2)] s1(1) o] acknowledgements.blindD [OF acknowledgements.blind_calls(3) o] s1(3) by auto
  have run: "run_state (if y = Inl ErrConflict then do {
         t \<leftarrow> ?task;
         case t of
           Inl _ \<Rightarrow> State_Monad.return (Inl ErrConflict)
         | Inr task \<Rightarrow>
             if fence task \<noteq> dl_token dl \<or> task_status task = ''completed'' \<or> task_status task = ''failed''
             then State_Monad.return (Inl ErrConflict)
             else finish_delivery n cfg ident ref dl result err }
       else case y of
         Inl e \<Rightarrow> State_Monad.return (Inl e)
       | Inr _ \<Rightarrow> acknowledge_and_advance cfg ident dl) w2 = (r, w')"
    using Suc.prems(3) unfolding finish_delivery.simps bind_ok_Inr [OF g [unfolded x]] by (simp add: run_state_bind o)
  show ?case
  proof (cases "y = Inl ErrConflict")
    case True
    obtain z w3 where t: "run_state ?task w2 = (z, w3)" by fastforce
    have s3: "fair_world cfg w3" "run_steps cfg (w_slot w2) (w_slot w3)" "w_acked w3 = w_acked w"
      using soundD [OF sound_read s2(1) t] acknowledgements.blindD [OF acknowledgements.blind_read t] s2(3) by auto
    have "run_state (finish_delivery n cfg ident ref dl result err) w3 = (r, w')"
      using run True t s3(3) Suc.prems(4) by (auto simp: run_state_bind split: sum.splits if_splits)
    from Suc.IH [OF s3(1) Suc.prems(2) this] Suc.prems(4) s3(3)
    have ih: "w_acked w' = w_acked w @ [msg_id (dl_message dl)]" and "\<exists>u t. run_steps cfg (w_slot w3) u \<and> run_steps cfg u (w_slot w') \<and>
      task_at u (task_field (ref_revision ref) (ref_task_id ref)) = Some t \<and> task_ended (task_status t)" by auto
    moreover have "run_steps cfg (w_slot w) (w_slot w3)" using s1(2) s2(2) s3(2) by (meson rtranclp_trans)
    ultimately show ?thesis by (meson rtranclp_trans)
  next
    case False
    then obtain v where y: "y = Inr v" using run s2(3) Suc.prems(4) by (cases y) auto
    have a: "run_state (acknowledge_and_advance cfg ident dl) w2 = (r, w')" using run y by simp
    obtain t where "task_at (w_slot w2) (task_field (ref_revision ref) (ref_task_id ref)) = Some t" "task_ended (task_status t)"
      using outcome_ends [OF s1(1) Suc.prems(2) o [unfolded y]] by blast
    moreover have "run_steps cfg (w_slot w) (w_slot w2)" using s1(2) s2(2) by (rule rtranclp_trans)
    moreover have "run_steps cfg (w_slot w2) (w_slot w')" using soundD [OF sound_acknowledge s2(1) a] by simp
    ultimately show ?thesis using acknowledge_effect [OF a] s2(3) Suc.prems(4) by auto
  qed
qed simp

lemma run_claimed_acks_nothing: "acknowledgements.blind (run_claimed cfg fate ref dl)"
proof -
  have "acknowledgements.blind (execute_with_receipt_guard fate ref key)" for key
    by (simp add: acknowledgements.blind_def execute_with_receipt_guard_def Let_def)
  then show ?thesis unfolding run_claimed_def by (intro acknowledgements.blinds)
qed

text \<open>C14: A worker never acknowledges too early: when the delivery of a task is acknowledged, its task had
  ended in the store before (completed with its result and evidence, failed with a reason, or
  cancelled), and it still has when the worker returns; a delivery is acknowledged at most once.\<close>

theorem acknowledged_after_outcome:
  assumes "fair_world cfg w" "reachable_run cfg (w_slot w)" "claim_uuid fate \<noteq> []"
    and "run_state (process_delivery cfg fate dl) w = (r, w')" "w_acked w' \<noteq> w_acked w"
  shows "w_acked w' = w_acked w @ [msg_id (dl_message dl)] \<and>
    (\<exists>u t. run_steps cfg (w_slot w) u \<and> run_steps cfg u (w_slot w') \<and> task_at u (dl_field dl) = Some t \<and>
       task_ended (task_status t)) \<and>
    (\<exists>t'. task_at (w_slot w') (dl_field dl) = Some t' \<and> task_ended (task_status t'))"
proof -
  let ?ref = "msg_payload (dl_message dl)"
  have *: "w_acked w' = w_acked w @ [msg_id (dl_message dl)] \<and> (\<exists>u t. run_steps cfg (w_slot w) u \<and>
      run_steps cfg u (w_slot w') \<and> task_at u (dl_field dl) = Some t \<and> task_ended (task_status t))"
    using process_delivery_reaches [OF assms(1,4)]
  proof (elim disjE exE conjE)
    assume "w_acked w' = w_acked w" then show ?thesis using assms(5) by simp
  next
    fix u t assume u: "untouched cfg w u" and t: "task_at (w_slot u) (dl_field dl) = Some t" "task_ended (task_status t)"
      and a: "run_state (ack (msg_id (dl_message dl))) u = (r, w')"
    then show ?thesis using ack_effect [OF a] u t assms(5) by (auto simp: untouched_def)
  next
    fix u v out assume rv: "0 < ref_revision ?ref" and u: "untouched cfg w u"
      and e: "run_state (run_claimed cfg fate ?ref dl) u = (out, v)" and a: "run_state (after_execution cfg fate dl out) v = (r, w')"
    have fu: "fair_world cfg u" "run_steps cfg (w_slot w) (w_slot u)" "w_acked u = w_acked w" using u by (simp_all add: untouched_def)
    have fv: "fair_world cfg v" "run_steps cfg (w_slot u) (w_slot v)" "w_acked v = w_acked w"
      using soundD [OF sound_run_claimed [OF assms(3)] fu(1) e] acknowledgements.blindD [OF run_claimed_acks_nothing e] fu(3) by auto
    obtain result err where cl: "classify fate out = (result, err)" by fastforce
    have "run_state (finish_delivery 5 cfg (ref_identity ?ref) ?ref dl result err) v = (r, w')"
      using a assms(5) fv(3) by (auto simp: after_execution_def cl split: option.splits)
    from finish_acks [OF fv(1) rv this] assms(5) fv(3) obtain y t where "w_acked w' = w_acked w @ [msg_id (dl_message dl)]"
      "run_steps cfg (w_slot v) y" "run_steps cfg y (w_slot w')"
      "task_at y (dl_field dl) = Some t" "task_ended (task_status t)" by (auto simp: dl_field_def)
    then show ?thesis using fu(2) fv(2) by (meson rtranclp_trans)
  qed
  then obtain u t where u: "run_steps cfg (w_slot w) u" "run_steps cfg u (w_slot w')" "task_at u (dl_field dl) = Some t"
    "task_ended (task_status t)" by blast
  have "slot_ok u" using run_steps_ok [OF u(1) reachable_ok [OF assms(2)]] .
  from run_steps_later [OF u(2) this u(3)] u(4) show ?thesis using * by (auto simp: task_later_def)
qed

theorem acknowledged_after_outcome_witness:
  "\<exists>w' :: agent_world. w_acked w' = [message_name demo_ref] \<and> (\<exists>t'. task_at (w_slot w') demo_field = Some t' \<and> task_ended (task_status t'))"
proof -
  let ?w = "worker_world demo_completed" and ?i = "ref_identity demo_ref"
  have ref: "msg_payload (dl_message demo_delivery) = demo_ref" "ref_revision demo_ref = 1" "ref_task_id demo_ref = ''a''"
    "ref_attempt demo_ref = 1" "msg_id (dl_message demo_delivery) = message_name demo_ref"
    by (simp_all add: demo_delivery_def demo_ref_def)
  have valid: "valid_delivery sample_cfg demo_delivery"
    by (simp add: valid_delivery_def Let_def demo_scope ref demo_checks) (simp add: demo_delivery_def)
  have run1: "get_run sample_cfg ?i demo_completed = Inr (demo_cur 6 1 ''running'' 60)"
    by (simp add: get_run_def demo_scope demo_rows)
  have task: "get_task sample_cfg ?i 1 ''a'' demo_completed = Inr task_completed"
    using run1 demo_rows(4) by (simp add: get_task_def demo_checks demo_scope)
  have ended: "attempt task_completed = 1" "task_status task_completed = ''completed''" by (simp_all add: demo_task_defs)
  obtain r w' where run: "run_state (process_delivery sample_cfg demo_fate demo_delivery) ?w = (r, w')" by fastforce
  have "run_state (process_delivery sample_cfg demo_fate demo_delivery) ?w = run_state (ack (message_name demo_ref)) (later (later ?w))"
    using valid run1 task by (simp add: process_delivery_def Let_def ref bind_ok_def run_state_bind read_alone worker_world_alone ended)
  then have "w_acked w' \<noteq> w_acked ?w"
    using run by (auto simp: ack_def bus_call_def later_def worker_world_def)
  moreover have "reachable_run sample_cfg (w_slot ?w)" by (simp add: worker_world_alone demo_reachable)
  moreover have "claim_uuid demo_fate \<noteq> []" by (simp add: demo_fate_def)
  ultimately show ?thesis
    using acknowledged_after_outcome [OF worker_world_alone(2) _ _ run] worker_world_alone(5) by (auto simp: dl_field_def ref)
qed

end
