(* ===== verification/RedisKeys.thy ===== *)
theory RedisKeys imports GoBase GoTime "HOL-Library.AList" begin

section \<open>Redis as the scripts use it\<close>

text \<open>
  Three components keep their state in Redis keys that several processes change through Lua
  scripts and single commands: the execution quota, the model pool and the task leases. Redis
  itself is not part of the repository. Its sorted sets are therefore a parameter of those
  models, the record \<open>zset_ops\<close> of the commands the scripts call, and what the scripts rely on
  is the locale \<open>sorted_set\<close>: a sorted set is a finite map from members to scores, and each
  command changes or reads that map as the Redis manual says. \<open>rows_ops\<close> is a sorted set made
  of rows, on which the witnesses evaluate the scripts.

  A command or script that is sent over the network either comes back (\<open>Delivered\<close>) or is lost
  before or after the server ran it; in both cases the client sees an error. The clock of a
  script is the server's, in milliseconds (\<open>TIME\<close>).
\<close>

named_theorems zset_laws "what the scripts rely on of a sorted set"

lemma dom_eq_iff: "dom f = dom g \<longleftrightarrow> (\<forall>m. f m = None \<longleftrightarrow> g m = None)"
  by (simp only: set_eq_iff domIff Not_eq_iff)

subsection \<open>The network\<close>

datatype link = Delivered | LostRequest | LostReply

datatype 'e remote_error = NetworkError | Failed 'e

definition remote :: "link \<Rightarrow> ('s \<Rightarrow> 's \<times> 'a) \<Rightarrow> 's \<Rightarrow> 's \<times> ('e remote_error + 'a)" where
  "remote l f s = (case l of
     Delivered \<Rightarrow> (case f s of (s', a) \<Rightarrow> (s', Inr a))
   | LostRequest \<Rightarrow> (s, Inl NetworkError)
   | LostReply \<Rightarrow> (fst (f s), Inl NetworkError))"

lemma remote_simps [simp]:
  "remote Delivered f s = (fst (f s), Inr (snd (f s)))"
  "remote LostRequest f s = (s, Inl NetworkError)"
  "remote LostReply f s = (fst (f s), Inl NetworkError)"
  by (simp_all add: remote_def split: prod.splits)

lemma remote_state: "fst (remote l f s) = s \<or> fst (remote l f s) = fst (f s)"
  by (cases l) simp_all

lemma remote_replied: "snd (remote l f s) = Inr a \<Longrightarrow> l = Delivered \<and> a = snd (f s)"
  by (cases l) simp_all

subsection \<open>Keys that expire\<close>

text \<open>A value with the time after which its key is gone; a key that is gone is absent.\<close>

definition live_key :: "int \<Rightarrow> ('v \<times> int) option \<Rightarrow> 'v option" where
  "live_key now k = (case k of None \<Rightarrow> None | Some (v, e) \<Rightarrow> (if e < now then None else Some v))"

lemma live_key_simps [simp]:
  "live_key now None = None"
  "live_key now (Some (v, e)) = (if e < now then None else Some v)"
  by (simp_all add: live_key_def)

lemma live_key_Some: "live_key now k = Some v \<longleftrightarrow> (\<exists>e. k = Some (v, e) \<and> now \<le> e)"
  by (auto simp: live_key_def split: option.splits)

lemma live_key_mono: "live_key now' k = Some v \<Longrightarrow> now \<le> now' \<Longrightarrow> live_key now k = Some v"
  by (auto simp: live_key_Some)

subsection \<open>Sorted sets\<close>

record 'z zset_ops =
  zempty :: 'z
  zadd :: "'z \<Rightarrow> int \<Rightarrow> string \<Rightarrow> 'z"
  zrem :: "'z \<Rightarrow> string \<Rightarrow> 'z"
  zrem_upto :: "'z \<Rightarrow> int \<Rightarrow> 'z"
  zupto :: "'z \<Rightarrow> int \<Rightarrow> string list"
  zcard :: "'z \<Rightarrow> nat"
  zscore :: "'z \<Rightarrow> string \<Rightarrow> int option"
  zfirst :: "'z \<Rightarrow> string option"

text \<open>
  \<open>zadd\<close> is \<open>ZADD\<close>, \<open>zrem\<close> is \<open>ZREM\<close> of one member, \<open>zrem_upto z t\<close> is
  \<open>ZREMRANGEBYSCORE z -inf t\<close>, \<open>zupto z t\<close> is \<open>ZRANGEBYSCORE z -inf t\<close>, and \<open>zfirst\<close> is the
  member of \<open>ZRANGE z 0 0\<close>. A key that does not exist is \<open>zempty\<close>.
\<close>

text \<open>A sorted set with the time after which its key is gone.\<close>

definition live_zset :: "'z zset_ops \<Rightarrow> int \<Rightarrow> 'z \<times> int \<Rightarrow> 'z" where
  "live_zset zs now k = (if snd k < now then zempty zs else fst k)"

lemma live_zset_simps [simp]: "live_zset zs now (z, e) = (if e < now then zempty zs else z)"
  by (simp add: live_zset_def)

text \<open>The members whose score is beyond a time: the leases that have not expired.\<close>

definition beyond :: "'z zset_ops \<Rightarrow> int \<Rightarrow> 'z \<Rightarrow> string set" where
  "beyond zs t z = {m. \<exists>s. zscore zs z m = Some s \<and> t < s}"

locale sorted_set =
  fixes zs :: "'z zset_ops"
  assumes zempty [zset_laws]: "zscore zs (zempty zs) = (\<lambda>_. None)"
    and zadd [zset_laws]: "zscore zs (zadd zs z s m) = (zscore zs z)(m \<mapsto> s)"
    and zrem [zset_laws]: "zscore zs (zrem zs z m) = (zscore zs z)(m := None)"
    and zrem_upto [zset_laws]: "zscore zs (zrem_upto zs z t) =
      (\<lambda>m. case zscore zs z m of None \<Rightarrow> None | Some s \<Rightarrow> (if s \<le> t then None else Some s))"
    and zupto: "set (zupto zs z t) = {m. \<exists>s\<le>t. zscore zs z m = Some s}"
    and zfinite: "finite (dom (zscore zs z))"
    and zcard: "zcard zs z = card (dom (zscore zs z))"
    and zfirst_None: "zfirst zs z = None \<longleftrightarrow> dom (zscore zs z) = {}"
    and zfirst_least: "zfirst zs z = Some m \<Longrightarrow>
      \<exists>s. zscore zs z m = Some s \<and> (\<forall>m' s'. zscore zs z m' = Some s' \<longrightarrow> s \<le> s')"
begin

lemma beyond_iff: "m \<in> beyond zs t z \<longleftrightarrow> (\<exists>s. zscore zs z m = Some s \<and> t < s)"
  by (simp add: beyond_def)

lemma beyond_dom: "beyond zs t z \<subseteq> dom (zscore zs z)"
  by (auto simp: beyond_def)

lemma finite_beyond [simp]: "finite (beyond zs t z)"
  by (rule finite_subset [OF beyond_dom zfinite])

lemma beyond_mono: "t \<le> t' \<Longrightarrow> beyond zs t' z \<subseteq> beyond zs t z"
  by (auto simp: beyond_def)

lemma card_beyond_mono: "t \<le> t' \<Longrightarrow> card (beyond zs t' z) \<le> card (beyond zs t z)"
  by (simp add: beyond_mono card_mono)

lemma zcard_purged: "zcard zs (zrem_upto zs z t) = card (beyond zs t z)"
proof -
  have "dom (zscore zs (zrem_upto zs z t)) = beyond zs t z"
    by (auto simp: zrem_upto beyond_def dom_def not_le split: option.splits if_splits)
  then show ?thesis by (simp add: zcard)
qed

lemma card_beyond_zcard: "card (beyond zs t z) \<le> zcard zs z"
  by (simp add: zcard zfinite beyond_dom card_mono)

lemma beyond_zempty [simp]: "beyond zs t (zempty zs) = {}"
  by (simp add: beyond_def zempty)

lemma beyond_zrem [simp]: "beyond zs t (zrem zs z m) = beyond zs t z - {m}"
  by (auto simp: beyond_def zrem)

lemma beyond_zrem_upto: "t \<le> t' \<Longrightarrow> beyond zs t' (zrem_upto zs z t) = beyond zs t' z"
  by (auto simp: beyond_def zrem_upto split: option.splits)

lemma beyond_zadd: "beyond zs t (zadd zs z s m) = (if t < s then insert m (beyond zs t z) else beyond zs t z - {m})"
  by (auto simp: beyond_def zadd)

lemma zcard_zadd: "zcard zs (zadd zs z s m) = (if zscore zs z m = None then Suc (zcard zs z) else zcard zs z)"
proof -
  have "zscore zs z m = None \<longleftrightarrow> m \<notin> dom (zscore zs z)" by (simp add: domIff)
  then show ?thesis by (simp add: zcard zadd zfinite insert_absorb)
qed

lemma zcard_zrem: "zcard zs (zrem zs z m) \<le> zcard zs z"
  by (simp add: zcard zrem zfinite card_mono)

lemma zcard_zrem_upto: "zcard zs (zrem_upto zs z t) \<le> zcard zs z"
  by (simp add: zcard_purged card_beyond_zcard)

lemma zcard_pos: "0 < zcard zs z \<longleftrightarrow> dom (zscore zs z) \<noteq> {}"
  by (simp add: zcard zfinite card_gt_0_iff)

lemma zcard_0: "zcard zs z = 0 \<longleftrightarrow> (\<forall>m. zscore zs z m = None)"
proof -
  have "zcard zs z = 0 \<longleftrightarrow> dom (zscore zs z) = {}" by (simp add: zcard zfinite)
  then show ?thesis by (auto simp: domIff)
qed

text \<open>Removing the members of a list one by one.\<close>

lemma zscore_fold_zrem:
  "zscore zs (fold (\<lambda>m z. zrem zs z m) ms z) = (\<lambda>m. if m \<in> set ms then None else zscore zs z m)"
  by (induction ms arbitrary: z) (auto simp: zrem fun_eq_iff)

end

subsection \<open>A sorted set made of rows\<close>

type_synonym rows = "(string \<times> int) list"

fun first_row :: "rows \<Rightarrow> (string \<times> int) option" where
  "first_row [] = None"
| "first_row ((m, s) # rs) = (case first_row rs of
     None \<Rightarrow> Some (m, s)
   | Some (m', s') \<Rightarrow> (if s \<le> s' then Some (m, s) else Some (m', s')))"

definition rows_ops :: "rows zset_ops" where
  "rows_ops = \<lparr>zempty = [],
     zadd = (\<lambda>rs s m. AList.update m s rs),
     zrem = (\<lambda>rs m. AList.delete m rs),
     zrem_upto = (\<lambda>rs t. filter (\<lambda>r. \<not> snd r \<le> t) (AList.clearjunk rs)),
     zupto = (\<lambda>rs t. map fst (filter (\<lambda>r. snd r \<le> t) (AList.clearjunk rs))),
     zcard = (\<lambda>rs. length (AList.clearjunk rs)),
     zscore = map_of,
     zfirst = (\<lambda>rs. map_option fst (first_row (AList.clearjunk rs)))\<rparr>"

lemma rows_ops_sel [simp]:
  "zempty rows_ops = []" "zadd rows_ops rs s m = AList.update m s rs"
  "zrem rows_ops rs m = AList.delete m rs"
  "zrem_upto rows_ops rs t = filter (\<lambda>r. \<not> snd r \<le> t) (AList.clearjunk rs)"
  "zupto rows_ops rs t = map fst (filter (\<lambda>r. snd r \<le> t) (AList.clearjunk rs))"
  "zcard rows_ops rs = length (AList.clearjunk rs)" "zscore rows_ops = map_of"
  "zfirst rows_ops rs = map_option fst (first_row (AList.clearjunk rs))"
  by (simp_all add: rows_ops_def)

lemma first_row_None: "first_row rs = None \<longleftrightarrow> rs = []"
  by (cases rs rule: first_row.cases) (auto split: option.splits)

lemma first_row_least:
  "first_row rs = Some (m, s) \<Longrightarrow> (m, s) \<in> set rs \<and> (\<forall>(m', s')\<in>set rs. s \<le> s')"
proof (induction rs arbitrary: m s rule: first_row.induct)
  case (2 m0 s0 rs)
  show ?case
  proof (cases "first_row rs")
    case None
    then show ?thesis using 2 by (simp add: first_row_None)
  next
    case (Some r)
    obtain m1 s1 where r: "r = (m1, s1)" by fastforce
    have "(m1, s1) \<in> set rs \<and> (\<forall>(m', s')\<in>set rs. s1 \<le> s')" using 2 Some r by blast
    then show ?thesis using 2 Some r by (auto split: if_splits)
  qed
qed simp

lemma map_of_filter_rows:
  "distinct (map fst rs) \<Longrightarrow> map_of (filter (\<lambda>r. \<not> snd r \<le> t) rs) m =
     (case map_of rs m of None \<Rightarrow> None | Some s \<Rightarrow> (if s \<le> t then None else Some s))" for t :: int
proof (induction rs)
  case (Cons r rs)
  have "map_of (filter (\<lambda>r. \<not> snd r \<le> t) rs) (fst r) = None"
    using Cons.prems by (auto simp: map_of_eq_None_iff)
  then show ?case using Cons by auto
qed simp

interpretation rows: sorted_set rows_ops
proof unfold_locales
  fix z m s
  assume "zfirst rows_ops z = Some m"
  then obtain s where "first_row (AList.clearjunk z) = Some (m, s)" by auto
  from first_row_least [OF this]
  show "\<exists>s. zscore rows_ops z m = Some s \<and> (\<forall>m' s'. zscore rows_ops z m' = Some s' \<longrightarrow> s \<le> s')"
    by (auto simp: map_of_eq_Some_iff simp flip: map_of_clearjunk [of z])
next
  fix z t
  show "set (zupto rows_ops z t) = {m. \<exists>s\<le>t. zscore rows_ops z m = Some s}"
    by (force simp: map_of_eq_Some_iff simp flip: map_of_clearjunk [of z])
next
  fix z
  show "zcard rows_ops z = card (dom (zscore rows_ops z))"
    using distinct_card [OF distinct_clearjunk [of z]]
    by (simp add: dom_map_of_conv_image_fst flip: map_of_clearjunk [of z])
next
  fix z
  show "zfirst rows_ops z = None \<longleftrightarrow> dom (zscore rows_ops z) = {}"
    by (simp add: first_row_None dom_map_of_conv_image_fst flip: map_of_clearjunk [of z])
next
  fix z t
  show "zscore rows_ops (zrem_upto rows_ops z t) =
      (\<lambda>m. case zscore rows_ops z m of None \<Rightarrow> None | Some s \<Rightarrow> (if s \<le> t then None else Some s))"
    by (simp add: map_of_filter_rows map_of_clearjunk fun_eq_iff)
qed (simp_all add: update_conv' delete_conv' finite_dom_map_of fun_eq_iff)

end
