(* ===== verification/ExecutionCapacity.thy ===== *)
theory ExecutionCapacity imports RedisKeys AgentRun begin

section \<open>The execution quota of tenants and runs\<close>

text \<open>
  \<open>internal/service/agent_run/execution_capacity.go\<close>: how many tasks a tenant and a run may
  execute at once, over all Core instances. A lease is a token in two sorted sets of the
  tenant's slot, one of the tenant and one of the run, scored by the time it expires; the
  policy under which the leases were given is published beside them. The three Lua scripts are
  \<open>acquire_script\<close>, \<open>renew_script\<close> and \<open>release_script\<close>; the methods check their arguments, run
  a script over the network and read its reply.
\<close>

subsection \<open>Policy\<close>

record capacity_policy =
  tenant_limit :: int
  run_limit :: int
  capacity_ttl :: duration

definition policy_valid :: "capacity_policy \<Rightarrow> bool" where
  "policy_valid p \<longleftrightarrow> \<not> (tenant_limit p < 1 \<or> tenant_limit p > 10000 \<or> run_limit p < 1 \<or>
     run_limit p > tenant_limit p \<or> capacity_ttl p < second_ns \<or> capacity_ttl p > minute_ns)"

definition ttl_ms :: "capacity_policy \<Rightarrow> int" where
  "ttl_ms p = milliseconds (capacity_ttl p)"

definition fingerprint :: "capacity_policy \<Rightarrow> string" where
  "fingerprint p = itoa (tenant_limit p) @ CHR '':'' # itoa (run_limit p) @ CHR '':'' # itoa (ttl_ms p)"

datatype capacity_error = InvalidRequest | ErrTenantCapacity | ErrRunCapacity
  | ErrSchedulingPolicyDrift | ErrExecutionLeaseStale | PolicyMissing

record execution_capacity =
  cap_policy :: capacity_policy
  cap_env :: string

record execution_lease =
  lease_identity :: snapshot
  lease_token :: string

text \<open>\<open>validArchiveEnv\<close>, shared with the archive.\<close>

definition valid_archive_env :: "string \<Rightarrow> bool" where
  "valid_archive_env env \<longleftrightarrow> trim_space env = env \<and> 0 < length env \<and> length env \<le> 32 \<and>
     list_all (\<lambda>c. c \<notin> set ''{}:'') env"

text \<open>
  \<open>NewExecutionCapacity\<close>: publish the policy of an environment unless one is published, read it
  back, and refuse to start under another. Other processes may change the keys in between.
\<close>

definition new_execution_capacity :: "link \<Rightarrow> link \<Rightarrow> ((string \<Rightarrow> string option) \<Rightarrow> string \<Rightarrow> string option)
    \<Rightarrow> string \<Rightarrow> capacity_policy \<Rightarrow> (string \<Rightarrow> string option)
    \<Rightarrow> (string \<Rightarrow> string option) \<times> (capacity_error remote_error + execution_capacity)" where
  "new_execution_capacity l1 l2 others env p ks =
     (if \<not> valid_archive_env env \<or> \<not> policy_valid p then (ks, Inl (Failed InvalidRequest))
      else
        let key = ''agent:scheduling:{'' @ env @ ''}:policy'';
            set_nx = (\<lambda>ks. (if ks key = None then ks(key \<mapsto> fingerprint p) else ks, ()))
        in case remote l1 set_nx ks of
             (ks1, Inl e) \<Rightarrow> (ks1, Inl e)
           | (ks1, Inr _) \<Rightarrow>
             (case remote l2 (\<lambda>ks. (ks, ks key)) (others ks1) of
                (ks2, Inl e) \<Rightarrow> (ks2, Inl e)
              | (ks2, Inr None) \<Rightarrow> (ks2, Inl (Failed PolicyMissing))
              | (ks2, Inr (Some v)) \<Rightarrow>
                  if v \<noteq> fingerprint p then (ks2, Inl (Failed ErrSchedulingPolicyDrift))
                  else (ks2, Inr \<lparr>cap_policy = p, cap_env = env\<rparr>)))"

subsection \<open>The keys and the scripts\<close>

text \<open>
  The keys of a tenant in an environment share a hash slot: its sorted set, one sorted set per
  run, and the policy, each with its expiry. \<open>executionCapacityKeys\<close> gives the names of the
  three that an operation on a run uses.
\<close>

record 'z capacity_keys =
  tenant_zset :: "'z \<times> int"
  run_zsets :: "string \<Rightarrow> 'z \<times> int"
  policy_key :: "(string \<times> int) option"

type_synonym 'z capacity_space = "string \<times> string \<Rightarrow> 'z capacity_keys"

definition execution_capacity_keys :: "snapshot \<Rightarrow> string list" where
  "execution_capacity_keys v =
     (let base = ''agent:execution:{'' @ tenant_uuid v @ '':'' @ env_name v @ ''}''
      in [base @ '':tenant'', base @ '':run:'' @ run_id v, base @ '':policy''])"

definition no_leases :: "'z zset_ops \<Rightarrow> 'z capacity_keys" where
  "no_leases zs = \<lparr>tenant_zset = (zempty zs, 0), run_zsets = (\<lambda>_. (zempty zs, 0)), policy_key = None\<rparr>"

definition acquire_script :: "'z zset_ops \<Rightarrow> capacity_policy \<Rightarrow> string \<Rightarrow> string \<Rightarrow> int
    \<Rightarrow> 'z capacity_keys \<Rightarrow> 'z capacity_keys \<times> int" where
  "acquire_script zs p tok run now ks =
     (if live_key now (policy_key ks) \<noteq> None \<and> live_key now (policy_key ks) \<noteq> Some (fingerprint p)
      then (ks, -3)
      else
        let t = zrem_upto zs (live_zset zs now (tenant_zset ks)) now;
            r = zrem_upto zs (live_zset zs now (run_zsets ks run)) now;
            purged = ks\<lparr>tenant_zset := (t, snd (tenant_zset ks)),
              run_zsets := (run_zsets ks)(run := (r, snd (run_zsets ks run)))\<rparr>
        in if run_limit p \<le> int (zcard zs r) then (purged, -2)
           else if tenant_limit p \<le> int (zcard zs t) then (purged, -1)
           else
             let expires = now + ttl_ms p; gone = now + 2 * ttl_ms p
             in (ks\<lparr>tenant_zset := (zadd zs t expires tok, gone),
                   run_zsets := (run_zsets ks)(run := (zadd zs r expires tok, gone)),
                   policy_key := Some (fingerprint p, gone)\<rparr>, expires))"

definition renew_script :: "'z zset_ops \<Rightarrow> capacity_policy \<Rightarrow> string \<Rightarrow> string \<Rightarrow> int
    \<Rightarrow> 'z capacity_keys \<Rightarrow> 'z capacity_keys \<times> int" where
  "renew_script zs p tok run now ks =
     (let t = live_zset zs now (tenant_zset ks); r = live_zset zs now (run_zsets ks run)
      in case (zscore zs t tok, zscore zs r tok) of
           (Some a, Some b) \<Rightarrow>
             if a \<le> now \<or> b \<le> now then (ks, 0)
             else if live_key now (policy_key ks) \<noteq> Some (fingerprint p) then (ks, 0)
             else
               let expires = now + ttl_ms p; gone = now + 2 * ttl_ms p
               in (ks\<lparr>tenant_zset := (zadd zs t expires tok, gone),
                     run_zsets := (run_zsets ks)(run := (zadd zs r expires tok, gone)),
                     policy_key := Some (fingerprint p, gone)\<rparr>, 1)
         | _ \<Rightarrow> (ks, 0))"

definition release_script :: "'z zset_ops \<Rightarrow> string \<Rightarrow> string \<Rightarrow> int
    \<Rightarrow> 'z capacity_keys \<Rightarrow> 'z capacity_keys \<times> int" where
  "release_script zs tok run now ks =
     (let t = live_zset zs now (tenant_zset ks); r = live_zset zs now (run_zsets ks run)
      in (ks\<lparr>tenant_zset := (zrem zs t tok, snd (tenant_zset ks)),
            run_zsets := (run_zsets ks)(run := (zrem zs r tok, snd (run_zsets ks run)))\<rparr>,
          if zscore zs r tok = None then 0 else 1))"

subsection \<open>The methods\<close>

definition on_keys :: "snapshot \<Rightarrow> ('z capacity_keys \<Rightarrow> 'z capacity_keys \<times> 'a)
    \<Rightarrow> 'z capacity_space \<Rightarrow> 'z capacity_space \<times> 'a" where
  "on_keys v f sp = (case f (sp (tenant_uuid v, env_name v)) of
     (ks, a) \<Rightarrow> (sp((tenant_uuid v, env_name v) := ks), a))"

definition acquire :: "'z zset_ops \<Rightarrow> run_cfg \<Rightarrow> execution_capacity \<Rightarrow> snapshot \<Rightarrow> string \<Rightarrow> link \<Rightarrow> int
    \<Rightarrow> 'z capacity_space \<Rightarrow> 'z capacity_space \<times> (capacity_error remote_error + execution_lease)" where
  "acquire zs cfg c v tok l now sp =
     (if \<not> valid_scope cfg v \<or> env_name v \<noteq> cap_env c then (sp, Inl (Failed InvalidRequest))
      else case remote l (on_keys v (acquire_script zs (cap_policy c) tok (run_id v) now)) sp of
        (sp', Inl e) \<Rightarrow> (sp', Inl e)
      | (sp', Inr n) \<Rightarrow> (sp',
          if n = -1 then Inl (Failed ErrTenantCapacity)
          else if n = -2 then Inl (Failed ErrRunCapacity)
          else if n = -3 then Inl (Failed ErrSchedulingPolicyDrift)
          else Inr \<lparr>lease_identity = v, lease_token = tok\<rparr>))"

definition lease_valid :: "run_cfg \<Rightarrow> execution_capacity \<Rightarrow> execution_lease \<Rightarrow> bool" where
  "lease_valid cfg c le \<longleftrightarrow> valid_scope cfg (lease_identity le) \<and>
     env_name (lease_identity le) = cap_env c \<and> lease_token le \<noteq> []"

definition renew :: "'z zset_ops \<Rightarrow> run_cfg \<Rightarrow> execution_capacity \<Rightarrow> execution_lease \<Rightarrow> link \<Rightarrow> int
    \<Rightarrow> 'z capacity_space \<Rightarrow> 'z capacity_space \<times> (capacity_error remote_error + unit)" where
  "renew zs cfg c le l now sp =
     (if \<not> lease_valid cfg c le then (sp, Inl (Failed InvalidRequest))
      else case remote l (on_keys (lease_identity le)
          (renew_script zs (cap_policy c) (lease_token le) (run_id (lease_identity le)) now)) sp of
        (sp', Inl e) \<Rightarrow> (sp', Inl e)
      | (sp', Inr n) \<Rightarrow> (sp', if n \<noteq> 1 then Inl (Failed ErrExecutionLeaseStale) else Inr ()))"

definition release :: "'z zset_ops \<Rightarrow> run_cfg \<Rightarrow> execution_capacity \<Rightarrow> execution_lease \<Rightarrow> link \<Rightarrow> int
    \<Rightarrow> 'z capacity_space \<Rightarrow> 'z capacity_space \<times> (capacity_error remote_error + unit)" where
  "release zs cfg c le l now sp =
     (if \<not> lease_valid cfg c le then (sp, Inl (Failed InvalidRequest))
      else case remote l (on_keys (lease_identity le)
          (release_script zs (lease_token le) (run_id (lease_identity le)) now)) sp of
        (sp', Inl e) \<Rightarrow> (sp', Inl e)
      | (sp', Inr _) \<Rightarrow> (sp', Inr ()))"

text \<open>
  \<open>Execute\<close>: the lease is renewed at every tick of a timer while the execution runs; the first
  renewal that fails cancels the execution's context and ends the renewals. The lease is
  released in any case, and the errors of the three are joined. \<open>ticks\<close> are the renewals that
  come before the execution returns; \<open>body\<close> is the execution, told whether it was cancelled.
\<close>

fun renew_ticks :: "'z zset_ops \<Rightarrow> run_cfg \<Rightarrow> execution_capacity \<Rightarrow> execution_lease \<Rightarrow> (link \<times> int) list
    \<Rightarrow> 'z capacity_space \<Rightarrow> 'z capacity_space \<times> capacity_error remote_error option" where
  "renew_ticks zs cfg c le [] sp = (sp, None)"
| "renew_ticks zs cfg c le ((l, now) # ticks) sp = (case renew zs cfg c le l now sp of
     (sp', Inl e) \<Rightarrow> (sp', Some e)
   | (sp', Inr _) \<Rightarrow> renew_ticks zs cfg c le ticks sp')"

datatype 'e joined = FromExecution 'e | FromRenewal "capacity_error remote_error"
  | FromRelease "capacity_error remote_error" | NotStarted

definition execute_lease :: "'z zset_ops \<Rightarrow> run_cfg \<Rightarrow> execution_capacity \<Rightarrow> execution_lease \<Rightarrow> (link \<times> int) list
    \<Rightarrow> (bool \<Rightarrow> 'e option) \<Rightarrow> link \<Rightarrow> int \<Rightarrow> 'z capacity_space \<Rightarrow> 'z capacity_space \<times> 'e joined list" where
  "execute_lease zs cfg c le ticks body l now sp =
     (if \<not> lease_valid cfg c le then (sp, [NotStarted])
      else case renew_ticks zs cfg c le ticks sp of
        (sp1, renewal) \<Rightarrow>
          (case release zs cfg c le l now sp1 of
             (sp2, released) \<Rightarrow> (sp2,
               (case body (renewal \<noteq> None) of None \<Rightarrow> [] | Some e \<Rightarrow> [FromExecution e]) @
               (case renewal of None \<Rightarrow> [] | Some e \<Rightarrow> [FromRenewal e]) @
               (case released of Inl e \<Rightarrow> [FromRelease e] | Inr _ \<Rightarrow> []))))"

subsection \<open>What the published policy says\<close>

lemma ttl_ms_pos: "policy_valid p \<Longrightarrow> 1000 \<le> ttl_ms p"
proof -
  assume "policy_valid p"
  then have "1000 * 1000000 \<le> capacity_ttl p" by (simp add: policy_valid_def second_ns_def)
  then have "1000 * 1000000 div 1000000 \<le> capacity_ttl p div 1000000" by (rule zdiv_mono1) simp
  then show ?thesis using \<open>policy_valid p\<close>
    by (simp add: ttl_ms_def milliseconds_def millisecond_ns_def policy_valid_def second_ns_def)
qed

lemma itoa_pos: "0 \<le> n \<Longrightarrow> itoa n = itoa_nat (nat n)"
  by (simp add: itoa_def)

lemma fingerprint_inj:
  assumes "policy_valid p" and "policy_valid q"
  shows "fingerprint p = fingerprint q \<longleftrightarrow>
    tenant_limit p = tenant_limit q \<and> run_limit p = run_limit q \<and> ttl_ms p = ttl_ms q"
proof
  assume eq: "fingerprint p = fingerprint q"
  have pos: "0 \<le> tenant_limit p" "0 \<le> run_limit p" "0 \<le> ttl_ms p"
    "0 \<le> tenant_limit q" "0 \<le> run_limit q" "0 \<le> ttl_ms q"
    using assms ttl_ms_pos [OF assms(1)] ttl_ms_pos [OF assms(2)] by (auto simp: policy_valid_def)
  from eq have "itoa_nat (nat (tenant_limit p)) = itoa_nat (nat (tenant_limit q)) \<and>
      itoa (run_limit p) @ CHR '':'' # itoa (ttl_ms p) = itoa (run_limit q) @ CHR '':'' # itoa (ttl_ms q)"
    unfolding fingerprint_def itoa_pos [OF pos(1)] itoa_pos [OF pos(4)]
    by (rule colon_split_unique [OF itoa_nat_no_colon itoa_nat_no_colon])
  moreover from this have "itoa_nat (nat (run_limit p)) = itoa_nat (nat (run_limit q)) \<and> itoa (ttl_ms p) = itoa (ttl_ms q)"
    unfolding itoa_pos [OF pos(2)] itoa_pos [OF pos(5)]
    by (intro colon_split_unique [OF itoa_nat_no_colon itoa_nat_no_colon]) simp
  ultimately show "tenant_limit p = tenant_limit q \<and> run_limit p = run_limit q \<and> ttl_ms p = ttl_ms q"
    using pos by (auto simp: itoa_pos itoa_nat_inj eq_nat_nat_iff)
qed (simp add: fingerprint_def)

subsection \<open>Histories\<close>

definition tenant_holders :: "'z zset_ops \<Rightarrow> int \<Rightarrow> 'z capacity_keys \<Rightarrow> string set" where
  "tenant_holders zs now ks = beyond zs now (live_zset zs now (tenant_zset ks))"

definition run_holders :: "'z zset_ops \<Rightarrow> int \<Rightarrow> 'z capacity_keys \<Rightarrow> string \<Rightarrow> string set" where
  "run_holders zs now ks run = beyond zs now (live_zset zs now (run_zsets ks run))"

text \<open>
  Any number of processes, each with a valid policy of its own, call the three methods in any
  order with any arguments over a network that may lose requests and replies; the server's
  clock does not go back.
\<close>

inductive capacity_reachable :: "'z zset_ops \<Rightarrow> run_cfg \<Rightarrow> int \<Rightarrow> 'z capacity_space \<Rightarrow> bool" for zs cfg where
  Start: "capacity_reachable zs cfg now (\<lambda>_. no_leases zs)"
| Later: "capacity_reachable zs cfg now sp \<Longrightarrow> now \<le> now' \<Longrightarrow> capacity_reachable zs cfg now' sp"
| Acquire: "capacity_reachable zs cfg now sp \<Longrightarrow> policy_valid (cap_policy c) \<Longrightarrow>
    capacity_reachable zs cfg now (fst (acquire zs cfg c v tok l now sp))"
| Renew: "capacity_reachable zs cfg now sp \<Longrightarrow> policy_valid (cap_policy c) \<Longrightarrow>
    capacity_reachable zs cfg now (fst (renew zs cfg c le l now sp))"
| Release: "capacity_reachable zs cfg now sp \<Longrightarrow>
    capacity_reachable zs cfg now (fst (release zs cfg c le l now sp))"

subsection \<open>The invariant\<close>

definition idle :: "'z zset_ops \<Rightarrow> int \<Rightarrow> 'z capacity_keys \<Rightarrow> bool" where
  "idle zs now ks \<longleftrightarrow> beyond zs now (fst (tenant_zset ks)) = {} \<and>
     (\<forall>run. beyond zs now (fst (run_zsets ks run)) = {})"

text \<open>No unexpired score lies beyond the longest lease, nor beyond the key's or the policy's own expiry.\<close>

definition within :: "'z zset_ops \<Rightarrow> capacity_policy \<Rightarrow> int \<Rightarrow> int \<Rightarrow> 'z \<times> int \<Rightarrow> bool" where
  "within zs p gone now k \<longleftrightarrow> (\<forall>m s. zscore zs (fst k) m = Some s \<longrightarrow> now < s \<longrightarrow>
     s \<le> now + ttl_ms p \<and> s \<le> snd k \<and> s \<le> gone)"

definition quota :: "'z zset_ops \<Rightarrow> capacity_policy \<Rightarrow> int \<Rightarrow> int \<Rightarrow> 'z capacity_keys \<Rightarrow> bool" where
  "quota zs p gone now ks \<longleftrightarrow> policy_valid p \<and>
     (idle zs now ks \<or> policy_key ks = Some (fingerprint p, gone)) \<and>
     within zs p gone now (tenant_zset ks) \<and> (\<forall>run. within zs p gone now (run_zsets ks run)) \<and>
     int (card (beyond zs now (fst (tenant_zset ks)))) \<le> tenant_limit p \<and>
     (\<forall>run. int (card (beyond zs now (fst (run_zsets ks run)))) \<le> run_limit p)"

lemma quotaD:
  assumes "quota zs p gone now ks"
  shows "policy_valid p" and "within zs p gone now (tenant_zset ks)" and "within zs p gone now (run_zsets ks run)"
    and "int (card (beyond zs now (fst (tenant_zset ks)))) \<le> tenant_limit p"
    and "int (card (beyond zs now (fst (run_zsets ks run)))) \<le> run_limit p"
    and "\<not> idle zs now ks \<Longrightarrow> policy_key ks = Some (fingerprint p, gone)"
  using assms by (simp_all add: quota_def)

context sorted_set begin

lemma beyond_live: "within zs p gone now k \<Longrightarrow> beyond zs now (live_zset zs now k) = beyond zs now (fst k)"
  by (cases k) (auto simp: within_def beyond_def zempty)

lemma within_later: "within zs p gone now k \<Longrightarrow> now \<le> now' \<Longrightarrow> within zs p gone now' k"
  by (fastforce simp: within_def)

lemma within_purged:
  "within zs p gone now k \<Longrightarrow> within zs p gone now (zrem_upto zs (live_zset zs now k) now, snd k)"
  by (cases k) (auto simp: within_def zempty zrem_upto split: option.splits if_splits)

lemma within_live: "within zs p gone now k \<Longrightarrow> within zs p gone now (live_zset zs now k, snd k)"
  by (cases k) (auto simp: within_def zempty)

lemma within_zrem: "within zs p gone now (z, e) \<Longrightarrow> within zs p gone now (zrem zs z m, e)"
  by (auto simp: within_def zrem)

lemma within_renewed:
  "within zs p gone now k \<Longrightarrow> policy_valid p \<Longrightarrow> within zs p (now + 2 * ttl_ms p) now k"
  using ttl_ms_pos [of p] by (fastforce simp: within_def)

lemma beyond_gone: "within zs p gone now k \<Longrightarrow> beyond zs now (fst k) \<noteq> {} \<Longrightarrow> now < gone"
  by (fastforce simp: within_def beyond_def)

lemma within_zadd:
  "within zs p gone now (z, e) \<Longrightarrow> policy_valid p \<Longrightarrow>
   within zs p (now + 2 * ttl_ms p) now (zadd zs z (now + ttl_ms p) m, now + 2 * ttl_ms p)"
  using ttl_ms_pos [of p] by (fastforce simp: within_def zadd)

lemma quota_start: "policy_valid p \<Longrightarrow> quota zs p 0 now (no_leases zs)"
  by (simp add: quota_def no_leases_def idle_def within_def zempty policy_valid_def)

lemma quota_later:
  assumes "quota zs p gone now ks" and "now \<le> now'"
  shows "quota zs p gone now' ks"
proof -
  have "idle zs now ks \<Longrightarrow> idle zs now' ks"
    using beyond_mono [OF assms(2)] by (fastforce simp: idle_def)
  moreover have "int (card (beyond zs now' z)) \<le> n" if "int (card (beyond zs now z)) \<le> n" for z n
    using card_beyond_mono [OF assms(2), of z] that by linarith
  ultimately show ?thesis
    using assms(1) within_later [OF quotaD(2) [OF assms(1)] assms(2)]
      within_later [OF quotaD(3) [OF assms(1)] assms(2)]
    by (auto simp: quota_def)
qed

text \<open>A process that finds no policy or its own may take the invariant for its own policy.\<close>

lemma quota_own:
  assumes inv: "quota zs q gone now ks" and p: "policy_valid p"
    and own: "live_key now (policy_key ks) = None \<or> live_key now (policy_key ks) = Some (fingerprint p)"
  shows "\<exists>gone. quota zs p gone now ks"
proof (cases "idle zs now ks")
  case True
  then have "within zs p gone now (tenant_zset ks)" and "within zs p gone now (run_zsets ks run)" for run
    by (auto simp: idle_def within_def beyond_def)
  then show ?thesis using True p by (auto simp: quota_def idle_def policy_valid_def)
next
  case False
  with inv have q: "policy_valid q" and pub: "policy_key ks = Some (fingerprint q, gone)"
    by (auto simp: quota_def)
  have "now < gone"
  proof (cases "beyond zs now (fst (tenant_zset ks)) = {}")
    case True
    with False obtain run where "beyond zs now (fst (run_zsets ks run)) \<noteq> {}" by (auto simp: idle_def)
    then show ?thesis using beyond_gone [OF quotaD(3) [OF inv]] by blast
  next
    case False
    then show ?thesis using beyond_gone [OF quotaD(2) [OF inv]] by blast
  qed
  with own pub have "fingerprint q = fingerprint p" by simp
  then have "tenant_limit q = tenant_limit p \<and> run_limit q = run_limit p \<and> ttl_ms q = ttl_ms p"
    by (simp add: fingerprint_inj [OF q p])
  with inv p \<open>fingerprint q = fingerprint p\<close> have "quota zs p gone now ks"
    by (simp add: quota_def within_def)
  then show ?thesis ..
qed

lemma quota_given:
  assumes inv: "quota zs p gone now ks"
    and t: "within zs p gone' now (t, e)" "int (card (insert tok (beyond zs now t))) \<le> tenant_limit p"
    and r: "within zs p gone'' now (r, e')" "int (card (insert tok (beyond zs now r))) \<le> run_limit p"
  shows "quota zs p (now + 2 * ttl_ms p) now
    (ks\<lparr>tenant_zset := (zadd zs t (now + ttl_ms p) tok, now + 2 * ttl_ms p),
        run_zsets := (run_zsets ks)(run := (zadd zs r (now + ttl_ms p) tok, now + 2 * ttl_ms p)),
        policy_key := Some (fingerprint p, now + 2 * ttl_ms p)\<rparr>)"
proof -
  have p: "policy_valid p" using inv by (simp add: quota_def)
  then have "now < now + ttl_ms p" using ttl_ms_pos [of p] by simp
  moreover have "within zs p (now + 2 * ttl_ms p) now (run_zsets ks run')" for run'
    by (rule within_renewed [OF quotaD(3) [OF inv] p])
  ultimately show ?thesis using inv p t r within_zadd [OF t(1) p] within_zadd [OF r(1) p]
    by (auto simp: quota_def beyond_zadd)
qed

lemma quota_acquire_script:
  assumes inv: "quota zs q gone now ks" and p: "policy_valid p"
  shows "\<exists>q gone. quota zs q gone now (fst (acquire_script zs p tok run now ks))"
proof (cases "live_key now (policy_key ks) = None \<or> live_key now (policy_key ks) = Some (fingerprint p)")
  case False
  then show ?thesis using inv by (auto simp: acquire_script_def)
next
  case ok: True
  from quota_own [OF inv p ok] obtain g where own: "quota zs p g now ks" ..
  let ?t = "zrem_upto zs (live_zset zs now (tenant_zset ks)) now"
  let ?r = "zrem_upto zs (live_zset zs now (run_zsets ks run)) now"
  have wt: "within zs p g now (tenant_zset ks)" and wr: "within zs p g now (run_zsets ks run')" for run'
    using own by (auto simp: quota_def)
  have bt: "beyond zs now ?t = beyond zs now (fst (tenant_zset ks))"
    by (simp add: beyond_zrem_upto beyond_live [OF wt])
  have br: "beyond zs now ?r = beyond zs now (fst (run_zsets ks run))"
    by (simp add: beyond_zrem_upto beyond_live [OF wr])
  let ?purged = "ks\<lparr>tenant_zset := (?t, snd (tenant_zset ks)),
      run_zsets := (run_zsets ks)(run := (?r, snd (run_zsets ks run)))\<rparr>"
  have purged: "quota zs p g now ?purged"
    using own within_purged [OF wt] within_purged [OF wr] bt br
    by (auto simp: quota_def idle_def)
  show ?thesis
  proof (cases "run_limit p \<le> int (zcard zs ?r) \<or> tenant_limit p \<le> int (zcard zs ?t)")
    case True
    then show ?thesis using purged ok by (auto simp: acquire_script_def Let_def)
  next
    case False
    have ct: "zcard zs ?t = card (beyond zs now ?t)" and cr: "zcard zs ?r = card (beyond zs now ?r)"
      by (simp_all add: zcard_purged beyond_zrem_upto)
    have "int (card (insert tok (beyond zs now ?t))) \<le> tenant_limit p"
      and "int (card (insert tok (beyond zs now ?r))) \<le> run_limit p"
      using False ct cr card_insert_le_m1 [of _ "beyond zs now ?t"] by (auto simp: card_insert_if)
    from quota_given [OF own within_purged [OF wt] this(1) within_purged [OF wr] this(2)] False ok
    show ?thesis by (auto simp: acquire_script_def Let_def)
  qed
qed

lemma quota_renew_script:
  assumes inv: "quota zs q gone now ks" and p: "policy_valid p"
  shows "\<exists>q gone. quota zs q gone now (fst (renew_script zs p tok run now ks))"
proof (cases "snd (renew_script zs p tok run now ks) = 1")
  case False
  then have "fst (renew_script zs p tok run now ks) = ks"
    by (auto simp: renew_script_def Let_def split: option.splits if_splits)
  then show ?thesis using inv by auto
next
  case True
  let ?t = "live_zset zs now (tenant_zset ks)" and ?r = "live_zset zs now (run_zsets ks run)"
  from True obtain a b where ab: "zscore zs ?t tok = Some a" "zscore zs ?r tok = Some b" "now < a" "now < b"
    and pub: "live_key now (policy_key ks) = Some (fingerprint p)"
    by (auto simp: renew_script_def Let_def split: option.splits if_splits)
  from quota_own [OF inv p] pub obtain g where own: "quota zs p g now ks" by blast
  have wt: "within zs p g now (tenant_zset ks)" and wr: "within zs p g now (run_zsets ks run)"
    using own by (auto simp: quota_def)
  have "tok \<in> beyond zs now ?t" "tok \<in> beyond zs now ?r" using ab by (auto simp: beyond_def)
  then have "int (card (insert tok (beyond zs now ?t))) \<le> tenant_limit p"
    and "int (card (insert tok (beyond zs now ?r))) \<le> run_limit p"
    using own by (auto simp: insert_absorb beyond_live [OF wt] beyond_live [OF wr] quota_def)
  from quota_given [OF own within_live [OF wt] this(1) within_live [OF wr] this(2)] ab pub
  show ?thesis by (auto simp: renew_script_def Let_def)
qed

lemma quota_release_script:
  assumes inv: "quota zs p gone now ks"
  shows "quota zs p gone now (fst (release_script zs tok run now ks))"
proof -
  have wt: "within zs p gone now (tenant_zset ks)" and wr: "within zs p gone now (run_zsets ks run)"
    using inv by (auto simp: quota_def)
  have le: "int (card (beyond zs now z - {tok})) \<le> int (card (beyond zs now z))" for z
    by (simp add: card_mono)
  show ?thesis
    using inv within_zrem [OF within_live [OF wt]] within_zrem [OF within_live [OF wr]]
      order_trans [OF le] beyond_live [OF wt] beyond_live [OF wr]
    by (auto simp: quota_def idle_def release_script_def Let_def)
qed

text \<open>A method changes nothing, or does what its script does to the keys of its tenant.\<close>

lemma on_keys_state:
  "fst (remote l (on_keys v f) sp) y = sp y \<or> fst (remote l (on_keys v f) sp) y = fst (f (sp y))"
  by (cases l) (auto simp: on_keys_def split: prod.splits)

lemma acquire_state: "fst (acquire zs cfg c v tok l now sp) y = sp y \<or>
    fst (acquire zs cfg c v tok l now sp) y = fst (acquire_script zs (cap_policy c) tok (run_id v) now (sp y))"
  by (simp add: acquire_def case_prod_beta on_keys_state split: sum.split)

lemma renew_state: "fst (renew zs cfg c le l now sp) y = sp y \<or>
    fst (renew zs cfg c le l now sp) y =
      fst (renew_script zs (cap_policy c) (lease_token le) (run_id (lease_identity le)) now (sp y))"
  by (simp add: renew_def case_prod_beta on_keys_state split: sum.split)

lemma release_state: "fst (release zs cfg c le l now sp) y = sp y \<or>
    fst (release zs cfg c le l now sp) y =
      fst (release_script zs (lease_token le) (run_id (lease_identity le)) now (sp y))"
  by (simp add: release_def case_prod_beta on_keys_state split: sum.split)

lemma quota_reachable:
  "capacity_reachable zs cfg now sp \<Longrightarrow> \<forall>x. \<exists>p gone. quota zs p gone now (sp x)"
proof (induction rule: capacity_reachable.induct)
  case (Start now)
  have "policy_valid \<lparr>tenant_limit = 1, run_limit = 1, capacity_ttl = second_ns\<rparr>"
    by (simp add: policy_valid_def second_ns_def minute_ns_def)
  then show ?case using quota_start by blast
next
  case (Later now sp now')
  then show ?case using quota_later by blast
next
  case (Acquire now sp c v tok l)
  show ?case using Acquire.IH quota_acquire_script [OF _ Acquire.hyps(2)] acquire_state by metis
next
  case (Renew now sp c le l)
  show ?case using Renew.IH quota_renew_script [OF _ Renew.hyps(2)] renew_state by metis
next
  case (Release now sp c le l)
  show ?case using Release.IH quota_release_script release_state by metis
qed

text \<open>No lease outlives the policy it was given under.\<close>

lemma idle_holders:
  "idle zs now ks \<Longrightarrow> tenant_holders zs now ks = {} \<and> run_holders zs now ks run = {}"
  by (auto simp: idle_def tenant_holders_def run_holders_def live_zset_def)

lemma holders_within:
  assumes "quota zs p gone now ks"
  shows "tenant_holders zs now ks = beyond zs now (fst (tenant_zset ks))"
    and "run_holders zs now ks run = beyond zs now (fst (run_zsets ks run))"
  using beyond_live [OF quotaD(2) [OF assms]] beyond_live [OF quotaD(3) [OF assms]]
  by (simp_all add: tenant_holders_def run_holders_def)

lemma holders_expire:
  assumes "quota zs p gone now ks"
  shows "tenant_holders zs (now + ttl_ms p) ks = {}"
proof -
  have "0 \<le> ttl_ms p" using ttl_ms_pos [OF quotaD(1) [OF assms]] by simp
  then have "beyond zs (now + ttl_ms p) (fst (tenant_zset ks)) = {}"
    using quotaD(2) [OF assms] by (fastforce simp: within_def beyond_def)
  then show ?thesis by (cases "tenant_zset ks") (auto simp: tenant_holders_def)
qed

lemma published_quota:
  assumes "capacity_reachable zs cfg now sp" and p: "policy_valid p"
    and "live_key now (policy_key (sp x)) = None \<or> live_key now (policy_key (sp x)) = Some (fingerprint p)"
  shows "\<exists>gone. quota zs p gone now (sp x)"
  using quota_reachable [OF assms(1)] quota_own [OF _ p assms(3)] by blast

text \<open>What the reply of the acquiring script says of the leases held when it ran.\<close>

lemma acquire_reply: "snd (acquire_script zs p tok run now ks) =
    (if live_key now (policy_key ks) \<notin> {None, Some (fingerprint p)} then -3
     else if run_limit p \<le> int (card (run_holders zs now ks run)) then -2
     else if tenant_limit p \<le> int (card (tenant_holders zs now ks)) then -1
     else now + ttl_ms p)"
  by (simp add: acquire_script_def Let_def zcard_purged tenant_holders_def run_holders_def)

lemma acquire_holders:
  assumes "policy_valid p" and "snd (acquire_script zs p tok run now ks) = now + ttl_ms p"
    and "0 \<le> now"
  shows "tok \<in> tenant_holders zs now (fst (acquire_script zs p tok run now ks)) \<and>
    tok \<in> run_holders zs now (fst (acquire_script zs p tok run now ks)) run"
proof -
  have "1000 \<le> ttl_ms p" by (rule ttl_ms_pos [OF assms(1)])
  then show ?thesis using assms(2,3)
    by (auto simp: acquire_script_def Let_def tenant_holders_def run_holders_def beyond_zadd split: if_splits)
qed

lemma published_limits:
  assumes "capacity_reachable zs cfg now sp"
    and "policy_valid p" and "live_key now (policy_key (sp x)) = Some (fingerprint p)"
  shows "int (card (tenant_holders zs now (sp x))) \<le> tenant_limit p \<and>
    int (card (run_holders zs now (sp x) run)) \<le> run_limit p \<and>
    tenant_holders zs (now + ttl_ms p) (sp x) = {}"
proof -
  from published_quota [OF assms(1,2)] assms(3) obtain gone where q: "quota zs p gone now (sp x)" by blast
  show ?thesis using quotaD(4,5) [OF q] holders_within [OF q] holders_expire [OF q] by simp
qed

lemma acquire_outcome:
  assumes "policy_valid (cap_policy c)"
    and "valid_scope cfg v" and "env_name v = cap_env c" and "0 \<le> now"
    and "acquire zs cfg c v tok Delivered now sp = (sp', r)"
  shows "let ks = sp (tenant_uuid v, env_name v); p = cap_policy c in
    r = (if live_key now (policy_key ks) \<notin> {None, Some (fingerprint p)} then Inl (Failed ErrSchedulingPolicyDrift)
         else if run_limit p \<le> int (card (run_holders zs now ks (run_id v))) then Inl (Failed ErrRunCapacity)
         else if tenant_limit p \<le> int (card (tenant_holders zs now ks)) then Inl (Failed ErrTenantCapacity)
         else Inr \<lparr>lease_identity = v, lease_token = tok\<rparr>) \<and>
    (is_ok r \<longleftrightarrow> r = Inr \<lparr>lease_identity = v, lease_token = tok\<rparr> \<and>
       tok \<in> tenant_holders zs now (sp' (tenant_uuid v, env_name v)) \<and>
       tok \<in> run_holders zs now (sp' (tenant_uuid v, env_name v)) (run_id v))"
proof -
  define ks where "ks = sp (tenant_uuid v, env_name v)"
  define out where "out = acquire_script zs (cap_policy c) tok (run_id v) now ks"
  have ttl: "1000 \<le> ttl_ms (cap_policy c)" by (rule ttl_ms_pos [OF assms(1)])
  have reply: "snd out = (if live_key now (policy_key ks) \<notin> {None, Some (fingerprint (cap_policy c))} then -3
     else if run_limit (cap_policy c) \<le> int (card (run_holders zs now ks (run_id v))) then -2
     else if tenant_limit (cap_policy c) \<le> int (card (tenant_holders zs now ks)) then -1
     else now + ttl_ms (cap_policy c))"
    unfolding out_def by (rule acquire_reply)
  have "sp' (tenant_uuid v, env_name v) = fst out \<and> r =
     (if snd out = -1 then Inl (Failed ErrTenantCapacity)
      else if snd out = -2 then Inl (Failed ErrRunCapacity)
      else if snd out = -3 then Inl (Failed ErrSchedulingPolicyDrift)
      else Inr \<lparr>lease_identity = v, lease_token = tok\<rparr>)"
    using assms(2,3,5) by (auto simp: acquire_def on_keys_def out_def ks_def split: prod.splits)
  moreover have "snd out = now + ttl_ms (cap_policy c) \<Longrightarrow>
      tok \<in> tenant_holders zs now (fst out) \<and> tok \<in> run_holders zs now (fst out) (run_id v)"
    unfolding out_def by (rule acquire_holders) (use assms ttl in simp_all)
  ultimately show ?thesis using reply ttl assms(4)
    by (auto simp: Let_def is_ok_def simp flip: ks_def)
qed

text \<open>A lease can be renewed exactly while its token is held in both sets under the caller's policy.\<close>

lemma renew_reply: "snd (renew_script zs p tok run now ks) = 1 \<longleftrightarrow>
    tok \<in> tenant_holders zs now ks \<and> tok \<in> run_holders zs now ks run \<and>
    live_key now (policy_key ks) = Some (fingerprint p)"
  by (auto simp: renew_script_def Let_def tenant_holders_def run_holders_def beyond_def split: option.splits)

lemma released: "tok \<notin> tenant_holders zs t (fst (release_script zs tok run now ks)) \<and>
    tok \<notin> run_holders zs t (fst (release_script zs tok run now ks)) run"
  by (simp add: release_script_def Let_def tenant_holders_def run_holders_def beyond_zrem)

end

subsection \<open>Properties\<close>

text \<open>C30: The quota is never exceeded. Whatever calls any number of Core processes make, with
  valid policies of their own that may differ, over a network that loses requests and replies:
  under the published policy the tenant never holds more unexpired leases than
  \<open>TenantLimit\<close> and no run more than \<open>RunLimit\<close>, and the slots of workers that stop renewing are
  free again after one lease time.\<close>
theorem quota_never_exceeded:
  assumes "sorted_set zs" and "capacity_reachable zs cfg now sp"
    and "policy_valid p" and "live_key now (policy_key (sp x)) = Some (fingerprint p)"
  shows "int (card (tenant_holders zs now (sp x))) \<le> tenant_limit p \<and>
    int (card (run_holders zs now (sp x) run)) \<le> run_limit p \<and>
    tenant_holders zs (now + ttl_ms p) (sp x) = {}"
  using assms by (rule sorted_set.published_limits)

definition demo_capacity :: execution_capacity where
  "demo_capacity = \<lparr>cap_policy = \<lparr>tenant_limit = 2, run_limit = 1, capacity_ttl = second_ns\<rparr>, cap_env = ''dev''\<rparr>"

definition demo_scope :: snapshot where
  "demo_scope = \<lparr>tenant_uuid = ''t'', env_name = ''dev'', run_id = ''r'', session_id = ''s'',
     message_id = ''m'', trace_id = ''x'', run_status = ''running'', plan_revision = 1, version = 1,
     event_seq = 1, deadline_at = 0, created_at = 0, updated_at = 0, archive_key = [], archived_at = 0\<rparr>"

definition demo_scope_cfg :: run_cfg where
  "demo_scope_cfg = \<lparr>canonical_uuid = (\<lambda>_. True), queue_wait_timeout = 0\<rparr>"

lemma demo_scope_ok [simp]:
  "valid_scope demo_scope_cfg demo_scope" "env_name demo_scope = cap_env demo_capacity"
  "policy_valid (cap_policy demo_capacity)" "ttl_ms (cap_policy demo_capacity) = 1000"
  by (simp_all add: valid_scope_def demo_scope_cfg_def demo_scope_def demo_capacity_def env_pattern_def
      alnum_def policy_valid_def second_ns_def minute_ns_def ttl_ms_def milliseconds_def millisecond_ns_def)

lemma demo_sel [simp]:
  "tenant_limit (cap_policy demo_capacity) = 2" "run_limit (cap_policy demo_capacity) = 1"
  "cap_env demo_capacity = ''dev''" "tenant_uuid demo_scope = ''t''" "env_name demo_scope = ''dev''"
  "run_id demo_scope = ''r''"
  by (simp_all add: demo_capacity_def demo_scope_def)

text \<open>The space after one lease was given at time 1000.\<close>

definition demo_space :: "rows capacity_space" where
  "demo_space = fst (acquire rows_ops demo_scope_cfg demo_capacity demo_scope ''a'' Delivered 1000 (\<lambda>_. no_leases rows_ops))"

lemma demo_space_reachable: "capacity_reachable rows_ops demo_scope_cfg 1000 demo_space"
  unfolding demo_space_def by (intro capacity_reachable.Acquire capacity_reachable.Start) simp

lemma demo_space_keys: "demo_space (''t'', ''dev'') =
    \<lparr>tenant_zset = ([(''a'', 2000)], 3000),
     run_zsets = (\<lambda>_. ([], 0))(''r'' := ([(''a'', 2000)], 3000)),
     policy_key = Some (fingerprint (cap_policy demo_capacity), 3000)\<rparr>"
  by (simp add: demo_space_def acquire_def on_keys_def acquire_script_def no_leases_def Let_def)

theorem quota_never_exceeded_witness:
  "int (card (tenant_holders rows_ops 1000 (demo_space (''t'', ''dev'')))) \<le> tenant_limit (cap_policy demo_capacity) \<and>
   int (card (run_holders rows_ops 1000 (demo_space (''t'', ''dev'')) ''r'')) \<le> run_limit (cap_policy demo_capacity) \<and>
   tenant_holders rows_ops (1000 + ttl_ms (cap_policy demo_capacity)) (demo_space (''t'', ''dev'')) = {}"
  by (rule quota_never_exceeded [OF rows.sorted_set_axioms demo_space_reachable])
    (simp_all add: demo_space_keys)

text \<open>\<open>Acquire\<close> decides on the leases held at that moment. A request that reaches the server
  gets a lease if, and only if, the published policy is the caller's or there is none, the run
  has fewer unexpired leases than \<open>RunLimit\<close> and the tenant fewer than \<open>TenantLimit\<close>; the error
  names the limit that was reached, and a lease that is given is held by its token.\<close>
theorem acquire_decides:
  assumes "sorted_set zs" and "policy_valid (cap_policy c)"
    and "valid_scope cfg v" and "env_name v = cap_env c" and "0 \<le> now"
    and "acquire zs cfg c v tok Delivered now sp = (sp', r)"
  shows "let ks = sp (tenant_uuid v, env_name v); p = cap_policy c in
    r = (if live_key now (policy_key ks) \<notin> {None, Some (fingerprint p)} then Inl (Failed ErrSchedulingPolicyDrift)
         else if run_limit p \<le> int (card (run_holders zs now ks (run_id v))) then Inl (Failed ErrRunCapacity)
         else if tenant_limit p \<le> int (card (tenant_holders zs now ks)) then Inl (Failed ErrTenantCapacity)
         else Inr \<lparr>lease_identity = v, lease_token = tok\<rparr>) \<and>
    (is_ok r \<longleftrightarrow> r = Inr \<lparr>lease_identity = v, lease_token = tok\<rparr> \<and>
       tok \<in> tenant_holders zs now (sp' (tenant_uuid v, env_name v)) \<and>
       tok \<in> run_holders zs now (sp' (tenant_uuid v, env_name v)) (run_id v))"
  using assms by (rule sorted_set.acquire_outcome)

theorem acquire_decides_witness:
  "snd (acquire rows_ops demo_scope_cfg demo_capacity demo_scope ''b'' Delivered 1500 demo_space) =
     Inl (Failed ErrRunCapacity)"
proof -
  obtain sp' r where r: "acquire rows_ops demo_scope_cfg demo_capacity demo_scope ''b'' Delivered 1500 demo_space = (sp', r)"
    by fastforce
  have "run_holders rows_ops 1500 (demo_space (''t'', ''dev'')) ''r'' = {''a''}"
    by (auto simp: demo_space_keys run_holders_def beyond_def split: if_splits)
  moreover have "live_key 1500 (policy_key (demo_space (''t'', ''dev''))) = Some (fingerprint (cap_policy demo_capacity))"
    by (simp add: demo_space_keys)
  ultimately show ?thesis
    using acquire_decides [OF rows.sorted_set_axioms _ _ _ _ r]
    by (simp add: r Let_def)
qed

end
