(* ===== verification/AgentArchive.thy ===== *)
theory AgentArchive imports AgentSchedule ExecutionCapacity "HOL-Library.State_Monad" begin

section \<open>Archiving ended runs\<close>

text \<open>
  \<open>archive.go\<close> and \<open>archive_lifecycle.go\<close>: the health of the archive, which gates the admission
  of new runs; \<open>ArchiveRun\<close>, which writes the report of an ended run to an object store, reads it
  back and only then records its place in the run; and \<open>ExpireArchivedRun\<close>, which lets the keys
  of an archived run expire. The object store is an interface of the code
  (\<open>ReportObjectStore\<close>): here a map from keys to bodies, each call of which may fail with or
  without effect. JSON and SHA-256 are parameters.
\<close>

subsection \<open>The health of the archive\<close>

record archive_policy =
  hot_retention :: duration
  max_pending :: int
  max_age :: duration
  health_ttl :: duration

definition archive_policy_valid :: "archive_policy \<Rightarrow> bool" where
  "archive_policy_valid p \<longleftrightarrow> \<not> (hot_retention p < hour_ns \<or> hot_retention p > 90 * 24 * hour_ns \<or>
     max_pending p < 1 \<or> max_age p < minute_ns \<or> max_age p > 7 * 24 * hour_ns \<or>
     health_ttl p < 3 * second_ns \<or> health_ttl p > 5 * minute_ns)"

definition archive_policy_id :: "archive_policy \<Rightarrow> string" where
  "archive_policy_id p = itoa (hot_retention p) @ CHR '':'' # itoa (max_pending p) @ CHR '':'' #
     itoa (max_age p) @ CHR '':'' # itoa (health_ttl p)"

record archive_health =
  health_policy :: string
  pending :: int
  oldest_at :: "instant option"
  observed_at :: instant
  blocked :: bool
  reason :: string

datatype archive_error = ArchiveInvalid | ErrArchiveBackpressure | ErrArchiveHealthStale

definition archive_health_key :: "string \<Rightarrow> string" where
  "archive_health_key env = ''agent:archive:{'' @ env @ ''}:health''"

text \<open>The health keys of the environments, with their expiry by the server's clock.\<close>

type_synonym health_keys = "string \<Rightarrow> (archive_health \<times> int) option"

definition publish_archive_health :: "link \<Rightarrow> string \<Rightarrow> archive_health \<Rightarrow> archive_policy \<Rightarrow> instant \<Rightarrow> int
    \<Rightarrow> health_keys \<Rightarrow> health_keys \<times> (archive_error remote_error + unit)" where
  "publish_archive_health l env h p clock now ks =
     (if \<not> valid_archive_env env \<or> \<not> archive_policy_valid p \<or> pending h < 0 then (ks, Inl (Failed ArchiveInvalid))
      else
        let full = (max_pending p \<le> pending h \<or>
              (case oldest_at h of None \<Rightarrow> False | Some o' \<Rightarrow> \<not> clock < o' + max_age p));
            h' = h\<lparr>health_policy := archive_policy_id p, observed_at := clock, blocked := full,
              reason := (if full then ''archive.backpressure'' else [])\<rparr>
        in remote l (\<lambda>ks. (ks(archive_health_key env \<mapsto> (h', now + milliseconds (health_ttl p))), ())) ks)"

definition check_archive_admission :: "link \<Rightarrow> string \<Rightarrow> archive_policy \<Rightarrow> instant \<Rightarrow> int
    \<Rightarrow> health_keys \<Rightarrow> archive_error + unit" where
  "check_archive_admission l env p clock now ks =
     (if \<not> valid_archive_env env \<or> \<not> archive_policy_valid p then Inl ArchiveInvalid
      else
        let reply = (snd (remote l (\<lambda>ks. (ks, live_key now (ks (archive_health_key env)))) ks)
              :: archive_error remote_error + archive_health option)
        in case reply of
             Inl _ \<Rightarrow> Inl ErrArchiveHealthStale
           | Inr None \<Rightarrow> Inl ErrArchiveHealthStale
           | Inr (Some h) \<Rightarrow>
               if health_policy h \<noteq> archive_policy_id p \<or> is_zero (observed_at h) \<or> clock < observed_at h \<or>
                  \<not> clock < observed_at h + health_ttl p then Inl ErrArchiveHealthStale
               else if blocked h then Inl ErrArchiveBackpressure
               else Inr ())"

subsection \<open>Reports\<close>

record run_report =
  schema_version :: nat
  report_snapshot :: snapshot
  report_plans :: "run_plan list"
  report_plan :: "run_plan option"
  report_tasks :: "task_snapshot list"
  report_events :: "run_event list"

text \<open>
  Marshalling: the bytes of a report, the bytes of an envelope of a checksum and a report and
  back, and the hexadecimal digest.
\<close>

record report_codec =
  marshal_report :: "run_report \<Rightarrow> string"
  marshal_envelope :: "string \<Rightarrow> run_report \<Rightarrow> string"
  unmarshal_envelope :: "string \<Rightarrow> (string \<times> run_report) option"
  digest_hex :: "string \<Rightarrow> string"

definition max_run_report_bytes :: nat where
  "max_run_report_bytes = 16 * 1024 * 1024"

definition report_object_key :: "snapshot \<Rightarrow> string" where
  "report_object_key v = ''agent-runs/'' @ tenant_uuid v @ ''/'' @ env_name v @ ''/'' @ run_id v @ ''/report-v1.json''"

definition same_report_identity :: "snapshot \<Rightarrow> snapshot \<Rightarrow> bool" where
  "same_report_identity a b \<longleftrightarrow> tenant_uuid a = tenant_uuid b \<and> env_name a = env_name b \<and> run_id a = run_id b \<and>
     session_id a = session_id b \<and> message_id a = message_id b \<and> trace_id a = trace_id b \<and>
     deadline_at a = deadline_at b"

text \<open>The checks of \<open>ReadRunReport\<close> on the body that was read.\<close>

fun events_numbered :: "nat \<Rightarrow> run_event list \<Rightarrow> bool" where
  "events_numbered i [] \<longleftrightarrow> True"
| "events_numbered i (e # es) \<longleftrightarrow> event_no e = i + 1 \<and> events_numbered (i + 1) es"

definition check_report :: "report_codec \<Rightarrow> snapshot \<Rightarrow> string \<Rightarrow> run_error + run_report" where
  "check_report codec ident raw =
     (if raw = [] \<or> max_run_report_bytes < length raw then Inl ErrInvalid
      else case unmarshal_envelope codec raw of
        None \<Rightarrow> Inl (RedisError ''unmarshal'')
      | Some (checksum, r) \<Rightarrow>
          if checksum \<noteq> digest_hex codec (marshal_report codec r) \<or> schema_version r \<noteq> 1 \<or>
             tenant_uuid (report_snapshot r) \<noteq> tenant_uuid ident \<or> env_name (report_snapshot r) \<noteq> env_name ident \<or>
             run_id (report_snapshot r) \<noteq> run_id ident \<or> \<not> same_report_identity (report_snapshot r) ident \<or>
             \<not> terminal (run_status (report_snapshot r)) then Inl ErrInvalid
          else if length (report_events r) \<noteq> event_seq (report_snapshot r) then Inl ErrInvalid
          else if \<not> events_numbered 0 (report_events r) then Inl ErrInvalid
          else Inr r)"

subsection \<open>The world of the archive\<close>

text \<open>
  The keys of the run and their common expiry, the objects, and the number of calls made. Call
  \<open>k\<close> meets the connection \<open>a_conn k\<close>, the object store's answer \<open>a_answer k\<close> (an error, and
  whether the call took effect all the same) and what others have done to the objects before.
\<close>

record archive_env =
  a_conn :: "nat \<Rightarrow> nat \<Rightarrow> surroundings"
  a_answer :: "nat \<Rightarrow> (string \<times> bool) option"
  a_writers :: "nat \<Rightarrow> (string \<Rightarrow> string option) \<Rightarrow> string \<Rightarrow> string option"

record archive_world =
  a_slot :: run_slot
  a_expires :: "instant option"
  a_objects :: "string \<Rightarrow> string option"
  a_tick :: nat
  a_env :: archive_env

type_synonym 'a archiving = "(archive_world, run_error + 'a) state"

definition on_store :: "((nat \<Rightarrow> surroundings) \<Rightarrow> run_slot \<Rightarrow> (run_error + 'a) \<times> run_slot) \<Rightarrow> 'a archiving" where
  "on_store f = State (\<lambda>w. let (r, s) = f (a_conn (a_env w) (a_tick w)) (a_slot w)
     in (r, w\<lparr>a_slot := s, a_tick := Suc (a_tick w)\<rparr>))"

definition read_store :: "(run_slot \<Rightarrow> run_error + 'a) \<Rightarrow> 'a archiving" where
  "read_store f = on_store (\<lambda>env s. let u = at_others (env 0) s
     in (case at_failure (env 0) of Some e \<Rightarrow> Inl (RedisError e) | None \<Rightarrow> f u, u))"

definition put_object :: "string \<Rightarrow> string \<Rightarrow> unit archiving" where
  "put_object key body = State (\<lambda>w.
     let objects = a_writers (a_env w) (a_tick w) (a_objects w);
         w' = w\<lparr>a_objects := objects, a_tick := Suc (a_tick w)\<rparr>; done = w'\<lparr>a_objects := objects(key \<mapsto> body)\<rparr>
     in case a_answer (a_env w) (a_tick w) of
          None \<Rightarrow> (Inr (), done)
        | Some (e, effect) \<Rightarrow> (Inl (RedisError e), if effect then done else w'))"

definition get_object :: "string \<Rightarrow> string archiving" where
  "get_object key = State (\<lambda>w.
     let objects = a_writers (a_env w) (a_tick w) (a_objects w);
         w' = w\<lparr>a_objects := objects, a_tick := Suc (a_tick w)\<rparr>
     in case a_answer (a_env w) (a_tick w) of
          None \<Rightarrow> (case objects key of None \<Rightarrow> Inl (RedisError ''no object'') | Some body \<Rightarrow> Inr body, w')
        | Some (e, _) \<Rightarrow> (Inl (RedisError e), w'))"

definition give :: "run_error + 'a \<Rightarrow> 'a archiving" where
  "give r = State_Monad.return r"

definition and_then :: "'a archiving \<Rightarrow> ('a \<Rightarrow> 'b archiving) \<Rightarrow> 'b archiving" where
  "and_then m f = do { r \<leftarrow> m; case r of Inl e \<Rightarrow> State_Monad.return (Inl e) | Inr x \<Rightarrow> f x }"

subsection \<open>ReadRunReport and ArchiveRun\<close>

definition read_run_report :: "run_cfg \<Rightarrow> report_codec \<Rightarrow> snapshot \<Rightarrow> run_report archiving" where
  "read_run_report cfg codec ident =
     (if \<not> valid_scope cfg ident then give (Inl ErrInvalid)
      else and_then (get_object (report_object_key ident)) (\<lambda>raw. give (check_report codec ident raw)))"

fun collect_tasks :: "run_cfg \<Rightarrow> snapshot \<Rightarrow> nat \<Rightarrow> task_definition list \<Rightarrow> task_snapshot list archiving" where
  "collect_tasks cfg ident rv [] = give (Inr [])"
| "collect_tasks cfg ident rv (d # ds) =
     and_then (read_store (get_task cfg ident rv (def_task_id d))) (\<lambda>t.
     and_then (collect_tasks cfg ident rv ds) (\<lambda>ts. give (Inr (t # ts))))"

text \<open>The loop over the revisions from \<open>rv\<close> on, \<open>n\<close> of them.\<close>

fun collect_plans :: "run_cfg \<Rightarrow> snapshot \<Rightarrow> nat \<Rightarrow> nat \<Rightarrow> (run_plan list \<times> task_snapshot list) archiving" where
  "collect_plans cfg ident rv 0 = give (Inr ([], []))"
| "collect_plans cfg ident rv (Suc n) =
     and_then (read_store (\<lambda>s. case map_of (plans_key s) rv of None \<Rightarrow> Inl (RedisError ''nil'') | Some p \<Rightarrow> Inr p)) (\<lambda>p.
     if plan_rev p \<noteq> rv \<or> \<not> valid_plan p then give (Inl ErrInvalid)
     else and_then (collect_tasks cfg ident rv (plan_tasks p)) (\<lambda>ts.
       and_then (collect_plans cfg ident (Suc rv) n) (\<lambda>(ps, us). give (Inr (p # ps, ts @ us)))))"

text \<open>The checks on a page of events: consecutive numbers, none above the last; and the last one seen.\<close>

fun page_end :: "nat \<Rightarrow> nat \<Rightarrow> run_event list \<Rightarrow> run_error + nat" where
  "page_end last_no after [] = Inr after"
| "page_end last_no after (e # es) =
     (if event_no e \<noteq> inc64 after \<or> last_no < event_no e then Inl ErrEventCursorExpired
      else page_end last_no (event_no e) es)"

text \<open>
  The loop over pages of 1000 events. Every page moves the cursor on, so one turn per event is
  enough fuel: with it the loop never stops for want of turns.
\<close>

fun collect_events :: "nat \<Rightarrow> run_cfg \<Rightarrow> snapshot \<Rightarrow> nat \<Rightarrow> nat \<Rightarrow> run_event list archiving" where
  "collect_events 0 cfg ident last_no after = give (Inr [])"
| "collect_events (Suc n) cfg ident last_no after =
     (if \<not> after < last_no then give (Inr [])
      else and_then (read_store (read_events cfg ident after 1000)) (\<lambda>es.
        if es = [] then give (Inl ErrEventCursorExpired)
        else and_then (give (page_end last_no after es)) (\<lambda>after'.
          and_then (collect_events n cfg ident last_no after') (\<lambda>rest. give (Inr (es @ rest))))))"

text \<open>The transaction that records the locator.\<close>

definition record_archive_tx :: "snapshot \<Rightarrow> string \<Rightarrow> unit tx" where
  "record_archive_tx run key = (True, \<lambda>now s. case state_key s of
     None \<Rightarrow> Inl (RedisError ''decode'')
   | Some cur \<Rightarrow>
       if \<not> terminal (run_status cur) \<or> event_seq cur \<noteq> event_seq run \<or> version cur \<noteq> version run then Inl ErrConflict
       else Inr (Some [HSetState (cur\<lparr>archive_key := key, archived_at := now\<rparr>)], ()))"

text \<open>Its last part: write the report, read it back, and record its place.\<close>

definition write_report :: "run_cfg \<Rightarrow> report_codec \<Rightarrow> snapshot \<Rightarrow> snapshot \<Rightarrow> run_report \<Rightarrow> string archiving" where
  "write_report cfg codec ident run report =
     (let key = report_object_key ident;
          envelope = marshal_envelope codec (digest_hex codec (marshal_report codec report)) report
      in if max_run_report_bytes < length envelope then give (Inl ErrInvalid)
         else and_then (put_object key envelope) (\<lambda>_.
           and_then (read_run_report cfg codec ident) (\<lambda>_.
           and_then (on_store (run_tx 5 watch_state (record_archive_tx run key))) (\<lambda>_.
             give (Inr key)))))"

definition archive_run :: "run_cfg \<Rightarrow> report_codec \<Rightarrow> snapshot \<Rightarrow> string archiving" where
  "archive_run cfg codec ident =
     (if \<not> valid_scope cfg ident then give (Inl ErrInvalid)
      else and_then (read_store (get_run cfg ident)) (\<lambda>run.
        let key = report_object_key ident
        in if \<not> terminal (run_status run) \<or> \<not> same_report_identity run ident then give (Inl ErrConflict)
           else if archive_key run \<noteq> [] then
             (if archive_key run \<noteq> key then give (Inl ErrConflict)
              else and_then (read_run_report cfg codec ident) (\<lambda>_. give (Inr key)))
           else and_then (read_store (list_tasks cfg ident 0)) (\<lambda>planning.
             and_then (collect_plans cfg ident 1 (plan_revision run)) (\<lambda>(ps, ts).
             and_then (collect_events (event_seq run) cfg ident (event_seq run) 0) (\<lambda>es.
               let report = \<lparr>schema_version = 1, report_snapshot = run, report_plans = ps,
                     report_plan = (if ps = [] then None else Some (last ps)), report_tasks = planning @ ts,
                     report_events = es\<rparr>
               in write_report cfg codec ident run report)))))"

subsection \<open>ExpireArchivedRun\<close>

text \<open>
  The transaction sets no key of the run but the expiry of all six; it has effect when it
  commits with the answer \<open>True\<close>.
\<close>

definition expire_archived_tx :: "snapshot \<Rightarrow> run_report \<Rightarrow> instant \<Rightarrow> bool tx" where
  "expire_archived_tx ident report at = (True, \<lambda>now s. case state_key s of
     None \<Rightarrow> if \<not> now < at then Inr (None, False) else Inl ErrNotFound
   | Some cur \<Rightarrow>
       if \<not> terminal (run_status cur) \<or> \<not> same_report_identity cur ident \<or> archive_key cur \<noteq> report_object_key ident \<or>
          is_zero (archived_at cur) \<or> version cur \<noteq> version (report_snapshot report) \<or>
          event_seq cur \<noteq> event_seq (report_snapshot report) \<or> \<not> archived_at cur < at then Inl ErrConflict
       else Inr (Some [], True))"

definition expire_archived_run :: "run_cfg \<Rightarrow> report_codec \<Rightarrow> snapshot \<Rightarrow> instant \<Rightarrow> unit archiving" where
  "expire_archived_run cfg codec ident at =
     (if \<not> valid_scope cfg ident \<or> is_zero at then give (Inl ErrInvalid)
      else and_then (read_run_report cfg codec ident) (\<lambda>report. do {
        r \<leftarrow> on_store (run_tx 5 watch_state (expire_archived_tx ident report at));
        w \<leftarrow> State_Monad.get;
        _ \<leftarrow> State_Monad.set (if r = Inr True then w\<lparr>a_expires := Some at\<rparr> else w);
        give (case r of Inl e \<Rightarrow> Inl e | Inr _ \<Rightarrow> Inr ()) }))"

subsection \<open>The transactions decide on the state they watch\<close>

interpretation record_otx: optimistic_tx watch_state "snd (record_archive_tx run key)" for run key
  by unfold_locales (simp add: record_archive_tx_def watch_state_def)

interpretation expire_otx: optimistic_tx watch_state "snd (expire_archived_tx ident report at)" for ident report at
  by unfold_locales (simp add: expire_archived_tx_def watch_state_def)

definition archived_run :: "snapshot \<Rightarrow> snapshot \<Rightarrow> bool" where
  "archived_run ident cur \<longleftrightarrow> terminal (run_status cur) \<and> archive_key cur = report_object_key ident"

lemma recorded:
  assumes "run_tx 5 watch_state (record_archive_tx run key) env s = (Inr x, s')"
  shows "\<exists>cur. state_key s' = Some cur \<and> terminal (run_status cur) \<and> archive_key cur = key \<and>
    version cur = version run \<and> event_seq cur = event_seq run"
proof -
  have "watch_loop 5 watch_state (snd (record_archive_tx run key)) env s = (Inr x, s')"
    using assms by (simp add: run_tx_def record_archive_tx_def)
  from record_otx.watch_loop_atomic [OF this] show ?thesis
    by (auto simp: Let_def record_archive_tx_def split: option.splits if_splits)
qed

lemma expired:
  assumes "run_tx 5 watch_state (expire_archived_tx ident report at) env s = (Inr True, s')"
  shows "\<exists>cur. state_key s' = Some cur \<and> terminal (run_status cur) \<and> archive_key cur = report_object_key ident \<and>
    version cur = version (report_snapshot report) \<and> event_seq cur = event_seq (report_snapshot report) \<and>
    archived_at cur < at"
proof -
  have "watch_loop 5 watch_state (snd (expire_archived_tx ident report at)) env s = (Inr True, s')"
    using assms by (simp add: run_tx_def expire_archived_tx_def)
  from expire_otx.watch_loop_atomic [OF this] show ?thesis
    by (auto simp: Let_def expire_archived_tx_def split: option.splits if_splits)
qed

subsection \<open>Running\<close>

named_theorems archives "what one step of an archiving program gives"

lemma run_give [archives]: "run_state (give r) w = (x, w') \<longleftrightarrow> x = r \<and> w' = w"
  by (auto simp: give_def)

lemma run_and_then [archives]: "run_state (and_then m f) w = (y, w') \<longleftrightarrow>
    (\<exists>x v. run_state m w = (Inr x, v) \<and> run_state (f x) v = (y, w')) \<or>
    (\<exists>e. run_state m w = (Inl e, w') \<and> y = Inl e)"
proof -
  obtain r v where m: "run_state m w = (r, v)" by fastforce
  show ?thesis by (cases r) (auto simp: and_then_def run_state_bind m)
qed

lemma run_on_store [archives]: "run_state (on_store f) w = (r, w') \<longleftrightarrow>
    (\<exists>s. f (a_conn (a_env w) (a_tick w)) (a_slot w) = (r, s) \<and> w' = w\<lparr>a_slot := s, a_tick := Suc (a_tick w)\<rparr>)"
  by (auto simp: on_store_def split: prod.splits)

lemma run_get_set [simp]: "run_state State_Monad.get w = (w, w)" "run_state (State_Monad.set v) w = ((), v)"
  by (simp_all add: State_Monad.get_def State_Monad.set_def)

text \<open>What a program leaves as it is.\<close>

definition untouching :: "(archive_world \<Rightarrow> 'b) \<Rightarrow> 'a archiving \<Rightarrow> bool" where
  "untouching f m \<longleftrightarrow> (\<forall>w r w'. run_state m w = (r, w') \<longrightarrow> f w' = f w)"

lemma untouchingD: "untouching f m \<Longrightarrow> run_state m w = (r, w') \<Longrightarrow> f w' = f w"
  by (simp add: untouching_def)

lemma untouching_give: "untouching f (give r)"
  by (simp add: untouching_def archives)

lemma untouching_and_then: "untouching f m \<Longrightarrow> (\<And>x. untouching f (g x)) \<Longrightarrow> untouching f (and_then m g)"
  unfolding untouching_def run_and_then by metis

lemma on_store_expiry: "untouching a_expires (on_store f)"
  by (auto simp: untouching_def archives)

lemma on_store_objects: "untouching a_objects (on_store f)"
  by (auto simp: untouching_def archives)

lemma get_object_expiry: "untouching a_expires (get_object key)"
  by (auto simp: untouching_def get_object_def Let_def split: option.splits)

lemma get_object_body: "run_state (get_object key) w = (Inr body, w') \<Longrightarrow> a_objects w' key = Some body"
  by (auto simp: get_object_def Let_def split: option.splits)

lemma read_report_expiry: "untouching a_expires (read_run_report cfg codec ident)"
  by (simp add: read_run_report_def untouching_and_then untouching_give get_object_expiry)

text \<open>The report that was read is the object as it was then.\<close>

lemma read_report_reads:
  "run_state (read_run_report cfg codec ident) w = (Inr rep, w') \<Longrightarrow>
   \<exists>raw. a_objects w' (report_object_key ident) = Some raw \<and> check_report codec ident raw = Inr rep"
  by (auto simp: read_run_report_def archives split: if_splits dest: get_object_body)

text \<open>A report that passes the checks is that of the run, which has ended, with every event it had.\<close>

lemma events_numbered_upt: "events_numbered i es \<Longrightarrow> map event_no es = [Suc i..<Suc (i + length es)]"
  by (induction es arbitrary: i) (auto simp: upt_conv_Cons simp del: upt_Suc)

lemma check_report_complete:
  assumes "check_report codec ident raw = Inr rep"
  shows "same_report_identity (report_snapshot rep) ident \<and> terminal (run_status (report_snapshot rep)) \<and>
    map event_no (report_events rep) = [1..<Suc (event_seq (report_snapshot rep))]"
  using assms events_numbered_upt [of 0 "report_events rep"]
  by (auto simp: check_report_def split: if_splits option.splits simp del: upt_Suc)

definition holds_report :: "report_codec \<Rightarrow> snapshot \<Rightarrow> (string \<Rightarrow> string option) \<Rightarrow> run_report \<Rightarrow> bool" where
  "holds_report codec ident objects rep \<longleftrightarrow>
     (\<exists>raw. objects (report_object_key ident) = Some raw \<and> check_report codec ident raw = Inr rep)"

lemma expire_cases:
  assumes "run_state (expire_archived_run cfg codec ident at) w = (r, w')" "a_expires w' \<noteq> a_expires w"
  shows "a_expires w' = Some at \<and> (\<exists>rep cur. holds_report codec ident (a_objects w') rep \<and>
    state_key (a_slot w') = Some cur \<and> archived_run ident cur \<and> archived_at cur < at \<and>
    version cur = version (report_snapshot rep) \<and> event_seq cur = event_seq (report_snapshot rep))"
proof (cases "\<not> valid_scope cfg ident \<or> is_zero at")
  case True
  then show ?thesis using assms by (auto simp: expire_archived_run_def archives split: if_splits)
next
  case False
  note e = assms(1) [unfolded expire_archived_run_def if_not_P [OF False] run_and_then]
  from e show ?thesis
  proof (elim disjE exE conjE)
    fix rep v
    assume read: "run_state (read_run_report cfg codec ident) w = (Inr rep, v)"
      and rest: "run_state (do {
        r \<leftarrow> on_store (run_tx 5 watch_state (expire_archived_tx ident rep at));
        w \<leftarrow> State_Monad.get;
        _ \<leftarrow> State_Monad.set (if r = Inr True then w\<lparr>a_expires := Some at\<rparr> else w);
        give (case r of Inl e \<Rightarrow> Inl e | Inr _ \<Rightarrow> Inr ()) }) v = (r, w')"
    obtain x u where tx: "run_state (on_store (run_tx 5 watch_state (expire_archived_tx ident rep at))) v = (x, u)"
      by fastforce
    have w': "w' = (if x = Inr True then u\<lparr>a_expires := Some at\<rparr> else u)"
      using rest by (auto simp: run_state_bind tx archives)
    have same: "a_expires u = a_expires w" "a_objects u = a_objects v"
      using untouchingD [OF on_store_expiry tx] untouchingD [OF read_report_expiry read]
        untouchingD [OF on_store_objects tx] by simp_all
    then have x: "x = Inr True" using w' assms(2) by (auto split: if_splits)
    with tx obtain s where "run_tx 5 watch_state (expire_archived_tx ident rep at)
        (a_conn (a_env v) (a_tick v)) (a_slot v) = (Inr True, s)" and u: "a_slot u = s"
      by (auto simp: archives)
    from expired [OF this(1)] show ?thesis
      using read_report_reads [OF read] x w' same u by (auto simp: holds_report_def archived_run_def)
  next
    fix e assume "run_state (read_run_report cfg codec ident) w = (Inl e, w')"
    then show ?thesis using untouchingD [OF read_report_expiry] assms(2) by blast
  qed
qed

lemma run_read_store: "run_state (read_store f) w = (Inr x, v) \<Longrightarrow>
    f (a_slot v) = Inr x \<and> a_slot v = at_others (a_conn (a_env w) (a_tick w) 0) (a_slot w)"
  by (auto simp: read_store_def archives Let_def split: option.splits)

lemma write_and_record:
  assumes "run_state (write_report cfg codec ident run report) w = (Inr k, w')"
  shows "k = report_object_key ident \<and> (\<exists>rep. holds_report codec ident (a_objects w') rep) \<and>
    (\<exists>cur. state_key (a_slot w') = Some cur \<and> archived_run ident cur)"
proof -
  let ?key = "report_object_key ident"
  from assms(1) obtain v rep u x where read: "run_state (read_run_report cfg codec ident) v = (Inr rep, u)"
    and tx: "run_state (on_store (run_tx 5 watch_state (record_archive_tx run ?key))) u = (Inr x, w')" and "k = ?key"
    by (auto simp: write_report_def Let_def run_and_then run_give split: if_splits)
  from tx obtain s where "run_tx 5 watch_state (record_archive_tx run ?key) (a_conn (a_env u) (a_tick u)) (a_slot u) = (Inr x, s)"
    and "a_slot w' = s" by (auto simp: archives)
  moreover have "a_objects w' = a_objects u" using untouchingD [OF on_store_objects tx] .
  ultimately show ?thesis using recorded read_report_reads [OF read] \<open>k = ?key\<close>
    by (fastforce simp: holds_report_def archived_run_def)
qed

lemma archive_cases:
  assumes "run_state (archive_run cfg codec ident) w = (Inr key, w')"
  shows "key = report_object_key ident \<and> (\<exists>rep. holds_report codec ident (a_objects w') rep) \<and>
    ((\<exists>cur. state_key (a_slot w') = Some cur \<and> archived_run ident cur) \<or>
     (\<exists>cur. state_key (at_others (a_conn (a_env w) (a_tick w) 0) (a_slot w)) = Some cur \<and> archived_run ident cur))"
proof -
  from assms have scope: "valid_scope cfg ident" by (auto simp: archive_run_def archives split: if_splits)
  with assms obtain run v where get: "run_state (read_store (get_run cfg ident)) w = (Inr run, v)"
    unfolding archive_run_def by (auto simp: run_and_then)
  note run = run_read_store [OF get]
  note rest = assms [unfolded archive_run_def, simplified scope, simplified, unfolded run_and_then get prod.inject, simplified]
  show ?thesis
  proof (cases "archive_key run = []")
    case False
    with rest have "archive_key run = report_object_key ident" "terminal (run_status run)"
      by (auto simp: Let_def archives split: if_splits)
    moreover from rest False this obtain rep where "run_state (read_run_report cfg codec ident) v = (Inr rep, w')"
      and "key = report_object_key ident"
      by (auto simp: Let_def archives split: if_splits)
    moreover have "state_key (at_others (a_conn (a_env w) (a_tick w) 0) (a_slot w)) = Some run"
      using run by (auto simp: get_run_def scope split: option.splits)
    ultimately show ?thesis using read_report_reads by (fastforce simp: holds_report_def archived_run_def)
  next
    case True
    with rest obtain report u where "run_state (write_report cfg codec ident run report) u = (Inr key, w')"
      by (auto simp: Let_def archives split: if_splits prod.splits)
    from write_and_record [OF this] show ?thesis by blast
  qed
qed

text \<open>The pages join up: with one turn per event the loop returns every event up to the last.\<close>

lemma page_end_upt:
  assumes "page_end last_no after es = Inr after'" "last_no < max_uint64" "after \<le> last_no"
  shows "map event_no es = [Suc after..<Suc after'] \<and> after' = after + length es \<and> after' \<le> last_no"
  using assms
proof (induction last_no after es rule: page_end.induct)
  case (2 last_no after e es)
  then have e: "event_no e = Suc after" "Suc after \<le> last_no" "page_end last_no (Suc after) es = Inr after'"
    by (auto simp: inc64_small split: if_splits)
  then show ?case using 2 by (auto simp: upt_conv_Cons inc64_small simp del: upt_Suc)
qed simp

lemma collect_events_complete:
  assumes "run_state (collect_events n cfg ident last_no after) w = (Inr es, w')"
    and "last_no < max_uint64" "after \<le> last_no" "last_no - after \<le> n"
  shows "map event_no es = [Suc after..<Suc last_no]"
  using assms
proof (induction n arbitrary: after w es)
  case 0
  then show ?case by (auto simp: archives simp del: upt_Suc)
next
  case (Suc n)
  show ?case
  proof (cases "after < last_no")
    case False
    then show ?thesis using Suc.prems by (auto simp: archives simp del: upt_Suc)
  next
    case True
    with Suc.prems obtain page after' rest v where page: "page \<noteq> []" "page_end last_no after page = Inr after'"
      and rest: "run_state (collect_events n cfg ident last_no after') v = (Inr rest, w')" and es: "es = page @ rest"
      by (auto simp: archives split: if_splits) metis
    from page_end_upt [OF page(2) Suc.prems(2,3)]
    have p: "map event_no page = [Suc after..<Suc after']" "after' = after + length page" "after' \<le> last_no" by auto
    have "last_no - after' \<le> n" using p page(1) Suc.prems(4) by (cases page) auto
    from Suc.IH [OF rest Suc.prems(2) p(3) this] have "map event_no rest = [Suc after'..<Suc last_no]" .
    then show ?thesis using p es upt_add_eq_append [of "Suc after" "Suc after'" "last_no - after'"]
      by (simp del: upt_Suc)
  qed
qed

subsection \<open>Properties\<close>

lemma archive_policy_id_inj:
  assumes "archive_policy_valid p" and "archive_policy_valid q"
  shows "archive_policy_id p = archive_policy_id q \<longleftrightarrow> p = q"
proof
  assume eq: "archive_policy_id p = archive_policy_id q"
  have pos: "0 \<le> hot_retention v \<and> 0 \<le> max_pending v \<and> 0 \<le> max_age v \<and> 0 \<le> health_ttl v"
    if "archive_policy_valid v" for v
    using that by (auto simp: archive_policy_valid_def hour_ns_def minute_ns_def second_ns_def)
  have cut: "itoa a @ CHR '':'' # x = itoa b @ CHR '':'' # y \<Longrightarrow> 0 \<le> a \<Longrightarrow> 0 \<le> b \<Longrightarrow> a = b \<and> x = y" for a b x y
    using colon_split_unique [OF itoa_nat_no_colon itoa_nat_no_colon, of "nat a" x "nat b" y]
    by (auto simp: itoa_pos itoa_nat_inj)
  have last: "itoa a = itoa b \<Longrightarrow> 0 \<le> a \<Longrightarrow> 0 \<le> b \<Longrightarrow> a = b" for a b
    by (simp add: itoa_pos itoa_nat_inj)
  from eq have "hot_retention p = hot_retention q \<and> max_pending p = max_pending q \<and> max_age p = max_age q \<and>
      health_ttl p = health_ttl q"
    using pos [OF assms(1)] pos [OF assms(2)] unfolding archive_policy_id_def by (metis cut last)
  then show "p = q" by simp
qed simp

text \<open>The archive's health gates the admission of runs exactly. After a process published the
  health, a check admits a run if, and only if, the read succeeds before the key expires, the
  checker has the very policy that was published, the report is not from the future and younger
  than \<open>HealthTTL\<close>, fewer than \<open>MaxPending\<close> runs were pending, and the oldest was younger than
  \<open>MaxAge\<close>; otherwise it reports backpressure when only the load stands against it, and a stale
  health in every other case.\<close>
theorem archive_admission_exact:
  assumes "valid_archive_env env" and "archive_policy_valid p" and "archive_policy_valid q"
    and "publish_archive_health Delivered env h p t now ks = (ks', Inr ())" and "\<not> is_zero t"
  shows "let fresh = (l = Delivered \<and> now' \<le> now + milliseconds (health_ttl p) \<and> q = p \<and> t \<le> t' \<and> t' < t + health_ttl p);
      full = (max_pending p \<le> pending h \<or> (\<exists>o'. oldest_at h = Some o' \<and> o' + max_age p \<le> t))
    in check_archive_admission l env q t' now' ks' =
      (if \<not> fresh then Inl ErrArchiveHealthStale else if full then Inl ErrArchiveBackpressure else Inr ())"
proof -
  have id: "archive_policy_id p = archive_policy_id q \<longleftrightarrow> q = p"
    using archive_policy_id_inj [OF assms(2,3)] by auto
  have ks': "ks' (archive_health_key env) = Some (h\<lparr>health_policy := archive_policy_id p, observed_at := t,
      blocked := (max_pending p \<le> pending h \<or> (case oldest_at h of None \<Rightarrow> False | Some o' \<Rightarrow> \<not> t < o' + max_age p)),
      reason := (if max_pending p \<le> pending h \<or> (case oldest_at h of None \<Rightarrow> False | Some o' \<Rightarrow> \<not> t < o' + max_age p)
        then ''archive.backpressure'' else [])\<rparr>, now + milliseconds (health_ttl p))"
    using assms(4) by (auto simp: publish_archive_health_def Let_def split: if_splits)
  show ?thesis
  proof (cases l)
    case Delivered
    then show ?thesis using assms id
      by (auto simp: check_archive_admission_def Let_def ks' not_less not_le split: option.splits)
  qed (use assms in \<open>simp_all add: check_archive_admission_def Let_def\<close>)
qed

text \<open>C35: No history is lost. \<open>ExpireArchivedRun\<close>, whatever others do to the run and to the objects
  meanwhile, gives the run's keys an expiry only when the run has ended, its place in the archive
  is recorded from before that time, and the object store holds a report of it that passes every
  check, is of the same version, and has every event of the run, numbered without a gap.\<close>
theorem history_expires_only_after_archive:
  assumes "run_state (expire_archived_run cfg codec ident at) w = (r, w')" and "a_expires w' \<noteq> a_expires w"
  shows "a_expires w' = Some at \<and> (\<exists>rep cur. holds_report codec ident (a_objects w') rep \<and>
    state_key (a_slot w') = Some cur \<and> archived_run ident cur \<and> archived_at cur < at \<and>
    version cur = version (report_snapshot rep) \<and>
    map event_no (report_events rep) = [1..<Suc (event_seq cur)])"
  using expire_cases [OF assms] check_report_complete unfolding holds_report_def by metis

text \<open>A recorded archive is readable. When \<open>ArchiveRun\<close> returns a locator, the object store holds
  under it a report of the run that passes every check, and the run is recorded as archived
  there: by this call, or already when it began.\<close>
theorem archived_run_is_readable:
  assumes "run_state (archive_run cfg codec ident) w = (Inr key, w')"
  shows "key = report_object_key ident \<and> (\<exists>rep. holds_report codec ident (a_objects w') rep) \<and>
    ((\<exists>cur. state_key (a_slot w') = Some cur \<and> archived_run ident cur) \<or>
     (\<exists>cur. state_key (at_others (a_conn (a_env w) (a_tick w) 0) (a_slot w)) = Some cur \<and> archived_run ident cur))"
  by (rule archive_cases [OF assms])

subsection \<open>Witnesses\<close>

definition demo_archive_policy :: archive_policy where
  "demo_archive_policy = \<lparr>hot_retention = hour_ns, max_pending = 10, max_age = minute_ns, health_ttl = 3 * second_ns\<rparr>"

definition demo_health :: archive_health where
  "demo_health = \<lparr>health_policy = [], pending = 10, oldest_at = None, observed_at = 0, blocked = False, reason = []\<rparr>"

lemma demo_archive_ok: "archive_policy_valid demo_archive_policy" "valid_archive_env ''dev''"
  "milliseconds (health_ttl demo_archive_policy) = 3000"
  by code_simp+

theorem archive_admission_exact_witness:
  "\<exists>ks'. publish_archive_health Delivered ''dev'' demo_health demo_archive_policy 5 0 (\<lambda>_. None) = (ks', Inr ()) \<and>
     check_archive_admission Delivered ''dev'' demo_archive_policy 6 100 ks' = Inl ErrArchiveBackpressure"
proof -
  obtain ks' where p: "publish_archive_health Delivered ''dev'' demo_health demo_archive_policy 5 0 (\<lambda>_. None) = (ks', Inr ())"
    using demo_archive_ok by (auto simp: publish_archive_health_def Let_def demo_health_def)
  have z: "\<not> is_zero 5" by (simp add: is_zero_def zero_time_def second_ns_def)
  have "(6::int) < 5 + health_ttl demo_archive_policy" by code_simp
  moreover have "max_pending demo_archive_policy \<le> pending demo_health" by code_simp
  ultimately show ?thesis
    using archive_admission_exact [OF demo_archive_ok(2,1,1) p z, of Delivered 100 6] p
    by (auto simp: Let_def demo_archive_ok(3))
qed

text \<open>A run that has ended, with its one event and its report: marshalling is a parameter, here the
  constant encoding of this report.\<close>

definition demo_ended :: snapshot where
  "demo_ended = demo_scope\<lparr>run_status := ''completed'', plan_revision := 0, archived_at := 7,
     archive_key := report_object_key demo_scope\<rparr>"

definition demo_report :: run_report where
  "demo_report = \<lparr>schema_version = 1, report_snapshot = demo_ended, report_plans = [], report_plan = None,
     report_tasks = [], report_events = [to_event (run_entry 1 ''agent_run.started'' ''completed'' 0)]\<rparr>"

definition demo_codec :: report_codec where
  "demo_codec = \<lparr>marshal_report = (\<lambda>_. ''r''), marshal_envelope = (\<lambda>_ _. ''e''),
     unmarshal_envelope = (\<lambda>raw. if raw = ''e'' then Some (''d'', demo_report) else None), digest_hex = (\<lambda>_. ''d'')\<rparr>"

definition demo_archive :: archive_world where
  "demo_archive = \<lparr>a_slot = no_run\<lparr>state_key := Some demo_ended\<rparr>, a_expires = None,
     a_objects = [report_object_key demo_scope \<mapsto> ''e''], a_tick = 0,
     a_env = \<lparr>a_conn = (\<lambda>_ _. quiet 9), a_answer = (\<lambda>_. None), a_writers = (\<lambda>_ o'. o')\<rparr>\<rparr>"

lemma demo_report_ok: "check_report demo_codec demo_ended ''e'' = Inr demo_report"
  "report_object_key demo_ended = report_object_key demo_scope"
  by (simp_all add: check_report_def demo_codec_def demo_report_def demo_ended_def demo_scope_def max_run_report_bytes_def
      same_report_identity_def terminal_def to_event_def run_entry_def report_object_key_def)

lemma demo_expires: "\<exists>r w'. run_state (expire_archived_run demo_scope_cfg demo_codec demo_ended 100) demo_archive = (r, w') \<and>
    a_expires w' = Some 100"
proof -
  have scope: "valid_scope demo_scope_cfg demo_ended"
    using demo_scope_ok(1) by (simp add: valid_scope_def demo_ended_def)
  have checks: "\<not> is_zero 100" "\<not> is_zero 7" by (simp_all add: is_zero_def zero_time_def second_ns_def)
  have read: "run_state (read_run_report demo_scope_cfg demo_codec demo_ended) demo_archive =
      (Inr demo_report, demo_archive\<lparr>a_tick := 1\<rparr>)"
    by (simp add: read_run_report_def scope and_then_def give_def get_object_def run_state_bind demo_archive_def
        demo_report_ok Let_def)
  have "snd (expire_archived_tx demo_ended demo_report 100) 9 (a_slot demo_archive) = Inr (Some [], True)"
    by (simp add: expire_archived_tx_def demo_archive_def demo_report_def demo_ended_def terminal_def checks
        same_report_identity_def report_object_key_def)
  then have tx: "run_tx 5 watch_state (expire_archived_tx demo_ended demo_report 100) (\<lambda>_. quiet 9) (a_slot demo_archive) =
      (Inr True, a_slot demo_archive)"
    by (simp add: run_tx_def numeral_eq_Suc quiet_def Let_def) (simp add: expire_archived_tx_def)
  show ?thesis
    using tx by (simp add: expire_archived_run_def scope checks and_then_def run_state_bind read on_store_def give_def)
      (simp add: demo_archive_def)
qed

theorem history_expires_only_after_archive_witness:
  "\<exists>(w' :: archive_world) rep. a_expires w' = Some 100 \<and> holds_report demo_codec demo_ended (a_objects w') rep"
proof -
  obtain r w' where run: "run_state (expire_archived_run demo_scope_cfg demo_codec demo_ended 100) demo_archive = (r, w')"
    and e: "a_expires w' = Some 100" using demo_expires by blast
  have "a_expires demo_archive = None" by (simp add: demo_archive_def)
  with history_expires_only_after_archive [OF run] e show ?thesis by auto
qed

text \<open>Archiving that run again finds it recorded, and reads its report.\<close>

lemma demo_rearchives: "\<exists>w'. run_state (archive_run demo_scope_cfg demo_codec demo_ended) demo_archive =
    (Inr (report_object_key demo_ended), w')"
proof -
  have scope: "valid_scope demo_scope_cfg demo_ended"
    using demo_scope_ok(1) by (simp add: valid_scope_def demo_ended_def)
  have key: "archive_key demo_ended = report_object_key demo_ended" "report_object_key demo_ended \<noteq> []"
    "terminal (run_status demo_ended)" "same_report_identity demo_ended demo_ended"
    by (simp_all add: demo_report_ok(2)) (simp_all add: demo_ended_def terminal_def same_report_identity_def report_object_key_def)
  show ?thesis
    by (simp add: archive_run_def scope and_then_def give_def read_store_def on_store_def run_state_bind demo_archive_def
        get_run_def key quiet_def Let_def read_run_report_def get_object_def demo_report_ok(1)
        flip: demo_report_ok(2))
qed

theorem archived_run_is_readable_witness:
  "\<exists>(w' :: archive_world) rep. holds_report demo_codec demo_ended (a_objects w') rep"
proof -
  obtain w' where run: "run_state (archive_run demo_scope_cfg demo_codec demo_ended) demo_archive =
    (Inr (report_object_key demo_ended), w')" using demo_rearchives by blast
  from archived_run_is_readable [OF run] show ?thesis by blast
qed

end
