(* ===== verification/ModelPool.thy ===== *)
theory ModelPool imports RedisKeys AgentRun begin

section \<open>The model pool\<close>

text \<open>
  \<open>internal/service/agent_run/model_pool.go\<close>: the slots of a model deployment, shared by all
  Core instances and tenants. A slot is a token in a sorted set scored by its expiry. Callers
  that find no slot may wait: they get a ticket in \<open>wait_order\<close> and must poll, each poll
  refreshing their entry in \<open>wait_expiry\<close>. The capacity is published by the first caller.
  The methods run the Lua scripts over the network; \<open>WaitAcquire\<close> polls until it has a slot or
  its context ends, and cancels its ticket in any case. None of the keys expires.
\<close>

subsection \<open>The keys and the scripts\<close>

record 'z model_pool =
  slots :: 'z
  published :: "int option"
  wait_order :: 'z
  wait_expiry :: 'z
  wait_sequence :: nat

record model_lease =
  ml_pool :: string
  ml_owner :: string
  ml_token :: string
  ml_expires :: int

datatype pool_error = PoolInvalid | ErrModelPoolFull | ErrPoolCapacityDrift | ErrModelLeaseStale
  | ErrModelQueueFull | ContextDone

definition model_pool_keys :: "(string \<Rightarrow> string) \<Rightarrow> string \<Rightarrow> string \<times> string" where
  "model_pool_keys digest pool =
     (let base = ''agent:model:{'' @ digest pool @ ''}'' in (base @ '':slots'', base @ '':capacity''))"

definition model_wait_keys :: "(string \<Rightarrow> string) \<Rightarrow> string \<Rightarrow> string \<times> string \<times> string" where
  "model_wait_keys digest pool =
     (let s = fst (model_pool_keys digest pool);
          base = (if suffix '':slots'' s then take (length s - length '':slots'') s else s)
      in (base @ '':wait_order'', base @ '':wait_expiry'', base @ '':wait_sequence''))"

definition valid_model_pool_args :: "string \<Rightarrow> string \<Rightarrow> int \<Rightarrow> duration \<Rightarrow> bool" where
  "valid_model_pool_args pool owner capacity ttl \<longleftrightarrow>
     \<not> blank pool \<and> length pool \<le> 256 \<and> \<not> blank owner \<and> length owner \<le> 256 \<and>
     1 \<le> capacity \<and> capacity \<le> 10000 \<and> second_ns \<le> ttl \<and> ttl \<le> hour_ns"

definition no_slots :: "'z zset_ops \<Rightarrow> 'z model_pool" where
  "no_slots zs = \<lparr>slots = zempty zs, published = None, wait_order = zempty zs, wait_expiry = zempty zs,
     wait_sequence = 0\<rparr>"

text \<open>The beginning of both acquiring scripts: publish the capacity, drop what has expired.\<close>

definition sweep :: "'z zset_ops \<Rightarrow> int \<Rightarrow> int \<Rightarrow> 'z model_pool \<Rightarrow> 'z model_pool" where
  "sweep zs capacity now p =
     (let expired = zupto zs (wait_expiry p) now
      in p\<lparr>published := Some capacity,
           slots := zrem_upto zs (slots p) now,
           wait_order := fold (\<lambda>m z. zrem zs z m) expired (wait_order p),
           wait_expiry := fold (\<lambda>m z. zrem zs z m) expired (wait_expiry p)\<rparr>)"

definition drifts :: "int \<Rightarrow> 'z model_pool \<Rightarrow> bool" where
  "drifts capacity p \<longleftrightarrow> published p \<noteq> None \<and> published p \<noteq> Some capacity"

definition acquire_slot_script :: "'z zset_ops \<Rightarrow> int \<Rightarrow> int \<Rightarrow> string \<Rightarrow> int \<Rightarrow> 'z model_pool
    \<Rightarrow> 'z model_pool \<times> int" where
  "acquire_slot_script zs capacity ttl tok now p =
     (if drifts capacity p then (p, -1)
      else
        let p = sweep zs capacity now p
        in if 0 < zcard zs (wait_order p) then (p, 0)
           else if capacity \<le> int (zcard zs (slots p)) then (p, 0)
           else (p\<lparr>slots := zadd zs (slots p) (now + ttl) tok\<rparr>, now + ttl))"

definition wait_slot_script :: "'z zset_ops \<Rightarrow> int \<Rightarrow> int \<Rightarrow> string \<Rightarrow> int \<Rightarrow> int \<Rightarrow> int \<Rightarrow> 'z model_pool
    \<Rightarrow> 'z model_pool \<times> int" where
  "wait_slot_script zs capacity ttl tok max_waiting patience now p =
     (if drifts capacity p then (p, -1)
      else
        let p = sweep zs capacity now p;
            new = zscore zs (wait_order p) tok = None
        in if new \<and> max_waiting \<le> int (zcard zs (wait_order p)) then (p, -2)
           else
             let p = (if new then p\<lparr>wait_sequence := Suc (wait_sequence p),
                     wait_order := zadd zs (wait_order p) (int (Suc (wait_sequence p))) tok\<rparr> else p);
                 p = p\<lparr>wait_expiry := zadd zs (wait_expiry p) (now + patience) tok\<rparr>
             in if zfirst zs (wait_order p) \<noteq> Some tok \<or> capacity \<le> int (zcard zs (slots p)) then (p, 0)
                else (p\<lparr>wait_order := zrem zs (wait_order p) tok,
                        wait_expiry := zrem zs (wait_expiry p) tok,
                        slots := zadd zs (slots p) (now + ttl) tok\<rparr>, now + ttl))"

definition cancel_wait_script :: "'z zset_ops \<Rightarrow> string \<Rightarrow> 'z model_pool \<Rightarrow> 'z model_pool \<times> int" where
  "cancel_wait_script zs tok p =
     (p\<lparr>wait_order := zrem zs (wait_order p) tok, wait_expiry := zrem zs (wait_expiry p) tok\<rparr>,
      if zscore zs (wait_expiry p) tok = None then 0 else 1)"

definition renew_slot_script :: "'z zset_ops \<Rightarrow> string \<Rightarrow> int \<Rightarrow> int \<Rightarrow> 'z model_pool \<Rightarrow> 'z model_pool \<times> int" where
  "renew_slot_script zs tok ttl now p = (case zscore zs (slots p) tok of
     None \<Rightarrow> (p, 0)
   | Some expires \<Rightarrow> if expires \<le> now then (p, 0)
       else (p\<lparr>slots := zadd zs (slots p) (now + ttl) tok\<rparr>, now + ttl))"

definition release_slot :: "'z zset_ops \<Rightarrow> string \<Rightarrow> 'z model_pool \<Rightarrow> 'z model_pool \<times> int" where
  "release_slot zs tok p = (p\<lparr>slots := zrem zs (slots p) tok\<rparr>, if zscore zs (slots p) tok = None then 0 else 1)"

subsection \<open>The methods\<close>

definition pool_lease :: "string \<Rightarrow> string \<Rightarrow> string \<Rightarrow> int \<Rightarrow> model_lease" where
  "pool_lease pool owner tok expires =
     \<lparr>ml_pool = pool, ml_owner = owner, ml_token = tok, ml_expires = expires\<rparr>"

definition try_acquire :: "'z zset_ops \<Rightarrow> string \<Rightarrow> string \<Rightarrow> int \<Rightarrow> duration \<Rightarrow> string \<Rightarrow> link \<Rightarrow> int
    \<Rightarrow> 'z model_pool \<Rightarrow> 'z model_pool \<times> (pool_error remote_error + model_lease)" where
  "try_acquire zs pool owner capacity ttl uuid l now p =
     (if \<not> valid_model_pool_args pool owner capacity ttl then (p, Inl (Failed PoolInvalid))
      else
        let tok = owner @ '':'' @ uuid
        in case remote l (acquire_slot_script zs capacity (milliseconds ttl) tok now) p of
             (p', Inl e) \<Rightarrow> (p', Inl e)
           | (p', Inr n) \<Rightarrow> (p',
               if n = -1 then Inl (Failed ErrPoolCapacityDrift)
               else if n = 0 then Inl (Failed ErrModelPoolFull)
               else Inr (pool_lease pool owner tok n)))"

text \<open>
  The loop of \<open>WaitAcquire\<close>. A poll has its connection, the server's clock, and what others did
  to the pool since the poll before; the context ends after the last one.
\<close>

type_synonym 'z poll = "link \<times> int \<times> ('z model_pool \<Rightarrow> 'z model_pool)"

fun wait_loop :: "'z zset_ops \<Rightarrow> string \<Rightarrow> string \<Rightarrow> int \<Rightarrow> int \<Rightarrow> int \<Rightarrow> string \<Rightarrow> 'z poll list
    \<Rightarrow> 'z model_pool \<Rightarrow> 'z model_pool \<times> (pool_error remote_error + model_lease)" where
  "wait_loop zs pool owner capacity max_waiting ttl tok [] p = (p, Inl (Failed ContextDone))"
| "wait_loop zs pool owner capacity max_waiting ttl tok ((l, now, others) # polls) p =
     (case remote l (wait_slot_script zs capacity ttl tok max_waiting 5000 now) (others p) of
        (p', Inl e) \<Rightarrow> (p', Inl e)
      | (p', Inr n) \<Rightarrow>
          if n = -1 then (p', Inl (Failed ErrPoolCapacityDrift))
          else if n = -2 then (p', Inl (Failed ErrModelQueueFull))
          else if n = 0 then wait_loop zs pool owner capacity max_waiting ttl tok polls p'
          else (p', Inr (pool_lease pool owner tok n)))"

definition wait_acquire :: "'z zset_ops \<Rightarrow> string \<Rightarrow> string \<Rightarrow> int \<Rightarrow> int \<Rightarrow> duration \<Rightarrow> string \<Rightarrow> 'z poll list \<Rightarrow> link
    \<Rightarrow> 'z model_pool \<Rightarrow> 'z model_pool \<times> (pool_error remote_error + model_lease)" where
  "wait_acquire zs pool owner capacity max_waiting ttl uuid polls cleanup p =
     (if \<not> valid_model_pool_args pool owner capacity ttl \<or> max_waiting < 1 \<or> 100000 < max_waiting
      then (p, Inl (Failed PoolInvalid))
      else
        let tok = owner @ '':'' @ uuid
        in case wait_loop zs pool owner capacity max_waiting (milliseconds ttl) tok polls p of
             (p', r) \<Rightarrow> 
               (fst (remote cleanup (cancel_wait_script zs tok) p' :: 'z model_pool \<times> (pool_error remote_error + int)), r))"

definition renew_slot :: "'z zset_ops \<Rightarrow> model_lease \<Rightarrow> duration \<Rightarrow> link \<Rightarrow> int
    \<Rightarrow> 'z model_pool \<Rightarrow> 'z model_pool \<times> (pool_error remote_error + model_lease)" where
  "renew_slot zs le ttl l now p =
     (if \<not> valid_model_pool_args (ml_pool le) (ml_owner le) 1 ttl \<or> ml_token le = [] then (p, Inl (Failed PoolInvalid))
      else case remote l (renew_slot_script zs (ml_token le) (milliseconds ttl) now) p of
        (p', Inl e) \<Rightarrow> (p', Inl e)
      | (p', Inr n) \<Rightarrow> (p', if n = 0 then Inl (Failed ErrModelLeaseStale) else Inr (le\<lparr>ml_expires := n\<rparr>)))"

definition release_pool :: "'z zset_ops \<Rightarrow> model_lease \<Rightarrow> link
    \<Rightarrow> 'z model_pool \<Rightarrow> 'z model_pool \<times> (pool_error remote_error + unit)" where
  "release_pool zs le l p =
     (if blank (ml_pool le) \<or> ml_token le = [] then (p, Inl (Failed PoolInvalid))
      else case remote l (release_slot zs (ml_token le)) p of
        (p', Inl e) \<Rightarrow> (p', Inl e)
      | (p', Inr n) \<Rightarrow> (p', if n = 0 then Inl (Failed ErrModelLeaseStale) else Inr ()))"

subsection \<open>Histories and the invariant\<close>

inductive pool_reachable :: "'z zset_ops \<Rightarrow> int \<Rightarrow> 'z model_pool \<Rightarrow> bool" for zs where
  Start: "pool_reachable zs now (no_slots zs)"
| Later: "pool_reachable zs now p \<Longrightarrow> now \<le> now' \<Longrightarrow> pool_reachable zs now' p"
| Acquire: "pool_reachable zs now p \<Longrightarrow> 1 \<le> capacity \<Longrightarrow>
    pool_reachable zs now (fst (acquire_slot_script zs capacity ttl tok now p))"
| Wait: "pool_reachable zs now p \<Longrightarrow> 1 \<le> capacity \<Longrightarrow>
    pool_reachable zs now (fst (wait_slot_script zs capacity ttl tok max_waiting patience now p))"
| Cancel: "pool_reachable zs now p \<Longrightarrow> pool_reachable zs now (fst (cancel_wait_script zs tok p))"
| Renew: "pool_reachable zs now p \<Longrightarrow> pool_reachable zs now (fst (renew_slot_script zs tok ttl now p))"
| Release: "pool_reachable zs now p \<Longrightarrow> pool_reachable zs now (fst (release_slot zs tok p))"

text \<open>
  The pool holds no more tokens than its published capacity. Tickets are distinct and have been
  given out, and whoever has a ticket has an expiry and conversely.
\<close>

definition pool_ok :: "'z zset_ops \<Rightarrow> 'z model_pool \<Rightarrow> bool" where
  "pool_ok zs p \<longleftrightarrow>
     (case published p of None \<Rightarrow> zcard zs (slots p) = 0 | Some c \<Rightarrow> int (zcard zs (slots p)) \<le> c) \<and>
     dom (zscore zs (wait_order p)) = dom (zscore zs (wait_expiry p)) \<and>
     (\<forall>m s. zscore zs (wait_order p) m = Some s \<longrightarrow> s \<le> int (wait_sequence p)) \<and>
     (\<forall>m m' s. zscore zs (wait_order p) m = Some s \<longrightarrow> zscore zs (wait_order p) m' = Some s \<longrightarrow> m' = m)"

definition waiting :: "'z zset_ops \<Rightarrow> int \<Rightarrow> 'z model_pool \<Rightarrow> string set" where
  "waiting zs now p = beyond zs now (wait_expiry p)"

definition ticket :: "'z zset_ops \<Rightarrow> 'z model_pool \<Rightarrow> string \<Rightarrow> int" where
  "ticket zs p m = (case zscore zs (wait_order p) m of Some s \<Rightarrow> s | None \<Rightarrow> 0)"

text \<open>Nobody who is waiting has a lower ticket; a caller without one is behind them all.\<close>

definition next_in_line :: "'z zset_ops \<Rightarrow> int \<Rightarrow> 'z model_pool \<Rightarrow> string \<Rightarrow> bool" where
  "next_in_line zs now p tok \<longleftrightarrow>
     (\<forall>m\<in>waiting zs now p - {tok}. tok \<in> waiting zs now p \<and> ticket zs p tok < ticket zs p m)"

context sorted_set begin

lemma sweep_simps [simp]:
  "published (sweep zs c now p) = Some c" "wait_sequence (sweep zs c now p) = wait_sequence p"
  "slots (sweep zs c now p) = zrem_upto zs (slots p) now"
  by (simp_all add: sweep_def Let_def)

lemma sweep_order: "zscore zs (wait_order (sweep zs c now p)) m =
    (if \<exists>e\<le>now. zscore zs (wait_expiry p) m = Some e then None else zscore zs (wait_order p) m)"
  by (simp add: sweep_def Let_def zscore_fold_zrem zupto)

lemma sweep_expiry: "zscore zs (wait_expiry (sweep zs c now p)) m =
    (if \<exists>e\<le>now. zscore zs (wait_expiry p) m = Some e then None else zscore zs (wait_expiry p) m)"
  by (simp add: sweep_def Let_def zscore_fold_zrem zupto)

lemma pool_okD:
  assumes "pool_ok zs p"
  shows "published p = None \<Longrightarrow> zcard zs (slots p) = 0"
    and "published p = Some c \<Longrightarrow> int (zcard zs (slots p)) \<le> c"
    and "zscore zs (wait_order p) m = None \<longleftrightarrow> zscore zs (wait_expiry p) m = None"
    and "zscore zs (wait_order p) m = Some s \<Longrightarrow> s \<le> int (wait_sequence p)"
    and "zscore zs (wait_order p) m = Some s \<Longrightarrow> zscore zs (wait_order p) m' = Some s \<Longrightarrow> m' = m"
proof -
  show "zscore zs (wait_order p) m = None \<longleftrightarrow> zscore zs (wait_expiry p) m = None"
    using assms unfolding pool_ok_def by (metis domIff)
qed (use assms in \<open>auto simp: pool_ok_def\<close>)

text \<open>After the sweep the tickets are those of the callers that are waiting.\<close>

lemma swept_waiting:
  assumes "pool_ok zs p"
  shows "zscore zs (wait_order (sweep zs c now p)) m =
    (if m \<in> waiting zs now p then zscore zs (wait_order p) m else None)"
  using pool_okD(3) [OF assms, of m]
  by (auto simp: sweep_order waiting_def beyond_def not_le)

lemma ticket_waiting:
  assumes "pool_ok zs p" and "m \<in> waiting zs now p"
  shows "zscore zs (wait_order p) m = Some (ticket zs p m)"
  using pool_okD(3) [OF assms(1), of m] assms(2) by (auto simp: waiting_def beyond_def ticket_def)

lemma dom_swept_order: "pool_ok zs p \<Longrightarrow> dom (zscore zs (wait_order (sweep zs c now p))) = waiting zs now p"
  using ticket_waiting by (fastforce simp: swept_waiting dom_def split: if_splits)

lemma pool_ok_sweep:
  assumes "pool_ok zs p" and "\<not> drifts c p" and "1 \<le> c"
  shows "pool_ok zs (sweep zs c now p)"
proof -
  have "int (zcard zs (zrem_upto zs (slots p) now)) \<le> c"
    using assms zcard_zrem_upto [of "slots p" now] pool_okD(1,2) [OF assms(1)]
    by (cases "published p") (auto simp: drifts_def intro: order_trans)
  moreover have "dom (zscore zs (wait_order (sweep zs c now p))) = dom (zscore zs (wait_expiry (sweep zs c now p)))"
    unfolding dom_eq_iff using pool_okD(3) [OF assms(1)] by (auto simp: sweep_order sweep_expiry)
  ultimately show ?thesis
    using pool_okD(4,5) [OF assms(1)] by (auto simp: pool_ok_def sweep_order split: if_splits)
qed

lemma pool_ok_cancel: "pool_ok zs p \<Longrightarrow> pool_ok zs (fst (cancel_wait_script zs tok p))"
  by (auto simp: pool_ok_def cancel_wait_script_def zrem split: option.splits)

lemma pool_ok_fewer:
  assumes "pool_ok zs p" and "zcard zs z \<le> zcard zs (slots p)"
  shows "pool_ok zs (p\<lparr>slots := z\<rparr>)"
  using assms by (auto simp: pool_ok_def split: option.splits)

lemma pool_ok_take:
  assumes "pool_ok zs p" and "published p = Some c" and "int (zcard zs (slots p)) < c"
  shows "pool_ok zs (p\<lparr>slots := zadd zs (slots p) e tok\<rparr>)"
  using assms by (auto simp: pool_ok_def zcard_zadd)

lemma pool_ok_acquire:
  assumes "pool_ok zs p" and "1 \<le> c"
  shows "pool_ok zs (fst (acquire_slot_script zs c ttl tok now p))"
  using pool_ok_sweep [OF assms(1) _ assms(2), of now] assms(1)
    pool_ok_take [of "sweep zs c now p" c]
  by (auto simp: acquire_slot_script_def Let_def)

text \<open>Joining the queue: a fresh ticket, unless the caller has one, and a new expiry.\<close>

definition joined :: "string \<Rightarrow> int \<Rightarrow> 'z model_pool \<Rightarrow> 'z model_pool" where
  "joined tok e p = (let p = (if zscore zs (wait_order p) tok = None
       then p\<lparr>wait_sequence := Suc (wait_sequence p),
              wait_order := zadd zs (wait_order p) (int (Suc (wait_sequence p))) tok\<rparr> else p)
     in p\<lparr>wait_expiry := zadd zs (wait_expiry p) e tok\<rparr>)"

lemma joined_simps [simp]: "slots (joined tok e p) = slots p" "published (joined tok e p) = published p"
  by (simp_all add: joined_def Let_def)

lemma joined_order: "zscore zs (wait_order (joined tok e p)) =
    (if zscore zs (wait_order p) tok = None then (zscore zs (wait_order p))(tok \<mapsto> int (Suc (wait_sequence p)))
     else zscore zs (wait_order p))"
  by (simp add: joined_def Let_def zadd)

lemma joined_expiry: "zscore zs (wait_expiry (joined tok e p)) = (zscore zs (wait_expiry p))(tok \<mapsto> e)"
  by (simp add: joined_def Let_def zadd)

lemma pool_ok_joined:
  assumes "pool_ok zs p"
  shows "pool_ok zs (joined tok e p)"
proof -
  have "dom (zscore zs (wait_order (joined tok e p))) = dom (zscore zs (wait_expiry (joined tok e p)))"
    unfolding dom_eq_iff using pool_okD(3) [OF assms] by (auto simp: joined_order joined_expiry)
  moreover have "wait_sequence (joined tok e p) =
      (if zscore zs (wait_order p) tok = None then Suc (wait_sequence p) else wait_sequence p)"
    by (simp add: joined_def Let_def)
  moreover have "s \<noteq> int (Suc (wait_sequence p))" if "zscore zs (wait_order p) m = Some s" for m s
    using pool_okD(4) [OF assms that] by simp
  moreover have "s \<le> 1 + int (wait_sequence p)" if "zscore zs (wait_order p) m = Some s" for m s
    using pool_okD(4) [OF assms that] by simp
  ultimately show ?thesis
    using pool_okD(1,2,5) [OF assms] pool_okD(4) [OF assms]
    by (auto simp: pool_ok_def joined_order split: option.splits if_splits)
qed

lemma wait_slot_script_alt: "wait_slot_script zs c ttl tok maxw patience now p =
    (if drifts c p then (p, -1)
     else let s = sweep zs c now p; j = joined tok (now + patience) s
       in if zscore zs (wait_order s) tok = None \<and> maxw \<le> int (zcard zs (wait_order s)) then (s, -2)
          else if zfirst zs (wait_order j) \<noteq> Some tok \<or> c \<le> int (zcard zs (slots j)) then (j, 0)
          else (fst (cancel_wait_script zs tok (j\<lparr>slots := zadd zs (slots j) (now + ttl) tok\<rparr>)), now + ttl))"
  by (simp add: wait_slot_script_def joined_def cancel_wait_script_def Let_def)

lemma pool_ok_wait:
  assumes "pool_ok zs p" and "1 \<le> c"
  shows "pool_ok zs (fst (wait_slot_script zs c ttl tok maxw patience now p))"
proof (cases "drifts c p")
  case False
  note s = pool_ok_sweep [OF assms(1) False assms(2), of now]
  note j = pool_ok_joined [OF s, of tok "now + patience"]
  show ?thesis
    using False s j pool_ok_cancel [OF pool_ok_take [OF j, of c]] by (auto simp: wait_slot_script_alt Let_def)
qed (simp add: wait_slot_script_def assms(1))

lemma pool_ok_reachable: "pool_reachable zs now p \<Longrightarrow> pool_ok zs p"
proof (induction rule: pool_reachable.induct)
  case (Start now)
  then show ?case by (simp add: pool_ok_def no_slots_def zempty zcard_0)
next
  case (Renew now p tok ttl)
  then show ?case by (auto simp: renew_slot_script_def zcard_zadd intro: pool_ok_fewer split: option.splits)
next
  case (Release now p tok)
  then show ?case by (simp add: release_slot_def pool_ok_fewer zcard_zrem)
qed (auto intro: pool_ok_acquire pool_ok_wait pool_ok_cancel)

text \<open>Who is first, after the sweep and after joining.\<close>

lemma first_iff:
  assumes "inj_on (\<lambda>m. zscore zs z m) (dom (zscore zs z))"
  shows "zfirst zs z = Some tok \<longleftrightarrow> (\<exists>s. zscore zs z tok = Some s \<and>
    (\<forall>m s'. m \<noteq> tok \<longrightarrow> zscore zs z m = Some s' \<longrightarrow> s < s'))"
proof
  assume "zfirst zs z = Some tok"
  then obtain s where s: "zscore zs z tok = Some s" and least: "\<forall>m' s'. zscore zs z m' = Some s' \<longrightarrow> s \<le> s'"
    using zfirst_least by blast
  have "s < s'" if "m \<noteq> tok" "zscore zs z m = Some s'" for m s'
  proof -
    have "s \<noteq> s'" using assms s that by (auto simp: inj_on_def dom_def)
    moreover have "s \<le> s'" using least that by blast
    ultimately show ?thesis by simp
  qed
  then show "\<exists>s. zscore zs z tok = Some s \<and> (\<forall>m s'. m \<noteq> tok \<longrightarrow> zscore zs z m = Some s' \<longrightarrow> s < s')"
    using s by blast
next
  assume r: "\<exists>s. zscore zs z tok = Some s \<and> (\<forall>m s'. m \<noteq> tok \<longrightarrow> zscore zs z m = Some s' \<longrightarrow> s < s')"
  then obtain f where f: "zfirst zs z = Some f" using zfirst_None [of z] by fastforce
  show "zfirst zs z = Some tok" using zfirst_least [OF f] f r by fastforce
qed

lemma tickets_inj: "pool_ok zs p \<Longrightarrow> inj_on (\<lambda>m. zscore zs (wait_order p) m) (dom (zscore zs (wait_order p)))"
  using pool_okD(5) by (fastforce simp: inj_on_def)

lemma zcard_swept_order: "pool_ok zs p \<Longrightarrow> zcard zs (wait_order (sweep zs c now p)) = card (waiting zs now p)"
  by (simp add: zcard dom_swept_order)

lemma first_in_line:
  assumes ok: "pool_ok zs p" and "\<not> drifts c p" and "1 \<le> c"
  shows "zfirst zs (wait_order (joined tok e (sweep zs c now p))) = Some tok \<longleftrightarrow> next_in_line zs now p tok"
proof -
  let ?s = "sweep zs c now p"
  have ok': "pool_ok zs ?s" by (rule pool_ok_sweep [OF assms])
  note t = ticket_waiting [OF ok, of _ now] and w = swept_waiting [OF ok, of c now]
  have below: "ticket zs p m \<le> int (wait_sequence p)" if "m \<in> waiting zs now p" for m
    using pool_okD(4) [OF ok t [OF that]] .
  note first = first_iff [OF tickets_inj [OF pool_ok_joined [OF ok']]]
  show ?thesis
  proof (cases "tok \<in> waiting zs now p")
    case True
    then show ?thesis unfolding first joined_order using t by (auto simp: w next_in_line_def)
  next
    case False
    then show ?thesis unfolding first joined_order using below t by (fastforce simp: w next_in_line_def)
  qed
qed

lemma wait_reply:
  assumes ok: "pool_ok zs p" and d: "\<not> drifts c p" and "1 \<le> c"
  shows "snd (wait_slot_script zs c ttl tok maxw patience now p) =
    (if tok \<notin> waiting zs now p \<and> maxw \<le> int (card (waiting zs now p)) then -2
     else if next_in_line zs now p tok \<and> int (card (beyond zs now (slots p))) < c then now + ttl else 0)"
proof -
  have "zscore zs (wait_order (sweep zs c now p)) tok = None \<longleftrightarrow> tok \<notin> waiting zs now p"
    using ticket_waiting [OF ok, of tok now] by (simp add: swept_waiting [OF ok])
  then show ?thesis
    using d first_in_line [OF assms] zcard_swept_order [OF ok]
    by (auto simp: wait_slot_script_alt Let_def zcard_purged not_le)
qed

lemma acquire_slot_reply:
  assumes ok: "pool_ok zs p" and d: "\<not> drifts c p"
  shows "snd (acquire_slot_script zs c ttl tok now p) =
    (if waiting zs now p = {} \<and> int (card (beyond zs now (slots p))) < c then now + ttl else 0)"
  using d by (auto simp: acquire_slot_script_def Let_def zcard_purged zcard_swept_order [OF ok] waiting_def card_gt_0_iff)

lemma newcomer_last:
  assumes ok: "pool_ok zs p" and d: "\<not> drifts c p" and "1 \<le> c"
    and new: "tok \<notin> waiting zs now p" and m: "m \<in> waiting zs now p"
    and stays: "snd (wait_slot_script zs c ttl tok maxw patience now p) = 0"
    and "0 < now + ttl"
  shows "ticket zs (fst (wait_slot_script zs c ttl tok maxw patience now p)) m = ticket zs p m \<and>
    ticket zs p m < ticket zs (fst (wait_slot_script zs c ttl tok maxw patience now p)) tok"
proof -
  let ?s = "sweep zs c now p"
  have s: "fst (wait_slot_script zs c ttl tok maxw patience now p) = joined tok (now + patience) ?s"
    using stays d \<open>0 < now + ttl\<close> by (auto simp: wait_slot_script_alt Let_def split: if_splits)
  have "zscore zs (wait_order p) m = Some (ticket zs p m)" by (rule ticket_waiting [OF ok m])
  moreover from pool_okD(4) [OF ok this] have "ticket zs p m \<le> int (wait_sequence p)" .
  moreover have "m \<noteq> tok" using new m by blast
  ultimately show ?thesis unfolding s using new m
    by (simp add: ticket_def joined_order swept_waiting [OF ok])
qed

lemma pool_limits:
  assumes "pool_reachable zs now p" and "published p = Some c"
  shows "int (card (beyond zs now (slots p))) \<le> c"
  using pool_okD(2) [OF pool_ok_reachable [OF assms(1)] assms(2)] card_beyond_zcard [of now "slots p"] by simp

end

text \<open>The methods only run the scripts, so what they leave is reachable.\<close>

lemma remote_reachable:
  assumes "pool_reachable zs now p" and "\<And>p. pool_reachable zs now p \<Longrightarrow> pool_reachable zs now (fst (f p))"
  shows "pool_reachable zs now (fst (remote l f p))"
  using assms by (cases l) simp_all

lemma try_acquire_reachable:
  assumes "pool_reachable zs now p"
  shows "pool_reachable zs now (fst (try_acquire zs pool owner c ttl uuid l now p))"
  using assms
  by (simp add: try_acquire_def valid_model_pool_args_def Let_def case_prod_beta remote_reachable
      pool_reachable.Acquire split: sum.split)

lemma renew_slot_reachable:
  "pool_reachable zs now p \<Longrightarrow> pool_reachable zs now (fst (renew_slot zs le ttl l now p))"
  by (simp add: renew_slot_def case_prod_beta remote_reachable pool_reachable.Renew split: sum.split)

lemma release_pool_reachable:
  "pool_reachable zs now p \<Longrightarrow> pool_reachable zs now (fst (release_pool zs le l p))"
  by (simp add: release_pool_def case_prod_beta remote_reachable pool_reachable.Release split: sum.split)

text \<open>Polls at times that do not go back, with steps of others in between.\<close>

fun polls_ok :: "'z zset_ops \<Rightarrow> int \<Rightarrow> 'z poll list \<Rightarrow> bool" where
  "polls_ok zs now [] \<longleftrightarrow> True"
| "polls_ok zs now ((l, now', others) # polls) \<longleftrightarrow>
     (\<forall>p. pool_reachable zs now p \<longrightarrow> pool_reachable zs now' (others p)) \<and> polls_ok zs now' polls"

lemma wait_loop_reachable:
  assumes "pool_reachable zs now p" and "polls_ok zs now polls" and "1 \<le> c"
  shows "\<exists>now'. pool_reachable zs now' (fst (wait_loop zs pool owner c maxw ttl tok polls p))"
  using assms(1,2)
proof (induction polls arbitrary: now p)
  case Nil
  then show ?case by auto
next
  case (Cons poll polls)
  obtain l now' others where poll: "poll = (l, now', others)" by (metis prod_cases3)
  let ?r = "remote l (wait_slot_script zs c ttl tok maxw 5000 now') (others p)"
  have r: "pool_reachable zs now' (fst ?r)"
    by (rule remote_reachable) (use Cons.prems assms(3) in \<open>auto simp: poll intro: pool_reachable.Wait\<close>)
  have "polls_ok zs now' polls" using Cons.prems by (simp add: poll)
  from Cons.IH [OF r this] show ?case using r
    by (auto simp: poll case_prod_beta split: sum.split)
qed

lemma wait_acquire_reachable:
  assumes "pool_reachable zs now p" and "polls_ok zs now polls"
  shows "\<exists>now'. pool_reachable zs now' (fst (wait_acquire zs pool owner c maxw ttl uuid polls cleanup p))"
proof (cases "valid_model_pool_args pool owner c ttl \<and> \<not> (maxw < 1 \<or> 100000 < maxw)")
  case True
  then have "1 \<le> c" by (simp add: valid_model_pool_args_def)
  from wait_loop_reachable [OF assms this] obtain now'
    where "pool_reachable zs now' (fst (wait_loop zs pool owner c maxw (milliseconds ttl) (owner @ '':'' @ uuid) polls p))" ..
  then have "pool_reachable zs now' (fst (remote cleanup (cancel_wait_script zs (owner @ '':'' @ uuid))
      (fst (wait_loop zs pool owner c maxw (milliseconds ttl) (owner @ '':'' @ uuid) polls p))
      :: _ \<times> (pool_error remote_error + int)))"
    by (rule remote_reachable) (rule pool_reachable.Cancel)
  then show ?thesis using True by (auto simp: wait_acquire_def Let_def case_prod_beta)
next
  case False
  then show ?thesis using assms(1) by (auto simp: wait_acquire_def)
qed

subsection \<open>Properties\<close>

text \<open>C31: The pool is never overbooked. Whatever processes try, wait, cancel, renew and
  release, and whatever capacities they ask with, the unexpired slots never exceed the capacity
  that the first of them published, and a caller with another capacity gets nothing and changes
  nothing.\<close>
theorem model_pool_never_overbooked:
  assumes "sorted_set zs" and "pool_reachable zs now p" and "published p = Some c" and "c' \<noteq> c"
  shows "int (card (beyond zs now (slots p))) \<le> c \<and>
    acquire_slot_script zs c' ttl tok now p = (p, -1) \<and>
    wait_slot_script zs c' ttl tok maxw patience now p = (p, -1)"
  using sorted_set.pool_limits [OF assms(1-3)] assms(3,4)
  by (simp add: acquire_slot_script_def wait_slot_script_def drifts_def)

definition demo_pool :: "rows model_pool" where
  "demo_pool = fst (acquire_slot_script rows_ops 1 1000 ''a'' 10 (no_slots rows_ops))"

definition demo_queue :: "rows model_pool" where
  "demo_queue = fst (wait_slot_script rows_ops 1 1000 ''c'' 5 5000 30
     (fst (wait_slot_script rows_ops 1 1000 ''b'' 5 5000 20 demo_pool)))"

lemma demo_pool_reachable: "pool_reachable rows_ops 10 demo_pool"
  unfolding demo_pool_def by (intro pool_reachable.Acquire pool_reachable.Start) simp

lemma demo_queue_reachable: "pool_reachable rows_ops 30 demo_queue"
proof -
  have "pool_reachable rows_ops 20 demo_pool" by (rule pool_reachable.Later [OF demo_pool_reachable]) simp
  then have "pool_reachable rows_ops 20 (fst (wait_slot_script rows_ops 1 1000 ''b'' 5 5000 20 demo_pool))"
    by (rule pool_reachable.Wait) simp
  then have "pool_reachable rows_ops 30 (fst (wait_slot_script rows_ops 1 1000 ''b'' 5 5000 20 demo_pool))"
    by (rule pool_reachable.Later) simp
  then show ?thesis unfolding demo_queue_def by (rule pool_reachable.Wait) simp
qed

lemma demo_pool_value: "demo_pool = \<lparr>slots = [(''a'', 1010)], published = Some 1, wait_order = [],
    wait_expiry = [], wait_sequence = 0\<rparr>"
  by (simp add: demo_pool_def acquire_slot_script_def no_slots_def sweep_def drifts_def Let_def)

lemma demo_queue_value: "demo_queue = \<lparr>slots = [(''a'', 1010)], published = Some 1,
    wait_order = [(''b'', 1), (''c'', 2)], wait_expiry = [(''b'', 5020), (''c'', 5030)], wait_sequence = 2\<rparr>"
  by (simp add: demo_queue_def demo_pool_value wait_slot_script_def sweep_def drifts_def Let_def)

theorem model_pool_never_overbooked_witness:
  "int (card (beyond rows_ops 10 (slots demo_pool))) \<le> 1 \<and>
   acquire_slot_script rows_ops 2 1000 ''b'' 10 demo_pool = (demo_pool, -1) \<and>
   wait_slot_script rows_ops 2 1000 ''b'' 5 5000 10 demo_pool = (demo_pool, -1)"
  by (rule model_pool_never_overbooked [OF rows.sorted_set_axioms demo_pool_reachable])
    (simp_all add: demo_pool_value)

text \<open>C32: Slots are given in the order of the tickets, over all processes. A caller that polls gets
  a slot exactly when one is free and no other caller that is still waiting has a lower ticket
  (a caller without a ticket counts as last, and is turned away when the queue is full); a
  caller that does not wait gets one exactly when one is free and nobody is waiting; and a
  caller that joins the queue gets a ticket above all those that wait.\<close>
theorem model_pool_first_come_first_served:
  assumes "sorted_set zs" and "pool_reachable zs now p" and "published p = Some c" and "1 \<le> c"
    and "0 < now + ttl" and "wait_slot_script zs c ttl tok maxw patience now p = (q, reply)"
  shows "reply =
     (if tok \<notin> waiting zs now p \<and> maxw \<le> int (card (waiting zs now p)) then -2
      else if next_in_line zs now p tok \<and> int (card (beyond zs now (slots p))) < c then now + ttl else 0) \<and>
    snd (acquire_slot_script zs c ttl tok now p) =
     (if waiting zs now p = {} \<and> int (card (beyond zs now (slots p))) < c then now + ttl else 0) \<and>
    (tok \<notin> waiting zs now p \<longrightarrow> reply = 0 \<longrightarrow>
     (\<forall>m\<in>waiting zs now p. ticket zs q m = ticket zs p m \<and> ticket zs p m < ticket zs q tok))"
proof -
  note ok = sorted_set.pool_ok_reachable [OF assms(1,2)]
  have d: "\<not> drifts c p" using assms(3) by (simp add: drifts_def)
  have q: "q = fst (wait_slot_script zs c ttl tok maxw patience now p)"
    and r: "reply = snd (wait_slot_script zs c ttl tok maxw patience now p)"
    using assms(6) by simp_all
  show ?thesis unfolding q r
    by (intro conjI ballI impI sorted_set.wait_reply [OF assms(1) ok d assms(4)]
        sorted_set.acquire_slot_reply [OF assms(1) ok d]
        sorted_set.newcomer_last [OF assms(1) ok d assms(4) _ _ _ assms(5), THEN conjunct1]
        sorted_set.newcomer_last [OF assms(1) ok d assms(4) _ _ _ assms(5), THEN conjunct2])
qed

theorem model_pool_first_come_first_served_witness:
  "snd (wait_slot_script rows_ops 1 1000 ''c'' 5 5000 2000 demo_queue) = 0 \<and>
   snd (wait_slot_script rows_ops 1 1000 ''b'' 5 5000 2000 demo_queue) = 3000"
proof -
  have reach: "pool_reachable rows_ops 2000 demo_queue"
    by (rule pool_reachable.Later [OF demo_queue_reachable]) simp
  have w: "waiting rows_ops 2000 demo_queue = {''b'', ''c''}" and f: "beyond rows_ops 2000 (slots demo_queue) = {}"
    and t: "ticket rows_ops demo_queue ''b'' = 1" "ticket rows_ops demo_queue ''c'' = 2"
    and p: "published demo_queue = Some 1"
    by (auto simp: waiting_def beyond_def ticket_def demo_queue_value split: if_splits)
  have o: "next_in_line rows_ops 2000 demo_queue ''b''" "\<not> next_in_line rows_ops 2000 demo_queue ''c''"
    by (simp_all add: next_in_line_def w t insert_Diff_if)
  obtain q r where c: "wait_slot_script rows_ops 1 1000 ''c'' 5 5000 2000 demo_queue = (q, r)" by fastforce
  obtain q' r' where b: "wait_slot_script rows_ops 1 1000 ''b'' 5 5000 2000 demo_queue = (q', r')" by fastforce
  from model_pool_first_come_first_served [OF rows.sorted_set_axioms reach p _ _ c]
    model_pool_first_come_first_served [OF rows.sorted_set_axioms reach p _ _ b]
  show ?thesis by (simp add: b c w f o)
qed

end
