(* ===== verification/TaskLeases.thy ===== *)
theory TaskLeases imports RedisKeys AgentRun begin

section \<open>Task leases with fencing tokens\<close>

text \<open>
  \<open>pkg/event_bus/redis_lease.go\<close>: a worker leases a task before it handles a delivery of it.
  Every attempt draws a number from the task's counter and then tries to set the task's lease
  key to its owner and number; renewing, releasing and verifying compare that value. Drawing
  the number and setting the key are two commands, so other workers may act between them.
  \<open>SHA-256\<close> with its hexadecimal form is a parameter, \<open>digest\<close>.
\<close>

subsection \<open>Leases and their keys\<close>

record task_lease =
  tl_tenant :: string
  tl_subscriber :: string
  tl_message :: string
  tl_owner :: string
  tl_token :: nat
  tl_expires_at :: instant

datatype lease_error = InvalidLeaseRequest | ErrLeaseBusy | ErrLeaseStale | TokenOverflow

text \<open>What the server holds: lease keys with their expiry, and counters, which never expire.\<close>

record lease_store =
  lease_at :: "string \<Rightarrow> (string \<times> int) option"
  fence_at :: "string \<Rightarrow> nat"

definition valid_lease_parts :: "string \<Rightarrow> string \<Rightarrow> string \<Rightarrow> string \<Rightarrow> duration \<Rightarrow> bool" where
  "valid_lease_parts tenant subscriber message owner ttl \<longleftrightarrow>
     \<not> blank tenant \<and> \<not> blank subscriber \<and> \<not> blank message \<and> \<not> blank owner \<and>
     length tenant \<le> 256 \<and> length subscriber \<le> 256 \<and> length message \<le> 256 \<and>
     length owner \<le> 256 \<and> millisecond_ns \<le> ttl"

definition task_lease_keys :: "(string \<Rightarrow> string) \<Rightarrow> string \<Rightarrow> string \<Rightarrow> string \<Rightarrow> string \<times> string" where
  "task_lease_keys digest tenant subscriber message =
     (let tag = ''{'' @ digest (tenant @ [CHR 0x00] @ subscriber) @ ''}''; suffix = digest message
      in (''event_fabric:task:'' @ tag @ '':lease:'' @ suffix, ''event_fabric:task:'' @ tag @ '':fence:'' @ suffix))"

definition lease_value :: "string \<Rightarrow> nat \<Rightarrow> string" where
  "lease_value owner token = itoa (int (length owner)) @ '':'' @ owner @ '':'' @ itoa_nat token"

definition lease_parts_ok :: "task_lease \<Rightarrow> duration \<Rightarrow> bool" where
  "lease_parts_ok le ttl \<longleftrightarrow>
     valid_lease_parts (tl_tenant le) (tl_subscriber le) (tl_message le) (tl_owner le) ttl \<and> tl_token le \<noteq> 0"

definition lease_key_of :: "(string \<Rightarrow> string) \<Rightarrow> task_lease \<Rightarrow> string" where
  "lease_key_of digest le = fst (task_lease_keys digest (tl_tenant le) (tl_subscriber le) (tl_message le))"

subsection \<open>The commands\<close>

text \<open>\<open>INCR\<close>, which fails on the largest 64-bit integer.\<close>

definition incr :: "string \<Rightarrow> lease_store \<Rightarrow> lease_store \<times> nat option" where
  "incr key st = (if max_int64 \<le> int (fence_at st key) then (st, None)
     else (st\<lparr>fence_at := (fence_at st)(key := Suc (fence_at st key))\<rparr>, Some (Suc (fence_at st key))))"

definition set_nx :: "string \<Rightarrow> string \<Rightarrow> int \<Rightarrow> int \<Rightarrow> lease_store \<Rightarrow> lease_store \<times> bool" where
  "set_nx key v ms now st = (if live_key now (lease_at st key) = None
     then (st\<lparr>lease_at := (lease_at st)(key \<mapsto> (v, now + ms))\<rparr>, True) else (st, False))"

definition renew_lease_script :: "string \<Rightarrow> string \<Rightarrow> int \<Rightarrow> int \<Rightarrow> lease_store \<Rightarrow> lease_store \<times> int" where
  "renew_lease_script key v ms now st = (if live_key now (lease_at st key) \<noteq> Some v then (st, 0)
     else (st\<lparr>lease_at := (lease_at st)(key \<mapsto> (v, now + ms))\<rparr>, 1))"

definition release_lease_script :: "string \<Rightarrow> string \<Rightarrow> int \<Rightarrow> lease_store \<Rightarrow> lease_store \<times> int" where
  "release_lease_script key v now st = (if live_key now (lease_at st key) \<noteq> Some v then (st, 0)
     else (st\<lparr>lease_at := (lease_at st)(key := None)\<rparr>, 1))"

subsection \<open>The methods\<close>

text \<open>\<open>others\<close> is what other workers do between the two commands; \<open>now\<close> is the server's clock
  at the second, \<open>here\<close> the worker's own.\<close>

definition acquire_task :: "(string \<Rightarrow> string) \<Rightarrow> link \<Rightarrow> link \<Rightarrow> (lease_store \<Rightarrow> lease_store) \<Rightarrow> string \<Rightarrow> string
    \<Rightarrow> string \<Rightarrow> string \<Rightarrow> duration \<Rightarrow> int \<Rightarrow> instant \<Rightarrow> lease_store
    \<Rightarrow> lease_store \<times> (lease_error remote_error + task_lease)" where
  "acquire_task digest l1 l2 others tenant subscriber message owner ttl now here st =
     (if \<not> valid_lease_parts tenant subscriber message owner ttl then (st, Inl (Failed InvalidLeaseRequest))
      else case task_lease_keys digest tenant subscriber message of (lease_key, token_key) \<Rightarrow>
        (case remote l1 (incr token_key) st of
           (st1, Inl e) \<Rightarrow> (st1, Inl e)
         | (st1, Inr None) \<Rightarrow> (st1, Inl (Failed TokenOverflow))
         | (st1, Inr (Some token)) \<Rightarrow>
           (case remote l2 (set_nx lease_key (lease_value owner token) (milliseconds ttl) now) (others st1) of
              (st2, Inl e) \<Rightarrow> (st2, Inl e)
            | (st2, Inr ok) \<Rightarrow> (st2,
                if \<not> ok then Inl (Failed ErrLeaseBusy)
                else Inr \<lparr>tl_tenant = tenant, tl_subscriber = subscriber, tl_message = message,
                  tl_owner = owner, tl_token = token, tl_expires_at = here + ttl\<rparr>))))"

definition renew_task :: "(string \<Rightarrow> string) \<Rightarrow> link \<Rightarrow> task_lease \<Rightarrow> duration \<Rightarrow> int \<Rightarrow> instant \<Rightarrow> lease_store
    \<Rightarrow> lease_store \<times> (lease_error remote_error + task_lease)" where
  "renew_task digest l le ttl now here st =
     (if \<not> lease_parts_ok le ttl then (st, Inl (Failed InvalidLeaseRequest))
      else case remote l (renew_lease_script (lease_key_of digest le) (lease_value (tl_owner le) (tl_token le))
          (milliseconds ttl) now) st of
        (st', Inl e) \<Rightarrow> (st', Inl e)
      | (st', Inr n) \<Rightarrow> (st', if n \<noteq> 1 then Inl (Failed ErrLeaseStale)
          else Inr (le\<lparr>tl_expires_at := here + ttl\<rparr>)))"

definition release_task :: "(string \<Rightarrow> string) \<Rightarrow> link \<Rightarrow> task_lease \<Rightarrow> int \<Rightarrow> lease_store
    \<Rightarrow> lease_store \<times> (lease_error remote_error + unit)" where
  "release_task digest l le now st =
     (if \<not> lease_parts_ok le millisecond_ns then (st, Inl (Failed InvalidLeaseRequest))
      else case remote l (release_lease_script (lease_key_of digest le)
          (lease_value (tl_owner le) (tl_token le)) now) st of
        (st', Inl e) \<Rightarrow> (st', Inl e)
      | (st', Inr n) \<Rightarrow> (st', if n \<noteq> 1 then Inl (Failed ErrLeaseStale) else Inr ()))"

text \<open>\<open>Verify\<close>: when the read fails the value read is the empty string, so the lease is reported stale.\<close>

definition verify_task :: "(string \<Rightarrow> string) \<Rightarrow> link \<Rightarrow> task_lease \<Rightarrow> int \<Rightarrow> lease_store
    \<Rightarrow> lease_error remote_error + unit" where
  "verify_task digest l le now st =
     (if \<not> lease_parts_ok le millisecond_ns then Inl (Failed InvalidLeaseRequest)
      else
        let reply = snd (remote l (\<lambda>st. (st, live_key now (lease_at st (lease_key_of digest le)))) st);
            current = (case reply of Inr (Some v) \<Rightarrow> v | _ \<Rightarrow> '''')
        in if reply = Inr None \<or> current \<noteq> lease_value (tl_owner le) (tl_token le) then Inl (Failed ErrLeaseStale)
           else case reply of Inl e \<Rightarrow> Inl e | Inr _ \<Rightarrow> Inr ())"

subsection \<open>Lease values can be read back\<close>

text \<open>A reader for the values: the length up to the first colon, that many bytes, a colon, the number.\<close>

definition read_lease_value :: "string \<Rightarrow> (string \<times> nat) option" where
  "read_lease_value v =
     (let len = takeWhile (\<lambda>c. c \<noteq> CHR '':'') v; rest = drop (Suc (length len)) v
      in case atoi len of
           None \<Rightarrow> None
         | Some n \<Rightarrow> (case digits_val 0 (drop (Suc (nat n)) rest) of
             None \<Rightarrow> None
           | Some t \<Rightarrow> Some (take (nat n) rest, nat t)))"

lemma read_lease_value_reads:
  assumes "length owner \<le> 256"
  shows "read_lease_value (lease_value owner token) = Some (owner, token)"
proof -
  let ?len = "itoa (int (length owner))"
  have plain: "CHR '':'' \<notin> set ?len" by (simp add: itoa_def itoa_nat_no_colon)
  have "takeWhile (\<lambda>c. c \<noteq> CHR '':'') (?len @ CHR '':'' # r) = ?len" for r
    using plain by (subst takeWhile_append2) auto
  moreover have "atoi ?len = Some (int (length owner))"
    using assms by (intro atoi_itoa) (simp add: int64_ok_def min_int64_def max_int64_def)
  ultimately show ?thesis
    by (simp add: read_lease_value_def lease_value_def digits_val_itoa_nat Let_def)
qed

lemma lease_value_token: "lease_value a t = lease_value a t' \<longleftrightarrow> t = t'"
  by (simp add: lease_value_def itoa_nat_inj)

lemma lease_value_inj:
  assumes "lease_value a t = lease_value b u"
  shows "a = b \<and> t = u"
proof -
  have "itoa_nat (length a) = itoa_nat (length b) \<and> a @ '':'' @ itoa_nat t = b @ '':'' @ itoa_nat u"
    using assms unfolding lease_value_def itoa_def
    by (intro colon_split_unique [OF itoa_nat_no_colon itoa_nat_no_colon]) simp
  then show ?thesis by (auto simp: itoa_nat_inj)
qed

lemma lease_value_not_Nil [simp]: "lease_value a t \<noteq> []" "[] \<noteq> lease_value a t"
  by (simp_all add: lease_value_def)

subsection \<open>Histories\<close>

text \<open>
  A configuration is the server's clock, its keys, and the numbers that workers have drawn and
  not yet used: lease key, counter, owner and number. Workers draw numbers, use them, renew and
  release in any order; a worker that dies leaves its number unused.
\<close>

type_synonym lease_config = "int \<times> lease_store \<times> (string \<times> string \<times> string \<times> nat) set"

inductive lease_step :: "(string \<Rightarrow> string) \<Rightarrow> lease_config \<Rightarrow> lease_config \<Rightarrow> bool" for digest where
  Later: "now \<le> now' \<Longrightarrow> lease_step digest (now, st, drawn) (now', st, drawn)"
| Draw: "task_lease_keys digest tenant subscriber message = (lk, fk) \<Longrightarrow> incr fk st = (st', Some token) \<Longrightarrow>
    lease_step digest (now, st, drawn) (now, st', insert (lk, fk, owner, token) drawn)"
| Use: "(lk, fk, owner, token) \<in> drawn \<Longrightarrow> 0 < ms \<Longrightarrow>
    lease_step digest (now, st, drawn)
      (now, fst (set_nx lk (lease_value owner token) ms now st), drawn - {(lk, fk, owner, token)})"
| Renewal: "0 < ms \<Longrightarrow>
    lease_step digest (now, st, drawn) (now, fst (renew_lease_script lk v ms now st), drawn)"
| Release: "lease_step digest (now, st, drawn) (now, fst (release_lease_script lk v now st), drawn)"

definition new_store :: lease_store where
  "new_store = \<lparr>lease_at = (\<lambda>_. None), fence_at = (\<lambda>_. 0)\<rparr>"

abbreviation lease_steps :: "(string \<Rightarrow> string) \<Rightarrow> lease_config \<Rightarrow> lease_config \<Rightarrow> bool" where
  "lease_steps digest \<equiv> (lease_step digest)\<^sup>*\<^sup>*"

definition holds :: "(string \<Rightarrow> string) \<Rightarrow> task_lease \<Rightarrow> lease_config \<Rightarrow> bool" where
  "holds digest le c \<longleftrightarrow> (case c of (now, st, _) \<Rightarrow>
     live_key now (lease_at st (lease_key_of digest le)) = Some (lease_value (tl_owner le) (tl_token le)))"

lemma verify_holds:
  "lease_parts_ok le millisecond_ns \<Longrightarrow>
   verify_task digest Delivered le now st = (if holds digest le (now, st, drawn) then Inr () else Inl (Failed ErrLeaseStale))"
  by (auto simp: verify_task_def holds_def Let_def simp del: live_key_simps split: option.splits)

lemma renew_holds:
  "lease_parts_ok le ttl \<Longrightarrow>
   is_ok (snd (renew_task digest Delivered le ttl now here st)) \<longleftrightarrow> holds digest le (now, st, drawn)"
  by (auto simp: renew_task_def renew_lease_script_def holds_def is_ok_def)

lemma release_holds:
  "lease_parts_ok le millisecond_ns \<Longrightarrow>
   is_ok (snd (release_task digest Delivered le now st)) \<longleftrightarrow> holds digest le (now, st, drawn)"
  by (auto simp: release_task_def release_lease_script_def holds_def is_ok_def)

text \<open>The lease key of a task names its counter: digests have a fixed length.\<close>

lemma lease_key_names_counter:
  assumes len: "\<forall>x. length (digest x) = 64"
    and "task_lease_keys digest a b c = (lk, fk)" and "task_lease_keys digest a' b' c' = (lk, fk')"
  shows "fk = fk'"
proof -
  have "digest (a @ [CHR 0x00] @ b) @ ''}:lease:'' @ digest c = digest (a' @ [CHR 0x00] @ b') @ ''}:lease:'' @ digest c'"
    using assms(2,3) by (auto simp: task_lease_keys_def Let_def)
  then have "digest (a @ [CHR 0x00] @ b) = digest (a' @ [CHR 0x00] @ b')"
    and "''}:lease:'' @ digest c = ''}:lease:'' @ digest c'"
    using len by (auto simp del: append.simps dest!: append_eq_append_conv [THEN iffD1, rotated])
  then show ?thesis using assms(2,3) by (auto simp: task_lease_keys_def Let_def)
qed

text \<open>
  The invariant: a drawn number is not above the counter, no two unused numbers of a counter are
  the same, and a lease carries a number that has been drawn and is no longer unused.
\<close>

definition names_task :: "(string \<Rightarrow> string) \<Rightarrow> string \<Rightarrow> string \<Rightarrow> bool" where
  "names_task digest lk fk \<longleftrightarrow> (\<exists>a b c. task_lease_keys digest a b c = (lk, fk))"

lemma names_taskI: "task_lease_keys digest a b c = (lk, fk) \<Longrightarrow> names_task digest lk fk"
  by (auto simp: names_task_def)

lemma names_task_counter:
  assumes "\<forall>x. length (digest x) = 64" and "names_task digest lk fk" and "names_task digest lk fk'"
  shows "fk' = fk"
  using assms lease_key_names_counter by (fastforce simp: names_task_def)

definition drawn_ok :: "(string \<Rightarrow> string) \<Rightarrow> lease_store \<Rightarrow> (string \<times> string \<times> string \<times> nat) set \<Rightarrow> bool" where
  "drawn_ok digest st drawn \<longleftrightarrow>
     (\<forall>lk fk owner token. (lk, fk, owner, token) \<in> drawn \<longrightarrow>
        names_task digest lk fk \<and> token \<le> fence_at st fk) \<and>
     (\<forall>lk lk' fk owner owner' token. (lk, fk, owner, token) \<in> drawn \<longrightarrow> (lk', fk, owner', token) \<in> drawn \<longrightarrow>
        lk' = lk \<and> owner' = owner)"

text \<open>A number is spent when it has been drawn and is not unused.\<close>

definition spent :: "lease_store \<Rightarrow> (string \<times> string \<times> string \<times> nat) set \<Rightarrow> string \<Rightarrow> nat \<Rightarrow> bool" where
  "spent st drawn fk token \<longleftrightarrow> token \<le> fence_at st fk \<and> (\<forall>lk owner. (lk, fk, owner, token) \<notin> drawn)"

lemma fence_set_nx [simp]: "fence_at (fst (set_nx lk v ms now st)) = fence_at st"
  and fence_renew [simp]: "fence_at (fst (renew_lease_script lk v ms now st)) = fence_at st"
  and fence_release [simp]: "fence_at (fst (release_lease_script lk v now st)) = fence_at st"
  by (simp_all add: set_nx_def renew_lease_script_def release_lease_script_def)

lemma incr_Some: "incr fk st = (st', Some token) \<Longrightarrow>
    token = Suc (fence_at st fk) \<and> fence_at st' = (fence_at st)(fk := Suc (fence_at st fk)) \<and> lease_at st' = lease_at st"
  by (auto simp: incr_def split: if_splits)

definition leases_ok :: "(string \<Rightarrow> string) \<Rightarrow> lease_store \<Rightarrow> (string \<times> string \<times> string \<times> nat) set \<Rightarrow> bool" where
  "leases_ok digest st drawn \<longleftrightarrow> (\<forall>lk fk v e. names_task digest lk fk \<longrightarrow>
     lease_at st lk = Some (v, e) \<longrightarrow> (\<exists>owner token. v = lease_value owner token \<and> spent st drawn fk token))"

text \<open>A spent number stays spent, and a lease that is not held under a spent number stays so.\<close>

lemma spent_step:
  assumes "lease_step digest (now, st, drawn) (now', st', drawn')" and "spent st drawn fk token"
  shows "spent st' drawn' fk token"
  using assms by cases (auto simp: spent_def dest!: incr_Some split: if_splits)

lemma unheld_step:
  assumes "lease_step digest (now, st, drawn) (now', st', drawn')"
    and "\<forall>x. length (digest x) = 64" and "drawn_ok digest st drawn"
    and "task_lease_keys digest (tl_tenant le) (tl_subscriber le) (tl_message le) = (lk, fk)"
    and "spent st drawn fk (tl_token le)" and "\<not> holds digest le (now, st, drawn)"
  shows "\<not> holds digest le (now', st', drawn')"
  using assms(1)
proof cases
  case Later
  then show ?thesis using assms(6) by (auto simp: holds_def live_key_Some)
next
  case (Draw a b c lk' fk' token owner)
  then show ?thesis using assms(6) by (auto simp: holds_def dest!: incr_Some)
next
  case (Use lk' fk' owner token ms)
  show ?thesis
  proof (cases "lk' = lk")
    case True
    have "names_task digest lk fk'" using Use assms(3) True unfolding drawn_ok_def by blast
    then have "fk' = fk" using names_task_counter [OF assms(2) names_taskI [OF assms(4)]] by blast
    then have "token \<noteq> tl_token le" using Use assms(5) by (auto simp: spent_def)
    then have "lease_value owner token \<noteq> lease_value (tl_owner le) (tl_token le)"
      using lease_value_inj by blast
    then show ?thesis using Use assms(4,6) by (auto simp: holds_def set_nx_def)
  next
    case False
    then show ?thesis using Use assms(4,6) by (auto simp: holds_def set_nx_def lease_key_of_def)
  qed
next
  case (Renewal ms lk' v)
  then show ?thesis using assms(6) by (auto simp: holds_def renew_lease_script_def live_key_Some split: if_splits)
next
  case (Release lk' v)
  then show ?thesis using assms(6) by (auto simp: holds_def release_lease_script_def)
qed

lemma drawn_ok_step:
  assumes "lease_step digest (now, st, drawn) (now', st', drawn')" and "drawn_ok digest st drawn"
  shows "drawn_ok digest st' drawn'"
  using assms(1)
proof cases
  case (Draw a b c lk fk token owner)
  note d = incr_Some [OF Draw(4)]
  have old: "names_task digest lk' fk'" "t' \<le> fence_at st fk'" if "(lk', fk', o', t') \<in> drawn" for lk' fk' o' t'
    using assms(2) that unfolding drawn_ok_def by blast+
  have "t' \<noteq> Suc (fence_at st fk)" if "(lk', fk, o', t') \<in> drawn" for lk' o' t'
    using old(2) [OF that] by simp
  then show ?thesis using Draw(1,2) names_taskI [OF Draw(3)] d assms(2) old unfolding drawn_ok_def
    by (auto intro: le_SucI)
next
  case (Use lk fk owner token ms)
  then show ?thesis using assms(2) unfolding drawn_ok_def Use fence_set_nx by blast
qed (use assms(2) in \<open>simp_all add: drawn_ok_def\<close>)

lemma leases_ok_step:
  assumes "lease_step digest (now, st, drawn) (now', st', drawn')"
    and "\<forall>x. length (digest x) = 64" and "drawn_ok digest st drawn" and "leases_ok digest st drawn"
  shows "leases_ok digest st' drawn'"
proof -
  have keep: "spent st' drawn' fk token" if "spent st drawn fk token" for fk token
    using spent_step [OF assms(1) that] .
  have "\<exists>owner token. v = lease_value owner token \<and> spent st' drawn' fk token"
    if k: "names_task digest lk fk" and l: "lease_at st' lk = Some (v, e)" for lk fk v e
  proof (cases "\<exists>e'. lease_at st lk = Some (v, e')")
    case True
    then show ?thesis using assms(4) k keep unfolding leases_ok_def by blast
  next
    case False
    from assms(1) obtain owner token where "v = lease_value owner token" "\<exists>fk'. (lk, fk', owner, token) \<in> drawn \<and> drawn' = drawn - {(lk, fk', owner, token)}"
      and "fence_at st' = fence_at st"
      using l False
      by cases (auto simp: set_nx_def renew_lease_script_def release_lease_script_def live_key_Some
          dest!: incr_Some split: if_splits)
    then obtain fk' where u: "(lk, fk', owner, token) \<in> drawn" "drawn' = drawn - {(lk, fk', owner, token)}" by blast
    have n: "names_task digest lk fk'" and "token \<le> fence_at st fk'"
      using assms(3) u(1) unfolding drawn_ok_def by blast+
    then have "fk' = fk" using names_task_counter [OF assms(2) k] by blast
    then have "spent st' drawn' fk token"
      using u assms(3) \<open>token \<le> fence_at st fk'\<close> \<open>fence_at st' = fence_at st\<close>
      unfolding spent_def drawn_ok_def by auto
    then show ?thesis using \<open>v = lease_value owner token\<close> by blast
  qed
  then show ?thesis unfolding leases_ok_def by blast
qed

definition lease_inv :: "(string \<Rightarrow> string) \<Rightarrow> lease_config \<Rightarrow> bool" where
  "lease_inv digest c \<longleftrightarrow> (case c of (now, st, drawn) \<Rightarrow> drawn_ok digest st drawn \<and> leases_ok digest st drawn)"

lemma lease_inv_steps:
  assumes "lease_steps digest c c'" and "\<forall>x. length (digest x) = 64" and "lease_inv digest c"
  shows "lease_inv digest c'"
  using assms(1,3)
proof (induction rule: rtranclp_induct)
  case (step c1 c2)
  obtain now1 st1 drawn1 now2 st2 drawn2 where c: "c1 = (now1, st1, drawn1)" "c2 = (now2, st2, drawn2)"
    by (metis prod_cases3)
  from step have inv: "drawn_ok digest st1 drawn1" "leases_ok digest st1 drawn1" by (simp_all add: lease_inv_def c)
  note s = step(2) [unfolded c]
  show ?case using drawn_ok_step [OF s inv(1)] leases_ok_step [OF s assms(2) inv] by (simp add: lease_inv_def c)
qed simp

lemma lease_inv_start: "lease_inv digest (now, new_store, {})"
  by (simp add: lease_inv_def new_store_def drawn_ok_def leases_ok_def)

lemma spent_steps:
  assumes "lease_steps digest c c'" and "spent (fst (snd c)) (snd (snd c)) fk token"
  shows "spent (fst (snd c')) (snd (snd c')) fk token"
  using assms
proof (induction rule: rtranclp_induct)
  case (step c1 c2)
  then show ?case using spent_step by (metis prod.collapse)
qed simp

lemma lost_stays_lost:
  assumes "lease_steps digest c c'" and "\<forall>x. length (digest x) = 64" and "lease_inv digest c"
    and "task_lease_keys digest (tl_tenant le) (tl_subscriber le) (tl_message le) = (lk, fk)"
    and "spent (fst (snd c)) (snd (snd c)) fk (tl_token le)" and "\<not> holds digest le c"
  shows "\<not> holds digest le c'"
  using assms(1,3,5,6)
proof (induction rule: rtranclp_induct)
  case (step c1 c2)
  obtain now1 st1 drawn1 now2 st2 drawn2 where c: "c1 = (now1, st1, drawn1)" "c2 = (now2, st2, drawn2)"
    by (metis prod_cases3)
  have "lease_inv digest c1" using lease_inv_steps [OF step(1) assms(2)] step.prems by blast
  then have "drawn_ok digest st1 drawn1" by (simp add: lease_inv_def c)
  moreover have "spent st1 drawn1 fk (tl_token le)"
    using spent_steps [OF step(1)] step.prems by (simp add: c)
  ultimately show ?case
    using unheld_step [OF step(2) [unfolded c] assms(2) _ assms(4)] step.IH step.prems by (simp add: c)
qed simp

text \<open>A lease that is held was granted: its number has been drawn and used.\<close>

lemma held_spent:
  assumes "lease_inv digest c" and "holds digest le c"
    and "task_lease_keys digest (tl_tenant le) (tl_subscriber le) (tl_message le) = (lk, fk)"
  shows "spent (fst (snd c)) (snd (snd c)) fk (tl_token le)"
proof -
  obtain now st drawn where c: "c = (now, st, drawn)" by (metis prod_cases3)
  obtain e where "lease_at st lk = Some (lease_value (tl_owner le) (tl_token le), e)"
    using assms(2,3) by (auto simp: holds_def c lease_key_of_def live_key_Some)
  then obtain owner token where "lease_value (tl_owner le) (tl_token le) = lease_value owner token"
      "spent st drawn fk token"
    using assms(1) names_taskI [OF assms(3)] unfolding lease_inv_def c leases_ok_def prod.case by blast
  then show ?thesis using lease_value_inj by (auto simp: c)
qed

lemma held_lost_never_again:
  assumes "\<forall>x. length (digest x) = 64" and "lease_inv digest c1"
    and "holds digest le c1" and "lease_steps digest c1 c2" and "\<not> holds digest le c2"
    and "lease_steps digest c2 c3"
  shows "\<not> holds digest le c3"
proof -
  obtain lk fk where k: "task_lease_keys digest (tl_tenant le) (tl_subscriber le) (tl_message le) = (lk, fk)"
    by fastforce
  show ?thesis
    by (rule lost_stays_lost [OF assms(6,1) lease_inv_steps [OF assms(4,1,2)] k
        spent_steps [OF assms(4) held_spent [OF assms(2,3) k]] assms(5)])
qed

text \<open>\<open>Acquire\<close> is a draw, what others do, and a use.\<close>

lemma acquire_task_steps:
  assumes a: "acquire_task digest Delivered Delivered others tenant subscriber message owner ttl now here st = (st', Inr le)"
    and keys: "task_lease_keys digest tenant subscriber message = (lk, fk)"
    and others: "lease_steps digest
      (now0, fst (incr fk st), insert (lk, fk, owner, Suc (fence_at st fk)) drawn)
      (now, others (fst (incr fk st)), drawn')"
    and "(lk, fk, owner, Suc (fence_at st fk)) \<in> drawn'"
  shows "lease_steps digest (now0, st, drawn) (now, st', drawn' - {(lk, fk, owner, Suc (fence_at st fk))})"
    and "tl_token le = Suc (fence_at st fk)"
proof -
  have valid: "valid_lease_parts tenant subscriber message owner ttl"
    using a by (auto simp: acquire_task_def split: if_splits)
  then have "1000000 div 1000000 \<le> ttl div 1000000"
    by (intro zdiv_mono1) (simp_all add: valid_lease_parts_def millisecond_ns_def)
  then have ms: "0 < milliseconds ttl"
    using valid by (simp add: milliseconds_def valid_lease_parts_def millisecond_ns_def)
  obtain st1 where i: "incr fk st = (st1, Some (Suc (fence_at st fk)))"
    using a valid keys by (auto simp: acquire_task_def incr_def split: if_splits)
  have r: "st' = fst (set_nx lk (lease_value owner (Suc (fence_at st fk))) (milliseconds ttl) now (others st1))
      \<and> tl_token le = Suc (fence_at st fk)"
    using a valid keys i by (auto simp: acquire_task_def split: if_splits)
  show "tl_token le = Suc (fence_at st fk)" using r by simp
  have "lease_step digest (now0, st, drawn) (now0, st1, insert (lk, fk, owner, Suc (fence_at st fk)) drawn)"
    by (rule Draw [OF keys i])
  also have "lease_steps digest \<dots> (now, others st1, drawn')" using others i by simp
  also have "lease_step digest (now, others st1, drawn')
      (now, st', drawn' - {(lk, fk, owner, Suc (fence_at st fk))})"
    using r Use [OF assms(4) ms] by simp
  finally show "lease_steps digest (now0, st, drawn) (now, st', drawn' - {(lk, fk, owner, Suc (fence_at st fk))})" .
qed

subsection \<open>Properties\<close>

text \<open>C33: The value stored under a lease key determines the lease: reading the length, the
  owner and the number back gives the owner and the fencing token, even when the owner holds
  colons or digits. So no two leases of a task share a value.\<close>
theorem lease_value_roundtrip:
  assumes "length owner \<le> 256"
  shows "read_lease_value (lease_value owner token) = Some (owner, token)"
  by (rule read_lease_value_reads [OF assms])

theorem lease_value_roundtrip_witness: "read_lease_value (lease_value ''1:a:2'' 7) = Some (''1:a:2'', 7)"
  by (rule lease_value_roundtrip) simp

text \<open>C34: A lost lease never comes back. Once a lease that was held is found not to be the
  current one (it expired, was released, or another worker took over), then whatever workers
  draw, use, renew and release afterwards, \<open>Verify\<close>, \<open>Renew\<close> and \<open>Release\<close> refuse it for ever.\<close>
theorem lost_lease_never_returns:
  assumes "\<forall>x. length (digest x) = 64"
    and "lease_steps digest (t0, new_store, {}) (now1, st1, drawn1)"
    and "verify_task digest Delivered le now1 st1 = Inr ()"
    and "lease_steps digest (now1, st1, drawn1) (now2, st2, drawn2)"
    and "verify_task digest Delivered le now2 st2 = Inl (Failed ErrLeaseStale)"
    and "lease_steps digest (now2, st2, drawn2) (now3, st3, drawn3)"
  shows "verify_task digest l le now3 st3 = Inl (Failed ErrLeaseStale) \<and>
    \<not> is_ok (snd (renew_task digest l le ttl now3 here st3)) \<and>
    \<not> is_ok (snd (release_task digest l le now3 st3))"
proof -
  have ok: "lease_parts_ok le millisecond_ns" using assms(3) by (auto simp: verify_task_def split: if_splits)
  have inv: "lease_inv digest (now1, st1, drawn1)" by (rule lease_inv_steps [OF assms(2,1) lease_inv_start])
  have lost: "\<not> holds digest le (now3, st3, drawn3)"
    using held_lost_never_again [OF assms(1) inv _ assms(4) _ assms(6)] assms(3,5)
      verify_holds [OF ok, of digest now1 st1 drawn1] verify_holds [OF ok, of digest now2 st2 drawn2]
    by (auto split: if_splits)
  show ?thesis
  proof (cases l)
    case Delivered
    then show ?thesis using lost verify_holds [OF ok, where drawn = drawn3]
        release_holds [OF ok, where drawn = drawn3] renew_holds [where drawn = drawn3]
      by (cases "lease_parts_ok le ttl") (auto simp: renew_task_def is_ok_def)
  qed (use ok in \<open>simp_all add: verify_task_def renew_task_def release_task_def is_ok_def\<close>)
qed

definition demo_digest :: "string \<Rightarrow> string" where
  "demo_digest x = replicate 64 (CHR ''0'')"

text \<open>Worker \<open>a\<close> leases a task for a second at time 10; the lease has expired at 2000.\<close>

definition demo_leased :: lease_store where
  "demo_leased = fst (acquire_task demo_digest Delivered Delivered (\<lambda>st. st) ''t'' ''s'' ''m'' ''a'' second_ns 10 0 new_store)"

definition demo_lease :: "string \<Rightarrow> nat \<Rightarrow> task_lease" where
  "demo_lease owner token = \<lparr>tl_tenant = ''t'', tl_subscriber = ''s'', tl_message = ''m'', tl_owner = owner,
     tl_token = token, tl_expires_at = second_ns\<rparr>"

lemma demo_parts [simp]:
  "valid_lease_parts ''t'' ''s'' ''m'' ''a'' second_ns" "valid_lease_parts ''t'' ''s'' ''m'' ''b'' second_ns"
  "valid_lease_parts ''t'' ''s'' ''m'' ''a'' millisecond_ns" "valid_lease_parts ''t'' ''s'' ''m'' ''b'' millisecond_ns"
  "milliseconds second_ns = 1000"
  by code_simp+

definition demo_keys :: "string \<times> string" where
  "demo_keys = task_lease_keys demo_digest ''t'' ''s'' ''m''"

lemma demo_acquired:
  "acquire_task demo_digest Delivered Delivered (\<lambda>st. st) ''t'' ''s'' ''m'' ''a'' second_ns 10 0 new_store =
     (demo_leased, Inr (demo_lease ''a'' 1))"
  by (auto simp: demo_leased_def demo_lease_def acquire_task_def incr_def set_nx_def new_store_def max_int64_def
      split: prod.splits)

lemma demo_leased_at: "lease_at demo_leased = [fst demo_keys \<mapsto> (lease_value ''a'' 1, 1010)]"
  by (auto simp: demo_leased_def acquire_task_def incr_def set_nx_def new_store_def max_int64_def demo_keys_def
      split: prod.splits)

lemma demo_leased_steps: "lease_steps demo_digest (10, new_store, {}) (10, demo_leased, {})"
proof -
  obtain lk fk where k: "task_lease_keys demo_digest ''t'' ''s'' ''m'' = (lk, fk)" by fastforce
  have "lease_steps demo_digest (10, new_store, {})
      (10, demo_leased, {(lk, fk, ''a'', Suc (fence_at new_store fk))} - {(lk, fk, ''a'', Suc (fence_at new_store fk))})"
    by (rule acquire_task_steps(1) [OF demo_acquired k]) simp_all
  then show ?thesis by simp
qed

theorem lost_lease_never_returns_witness:
  "verify_task demo_digest Delivered (demo_lease ''a'' 1) 10 demo_leased = Inr () \<and>
   verify_task demo_digest Delivered (demo_lease ''a'' 1) 3000 demo_leased = Inl (Failed ErrLeaseStale)"
proof -
  have later: "lease_steps demo_digest (10, demo_leased, {}) (2000, demo_leased, {})"
    "lease_steps demo_digest (2000, demo_leased, {}) (3000, demo_leased, {})"
    by (auto intro!: r_into_rtranclp lease_step.Later)
  have ok: "lease_parts_ok (demo_lease ''a'' 1) millisecond_ns"
    and key: "lease_key_of demo_digest (demo_lease ''a'' 1) = fst demo_keys"
    and val: "tl_owner (demo_lease ''a'' 1) = ''a''" "tl_token (demo_lease ''a'' 1) = 1"
    by (simp_all add: lease_parts_ok_def demo_lease_def lease_key_of_def demo_keys_def)
  have v: "verify_task demo_digest Delivered (demo_lease ''a'' 1) now demo_leased =
      (if now \<le> 1010 then Inr () else Inl (Failed ErrLeaseStale))" for now
    unfolding verify_holds [OF ok, of demo_digest now demo_leased "{}"] by (simp add: holds_def key val demo_leased_at del: One_nat_def)
  have "\<forall>x. length (demo_digest x) = 64" by (simp add: demo_digest_def)
  from lost_lease_never_returns [OF this demo_leased_steps _ later(1) _ later(2), of "demo_lease ''a'' 1" Delivered]
  show ?thesis by (simp add: v del: One_nat_def)
qed

text \<open>The fencing tokens of successive holders can go back. Worker \<open>a\<close> draws number 1; before
  it sets the key, worker \<open>b\<close> draws 2, holds the lease and releases it; then \<open>a\<close> holds the lease
  with the lower number. A consumer that keeps the highest token it has seen would refuse the
  current holder and accept the earlier one.\<close>
theorem fencing_token_goes_back:
  "let between = acquire_task demo_digest Delivered Delivered (\<lambda>st. st) ''t'' ''s'' ''m'' ''b'' second_ns 10 0;
       ended = (\<lambda>st. fst (release_task demo_digest Delivered (demo_lease ''b'' 2) 20 (fst (between st))));
       (st, a) = acquire_task demo_digest Delivered Delivered ended ''t'' ''s'' ''m'' ''a'' second_ns 30 0 new_store
   in snd (between (fst (incr (snd demo_keys) new_store))) = Inr (demo_lease ''b'' 2) \<and>
      a = Inr (demo_lease ''a'' 1) \<and>
      verify_task demo_digest Delivered (demo_lease ''a'' 1) 30 st = Inr ()"
proof -
  obtain lk fk where k: "task_lease_keys demo_digest ''t'' ''s'' ''m'' = (lk, fk)" by fastforce
  show ?thesis
    by (simp add: demo_keys_def k acquire_task_def release_task_def verify_task_def incr_def set_nx_def
        release_lease_script_def new_store_def max_int64_def demo_lease_def lease_parts_ok_def lease_key_of_def Let_def numeral_2_eq_2)
qed

end
