(* ===== verification/WorkflowValue.thy ===== *)
theory WorkflowValue imports GoBase begin

section \<open>Values and step definitions of the workflow engine\<close>

text \<open>
  The dynamically typed values of \<open>internal/service/workflow\<close>, the helpers on lists of strings
  of \<open>validator.go\<close> and \<open>executor_router.go\<close>, and the types \<open>StepDefinition\<close> and \<open>StepResult\<close>.
\<close>

subsection \<open>Values\<close>

text \<open>
  What an \<open>any\<close> of a step's configuration, mapping or payload can hold: the types its type
  switches ask for, and \<open>Scalar\<close> for every other value, with the text \<open>fmt.Sprint\<close> gives it.
  A Go map is an association list in the order in which it is ranged over; a nil map and an
  empty one are only told apart where the code does, in \<open>config\<close>.
\<close>

datatype any =
    GoNil
  | Scalar string
  | Str string
  | StrList "string list"
  | StrMap "(string \<times> string) list"
  | Arr "any list"
  | Obj "(string \<times> any) list"

type_synonym object = "(string \<times> any) list"

text \<open>Indexing a map yields the zero value, a nil \<open>any\<close>, for a key that is absent.\<close>

definition index :: "object \<Rightarrow> string \<Rightarrow> any" where
  "index m k = (case map_of m k of None \<Rightarrow> GoNil | Some v \<Rightarrow> v)"

fun as_string :: "any \<Rightarrow> string" where
  "as_string (Str s) = trim_space s"
| "as_string _ = []"

definition config_string :: "object option \<Rightarrow> string \<Rightarrow> string" where
  "config_string c k = (case c of None \<Rightarrow> [] | Some m \<Rightarrow>
     (case map_of m k of None \<Rightarrow> [] | Some v \<Rightarrow> as_string v))"

datatype value_error = ValueNil | ValueEmpty | ValueElement | ValueType

fun as_strings :: "any list \<Rightarrow> value_error + string list" where
  "as_strings [] = Inr []"
| "as_strings (v # vs) = (if as_string v = [] then Inl ValueElement
     else bind_res (as_strings vs) (\<lambda>rest. Inr (as_string v # rest)))"

fun as_string_slice :: "any \<Rightarrow> value_error + string list" where
  "as_string_slice GoNil = Inl ValueNil"
| "as_string_slice (Str s) = (if trim_space s = [] then Inl ValueEmpty else Inr [trim_space s])"
| "as_string_slice (StrList v) = Inr v"
| "as_string_slice (Arr vs) = as_strings vs"
| "as_string_slice _ = Inl ValueType"

text \<open>Only the text of a plain string is trimmed.\<close>

fun single_route :: "any \<Rightarrow> string option" where
  "single_route (Str s) = (if trim_space s = [] then None else Some (trim_space s))"
| "single_route (StrList [r]) = (if r = [] then None else Some r)"
| "single_route (Arr [Str r]) = (if r = [] then None else Some r)"
| "single_route _ = None"

subsection \<open>Lists of strings\<close>

fun trim_strings :: "string list \<Rightarrow> string list" where
  "trim_strings [] = []"
| "trim_strings (v # vs) = (if trim_space v = [] then trim_strings vs else trim_space v # trim_strings vs)"

fun unique_from :: "string list \<Rightarrow> string list \<Rightarrow> string list" where
  "unique_from seen [] = []"
| "unique_from seen (v # vs) = (if v \<in> set seen then unique_from seen vs else v # unique_from (v # seen) vs)"

definition unique_strings :: "string list \<Rightarrow> string list" where
  "unique_strings vs = unique_from [] vs"

definition append_unique :: "string list \<Rightarrow> string \<Rightarrow> string list" where
  "append_unique vs v = (if v \<in> set vs then vs else vs @ [v])"

fun normalize_from :: "string list \<Rightarrow> string list \<Rightarrow> string list" where
  "normalize_from seen [] = []"
| "normalize_from seen (v # vs) =
     (if trim_space v = [] \<or> trim_space v \<in> set seen then normalize_from seen vs
      else trim_space v # normalize_from (trim_space v # seen) vs)"

definition normalize_strings :: "string list \<Rightarrow> string list" where
  "normalize_strings vs = normalize_from [] vs"

text \<open>The two helpers of \<open>validator.go\<close> in a row do what the one of \<open>executor_router.go\<close> does.\<close>

lemma normalize_from_trim: "normalize_from seen vs = unique_from seen (trim_strings vs)"
  by (induction vs arbitrary: seen) simp_all

lemma normalize_strings_eq: "normalize_strings vs = unique_strings (trim_strings vs)"
  by (simp add: normalize_strings_def unique_strings_def normalize_from_trim)

lemma set_unique_from: "set (unique_from seen vs) = set vs - set seen"
  by (induction seen vs rule: unique_from.induct) auto

lemma distinct_unique_from: "distinct (unique_from seen vs)"
  by (induction seen vs rule: unique_from.induct) (auto simp: set_unique_from)

lemma unique_from_id: "distinct vs \<Longrightarrow> set vs \<inter> set seen = {} \<Longrightarrow> unique_from seen vs = vs"
  by (induction seen vs rule: unique_from.induct) auto

lemma unique_strings_facts [simp]:
  "set (unique_strings vs) = set vs" "distinct (unique_strings vs)"
  by (simp_all add: unique_strings_def set_unique_from distinct_unique_from)

lemma trimmed_trim_strings: "v \<in> set (trim_strings vs) \<Longrightarrow> v \<noteq> [] \<and> trim_space v = v"
  by (induction vs) (auto split: if_splits)

lemma trim_strings_id: "\<forall>v\<in>set vs. v \<noteq> [] \<and> trim_space v = v \<Longrightarrow> trim_strings vs = vs"
  by (induction vs) simp_all

lemma normalize_strings_idem [simp]:
  "normalize_strings (normalize_strings vs) = normalize_strings vs"
proof -
  have "trim_strings (normalize_strings vs) = normalize_strings vs"
    by (rule trim_strings_id) (auto simp: normalize_strings_eq dest: trimmed_trim_strings)
  then show ?thesis
    by (simp add: normalize_strings_eq unique_strings_def unique_from_id distinct_unique_from)
qed

lemma normalize_strings_member:
  "v \<in> set (normalize_strings vs) \<Longrightarrow> v \<noteq> [] \<and> trim_space v = v"
  by (auto simp: normalize_strings_eq dest: trimmed_trim_strings)

subsection \<open>White space and case\<close>

lemma lower_sublist: "to_lower s = s \<Longrightarrow> set t \<subseteq> set s \<Longrightarrow> to_lower t = t"
  by (auto simp: to_lower_def map_idI list.map_id map_eq_conv intro!: map_idI)
     (metis map_eq_conv list.map_id id_apply subset_eq)

lemma set_trim_space: "set (trim_space s) \<subseteq> set s"
proof -
  have "set (trim_front ws t) \<subseteq> set t" for ws t
    using trim_front_suffix [of ws t] by (rule set_mono_suffix)
  then show ?thesis unfolding trim_space_def by (metis set_rev subset_trans)
qed

lemma lower_trim_lower [simp]: "to_lower (trim_space (to_lower s)) = trim_space (to_lower s)"
  by (rule lower_sublist [OF to_lower_idem set_trim_space])

text \<open>No white space has a letter in it, so trimming and lowering the case commute.\<close>

definition no_letter :: "char \<Rightarrow> bool" where
  "no_letter c \<longleftrightarrow> (of_char c :: nat) < 65 \<or> 122 < (of_char c :: nat)"

lemma lower_no_letter: "no_letter c \<Longrightarrow> ascii_lower d = c \<longleftrightarrow> d = c" "no_letter c \<Longrightarrow> c = ascii_lower d \<longleftrightarrow> d = c"
  by (auto simp: no_letter_def ascii_lower_def)

lemma prefix_lower: "list_all no_letter g \<Longrightarrow> prefix g (to_lower s) \<longleftrightarrow> prefix g s"
proof (induction g arbitrary: s)
  case (Cons c g)
  then show ?case by (cases s) (auto simp: to_lower_def lower_no_letter)
qed simp

lemma trim_front_lower:
  "\<forall>g\<in>set ws. list_all no_letter g \<Longrightarrow> trim_front ws (to_lower s) = to_lower (trim_front ws s)"
proof (induction ws s rule: trim_front.induct)
  case (1 ws s)
  have "space_at ws (to_lower s) = space_at ws s"
    unfolding space_at_def by (rule find_cong) (use 1(2) in \<open>auto simp: prefix_lower\<close>)
  then show ?case using 1 by (simp add: trim_front.simps [of ws] drop_map to_lower_def split: option.split)
qed

lemma trim_lower: "trim_space (to_lower s) = to_lower (trim_space s)"
proof -
  have plain: "\<forall>g\<in>set go_spaces. list_all no_letter g" by code_simp
  then have "\<forall>g\<in>set (map rev go_spaces). list_all no_letter g" by auto
  moreover have "rev (to_lower t) = to_lower (rev t)" for t by (simp add: to_lower_def rev_map)
  ultimately show ?thesis using plain by (simp add: trim_space_def trim_front_lower)
qed

lemma trim_lower_trim [simp]: "trim_space (to_lower (trim_space s)) = to_lower (trim_space s)"
  by (simp add: trim_lower)

subsection \<open>Steps and results\<close>

record step_definition =
  step_id :: string
  display_name :: string
  step_type :: string
  node_kind :: string
  node_ref :: string
  input_mapping :: object
  output_mapping :: object
  config :: "object option"
  next_step_ids :: "string list"
  depends_on :: "string list"
  compensatable :: bool
  step_metadata :: object

record step_result =
  sr_status :: string
  sr_decision :: string
  sr_output :: object
  selected_branches :: "string list"
  approved :: bool
  has_approval :: bool

end
