(* ===== verification/WorkflowGraph.thy ===== *)
theory WorkflowGraph imports WorkflowValue DepthFirst "HOL-Library.AList" begin

section \<open>Step executors and the validation of workflow definitions\<close>

text \<open>
  The executors of the six step types and their router (\<open>executor_router.go\<close>,
  \<open>executor_*.go\<close>), and \<open>ValidateStepDefinitions\<close> of \<open>validator.go\<close>, which every definition
  passes when it is created and again each time the runner loads it. The depth-first search of
  \<open>hasCycle\<close> is compared with the one of the agent plans, of which \<open>visit_all_decides\<close> shows
  what it decides.
\<close>

subsection \<open>Errors\<close>

datatype step_error =
    TypeEmpty | UnsupportedType string
  | RoutesRequired | RoutesEmpty | RoutesNotObject | RouteEntryNotObject | RouteEntryNoName
  | RouteValue string value_error | RouteNoTargets string | RouteEmptyTarget string | DefaultRoute value_error
  | NoMatchingRoute | TooFewBranches | BranchesEmpty | UnknownBranch string
  | ConfigRequired | ConfigKeyRequired string | ConfigKeyEmpty string | RouteNotSingle string
  | MissingApproval | RejectedWithoutRoute

subsection \<open>Executors\<close>

datatype executor =
    AgentExecutor | SystemExecutor | DecisionExecutor | ParallelExecutor | HumanApprovalExecutor | CompensationExecutor

fun executor_type :: "executor \<Rightarrow> string" where
  "executor_type AgentExecutor = ''agent''"
| "executor_type SystemExecutor = ''system''"
| "executor_type DecisionExecutor = ''decision''"
| "executor_type ParallelExecutor = ''parallel''"
| "executor_type HumanApprovalExecutor = ''human_approval''"
| "executor_type CompensationExecutor = ''compensation''"

fun subject_type :: "executor \<Rightarrow> string" where
  "subject_type AgentExecutor = ''agent''"
| "subject_type HumanApprovalExecutor = ''human''"
| "subject_type _ = ''system''"

type_synonym router = "(string \<times> executor) list"

definition register_executor :: "executor \<Rightarrow> router \<Rightarrow> router" where
  "register_executor e r = (let key = to_lower (trim_space (executor_type e))
     in if key = [] then r else AList.update key e r)"

definition builtin_executors :: "executor list" where
  "builtin_executors =
     [AgentExecutor, SystemExecutor, DecisionExecutor, ParallelExecutor, HumanApprovalExecutor, CompensationExecutor]"

definition new_executor_router :: router where
  "new_executor_router = fold register_executor builtin_executors []"

definition executor_for :: "router \<Rightarrow> string \<Rightarrow> step_error + executor" where
  "executor_for r t = (let key = to_lower (trim_space t)
     in if key = [] then Inl TypeEmpty
        else case map_of r key of None \<Rightarrow> Inl (UnsupportedType t) | Some e \<Rightarrow> Inr e)"

subsection \<open>The decision executor\<close>

type_synonym routes = "(string \<times> string list) list"

fun routes_of_object :: "object \<Rightarrow> routes \<Rightarrow> step_error + routes" where
  "routes_of_object [] out = Inr out"
| "routes_of_object ((k, v) # rest) out = (case as_string_slice v of
     Inl e \<Rightarrow> Inl (RouteValue k e)
   | Inr next \<Rightarrow> (if normalize_strings next = [] then Inl (RouteNoTargets k)
       else routes_of_object rest (AList.update (trim_space k) (normalize_strings next) out)))"

fun routes_of_strings :: "(string \<times> string) list \<Rightarrow> routes \<Rightarrow> step_error + routes" where
  "routes_of_strings [] out = Inr out"
| "routes_of_strings ((k, target) # rest) out =
     (if trim_space target = [] then Inl (RouteEmptyTarget k)
      else routes_of_strings rest (AList.update (trim_space k) [trim_space target] out))"

fun routes_of_array :: "any list \<Rightarrow> routes \<Rightarrow> step_error + routes" where
  "routes_of_array [] out = Inr out"
| "routes_of_array (Obj entry # rest) out =
     (let name = trim_space (as_string (index entry ''name''))
      in if name = [] then Inl RouteEntryNoName
         else case as_string_slice (index entry ''next'') of
           Inl e \<Rightarrow> Inl (RouteValue name e)
         | Inr next \<Rightarrow> (if normalize_strings next = [] then Inl (RouteNoTargets name)
             else routes_of_array rest (AList.update name (normalize_strings next) out)))"
| "routes_of_array (_ # rest) out = Inl RouteEntryNotObject"

fun parse_route_map :: "any \<Rightarrow> step_error + routes" where
  "parse_route_map (Obj m) = routes_of_object m []"
| "parse_route_map (StrMap m) = routes_of_strings m []"
| "parse_route_map (Arr vs) = routes_of_array vs []"
| "parse_route_map _ = Inl RoutesNotObject"

definition extract_routes :: "step_definition \<Rightarrow> step_error + routes \<times> string list" where
  "extract_routes step = (case config step of None \<Rightarrow> Inl RoutesRequired | Some c \<Rightarrow>
     (case map_of c ''routes'' of None \<Rightarrow> Inl RoutesRequired | Some raw \<Rightarrow>
        bind_res (parse_route_map raw) (\<lambda>rs.
          if rs = [] then Inl RoutesEmpty
          else case map_of c ''default_route'' of
            None \<Rightarrow> Inr (rs, [])
          | Some d \<Rightarrow> (case as_string_slice d of
              Inl e \<Rightarrow> Inl (DefaultRoute e)
            | Inr fallback \<Rightarrow> Inr (rs, normalize_strings fallback)))))"

definition decision_key :: "step_result \<Rightarrow> string" where
  "decision_key result = (let key = trim_space (sr_decision result);
       decided = as_string (index (sr_output result) ''decision'');
       routed = as_string (index (sr_output result) ''route'')
     in if key \<noteq> [] then key else if decided \<noteq> [] then decided else routed)"

definition decision_next :: "step_definition \<Rightarrow> step_result \<Rightarrow> step_error + string list" where
  "decision_next step result = bind_res (extract_routes step) (\<lambda>(rs, fallback).
     let key = decision_key result
     in case (if key = [] then None else map_of rs key) of
          Some next \<Rightarrow> Inr next
        | None \<Rightarrow>
            if fallback \<noteq> [] then Inr fallback
            else case map_of rs ''default'' of
                   Some next \<Rightarrow> Inr next
                 | None \<Rightarrow> if next_step_ids step \<noteq> [] then Inr (next_step_ids step) else Inl NoMatchingRoute)"

subsection \<open>The parallel and the approval executors\<close>

definition parallel_next :: "step_definition \<Rightarrow> step_result \<Rightarrow> step_error + string list" where
  "parallel_next step result =
     (if selected_branches result = [] then Inr (next_step_ids step)
      else let selected = normalize_strings (selected_branches result)
        in if selected = [] then Inl BranchesEmpty
           else case List.find (\<lambda>b. b \<notin> set (next_step_ids step)) selected of
                  Some b \<Rightarrow> Inl (UnknownBranch b)
                | None \<Rightarrow> Inr selected)"

definition approval_keys :: "string list" where
  "approval_keys = [''review_type'', ''approver_policy'', ''review_payload_path'', ''approved_route'', ''rejected_route'']"

definition validate_approval :: "step_definition \<Rightarrow> step_error + unit" where
  "validate_approval step = (case config step of None \<Rightarrow> Inl ConfigRequired | Some c \<Rightarrow>
     (case List.find (\<lambda>k. map_of c k = None) approval_keys of
        Some k \<Rightarrow> Inl (ConfigKeyRequired k)
      | None \<Rightarrow>
         if config_string (config step) ''review_type'' = [] then Inl (ConfigKeyEmpty ''review_type'')
         else if config_string (config step) ''review_payload_path'' = [] then Inl (ConfigKeyEmpty ''review_payload_path'')
         else if single_route (index c ''approved_route'') = None then Inl (RouteNotSingle ''approved_route'')
         else if single_route (index c ''rejected_route'') = None then Inl (RouteNotSingle ''rejected_route'')
         else Inr ()))"

definition route_target :: "object \<Rightarrow> string \<Rightarrow> step_error + string list" where
  "route_target c k = (case single_route (index c k) of None \<Rightarrow> Inl (RouteNotSingle k) | Some target \<Rightarrow> Inr [target])"

text \<open>Indexing a nil map is indexing an empty one.\<close>

definition approval_next :: "step_definition \<Rightarrow> step_result \<Rightarrow> step_error + string list" where
  "approval_next step result =
     (if \<not> has_approval result then Inl MissingApproval
      else if approved result then route_target (case config step of None \<Rightarrow> [] | Some c \<Rightarrow> c) ''approved_route''
      else case config step of
             Some c \<Rightarrow> route_target c ''rejected_route''
           | None \<Rightarrow> Inl RejectedWithoutRoute)"

subsection \<open>The router\<close>

fun executor_validate :: "executor \<Rightarrow> step_definition \<Rightarrow> step_error + unit" where
  "executor_validate DecisionExecutor step = bind_res (extract_routes step) (\<lambda>_. Inr ())"
| "executor_validate ParallelExecutor step = (if length (next_step_ids step) < 2 then Inl TooFewBranches else Inr ())"
| "executor_validate HumanApprovalExecutor step = validate_approval step"
| "executor_validate _ step = Inr ()"

fun executor_next :: "executor \<Rightarrow> step_definition \<Rightarrow> step_result \<Rightarrow> step_error + string list" where
  "executor_next DecisionExecutor step result = decision_next step result"
| "executor_next ParallelExecutor step result = parallel_next step result"
| "executor_next HumanApprovalExecutor step result = approval_next step result"
| "executor_next _ step result = Inr (next_step_ids step)"

definition router_validate :: "router \<Rightarrow> step_definition \<Rightarrow> step_error + unit" where
  "router_validate r step = bind_res (executor_for r (step_type step)) (\<lambda>e. executor_validate e step)"

definition next_steps :: "router \<Rightarrow> step_definition \<Rightarrow> step_result \<Rightarrow> step_error + string list" where
  "next_steps r step result = bind_res (executor_for r (step_type step)) (\<lambda>e. executor_next e step result)"

lemma builtin_router: "new_executor_router = map (\<lambda>e. (executor_type e, e)) builtin_executors"
  by code_simp

subsection \<open>Checking the steps one by one\<close>

datatype graph_error =
    EmptySteps | MissingStepID | DuplicateStepID string | InvalidStepType string | StepInvalid string step_error
  | UnknownNext string string | UnknownDependency string string
  | InvalidBoundary nat nat | StartHasIncoming string | EndHasOutgoing string
  | CycleDetected | NoEntryStep

definition allowed_step_types :: "string list" where
  "allowed_step_types = [''agent'', ''system'', ''decision'', ''parallel'', ''human_approval'', ''compensation'']"

definition normalize_step :: "step_definition \<Rightarrow> step_definition" where
  "normalize_step step = step\<lparr>
     next_step_ids := unique_strings (trim_strings (next_step_ids step)),
     depends_on := unique_strings (trim_strings (depends_on step)),
     node_kind := trim_space (to_lower (node_kind step)),
     node_ref := trim_space (node_ref step)\<rparr>"

fun check_steps :: "router \<Rightarrow> string list \<Rightarrow> step_definition list \<Rightarrow> graph_error + step_definition list" where
  "check_steps r seen [] = Inr []"
| "check_steps r seen (raw # raws) =
     (let step = raw\<lparr>step_id := trim_space (step_id raw)\<rparr>; typed = step\<lparr>step_type := trim_space (to_lower (step_type step))\<rparr>;
          normalized = normalize_step typed
      in if step_id step = [] then Inl MissingStepID
         else if step_id step \<in> set seen then Inl (DuplicateStepID (step_id step))
         else if step_type typed \<notin> set allowed_step_types then Inl (InvalidStepType (step_type typed))
         else case router_validate r normalized of
                Inl e \<Rightarrow> Inl (StepInvalid (step_id step) e)
              | Inr _ \<Rightarrow> bind_res (check_steps r (step_id step # seen) raws) (\<lambda>rest. Inr (normalized # rest)))"

subsection \<open>Linking\<close>

record links =
  forward :: "string \<Rightarrow> string list"
  backward :: "string \<Rightarrow> string list"
  start_nodes :: "string list"
  end_nodes :: "string list"

fun link_next :: "string list \<Rightarrow> string \<Rightarrow> string list \<Rightarrow> links \<Rightarrow> graph_error + links" where
  "link_next ids sid [] l = Inr l"
| "link_next ids sid (n # ns) l = (if n \<notin> set ids then Inl (UnknownNext sid n)
     else link_next ids sid ns (l\<lparr>forward := (forward l)(sid := forward l sid @ [n]),
       backward := (backward l)(n := backward l n @ [sid])\<rparr>))"

fun link_deps :: "string list \<Rightarrow> string \<Rightarrow> string list \<Rightarrow> links \<Rightarrow> graph_error + links" where
  "link_deps ids sid [] l = Inr l"
| "link_deps ids sid (d # ds) l = (if d \<notin> set ids then Inl (UnknownDependency sid d)
     else link_deps ids sid ds (l\<lparr>backward := (backward l)(sid := append_unique (backward l sid) d),
       forward := (forward l)(d := append_unique (forward l d) sid)\<rparr>))"

definition mark_boundary :: "step_definition \<Rightarrow> links \<Rightarrow> links" where
  "mark_boundary step l =
     (if node_kind step = ''input.capture'' then l\<lparr>start_nodes := start_nodes l @ [step_id step]\<rparr>
      else if node_kind step = ''workflow.end'' then l\<lparr>end_nodes := end_nodes l @ [step_id step]\<rparr>
      else l)"

fun link_steps :: "string list \<Rightarrow> step_definition list \<Rightarrow> links \<Rightarrow> graph_error + links" where
  "link_steps ids [] l = Inr l"
| "link_steps ids (s # ss) l =
     bind_res (link_next ids (step_id s) (next_step_ids s) (mark_boundary s l)) (\<lambda>l1.
     bind_res (link_deps ids (step_id s) (depends_on s) l1) (\<lambda>l2. link_steps ids ss l2))"

definition no_links :: links where
  "no_links = \<lparr>forward = \<lambda>_. [], backward = \<lambda>_. [], start_nodes = [], end_nodes = []\<rparr>"

subsection \<open>The search for a cycle\<close>

text \<open>
  The colours are those of the agent plans' search: absent or 0 is \<open>Fresh\<close>, 1 \<open>OnPath\<close>, 2
  \<open>Finished\<close>. The fuel is the number of steps; \<open>has_cycle_exact\<close> shows that it never runs out.
\<close>

fun dfs :: "nat \<Rightarrow> (string \<Rightarrow> string list) \<Rightarrow> string \<Rightarrow> colours \<Rightarrow> bool \<times> colours"
and dfs_next :: "nat \<Rightarrow> (string \<Rightarrow> string list) \<Rightarrow> string list \<Rightarrow> colours \<Rightarrow> bool \<times> colours" where
  "dfs 0 adj node visited = (True, visited)"
| "dfs (Suc n) adj node visited =
     (if visited node = OnPath then (True, visited)
      else if visited node = Finished then (False, visited)
      else case dfs_next n adj (adj node) (visited(node := OnPath)) of
             (True, c) \<Rightarrow> (True, c)
           | (False, c) \<Rightarrow> (False, c(node := Finished)))"
| "dfs_next n adj [] visited = (False, visited)"
| "dfs_next n adj (next # rest) visited = (case dfs n adj next visited of
             (True, c) \<Rightarrow> (True, c)
           | (False, c) \<Rightarrow> dfs_next n adj rest c)"

fun cycle_from :: "nat \<Rightarrow> (string \<Rightarrow> string list) \<Rightarrow> string list \<Rightarrow> colours \<Rightarrow> bool" where
  "cycle_from n adj [] visited = False"
| "cycle_from n adj (node # nodes) visited =
     (if visited node = Fresh
      then (case dfs n adj node visited of (True, c) \<Rightarrow> True | (False, c) \<Rightarrow> cycle_from n adj nodes c)
      else cycle_from n adj nodes visited)"

definition has_cycle :: "(string \<Rightarrow> string list) \<Rightarrow> string list \<Rightarrow> bool" where
  "has_cycle adj nodes = cycle_from (length nodes) adj nodes (\<lambda>_. Fresh)"

subsection \<open>The validator\<close>

record validation =
  v_steps :: "step_definition list"
  start_step_ids :: "string list"
  all_step_ids :: "string list"
  adjacency :: "string \<Rightarrow> string list"
  reverse_adjacency :: "string \<Rightarrow> string list"
  has_compensatable :: bool
  step_index :: "string \<Rightarrow> step_definition option"

definition index_steps :: "step_definition list \<Rightarrow> string \<Rightarrow> step_definition option" where
  "index_steps ss = fold (\<lambda>s m. m(step_id s \<mapsto> s)) ss (\<lambda>_. None)"

definition check_links :: "step_definition list \<Rightarrow> links \<Rightarrow> graph_error + validation" where
  "check_links steps l =
     (let ids = map step_id steps in
      case (start_nodes l, end_nodes l) of
        ([s], [e]) \<Rightarrow>
          if backward l s \<noteq> [] then Inl (StartHasIncoming s)
          else if forward l e \<noteq> [] then Inl (EndHasOutgoing e)
          else if has_cycle (forward l) ids then Inl CycleDetected
          else let starts = [step_id st. st \<leftarrow> steps, backward l (step_id st) = []]
            in if starts = [] then Inl NoEntryStep
               else Inr \<lparr>v_steps = steps, start_step_ids = starts, all_step_ids = ids,
                 adjacency = forward l, reverse_adjacency = backward l,
                 has_compensatable = list_ex compensatable steps, step_index = index_steps steps\<rparr>
      | (ss, es) \<Rightarrow> Inl (InvalidBoundary (length ss) (length es)))"

definition validate_steps :: "step_definition list \<Rightarrow> graph_error + validation" where
  "validate_steps raw =
     (if raw = [] then Inl EmptySteps
      else bind_res (check_steps new_executor_router [] raw) (\<lambda>steps.
        bind_res (link_steps (map step_id steps) steps no_links) (\<lambda>l. check_links steps l)))"

definition step_by_id :: "validation \<Rightarrow> string \<Rightarrow> step_definition option" where
  "step_by_id v sid = step_index v sid"

subsection \<open>What the search decides\<close>

definition adj_table :: "(string \<Rightarrow> string list) \<Rightarrow> string list \<Rightarrow> dep_table" where
  "adj_table adj ids = map (\<lambda>i. (i, adj i)) ids"

definition adj_edges :: "(string \<Rightarrow> string list) \<Rightarrow> string list \<Rightarrow> (string \<times> string) set" where
  "adj_edges adj ids = {(x, y). x \<in> set ids \<and> y \<in> set (adj x)}"

lemma map_of_adj_table: "map_of (adj_table adj ids) x = (if x \<in> set ids then Some (adj x) else None)"
  by (induction ids) (auto simp: adj_table_def)

lemma adj_table_facts [simp]:
  "dom (map_of (adj_table adj ids)) = set ids" "dep_edges (adj_table adj ids) = adj_edges adj ids"
  "x \<in> set ids \<Longrightarrow> deps_of (adj_table adj ids) x = adj x"
  by (auto simp: dom_def dep_edges_def adj_edges_def deps_of_def map_of_adj_table split: if_splits)

text \<open>A search that finds no cycle leaves no node on the path that was not there before.\<close>

lemma dfs_path:
  "dfs n adj node col = (False, c) \<Longrightarrow> c x = OnPath \<longleftrightarrow> col x = OnPath"
  "dfs_next n adj ds col = (False, c) \<Longrightarrow> c x = OnPath \<longleftrightarrow> col x = OnPath"
proof (induction n adj node col and n adj ds col arbitrary: c and c rule: dfs_dfs_next.induct)
  case (2 n adj node col)
  show ?case
  proof (cases "col node")
    case Fresh
    obtain b c' where r: "dfs_next n adj (adj node) (col(node := OnPath)) = (b, c')" by fastforce
    then have "\<not> b" "c = c'(node := Finished)" using 2(2) Fresh by (auto split: bool.splits)
    moreover have "c' x = OnPath \<longleftrightarrow> (col(node := OnPath)) x = OnPath"
      using 2(1) [of c'] r Fresh \<open>\<not> b\<close> by (simp del: fun_upd_apply)
    ultimately show ?thesis using Fresh by auto
  qed (use 2(2) in simp_all)
qed (auto split: prod.splits bool.splits)

lemma dfs_visit:
  assumes closed: "\<forall>x\<in>set ids. set (adj x) \<subseteq> set ids"
  shows "node \<in> set ids \<Longrightarrow> visit n (adj_table adj ids) node col = (\<not> fst (dfs n adj node col), snd (dfs n adj node col))"
    and "set ds \<subseteq> set ids \<Longrightarrow> col t = OnPath \<Longrightarrow>
      visit_deps n (adj_table adj ids) t ds col = (\<not> fst (dfs_next n adj ds col), snd (dfs_next n adj ds col))"
  using closed
proof (induction n adj node col and n adj ds col arbitrary: and t rule: dfs_dfs_next.induct)
  case (2 n adj node col)
  have sub: "set (adj node) \<subseteq> set ids" using 2(2,3) by blast
  show ?case
  proof (cases "col node")
    case Fresh
    obtain b c where r: "dfs_next n adj (adj node) (col(node := OnPath)) = (b, c)" by fastforce
    have on: "(col(node := OnPath)) node = OnPath" by simp
    have "visit_deps n (adj_table adj ids) node (adj node) (col(node := OnPath)) = (\<not> b, c)"
      using 2(1) [OF _ _ sub on 2(3)] Fresh r by (simp del: fun_upd_apply)
    then show ?thesis using r Fresh 2(2) by (cases b) (simp_all add: fun_eq_iff)
  qed simp_all
next
  case (4 n adj d ds col)
  obtain b c where r: "dfs n adj d col = (b, c)" by fastforce
  have known: "d \<in> set ids" "set ds \<subseteq> set ids" using 4(3) by auto
  have v: "visit n (adj_table adj ids) d col = (\<not> b, c)" using 4(1) [OF known(1) 4(5)] r by simp
  have found: "map_of (adj_table adj ids) d \<noteq> None" using known(1) by (simp add: map_of_adj_table)
  show ?case
  proof (cases b)
    case True
    have "n = 0 \<or> (\<exists>k. n = Suc k)" by (cases n) auto
    then have "d = t \<Longrightarrow> (b, c) = (True, col)" using r 4(4) by auto
    then show ?thesis using True r v found by auto
  next
    case False
    then have path: "c t = OnPath" using dfs_path(1) [of n adj d col c t] r 4(4) by simp
    have "d \<noteq> t" using False r 4(4) by (cases n) auto
    then show ?thesis using 4(2) [OF r [symmetric] _ known(2) path 4(5)] False r v found by auto
  qed
qed simp_all

lemma cycle_from_visit_all:
  assumes "\<forall>x\<in>set ids. set (adj x) \<subseteq> set ids" "set nodes \<subseteq> set ids" "\<forall>x. col x \<noteq> OnPath" "0 < n"
  shows "cycle_from n adj nodes col \<longleftrightarrow> \<not> visit_all n (adj_table adj ids) nodes col"
  using assms(2-4)
proof (induction nodes arbitrary: col)
  case (Cons i nodes)
  obtain k where n: "n = Suc k" using Cons.prems(3) by (cases n) auto
  obtain b c where r: "dfs n adj i col = (b, c)" by fastforce
  have v: "visit n (adj_table adj ids) i col = (\<not> b, c)" using dfs_visit(1) [OF assms(1), of i n col] Cons.prems(1) r by simp
  show ?case
  proof (cases b)
    case True
    then have "col i = Fresh" using r n Cons.prems(2) by (cases "col i") auto
    then show ?thesis using True r v by simp
  next
    case False
    then have "\<forall>x. c x \<noteq> OnPath" using dfs_path(1) [of n adj i col c] r Cons.prems(2) by simp
    moreover have "col i \<noteq> Fresh \<Longrightarrow> c = col" using r n Cons.prems(2) by (cases "col i") auto
    ultimately show ?thesis using False r v Cons.IH [of c] Cons.prems(1,3) by auto
  qed
qed simp

lemma has_cycle_exact:
  assumes "\<forall>x\<in>set ids. set (adj x) \<subseteq> set ids"
  shows "has_cycle adj ids \<longleftrightarrow> \<not> acyclic (adj_edges adj ids)"
proof (cases "ids = []")
  case False
  have "has_cycle adj ids \<longleftrightarrow> \<not> visit_all (length ids) (adj_table adj ids) ids (\<lambda>_. Fresh)"
    unfolding has_cycle_def using cycle_from_visit_all [OF assms order_refl] False by simp
  also have "\<dots> \<longleftrightarrow> \<not> sound_table (adj_table adj ids)"
    using visit_all_decides [of ids "adj_table adj ids" "length ids"] by (simp add: card_length)
  also have "\<dots> \<longleftrightarrow> \<not> acyclic (adj_edges adj ids)"
    using assms by (auto simp: sound_table_def adj_edges_def)
  finally show ?thesis .
qed (simp add: has_cycle_def adj_edges_def acyclic_def)

subsection \<open>What the validator accepts\<close>

definition graph_edges :: "step_definition list \<Rightarrow> (string \<times> string) set" where
  "graph_edges steps = {(a, b). \<exists>s\<in>set steps.
     (step_id s = a \<and> b \<in> set (next_step_ids s)) \<or> (step_id s = b \<and> a \<in> set (depends_on s))}"

lemma graph_edges_simps [simp]:
  "graph_edges [] = {}"
  "graph_edges (s # ss) = Pair (step_id s) ` set (next_step_ids s) \<union>
     (\<lambda>a. (a, step_id s)) ` set (depends_on s) \<union> graph_edges ss"
  by (auto simp: graph_edges_def)

lemma set_append_unique [simp]: "set (append_unique vs v) = insert v (set vs)"
  by (auto simp: append_unique_def)

definition steps_of_kind :: "string \<Rightarrow> step_definition list \<Rightarrow> string list" where
  "steps_of_kind k steps = [step_id s. s \<leftarrow> steps, node_kind s = k]"

lemma steps_of_kind_simps [simp]:
  "steps_of_kind k [] = []"
  "steps_of_kind k (s # ss) = (if node_kind s = k then [step_id s] else []) @ steps_of_kind k ss"
  by (simp_all add: steps_of_kind_def)

text \<open>The links hold every edge of the steps, and exactly those.\<close>

definition extends_links :: "(string \<times> string) set \<Rightarrow> links \<Rightarrow> links \<Rightarrow> bool" where
  "extends_links E l l' \<longleftrightarrow>
     (\<forall>a. set (forward l' a) = set (forward l a) \<union> {b. (a, b) \<in> E}) \<and>
     (\<forall>b. set (backward l' b) = set (backward l b) \<union> {a. (a, b) \<in> E})"

lemma extends_links_trans:
  "extends_links E l l' \<Longrightarrow> extends_links F l' l'' \<Longrightarrow> extends_links (E \<union> F) l l''"
  by (auto simp: extends_links_def)

lemma link_next_exact:
  "(\<exists>l'. link_next ids sid ns l = Inr l') \<longleftrightarrow> set ns \<subseteq> set ids"
  "link_next ids sid ns l = Inr l' \<Longrightarrow> extends_links (Pair sid ` set ns) l l' \<and>
     start_nodes l' = start_nodes l \<and> end_nodes l' = end_nodes l"
  by (induction ids sid ns l rule: link_next.induct) (auto simp: extends_links_def split: if_splits)

lemma link_deps_exact:
  "(\<exists>l'. link_deps ids sid ds l = Inr l') \<longleftrightarrow> set ds \<subseteq> set ids"
  "link_deps ids sid ds l = Inr l' \<Longrightarrow> extends_links ((\<lambda>a. (a, sid)) ` set ds) l l' \<and>
     start_nodes l' = start_nodes l \<and> end_nodes l' = end_nodes l"
  by (induction ids sid ds l rule: link_deps.induct) (auto simp: extends_links_def split: if_splits)

lemma link_steps_exact:
  "(\<exists>l'. link_steps ids ss l = Inr l') \<longleftrightarrow> (\<forall>s\<in>set ss. set (next_step_ids s) \<union> set (depends_on s) \<subseteq> set ids)"
proof (induction ss arbitrary: l)
  case (Cons s ss)
  obtain r1 where r1: "link_next ids (step_id s) (next_step_ids s) (mark_boundary s l) = r1" by blast
  show ?case
  proof (cases r1)
    case (Inr l1)
    show ?thesis
    proof (cases "link_deps ids (step_id s) (depends_on s) l1")
      case (Inr l2)
      moreover have "set (next_step_ids s) \<subseteq> set ids" "set (depends_on s) \<subseteq> set ids"
        using link_next_exact(1) link_deps_exact(1) r1 \<open>r1 = Inr l1\<close> Inr by metis+
      ultimately show ?thesis using r1 \<open>r1 = Inr l1\<close> Cons.IH [of l2] by simp
    qed (use r1 Inr link_deps_exact(1) [of ids "step_id s" "depends_on s" l1] in auto)
  qed (use r1 link_next_exact(1) [of ids "step_id s" "next_step_ids s" "mark_boundary s l"] in auto)
qed simp

lemma link_steps_result:
  "link_steps ids ss l = Inr l' \<Longrightarrow> extends_links (graph_edges ss) l l' \<and>
     start_nodes l' = start_nodes l @ steps_of_kind ''input.capture'' ss \<and>
     end_nodes l' = end_nodes l @ steps_of_kind ''workflow.end'' ss"
proof (induction ss arbitrary: l)
  case (Cons s ss)
  from Cons.prems obtain l1 l2 where
    1: "link_next ids (step_id s) (next_step_ids s) (mark_boundary s l) = Inr l1" and
    2: "link_deps ids (step_id s) (depends_on s) l1 = Inr l2" and 3: "link_steps ids ss l2 = Inr l'"
    by (auto simp: bind_res_Inr_iff)
  have "extends_links {} l (mark_boundary s l)" by (auto simp: extends_links_def mark_boundary_def)
  note e = extends_links_trans [OF extends_links_trans [OF extends_links_trans [OF this]]]
  have "extends_links (graph_edges (s # ss)) l l'"
    using e [of _ l1 _ l2 _ l'] link_next_exact(2) [OF 1] link_deps_exact(2) [OF 2] Cons.IH [OF 3] by simp
  moreover have "start_nodes (mark_boundary s l) = start_nodes l @ (if node_kind s = ''input.capture'' then [step_id s] else [])"
    "end_nodes (mark_boundary s l) = end_nodes l @ (if node_kind s = ''workflow.end'' then [step_id s] else [])"
    by (auto simp: mark_boundary_def)
  ultimately show ?case using link_next_exact(2) [OF 1] link_deps_exact(2) [OF 2] Cons.IH [OF 3] by simp
qed (simp add: extends_links_def)

text \<open>What each step must be, and the step that is kept of it.\<close>

definition normalized :: "step_definition \<Rightarrow> step_definition" where
  "normalized raw = normalize_step (raw\<lparr>step_id := trim_space (step_id raw), step_type := trim_space (to_lower (step_type raw))\<rparr>)"

definition step_accepted :: "step_definition \<Rightarrow> bool" where
  "step_accepted raw \<longleftrightarrow> step_id (normalized raw) \<noteq> [] \<and> step_type (normalized raw) \<in> set allowed_step_types \<and>
     is_ok (router_validate new_executor_router (normalized raw))"

lemma normalized_simps [simp]:
  "step_id (normalized raw) = trim_space (step_id raw)"
  "step_type (normalized raw) = trim_space (to_lower (step_type raw))"
  "next_step_ids (normalized raw) = normalize_strings (next_step_ids raw)"
  "depends_on (normalized raw) = normalize_strings (depends_on raw)"
  "node_kind (normalized raw) = trim_space (to_lower (node_kind raw))"
  "node_ref (normalized raw) = trim_space (node_ref raw)"
  "config (normalized raw) = config raw"
  by (simp_all add: normalized_def normalize_step_def normalize_strings_eq)

lemma normalized_idem [simp]: "normalized (normalized raw) = normalized raw"
  by (rule step_definition.equality) (simp_all, simp_all add: normalized_def normalize_step_def)

lemma step_accepted_idem [simp]: "step_accepted (normalized raw) \<longleftrightarrow> step_accepted raw"
  by (simp add: step_accepted_def)

lemma check_steps_exact:
  "check_steps new_executor_router seen raws = Inr steps \<longleftrightarrow>
     steps = map normalized raws \<and> (\<forall>raw\<in>set raws. step_accepted raw \<and> trim_space (step_id raw) \<notin> set seen) \<and>
     distinct (map (\<lambda>raw. trim_space (step_id raw)) raws)"
proof (induction raws arbitrary: seen steps)
  case (Cons raw raws)
  have n: "normalize_step (raw\<lparr>step_id := trim_space (step_id raw), step_type := trim_space (to_lower (step_type raw))\<rparr>) = normalized raw"
    by (simp add: normalized_def)
  show ?case
  proof (cases "router_validate new_executor_router (normalized raw)")
    case (Inl e)
    then show ?thesis by (auto simp: Let_def n step_accepted_def is_ok_def)
  next
    case (Inr u)
    then have "step_accepted raw \<longleftrightarrow> trim_space (step_id raw) \<noteq> [] \<and> trim_space (to_lower (step_type raw)) \<in> set allowed_step_types"
      by (simp add: step_accepted_def is_ok_def)
    then show ?thesis using Inr by (auto simp: Let_def n bind_res_Inr_iff Cons.IH image_iff)
  qed
qed auto

text \<open>A workflow graph: unique names, known ends of every edge, no cycle, one start and one end.\<close>

definition workflow_graph :: "step_definition list \<Rightarrow> bool" where
  "workflow_graph steps \<longleftrightarrow>
     distinct (map step_id steps) \<and>
     graph_edges steps \<subseteq> set (map step_id steps) \<times> set (map step_id steps) \<and>
     acyclic (graph_edges steps) \<and>
     (\<exists>s e. steps_of_kind ''input.capture'' steps = [s] \<and> steps_of_kind ''workflow.end'' steps = [e] \<and>
        (\<forall>a. (a, s) \<notin> graph_edges steps) \<and> (\<forall>b. (e, b) \<notin> graph_edges steps))"

definition linked :: "step_definition list \<Rightarrow> links \<Rightarrow> bool" where
  "linked steps l \<longleftrightarrow> link_steps (map step_id steps) steps no_links = Inr l"

definition validated :: "step_definition list \<Rightarrow> links \<Rightarrow> validation" where
  "validated steps l = \<lparr>v_steps = steps, start_step_ids = [step_id st. st \<leftarrow> steps, backward l (step_id st) = []],
     all_step_ids = map step_id steps, adjacency = forward l, reverse_adjacency = backward l,
     has_compensatable = list_ex compensatable steps, step_index = index_steps steps\<rparr>"

lemma linkedD:
  assumes "linked steps l"
  shows "b \<in> set (forward l a) \<longleftrightarrow> (a, b) \<in> graph_edges steps"
    and "a \<in> set (backward l b) \<longleftrightarrow> (a, b) \<in> graph_edges steps"
    and "start_nodes l = steps_of_kind ''input.capture'' steps" "end_nodes l = steps_of_kind ''workflow.end'' steps"
  using link_steps_result [OF assms [unfolded linked_def]]
  by (simp_all add: extends_links_def no_links_def)

lemma linked_exists: "(\<exists>l. linked steps l) \<longleftrightarrow> graph_edges steps \<subseteq> set (map step_id steps) \<times> set (map step_id steps)"
  unfolding linked_def link_steps_exact by (auto simp: graph_edges_def)

lemma linked_cycle:
  assumes "linked steps l"
  shows "has_cycle (forward l) (map step_id steps) \<longleftrightarrow> \<not> acyclic (graph_edges steps)"
proof -
  have known: "graph_edges steps \<subseteq> set (map step_id steps) \<times> set (map step_id steps)"
    using assms linked_exists by blast
  then have "adj_edges (forward l) (map step_id steps) = graph_edges steps"
    using linkedD(1) [OF assms] by (auto simp: adj_edges_def)
  moreover have "\<forall>x\<in>set (map step_id steps). set (forward l x) \<subseteq> set (map step_id steps)"
    using linkedD(1) [OF assms] known by auto
  ultimately show ?thesis using has_cycle_exact by metis
qed

lemma empty_by_edges:
  assumes "linked steps l"
  shows "forward l a = [] \<longleftrightarrow> (\<forall>b. (a, b) \<notin> graph_edges steps)" "backward l b = [] \<longleftrightarrow> (\<forall>a. (a, b) \<notin> graph_edges steps)"
  using linkedD(1,2) [OF assms] by (simp_all flip: set_empty add: set_eq_iff)

lemma kind_is_step: "steps_of_kind k steps = [s] \<Longrightarrow> \<exists>st\<in>set steps. step_id st = s \<and> node_kind st = k"
  by (induction steps) (auto split: if_splits)

lemma check_links_exact:
  assumes l: "linked steps l" and d: "distinct (map step_id steps)"
  shows "check_links steps l = Inr v \<longleftrightarrow> workflow_graph steps \<and> v = validated steps l"
proof (cases "\<exists>s e. start_nodes l = [s] \<and> end_nodes l = [e]")
  case True
  then obtain s e where se: "start_nodes l = [s]" "end_nodes l = [e]" by blast
  then obtain st where st: "st \<in> set steps" "step_id st = s"
    using kind_is_step linkedD(3) [OF l] by metis
  define starts where "starts = [step_id st. st \<leftarrow> steps, backward l (step_id st) = []]"
  have nonempty: "backward l s = [] \<Longrightarrow> starts \<noteq> []" using st by (auto simp: starts_def)
  have known: "graph_edges steps \<subseteq> set (map step_id steps) \<times> set (map step_id steps)" using l linked_exists by blast
  have "workflow_graph steps \<longleftrightarrow> acyclic (graph_edges steps) \<and> (\<forall>a. (a, s) \<notin> graph_edges steps) \<and> (\<forall>b. (e, b) \<notin> graph_edges steps)"
    unfolding workflow_graph_def linkedD(3,4) [OF l, symmetric] se using d known by (simp only: list.inject) simp
  then have graph: "workflow_graph steps \<longleftrightarrow> backward l s = [] \<and> forward l e = [] \<and> \<not> has_cycle (forward l) (map step_id steps)"
    using empty_by_edges(2) [OF l, of s] empty_by_edges(1) [OF l, of e] linked_cycle [OF l] by argo
  show ?thesis unfolding check_links_def se Let_def validated_def starts_def [symmetric] graph
    using nonempty by (simp split: if_splits) blast
next
  case False
  then have "\<not> workflow_graph steps" unfolding workflow_graph_def linkedD(3,4) [OF l, symmetric] by blast
  moreover consider "start_nodes l = []" | s t ss where "start_nodes l = s # t # ss"
    | s where "start_nodes l = [s]" "end_nodes l = []" | s e f es where "start_nodes l = [s]" "end_nodes l = e # f # es"
    using False by (metis list.exhaust)
  then have "\<exists>e. check_links steps l = Inl e" by cases (simp_all add: check_links_def)
  ultimately show ?thesis by force
qed

lemma validate_steps_Inr:
  "validate_steps raw = Inr v \<longleftrightarrow> raw \<noteq> [] \<and> (\<forall>r\<in>set raw. step_accepted r) \<and>
     workflow_graph (map normalized raw) \<and> (\<exists>l. linked (map normalized raw) l \<and> v = validated (map normalized raw) l)"
proof (cases "raw \<noteq> [] \<and> (\<forall>r\<in>set raw. step_accepted r) \<and> distinct (map step_id (map normalized raw))")
  case True
  then have "check_steps new_executor_router [] raw = Inr (map normalized raw)"
    by (simp add: check_steps_exact comp_def)
  then have "validate_steps raw = Inr v \<longleftrightarrow> (\<exists>l. linked (map normalized raw) l \<and> check_links (map normalized raw) l = Inr v)"
    using True by (auto simp: validate_steps_def bind_res_Inr_iff linked_def)
  then show ?thesis using True check_links_exact by metis
next
  case False
  then have "\<not> workflow_graph (map normalized raw) \<or> raw = [] \<or> \<not> (\<forall>r\<in>set raw. step_accepted r)"
    unfolding workflow_graph_def by blast
  moreover have "check_steps new_executor_router [] raw \<noteq> Inr steps \<or> raw = []" for steps
    using False by (auto simp: check_steps_exact comp_def)
  ultimately show ?thesis by (auto simp: validate_steps_def bind_res_Inr_iff)
qed

subsection \<open>What the validation gives\<close>

lemma index_steps_Some:
  assumes "distinct (map step_id steps)"
  shows "index_steps steps i = Some s \<longleftrightarrow> s \<in> set steps \<and> step_id s = i"
proof -
  have "distinct (map step_id ss) \<Longrightarrow> fold (\<lambda>s m. m(step_id s \<mapsto> s)) ss m i =
      (case List.find (\<lambda>s. step_id s = i) ss of None \<Rightarrow> m i | Some s \<Rightarrow> Some s)" for ss m
  proof (induction ss arbitrary: m)
    case (Cons a ss)
    have "step_id a = i \<Longrightarrow> List.find (\<lambda>s. step_id s = i) ss = None"
      using Cons.prems by (auto simp: find_None_iff image_iff)
    then show ?case using Cons by auto
  qed simp
  from this [OF assms, of "\<lambda>_. None"] have "index_steps steps i = List.find (\<lambda>s. step_id s = i) steps"
    by (simp add: index_steps_def split: option.splits)
  moreover have "List.find (\<lambda>s. step_id s = i) steps = Some s \<longleftrightarrow> s \<in> set steps \<and> step_id s = i"
    using assms by (induction steps) (auto simp: image_iff)
  ultimately show ?thesis by simp
qed

lemma validationD:
  assumes "validate_steps raw = Inr v"
  shows "workflow_graph (v_steps v)" "v_steps v = map normalized raw" "\<forall>s\<in>set (v_steps v). step_accepted s"
    and "i \<in> set (start_step_ids v) \<longleftrightarrow> i \<in> set (map step_id (v_steps v)) \<and> (\<forall>a. (a, i) \<notin> graph_edges (v_steps v))"
    and "step_by_id v i = Some s \<longleftrightarrow> s \<in> set (v_steps v) \<and> step_id s = i"
    and "distinct (start_step_ids v)"
proof -
  from assms obtain l where l: "linked (map normalized raw) l" "v = validated (map normalized raw) l"
    and g: "workflow_graph (map normalized raw)" and acc: "\<forall>r\<in>set raw. step_accepted r"
    unfolding validate_steps_Inr by blast
  have d: "distinct (map step_id (map normalized raw))" using g by (simp add: workflow_graph_def)
  show vs: "workflow_graph (v_steps v)" "v_steps v = map normalized raw" "\<forall>s\<in>set (v_steps v). step_accepted s"
    using l(2) g acc by (simp_all add: validated_def)
  show "i \<in> set (start_step_ids v) \<longleftrightarrow> i \<in> set (map step_id (v_steps v)) \<and> (\<forall>a. (a, i) \<notin> graph_edges (v_steps v))"
    using empty_by_edges(2) [OF l(1), of i] l(2) by (auto simp: validated_def)
  show "step_by_id v i = Some s \<longleftrightarrow> s \<in> set (v_steps v) \<and> step_id s = i"
    using index_steps_Some [OF d] l(2) by (simp add: step_by_id_def validated_def)
  have "distinct [step_id st. st \<leftarrow> ss, P st]" if "distinct (map step_id ss)" for ss P
    using that by (induction ss) auto
  from this [OF d, of "\<lambda>st. backward l (step_id st) = []"] show "distinct (start_step_ids v)"
    unfolding l(2) validated_def by simp
qed

text \<open>C20: The validator accepts exactly the workflows that are not empty, whose steps are each
  accepted by their executor, and whose edges, taken from both the successors and the dependencies
  of the steps, join known steps without a cycle, from the one \<open>input.capture\<close> step to the one
  \<open>workflow.end\<close> step, under names that are unique after trimming. The tests of the repository that
  want graphs without these two steps accepted (\<open>tests/unit/workflow_validator_test.go\<close>) do not agree with the code
  here: \<open>validator.go\<close> rejects such graphs as having an invalid boundary.\<close>

theorem validator_exact:
  "is_ok (validate_steps raw) \<longleftrightarrow> raw \<noteq> [] \<and> list_all step_accepted raw \<and> workflow_graph (map normalized raw)"
proof -
  have "workflow_graph (map normalized raw) \<Longrightarrow> \<exists>l. linked (map normalized raw) l"
    unfolding linked_exists workflow_graph_def by blast
  then show ?thesis by (auto simp: is_ok_iff validate_steps_Inr list_all_iff)
qed

lemma validate_again:
  assumes "validate_steps raw = Inr v" shows "validate_steps (v_steps v) = Inr v"
proof -
  from assms obtain l where l: "linked (map normalized raw) l" "v = validated (map normalized raw) l"
    and ok: "raw \<noteq> []" "\<forall>r\<in>set raw. step_accepted r" "workflow_graph (map normalized raw)"
    unfolding validate_steps_Inr by blast
  have again: "map normalized (v_steps v) = map normalized raw" by (simp add: l(2) validated_def)
  have "v_steps v \<noteq> []" "\<forall>r\<in>set (v_steps v). step_accepted r" using ok(1,2) by (simp_all add: l(2) validated_def)
  then show ?thesis unfolding validate_steps_Inr again using l ok(3) by blast
qed

text \<open>What the service stores of an accepted definition, its normalised steps, is accepted again
  when the runner loads it, with the same result.\<close>

theorem stored_definition_reloads:
  assumes "validate_steps raw = Inr v" shows "validate_steps (v_steps v) = Inr v"
  using assms by (rule validate_again)

definition demo_step :: "string \<Rightarrow> string \<Rightarrow> string list \<Rightarrow> string list \<Rightarrow> step_definition" where
  "demo_step sid kind next deps = \<lparr>step_id = sid, display_name = [], step_type = ''system'', node_kind = kind,
     node_ref = [], input_mapping = [], output_mapping = [], config = None, next_step_ids = next,
     depends_on = deps, compensatable = False, step_metadata = []\<rparr>"

definition demo_workflow :: "step_definition list" where
  "demo_workflow = [demo_step ''in'' ''input.capture'' ['' a ''] [],
     demo_step ''a'' ''skill.invoke'' [''b''] [''in''], demo_step ''b'' ''workflow.end'' [] [''a'', ''a'']]"

lemma demo_workflow_accepted: "\<exists>v. validate_steps demo_workflow = Inr v"
proof -
  have "is_ok (validate_steps demo_workflow)" by code_simp
  then show ?thesis by (simp add: is_ok_iff)
qed

theorem stored_definition_reloads_witness:
  "\<exists>v. validate_steps demo_workflow = Inr v \<and> validate_steps (v_steps v) = Inr v"
  using demo_workflow_accepted stored_definition_reloads by blast

end
