(* ===== verification/WorkflowStore.thy ===== *)
theory WorkflowStore imports WorkflowGraph "HOL-Library.State_Monad" begin

section \<open>The database of the workflow engine\<close>

text \<open>
  The rows of definitions, instances and step records
  (\<open>pkg/corex/db/persistence/model/workflow\<close>) and the statements of their repositories
  (\<open>repository/workflow\<close>) that the runner and the service use. A statement is atomic; between two
  statements of a program other processes go on. Times are nanoseconds, UUIDs their text.
\<close>

subsection \<open>Rows\<close>

definition uuid_nil :: string where
  "uuid_nil = ''00000000-0000-0000-0000-000000000000''"

record step_record =
  rec_id :: nat
  rec_instance :: string
  rec_step :: string
  rec_type :: string
  rec_node_kind :: string
  rec_node_ref :: string
  rec_state :: string
  rec_subject_type :: string
  rec_subject :: string
  rec_grant :: "string \<times> int"
  rec_attempt :: int
  rec_input_mapping :: object
  rec_output_mapping :: object
  rec_payload_in :: object
  rec_payload_out :: object
  rec_failure_reason :: string
  rec_error_code :: string
  rec_error_message :: string
  rec_scheduled_at :: int
  rec_lease_owner :: string
  rec_lease_until :: "int option"
  rec_started_at :: "int option"
  rec_completed_at :: "int option"
  rec_last_transition :: int
  rec_awaiting_human :: bool

record workflow_instance =
  inst_uuid :: string
  inst_tenant :: string
  inst_definition :: string
  inst_version :: int
  inst_state :: string
  inst_input :: object
  inst_last_error :: string
  inst_correlation :: string
  inst_agent :: string
  inst_initiator :: string
  inst_trace :: string
  inst_started_at :: "int option"
  inst_completed_at :: "int option"
  inst_current_step :: string
  inst_last_transition :: int

text \<open>A step graph that does not decode is \<open>None\<close>; the policies are JSON columns, \<open>GoNil\<close> a null.\<close>

record workflow_definition =
  def_uuid :: string
  def_tenant :: string
  def_name :: string
  def_description :: string
  def_version :: int
  def_status :: string
  def_graph :: "step_definition list option"
  def_retry :: any
  def_compensation :: any
  def_sla :: any
  def_metadata :: any
  def_pack_key :: string
  def_source_type :: string
  def_created_by :: string
  def_published_at :: "int option"
  def_published_by :: string
  def_change_note :: string

record agent_assignment =
  asg_id :: nat
  asg_record :: nat
  asg_agent :: string
  asg_status :: string
  asg_dispatched_at :: int
  asg_acknowledged_at :: "int option"
  asg_ack_deadline :: "int option"
  asg_completed_at :: "int option"

record step_compensation =
  comp_id :: nat
  comp_record :: nat
  comp_state :: string
  comp_handler :: string
  comp_initiated_by :: string
  comp_notes :: string
  comp_completed_at :: "int option"

record review_task =
  task_uuid :: string
  task_tenant :: string
  task_instance :: string
  task_step :: string
  task_review_type :: string
  task_payload :: object
  task_policy :: any
  task_status :: string
  task_reviewer :: string
  task_decision :: string
  task_decision_payload :: object
  task_comment :: string
  task_completed_at :: "int option"

record wf_db =
  db_records :: "step_record list"
  db_next_id :: nat
  db_instances :: "workflow_instance list"
  db_definitions :: "workflow_definition list"
  db_assignments :: "agent_assignment list"
  db_compensations :: "step_compensation list"
  db_reviews :: "review_task list"

datatype wf_error =
    DbError string | BadArgument string | RecordNotFound
  | StaleAttempt | StepUnknown string | GraphUndecodable | GraphInvalid graph_error | RoutingFailed step_error
  | RunnerUnavailable | LeaseOwnerRequired | NotPublished string | ActionUnsupported string
  | DefinitionArchived | AdapterRefused string | GrantRefused string | ForeignStep nat | StepWithoutInstance nat | NoExecution string
  | RetryUnavailable | NotCompensatable string | TaskNotPending string | StepNotWaiting string

subsection \<open>Values in JSON columns\<close>

text \<open>
  What a value is after it was marshalled into a column and read back: lists and maps of strings
  come back as lists and maps of any value, and an empty configuration, which is left out, as nil.
  The text of a \<open>Scalar\<close> is the one after decoding.
\<close>

fun json_value :: "any \<Rightarrow> any" where
  "json_value (StrList vs) = Arr (map Str vs)"
| "json_value (StrMap m) = Obj (map (\<lambda>(k, v). (k, Str v)) m)"
| "json_value (Arr vs) = Arr (map json_value vs)"
| "json_value (Obj m) = Obj (map (\<lambda>(k, v). (k, json_value v)) m)"
| "json_value v = v"

fun json_shaped :: "any \<Rightarrow> bool" where
  "json_shaped (StrList vs) = False"
| "json_shaped (StrMap m) = False"
| "json_shaped (Arr vs) = list_all json_shaped vs"
| "json_shaped (Obj m) = list_all (\<lambda>(k, v). json_shaped v) m"
| "json_shaped v = True"

abbreviation json_column :: "object \<Rightarrow> object" where
  "json_column m \<equiv> map (\<lambda>(k, v). (k, json_value v)) m"

abbreviation json_object :: "object \<Rightarrow> bool" where
  "json_object m \<equiv> list_all (\<lambda>(k, v). json_shaped v) m"

definition json_step :: "step_definition \<Rightarrow> step_definition" where
  "json_step s = s\<lparr>input_mapping := json_column (input_mapping s), output_mapping := json_column (output_mapping s),
     config := (if config s = Some [] then None else map_option json_column (config s)), step_metadata := json_column (step_metadata s)\<rparr>"

definition json_shaped_step :: "step_definition \<Rightarrow> bool" where
  "json_shaped_step s \<longleftrightarrow> json_object (input_mapping s) \<and> json_object (output_mapping s) \<and>
     (case config s of None \<Rightarrow> True | Some c \<Rightarrow> c \<noteq> [] \<and> json_object c) \<and> json_object (step_metadata s)"

lemma json_value_shaped: "json_shaped v \<Longrightarrow> json_value v = v"
proof (induction v rule: json_value.induct)
  case (3 vs)
  then show ?case by (simp add: list_all_iff map_idI)
next
  case (4 m)
  then show ?case by (fastforce simp: list_all_iff intro!: map_idI)
qed simp_all

lemma json_object_column: "json_object m \<Longrightarrow> json_column m = m"
  by (auto simp: list_all_iff intro!: map_idI json_value_shaped)

lemma json_step_shaped: "json_shaped_step s \<Longrightarrow> json_step s = s"
  by (cases "config s") (simp_all add: json_step_def json_shaped_step_def json_object_column)

subsection \<open>Statements on step records\<close>

definition append_record :: "step_record \<Rightarrow> wf_db \<Rightarrow> (wf_error + step_record) \<times> wf_db" where
  "append_record r db = (if rec_instance r = uuid_nil then (Inl (BadArgument ''instance_uuid is required''), db)
     else let r' = r\<lparr>rec_id := db_next_id db, rec_state := if rec_state r = [] then ''queued'' else rec_state r\<rparr>
       in (Inr r', db\<lparr>db_records := db_records db @ [r'], db_next_id := Suc (db_next_id db)\<rparr>))"

definition record_by_id :: "nat \<Rightarrow> wf_db \<Rightarrow> wf_error + step_record" where
  "record_by_id i db = (if i = 0 then Inl (BadArgument ''step record id is required'') else case List.find (\<lambda>r. rec_id r = i) (db_records db) of
     None \<Rightarrow> Inl RecordNotFound | Some r \<Rightarrow> Inr r)"

definition in_order :: "step_record list \<Rightarrow> step_record list" where
  "in_order rs = sort_key rec_scheduled_at (sort_key rec_id rs)"

definition list_by_instance :: "string \<Rightarrow> wf_db \<Rightarrow> step_record list" where
  "list_by_instance inst db = in_order [r \<leftarrow> db_records db. rec_instance r = inst]"

definition find_latest_by_step :: "string \<Rightarrow> string \<Rightarrow> wf_db \<Rightarrow> wf_error + step_record" where
  "find_latest_by_step inst sid db =
     (case rev (sort_key rec_id [r \<leftarrow> db_records db. rec_instance r = inst \<and> rec_step r = sid]) of
        [] \<Rightarrow> Inl RecordNotFound | r # _ \<Rightarrow> Inr r)"

definition update_rows :: "(step_record \<Rightarrow> bool) \<Rightarrow> (step_record \<Rightarrow> step_record) \<Rightarrow> wf_db \<Rightarrow> wf_db" where
  "update_rows p f db = db\<lparr>db_records := map (\<lambda>r. if p r then f r else r) (db_records db)\<rparr>"

definition move_to :: "int \<Rightarrow> string \<Rightarrow> step_record \<Rightarrow> step_record" where
  "move_to now next r = (if next = [] then r else r\<lparr>rec_state := next\<rparr>)\<lparr>rec_last_transition := now\<rparr>"

definition update_state :: "int \<Rightarrow> nat \<Rightarrow> string \<Rightarrow> (step_record \<Rightarrow> step_record) \<Rightarrow> wf_db \<Rightarrow> wf_db" where
  "update_state now i next upd = update_rows (\<lambda>r. rec_id r = i) (\<lambda>r. move_to now next (upd r))"

text \<open>An end state also closes the record and clears its lease.\<close>

definition close_record :: "int \<Rightarrow> string \<Rightarrow> step_record \<Rightarrow> step_record" where
  "close_record now next r = (if next \<in> {''completed'', ''failed'', ''compensated''}
     then r\<lparr>rec_completed_at := Some now, rec_lease_owner := [], rec_lease_until := None\<rparr> else r)"

definition update_for_attempt ::
  "int \<Rightarrow> nat \<Rightarrow> int \<Rightarrow> string \<Rightarrow> (step_record \<Rightarrow> step_record) \<Rightarrow> wf_db \<Rightarrow> (wf_error + bool) \<times> wf_db" where
  "update_for_attempt now i attempt next upd db =
     (if i = 0 then (Inl (BadArgument ''step record id is required''), db)
      else if attempt < 0 then (Inl (BadArgument ''attempt must be non-negative''), db)
      else let hit = (\<lambda>r. rec_id r = i \<and> rec_attempt r = attempt)
        in (Inr (list_ex hit (db_records db)), update_rows hit (\<lambda>r. close_record now next (move_to now next (upd r))) db))"

text \<open>
  \<open>leaseQueuedSteps\<close>: one transaction that takes the first due queued rows no other transaction
  has locked, marks them as in progress and reads them again.
\<close>

definition lease_limit :: "int \<Rightarrow> nat" where
  "lease_limit limit = nat (min 100 (if limit \<le> 0 then 10 else limit))"

definition leasable :: "int \<Rightarrow> nat list \<Rightarrow> string \<Rightarrow> step_record \<Rightarrow> bool" where
  "leasable now locked inst r \<longleftrightarrow> rec_state r = ''queued'' \<and> rec_scheduled_at r \<le> now \<and>
     (case rec_lease_until r of None \<Rightarrow> True | Some t \<Rightarrow> t < now) \<and>
     (inst = uuid_nil \<or> rec_instance r = inst) \<and> rec_id r \<notin> set locked"

definition take_lease :: "int \<Rightarrow> string \<Rightarrow> int \<Rightarrow> step_record \<Rightarrow> step_record" where
  "take_lease now owner until r = r\<lparr>rec_state := ''in_progress'', rec_lease_owner := owner,
     rec_lease_until := Some until, rec_started_at := Some now, rec_last_transition := now\<rparr>"

definition lease_rows :: "int \<Rightarrow> nat list \<Rightarrow> string \<Rightarrow> int \<Rightarrow> string \<Rightarrow> int \<Rightarrow> wf_db \<Rightarrow> step_record list \<times> wf_db" where
  "lease_rows now locked inst limit owner until db =
     (let ids = map rec_id (take (lease_limit limit) (in_order (filter (leasable now locked inst) (db_records db))));
          db' = update_rows (\<lambda>r. rec_id r \<in> set ids \<and> rec_state r = ''queued'') (take_lease now owner until) db
      in (in_order [r \<leftarrow> db_records db'. rec_id r \<in> set ids], db'))"

definition lease_queued_steps ::
  "int \<Rightarrow> nat list \<Rightarrow> string \<Rightarrow> int \<Rightarrow> string \<Rightarrow> int \<Rightarrow> wf_db \<Rightarrow> (wf_error + step_record list) \<times> wf_db" where
  "lease_queued_steps now locked inst limit owner until db =
     (if trim_space owner = [] then (Inl (BadArgument ''lease owner is required''), db)
      else let (leased, db') = lease_rows now locked inst limit (trim_space owner) until db in (Inr leased, db'))"

subsection \<open>Statements on instances and definitions\<close>

definition tenant_of :: "string \<Rightarrow> string" where
  "tenant_of t = to_lower (trim_space t)"

definition instance_any_tenant :: "string \<Rightarrow> wf_db \<Rightarrow> wf_error + workflow_instance" where
  "instance_any_tenant uid db = (if uid = uuid_nil then Inl (BadArgument ''instance uuid is required'')
     else case List.find (\<lambda>i. inst_uuid i = uid) (db_instances db) of None \<Rightarrow> Inl RecordNotFound | Some i \<Rightarrow> Inr i)"

definition instance_by_uuid :: "string \<Rightarrow> string \<Rightarrow> wf_db \<Rightarrow> wf_error + workflow_instance" where
  "instance_by_uuid tenant uid db =
     (if blank tenant then Inl (BadArgument ''tenant uuid is required'')
      else if uid = uuid_nil then Inl (BadArgument ''instance uuid is required'')
      else case List.find (\<lambda>i. inst_tenant i = tenant_of tenant \<and> inst_uuid i = uid) (db_instances db) of
             None \<Rightarrow> Inl RecordNotFound | Some i \<Rightarrow> Inr i)"

definition update_instance ::
  "int \<Rightarrow> string \<Rightarrow> string \<Rightarrow> string \<Rightarrow> (workflow_instance \<Rightarrow> workflow_instance) \<Rightarrow> wf_db \<Rightarrow> (wf_error + unit) \<times> wf_db" where
  "update_instance now tenant uid next upd db =
     (if blank tenant \<or> uid = uuid_nil then (Inl (BadArgument ''invalid parameters for update''), db)
      else (Inr (), db\<lparr>db_instances := map (\<lambda>i.
        if inst_tenant i = tenant_of tenant \<and> inst_uuid i = uid
        then (if next = [] then upd i else (upd i)\<lparr>inst_state := next, inst_last_transition := now\<rparr>)
        else i) (db_instances db)\<rparr>))"

definition definition_by_uuid :: "string \<Rightarrow> string \<Rightarrow> int option \<Rightarrow> wf_db \<Rightarrow> wf_error + workflow_definition" where
  "definition_by_uuid tenant uid version db =
     (if blank tenant then Inl (BadArgument ''tenant uuid is required'')
      else if uid = uuid_nil then Inl (BadArgument ''definition UUID is required'')
      else case List.find (\<lambda>d. def_tenant d = tenant_of tenant \<and> def_uuid d = uid \<and>
               (case version of Some v \<Rightarrow> v > 0 \<longrightarrow> def_version d = v | None \<Rightarrow> True)) (db_definitions db) of
             None \<Rightarrow> Inl RecordNotFound | Some d \<Rightarrow> Inr d)"

text \<open>A new row gets the UUID generated for it, which no other row of its table has.\<close>

definition create_instance :: "string \<Rightarrow> workflow_instance \<Rightarrow> wf_db \<Rightarrow> (wf_error + workflow_instance) \<times> wf_db" where
  "create_instance uid i db =
     (if inst_definition i = uuid_nil then (Inl (BadArgument ''definition uuid is required''), db)
      else if uid \<in> inst_uuid ` set (db_instances db) then (Inl (DbError ''duplicate key''), db)
      else let i' = i\<lparr>inst_uuid := uid, inst_state := if inst_state i = [] then ''draft'' else inst_state i\<rparr>
        in (Inr i', db\<lparr>db_instances := db_instances db @ [i']\<rparr>))"

definition wrap32 :: "int \<Rightarrow> int" where
  "wrap32 i = (i + 2 ^ 31) mod 2 ^ 32 - 2 ^ 31"

definition next_version :: "string \<Rightarrow> string \<Rightarrow> wf_db \<Rightarrow> wf_error + int" where
  "next_version tenant name db =
     (if tenant_of tenant = [] then Inl (BadArgument ''tenant uuid is required'')
      else if blank name then Inl (BadArgument ''definition name is required'')
      else Inr (wrap32 (fold (max \<circ> def_version)
        [d \<leftarrow> db_definitions db. def_tenant d = tenant_of tenant \<and> def_name d = trim_space name] 0 + 1)))"

definition create_definition_row ::
  "string \<Rightarrow> workflow_definition \<Rightarrow> wf_db \<Rightarrow> (wf_error + workflow_definition) \<times> wf_db" where
  "create_definition_row uid d db =
     (if def_created_by d = uuid_nil then (Inl (BadArgument ''created_by is required''), db)
      else if uid \<in> def_uuid ` set (db_definitions db) then (Inl (DbError ''duplicate key''), db)
      else let d' = d\<lparr>def_uuid := uid, def_version := if def_version d \<le> 0 then 1 else def_version d,
          def_status := if def_status d = [] then ''draft'' else def_status d,
          def_source_type := if def_source_type d = [] then ''manual'' else def_source_type d\<rparr>
        in (Inr d', db\<lparr>db_definitions := db_definitions db @ [d']\<rparr>))"

definition update_definition ::
  "string \<Rightarrow> string \<Rightarrow> int \<Rightarrow> string \<Rightarrow> (workflow_definition \<Rightarrow> workflow_definition) \<Rightarrow> wf_db \<Rightarrow> (wf_error + unit) \<times> wf_db" where
  "update_definition tenant uid version status upd db =
     (if blank tenant \<or> uid = uuid_nil \<or> version \<le> 0 then (Inl (BadArgument ''invalid parameters for updating workflow definition''), db)
      else (Inr (), db\<lparr>db_definitions := map (\<lambda>d.
        if def_tenant d = tenant_of tenant \<and> def_uuid d = uid \<and> def_version d = version
        then (if status = [] then upd d else (upd d)\<lparr>def_status := status\<rparr>) else d) (db_definitions db)\<rparr>))"

subsection \<open>Statements on assignments, compensations and review tasks\<close>

definition fresh_id :: "nat list \<Rightarrow> nat" where
  "fresh_id ids = Suc (fold max ids 0)"

definition create_assignment :: "agent_assignment \<Rightarrow> wf_db \<Rightarrow> (wf_error + agent_assignment) \<times> wf_db" where
  "create_assignment a db = (let a' = a\<lparr>asg_id := fresh_id (map asg_id (db_assignments db))\<rparr>
     in (Inr a', db\<lparr>db_assignments := db_assignments db @ [a']\<rparr>))"

text \<open>
  The assignments that are past their deadline, of the records of a tenant's instances: the query joins an
  assignment with its record and the record's instance.
\<close>

definition timed_out :: "string \<Rightarrow> int \<Rightarrow> wf_db \<Rightarrow> agent_assignment \<Rightarrow> bool" where
  "timed_out tenant before db a \<longleftrightarrow> asg_status a \<in> {''dispatched'', ''acknowledged''} \<and>
     (case asg_ack_deadline a of None \<Rightarrow> False | Some t \<Rightarrow> t \<le> before) \<and>
     list_ex (\<lambda>r. rec_id r = asg_record a \<and>
       list_ex (\<lambda>i. inst_uuid i = rec_instance r \<and> inst_tenant i = tenant) (db_instances db)) (db_records db)"

definition find_timed_out :: "string \<Rightarrow> int \<Rightarrow> int \<Rightarrow> wf_db \<Rightarrow> wf_error + agent_assignment list" where
  "find_timed_out tenant before limit db =
     (if tenant_of tenant = [] then Inl (BadArgument ''tenant uuid is required'')
      else Inr (take (nat (if limit \<le> 0 then 50 else limit))
        (sort_key (\<lambda>a. case asg_ack_deadline a of Some t \<Rightarrow> t | None \<Rightarrow> 0)
          (filter (timed_out (tenant_of tenant) before db) (db_assignments db)))))"

text \<open>The times that a status brings with it; the caller's own updates are made first.\<close>

definition assignment_times :: "int \<Rightarrow> string \<Rightarrow> agent_assignment \<Rightarrow> agent_assignment" where
  "assignment_times now st a =
     (if st = ''acknowledged'' then a\<lparr>asg_acknowledged_at := Some now\<rparr>
      else if st = ''timeout'' then a\<lparr>asg_acknowledged_at :=
          (case asg_acknowledged_at a of None \<Rightarrow> Some now | Some t \<Rightarrow> Some t), asg_completed_at := Some now\<rparr>
      else if st \<in> {''completed'', ''reassigned''} then a\<lparr>asg_completed_at := Some now\<rparr>
      else a)"

definition update_assignment ::
  "int \<Rightarrow> nat \<Rightarrow> string \<Rightarrow> (agent_assignment \<Rightarrow> agent_assignment) \<Rightarrow> wf_db \<Rightarrow> (wf_error + unit) \<times> wf_db" where
  "update_assignment now i st upd db =
     (if i = 0 then (Inl (BadArgument ''assignment id is required''), db)
      else if st = [] then (Inl (BadArgument ''status is required''), db)
      else (Inr (), db\<lparr>db_assignments := map (\<lambda>a. if asg_id a = i
        then (assignment_times now st (upd a))\<lparr>asg_status := st\<rparr> else a) (db_assignments db)\<rparr>))"

definition create_compensation :: "step_compensation \<Rightarrow> wf_db \<Rightarrow> (wf_error + step_compensation) \<times> wf_db" where
  "create_compensation c db = (let c' = c\<lparr>comp_id := fresh_id (map comp_id (db_compensations db))\<rparr>
     in (Inr c', db\<lparr>db_compensations := db_compensations db @ [c']\<rparr>))"

definition update_compensation ::
  "nat \<Rightarrow> string \<Rightarrow> (step_compensation \<Rightarrow> step_compensation) \<Rightarrow> wf_db \<Rightarrow> (wf_error + unit) \<times> wf_db" where
  "update_compensation i st upd db = (if i = 0 then (Inl (BadArgument ''compensation id is required''), db)
     else (Inr (), db\<lparr>db_compensations := map (\<lambda>c. if comp_id c = i
       then (if st = [] then upd c else (upd c)\<lparr>comp_state := st\<rparr>) else c) (db_compensations db)\<rparr>))"

definition create_task :: "string \<Rightarrow> review_task \<Rightarrow> wf_db \<Rightarrow> (wf_error + review_task) \<times> wf_db" where
  "create_task uid t db =
     (if blank (task_tenant t) then (Inl (BadArgument ''tenant_uuid is required''), db)
      else if task_instance t = uuid_nil then (Inl (BadArgument ''workflow_instance_uuid is required''), db)
      else if blank (task_step t) then (Inl (BadArgument ''step_id is required''), db)
      else if blank (task_review_type t) then (Inl (BadArgument ''review_type is required''), db)
      else if uid \<in> task_uuid ` set (db_reviews db) then (Inl (DbError ''duplicate key''), db)
      else let t' = t\<lparr>task_uuid := uid, task_status := if blank (task_status t) then ''pending'' else task_status t\<rparr>
        in (Inr t', db\<lparr>db_reviews := db_reviews db @ [t']\<rparr>))"

definition task_by_uuid :: "string \<Rightarrow> string \<Rightarrow> wf_db \<Rightarrow> wf_error + review_task" where
  "task_by_uuid tenant uid db =
     (if tenant_of tenant = [] then Inl (BadArgument ''tenant uuid is required'')
      else if uid = uuid_nil then Inl (BadArgument ''review task uuid is required'')
      else case List.find (\<lambda>t. task_tenant t = tenant_of tenant \<and> task_uuid t = uid) (db_reviews db) of
             None \<Rightarrow> Inl RecordNotFound | Some t \<Rightarrow> Inr t)"

text \<open>Every caller sets the completion time itself.\<close>

definition update_decision ::
  "string \<Rightarrow> string \<Rightarrow> string \<Rightarrow> (review_task \<Rightarrow> review_task) \<Rightarrow> wf_db \<Rightarrow> (wf_error + unit) \<times> wf_db" where
  "update_decision tenant uid status upd db =
     (if tenant_of tenant = [] \<or> uid = uuid_nil then (Inl (BadArgument ''tenant uuid and review task uuid are required''), db)
      else (Inr (), db\<lparr>db_reviews := map (\<lambda>t. if task_tenant t = tenant_of tenant \<and> task_uuid t = uid
        then (if status = [] then upd t else (upd t)\<lparr>task_status := tenant_of status\<rparr>) else t) (db_reviews db)\<rparr>))"

end
