(* ===== verification/WorkflowRunner.thy ===== *)
theory WorkflowRunner imports WorkflowStore begin

section \<open>The workflow runner\<close>

text \<open>
  \<open>runner.go\<close>: leasing due steps, executing their nodes, and deciding what comes next. The runner
  is a program in the state monad over a world that has the database, the node executions
  performed and the events published, and counts its calls; each call meets the surroundings of
  its number: what other processes did to the database until then, the clock, the rows locked
  by others, the UUID generated for a new row, and whether the call fails.
\<close>

subsection \<open>The world\<close>

text \<open>
  A failing call has an error, and may have taken effect all the same. A call with an unusable
  argument is refused before it reaches the database.
\<close>

record moment =
  m_others :: "wf_db \<Rightarrow> wf_db"
  m_now :: int
  m_locked :: "nat list"
  m_uuid :: string
  m_fault :: "(string \<times> bool) option"

record node_result =
  nr_status :: string
  nr_output :: object
  nr_decision :: string
  nr_branches :: "string list"
  nr_error_code :: string
  nr_error_message :: string
  nr_awaiting_human :: bool
  nr_review_task :: string
  nr_retryable :: bool

text \<open>
  A node adapter: what it says of a step's definition (an error text), and what the execution of
  a step gives for the input payload. The external services behind it answer differently from
  call to call, hence the call number.
\<close>

record node_adapter =
  adapter_validate :: "step_definition \<Rightarrow> string option"
  adapter_execute :: "nat \<Rightarrow> workflow_instance \<Rightarrow> step_definition \<Rightarrow> object \<Rightarrow> node_result \<times> string option"

text \<open>
  What a runner and the service are given: the registry of adapters, the mappings of payloads,
  the wording of an executor's error, which is only stored, the parser of UUIDs, the check of an
  agent's tool grants, when there is one, which names the grant and its version, the queue of
  retries, when there is one, with the error it answers an instance, a record and an attempt, and
  the surroundings.
\<close>

record wf_env =
  moments :: "nat \<Rightarrow> moment"
  adapters :: "(string \<times> node_adapter) list"
  map_input :: "object \<Rightarrow> object \<Rightarrow> string + object"
  map_output :: "object \<Rightarrow> object \<Rightarrow> string + object"
  error_text :: "string \<Rightarrow> step_error \<Rightarrow> string"
  parse_uuid :: "string \<Rightarrow> string option"
  check_grant :: "(nat \<Rightarrow> string \<Rightarrow> string \<Rightarrow> string \<Rightarrow> string + string \<times> int) option"
  retry_queue :: "(nat \<Rightarrow> string \<Rightarrow> nat \<Rightarrow> int \<Rightarrow> string option) option"

record wf_event =
  ev_instance :: string
  ev_type :: string
  ev_step :: string

record wf_world =
  w_db :: wf_db
  w_calls :: nat
  w_leased :: "nat list"
  w_executed :: "nat list"
  w_events :: "wf_event list"
  w_env :: wf_env

type_synonym 'a wf = "(wf_world, 'a) state"

fun refused :: "wf_error + 'a \<Rightarrow> bool" where
  "refused (Inl (BadArgument _)) = True"
| "refused _ = False"

definition db_call :: "(moment \<Rightarrow> wf_db \<Rightarrow> (wf_error + 'a) \<times> wf_db) \<Rightarrow> (wf_error + 'a) wf" where
  "db_call f = State (\<lambda>w. let m = moments (w_env w) (w_calls w); db = m_others m (w_db w); (r, db') = f m db
     in case (if refused r then None else m_fault m) of
          None \<Rightarrow> (r, w\<lparr>w_db := db', w_calls := Suc (w_calls w)\<rparr>)
        | Some (e, done) \<Rightarrow> (Inl (DbError e), w\<lparr>w_db := if done then db' else db, w_calls := Suc (w_calls w)\<rparr>))"

definition db_read :: "(wf_db \<Rightarrow> wf_error + 'a) \<Rightarrow> (wf_error + 'a) wf" where
  "db_read f = db_call (\<lambda>m db. (f db, db))"

definition clock :: "int wf" where
  "clock = State (\<lambda>w. let m = moments (w_env w) (w_calls w)
     in (m_now m, w\<lparr>w_db := m_others m (w_db w), w_calls := Suc (w_calls w)\<rparr>))"

definition publish :: "string \<Rightarrow> string \<Rightarrow> string \<Rightarrow> unit wf" where
  "publish inst ty sid = State (\<lambda>w. ((), w\<lparr>w_events := w_events w @ [\<lparr>ev_instance = inst, ev_type = ty, ev_step = sid\<rparr>]\<rparr>))"

text \<open>The log of the records whose leases this process was given; the code keeps none.\<close>

definition note_leased :: "step_record list \<Rightarrow> unit wf" where
  "note_leased rs = State (\<lambda>w. ((), w\<lparr>w_leased := w_leased w @ map rec_id rs\<rparr>))"

definition environment :: "wf_env wf" where
  "environment = State (\<lambda>w. (w_env w, w))"

definition execute :: "node_adapter \<Rightarrow> nat \<Rightarrow> workflow_instance \<Rightarrow> step_definition \<Rightarrow> object \<Rightarrow> (node_result \<times> string option) wf" where
  "execute a rid inst step payload = State (\<lambda>w. let m = moments (w_env w) (w_calls w)
     in (adapter_execute a (w_calls w) inst step payload,
         w\<lparr>w_db := m_others m (w_db w), w_calls := Suc (w_calls w), w_executed := w_executed w @ [rid]\<rparr>))"

subsection \<open>Running programs\<close>

named_theorems wf_runs "what one step of a runner program gives"

lemma wf_run_return [wf_runs]: "run_state (State_Monad.return x) w = (x, w)"
  by simp

lemma wf_run_bind [wf_runs]: "run_state (m \<bind> f) w = (let (x, v) = run_state m w in run_state (f x) v)"
  by (simp add: run_state_bind)

lemma run_publish [wf_runs]:
  "run_state (publish inst ty sid) w = ((), w\<lparr>w_events := w_events w @ [\<lparr>ev_instance = inst, ev_type = ty, ev_step = sid\<rparr>]\<rparr>)"
  by (simp add: publish_def)

lemma run_note_leased [wf_runs]: "run_state (note_leased rs) w = ((), w\<lparr>w_leased := w_leased w @ map rec_id rs\<rparr>)"
  by (simp add: note_leased_def)

lemma run_environment [wf_runs]: "run_state environment w = (w_env w, w)"
  by (simp add: environment_def)

subsection \<open>Results of nodes\<close>

definition to_step_result :: "node_result \<Rightarrow> step_result" where
  "to_step_result r = \<lparr>sr_status = nr_status r, sr_decision = nr_decision r, sr_output = nr_output r,
     selected_branches = nr_branches r, approved = nr_status r = ''succeeded'',
     has_approval = nr_awaiting_human r \<or> nr_review_task r \<noteq> uuid_nil\<rparr>"

definition normalize_node_kind :: "string \<Rightarrow> string" where
  "normalize_node_kind k = to_lower (trim_space k)"

definition adapter_for :: "(string \<times> node_adapter) list \<Rightarrow> string \<Rightarrow> string + node_adapter" where
  "adapter_for reg kind = (let k = normalize_node_kind kind
     in if k = [] then Inl ''workflow.node_kind_required''
        else case map_of reg k of None \<Rightarrow> Inl (''workflow.node_adapter_unavailable: '' @ k) | Some a \<Rightarrow> Inr a)"

definition first_nonempty :: "string \<Rightarrow> string \<Rightarrow> string" where
  "first_nonempty a b = (if trim_space a \<noteq> [] then trim_space a else trim_space b)"

subsection \<open>The runner\<close>

record runner_options =
  opt_complete :: bool
  opt_router :: "router option"
  opt_target :: string
  opt_lease_owner :: string
  opt_lease_duration :: int
  opt_batch_size :: int

record runner =
  r_router :: router
  r_target :: string
  r_lease_owner :: string
  r_lease_ttl :: int
  r_batch_size :: int

record run_due_result =
  leased :: nat
  completed :: nat
  waiting :: nat
  failed :: nat
  skipped :: nat

definition default_lease_duration :: int where
  "default_lease_duration = 30000000000"

definition default_batch_size :: int where
  "default_batch_size = 10"

definition default_drain_limit :: int where
  "default_drain_limit = 50"

definition new_runner :: "runner_options \<Rightarrow> wf_error + runner" where
  "new_runner opts = (if \<not> opt_complete opts then Inl RunnerUnavailable
     else if trim_space (opt_lease_owner opts) = [] then Inl LeaseOwnerRequired
     else Inr \<lparr>r_router = (case opt_router opts of None \<Rightarrow> new_executor_router | Some r \<Rightarrow> r), r_target = opt_target opts,
       r_lease_owner = trim_space (opt_lease_owner opts),
       r_lease_ttl = (if opt_lease_duration opts \<le> 0 then default_lease_duration else opt_lease_duration opts),
       r_batch_size = (if opt_batch_size opts \<le> 0 then default_batch_size else opt_batch_size opts)\<rparr>)"

subsection \<open>Moving a step on\<close>

type_synonym outcome = "string \<times> wf_error option"

definition update_step :: "step_record \<Rightarrow> string \<Rightarrow> (step_record \<Rightarrow> step_record) \<Rightarrow> (wf_error + bool) wf" where
  "update_step record next upd = db_call (\<lambda>m. update_for_attempt (m_now m) (rec_id record) (rec_attempt record) next upd)"

definition set_instance :: "workflow_instance \<Rightarrow> string \<Rightarrow> (workflow_instance \<Rightarrow> workflow_instance) \<Rightarrow> (wf_error + unit) wf" where
  "set_instance inst next upd = db_call (\<lambda>m. update_instance (m_now m) (inst_tenant inst) (inst_uuid inst) next upd)"

definition complete_step :: "step_record \<Rightarrow> workflow_instance \<Rightarrow> node_result \<Rightarrow> wf_error option wf" where
  "complete_step record inst result = do {
     u \<leftarrow> update_step record ''completed'' (\<lambda>r. r\<lparr>rec_payload_out := json_column (nr_output result), rec_awaiting_human := False,
       rec_error_code := [], rec_error_message := [], rec_failure_reason := []\<rparr>);
     case u of Inl e \<Rightarrow> State_Monad.return (Some e)
     | Inr ok \<Rightarrow> if \<not> ok then State_Monad.return (Some StaleAttempt)
         else do { publish (inst_uuid inst) ''workflow.step.completed'' (rec_step record); State_Monad.return None } }"

definition mark_step_waiting :: "step_record \<Rightarrow> workflow_instance \<Rightarrow> node_result \<Rightarrow> wf_error option wf" where
  "mark_step_waiting record inst result = do {
     u \<leftarrow> update_step record ''waiting'' (\<lambda>r. r\<lparr>rec_payload_out := json_column (nr_output result),
       rec_awaiting_human := nr_awaiting_human result \<or> nr_review_task result \<noteq> uuid_nil,
       rec_lease_owner := [], rec_lease_until := None\<rparr>);
     case u of Inl e \<Rightarrow> State_Monad.return (Some e)
     | Inr ok \<Rightarrow> if \<not> ok then State_Monad.return (Some StaleAttempt) else do {
         s \<leftarrow> set_instance inst ''waiting'' (\<lambda>i. i\<lparr>inst_current_step := rec_step record, inst_last_error := []\<rparr>);
         case s of Inl e \<Rightarrow> State_Monad.return (Some e)
         | Inr _ \<Rightarrow> do { publish (inst_uuid inst) ''workflow.step.waiting'' (rec_step record); State_Monad.return None } } }"

definition fail_step :: "step_record \<Rightarrow> workflow_instance \<Rightarrow> string \<Rightarrow> string \<Rightarrow> wf_error option wf" where
  "fail_step record inst code message = (let code = (if code = [] then ''workflow.node_failed'' else code);
       message = (if message = [] then code else message) in do {
     u \<leftarrow> update_step record ''failed'' (\<lambda>r. r\<lparr>rec_failure_reason := message, rec_error_code := code,
       rec_error_message := message, rec_lease_owner := [], rec_lease_until := None\<rparr>);
     case u of Inl e \<Rightarrow> State_Monad.return (Some e)
     | Inr ok \<Rightarrow> if \<not> ok then State_Monad.return (Some StaleAttempt) else do {
         now \<leftarrow> clock;
         s \<leftarrow> set_instance inst ''failed'' (\<lambda>i. i\<lparr>inst_current_step := rec_step record, inst_last_error := message,
           inst_completed_at := Some now\<rparr>);
         case s of Inl e \<Rightarrow> State_Monad.return (Some e)
         | Inr _ \<Rightarrow> do { publish (inst_uuid inst) ''workflow.step.failed'' (rec_step record); State_Monad.return None } } })"

definition mark_instance_compensating :: "step_record \<Rightarrow> workflow_instance \<Rightarrow> node_result \<Rightarrow> wf_error option wf" where
  "mark_instance_compensating record inst result = do {
     f \<leftarrow> fail_step record inst (first_nonempty (nr_error_code result) ''workflow.node_compensating'')
       (first_nonempty (nr_error_message result) ''workflow.node_compensating'');
     case f of Some e \<Rightarrow> State_Monad.return (Some e)
     | None \<Rightarrow> do {
         s \<leftarrow> set_instance inst ''compensating'' (\<lambda>i. i\<lparr>inst_current_step := rec_step record,
           inst_last_error := first_nonempty (nr_error_message result) ''workflow.node_compensating''\<rparr>);
         State_Monad.return (case s of Inl e \<Rightarrow> Some e | Inr _ \<Rightarrow> None) } }"

subsection \<open>What comes next\<close>

definition find_latest :: "string \<Rightarrow> string \<Rightarrow> (wf_error + step_record) wf" where
  "find_latest inst sid = db_read (\<lambda>db. if inst = uuid_nil then Inl (BadArgument ''instance uuid is required'')
     else if blank sid then Inl (BadArgument ''step_id is required'') else find_latest_by_step inst sid db)"

text \<open>A dependency whose record cannot be read counts as one that has not completed.\<close>

fun dependencies_loop :: "string \<Rightarrow> string list \<Rightarrow> bool wf" where
  "dependencies_loop inst [] = State_Monad.return True"
| "dependencies_loop inst (d # ds) = do {
     r \<leftarrow> find_latest inst d;
     case r of Inl e \<Rightarrow> State_Monad.return False
     | Inr rec \<Rightarrow> if rec_state rec \<noteq> ''completed'' then State_Monad.return False else dependencies_loop inst ds }"

definition dependencies_completed :: "string \<Rightarrow> string list \<Rightarrow> bool wf" where
  "dependencies_completed inst ds = (if ds = [] then State_Monad.return True else dependencies_loop inst (normalize_strings ds))"

definition queued_record :: "workflow_instance \<Rightarrow> step_definition \<Rightarrow> executor \<Rightarrow> int \<Rightarrow> object \<Rightarrow> step_record" where
  "queued_record inst step exec now payload = \<lparr>rec_id = 0, rec_instance = inst_uuid inst, rec_step = step_id step,
     rec_type = step_type step, rec_node_kind = node_kind step, rec_node_ref = node_ref step, rec_state = ''queued'',
     rec_subject_type = subject_type exec, rec_subject = uuid_nil, rec_grant = ([], 0), rec_attempt = 0, rec_input_mapping = json_column (input_mapping step),
     rec_output_mapping = json_column (output_mapping step), rec_payload_in = json_column payload, rec_payload_out = [],
     rec_failure_reason = [], rec_error_code = [], rec_error_message = [], rec_scheduled_at = now, rec_lease_owner = [],
     rec_lease_until = None, rec_started_at = None, rec_completed_at = None, rec_last_transition = now,
     rec_awaiting_human = False\<rparr>"

fun enqueue_loop :: "runner \<Rightarrow> workflow_instance \<Rightarrow> validation \<Rightarrow> int \<Rightarrow> object \<Rightarrow> string list \<Rightarrow> wf_error option wf" where
  "enqueue_loop r inst v now payload [] = State_Monad.return None"
| "enqueue_loop r inst v now payload (sid # sids) = (case step_by_id v sid of
     None \<Rightarrow> State_Monad.return (Some (StepUnknown sid))
   | Some step \<Rightarrow> do {
       ready \<leftarrow> dependencies_completed (inst_uuid inst) (depends_on step);
       if \<not> ready then enqueue_loop r inst v now payload sids
       else case executor_for (r_router r) (step_type step) of
         Inl e \<Rightarrow> State_Monad.return (Some (RoutingFailed e))
       | Inr exec \<Rightarrow> do {
           c \<leftarrow> db_call (\<lambda>m. append_record (queued_record inst step exec now payload));
           case c of Inl e \<Rightarrow> State_Monad.return (Some e)
           | Inr _ \<Rightarrow> do { publish (inst_uuid inst) ''workflow.step.queued'' (step_id step);
                            enqueue_loop r inst v now payload sids } } })"

definition enqueue_next_steps :: "runner \<Rightarrow> workflow_instance \<Rightarrow> validation \<Rightarrow> string list \<Rightarrow> object \<Rightarrow> wf_error option wf" where
  "enqueue_next_steps r inst v sids payload = do { now \<leftarrow> clock; enqueue_loop r inst v now payload (normalize_strings sids) }"

definition list_records :: "string \<Rightarrow> (wf_error + step_record list) wf" where
  "list_records inst = db_read (\<lambda>db. if inst = uuid_nil then Inl (BadArgument ''instance uuid is required'')
     else Inr (list_by_instance inst db))"

definition active_states :: "string list" where
  "active_states = [''queued'', ''in_progress'', ''waiting'']"

definition converge_step :: "step_record list \<Rightarrow> string" where
  "converge_step rs = (case List.find (\<lambda>r. (rec_state r \<in> set active_states \<or> rec_state r = ''failed'') \<and> rec_step r \<noteq> []) rs of
     None \<Rightarrow> [] | Some r \<Rightarrow> rec_step r)"

definition converge_to :: "step_record list \<Rightarrow> string" where
  "converge_to rs = (if list_ex (\<lambda>r. rec_state r = ''failed'') rs then ''failed''
     else if list_ex (\<lambda>r. rec_state r \<in> set active_states) rs then ''running'' else ''succeeded'')"

definition settle_instance :: "workflow_instance \<Rightarrow> step_record list \<Rightarrow> wf_error option wf" where
  "settle_instance inst rs = (let next = converge_to rs; sid = (if next = ''succeeded'' then [] else converge_step rs) in do {
     now \<leftarrow> (if next = ''running'' then State_Monad.return 0 else clock);
     s \<leftarrow> set_instance inst next (\<lambda>i.
       if next = ''failed'' then i\<lparr>inst_current_step := sid, inst_completed_at := Some now\<rparr>
       else if next = ''running'' then i\<lparr>inst_current_step := sid, inst_last_error := []\<rparr>
       else i\<lparr>inst_current_step := [], inst_last_error := [], inst_completed_at := Some now\<rparr>);
     case s of Inl e \<Rightarrow> State_Monad.return (Some e)
     | Inr _ \<Rightarrow> do { publish (inst_uuid inst) (''workflow.instance.'' @ next) sid; State_Monad.return None } })"

definition converge_instance_state :: "workflow_instance \<Rightarrow> wf_error option wf" where
  "converge_instance_state inst = do {
     l \<leftarrow> list_records (inst_uuid inst);
     case l of Inl e \<Rightarrow> State_Monad.return (Some e) | Inr rs \<Rightarrow> settle_instance inst rs }"

subsection \<open>Running a leased step\<close>

definition stored_graph :: "workflow_definition \<Rightarrow> wf_error + validation" where
  "stored_graph d = (case def_graph d of None \<Rightarrow> Inl GraphUndecodable | Some steps \<Rightarrow> map_err GraphInvalid (validate_steps steps))"

definition load_definition :: "workflow_instance \<Rightarrow> (wf_error + validation) wf" where
  "load_definition inst = do {
     d \<leftarrow> db_read (definition_by_uuid (inst_tenant inst) (inst_definition inst) (Some (inst_version inst)));
     State_Monad.return (bind_res d stored_graph) }"

definition failing :: "wf_error option wf \<Rightarrow> outcome wf" where
  "failing m = do { e \<leftarrow> m; State_Monad.return (''failed'', e) }"

text \<open>A node that succeeded: map its output, close its record, queue its successors, settle the instance.\<close>

definition go_on :: "runner \<Rightarrow> workflow_instance \<Rightarrow> validation \<Rightarrow> string list \<Rightarrow> object \<Rightarrow> outcome wf" where
  "go_on r inst v sids out = do {
     q \<leftarrow> enqueue_next_steps r inst v sids out;
     case q of Some e \<Rightarrow> State_Monad.return (''failed'', Some e)
     | None \<Rightarrow> do {
         g \<leftarrow> converge_instance_state inst;
         State_Monad.return (case g of Some e \<Rightarrow> (''failed'', Some e) | None \<Rightarrow> (''completed'', None)) } }"

definition step_succeeded ::
  "runner \<Rightarrow> step_record \<Rightarrow> workflow_instance \<Rightarrow> validation \<Rightarrow> step_definition \<Rightarrow> node_result \<Rightarrow> outcome wf" where
  "step_succeeded r record inst v step result = do {
     env \<leftarrow> environment;
     case map_output env (nr_output result) (output_mapping step) of
       Inl msg \<Rightarrow> failing (fail_step record inst ''workflow.output_mapping_failed'' msg)
     | Inr out \<Rightarrow> (let result = result\<lparr>nr_output := out\<rparr> in do {
         c \<leftarrow> complete_step record inst result;
         case c of Some e \<Rightarrow> State_Monad.return (''failed'', Some e)
         | None \<Rightarrow> (case next_steps (r_router r) step (to_step_result result) of
             Inl e \<Rightarrow> failing (fail_step record inst ''workflow.next_step_resolution_failed'' (error_text env (step_id step) e))
           | Inr sids \<Rightarrow> go_on r inst v sids out) }) }"

definition finish_step ::
  "runner \<Rightarrow> step_record \<Rightarrow> workflow_instance \<Rightarrow> validation \<Rightarrow> step_definition \<Rightarrow> node_result \<Rightarrow> outcome wf" where
  "finish_step r record inst v step result = (let status = trim_space (to_lower (nr_status result)) in
     if status = [] then failing (fail_step record inst ''workflow.node_result_status_required'' ''workflow.node_result_status_required'')
     else if status = ''waiting'' then do { e \<leftarrow> mark_step_waiting record inst result; State_Monad.return (''waiting'', e) }
     else if status = ''compensating'' then failing (mark_instance_compensating record inst result)
     else if status = ''failed'' then failing (fail_step record inst
       (first_nonempty (nr_error_code result) ''workflow.node_failed'') (first_nonempty (nr_error_message result) ''workflow.node_failed''))
     else if status = ''succeeded'' then step_succeeded r record inst v step result
     else failing (fail_step record inst ''workflow.node_result_status_invalid'' status))"

definition run_node ::
  "runner \<Rightarrow> step_record \<Rightarrow> workflow_instance \<Rightarrow> validation \<Rightarrow> step_definition \<Rightarrow> outcome wf" where
  "run_node r record inst v step = do {
     env \<leftarrow> environment;
     case adapter_for (adapters env) (node_kind step) of
       Inl msg \<Rightarrow> failing (fail_step record inst ''workflow.node_adapter_unavailable'' msg)
     | Inr a \<Rightarrow> (case adapter_validate a step of
         Some msg \<Rightarrow> failing (fail_step record inst ''workflow.node_validation_failed'' msg)
       | None \<Rightarrow> (case map_input env (rec_payload_in record) (input_mapping step) of
           Inl msg \<Rightarrow> failing (fail_step record inst ''workflow.input_mapping_failed'' msg)
         | Inr payload \<Rightarrow> do {
             (result, err) \<leftarrow> execute a (rec_id record) inst step payload;
             case err of
               Some msg \<Rightarrow> failing (fail_step record inst (first_nonempty (nr_error_code result) ''workflow.node_execution_failed'') msg)
             | None \<Rightarrow> finish_step r record inst v step result })) }"

definition run_leased_step :: "runner \<Rightarrow> step_record \<Rightarrow> outcome wf" where
  "run_leased_step r record = do {
     i \<leftarrow> db_read (instance_any_tenant (rec_instance record));
     case i of Inl e \<Rightarrow> State_Monad.return (''failed'', Some e)
     | Inr inst \<Rightarrow>
         if inst_state inst = ''canceled'' \<or> inst_state inst = ''suspended'' then State_Monad.return (''skipped'', None)
         else do {
           publish (inst_uuid inst) ''workflow.step.started'' (rec_step record);
           d \<leftarrow> load_definition inst;
           case d of Inl e \<Rightarrow> State_Monad.return (''failed'', Some e)
           | Inr v \<Rightarrow> (case step_by_id v (rec_step record) of
               None \<Rightarrow> State_Monad.return (''failed'', Some (StepUnknown (rec_step record)))
             | Some step \<Rightarrow> run_node r record inst v step) } }"

subsection \<open>Running what is due, and draining\<close>

definition no_steps_run :: run_due_result where
  "no_steps_run = \<lparr>leased = 0, completed = 0, waiting = 0, failed = 0, skipped = 0\<rparr>"

definition count_outcome :: "string \<Rightarrow> run_due_result \<Rightarrow> run_due_result" where
  "count_outcome out res =
     (if out = ''completed'' then res\<lparr>completed := Suc (completed res)\<rparr>
      else if out = ''waiting'' then res\<lparr>waiting := Suc (waiting res)\<rparr>
      else if out = ''failed'' then res\<lparr>failed := Suc (failed res)\<rparr>
      else if out = ''skipped'' then res\<lparr>skipped := Suc (skipped res)\<rparr>
      else res)"

text \<open>The first error ends the batch; the records behind it stay leased.\<close>

fun run_records :: "runner \<Rightarrow> step_record list \<Rightarrow> run_due_result \<Rightarrow> (run_due_result \<times> wf_error option) wf" where
  "run_records r [] res = State_Monad.return (res, None)"
| "run_records r (rec # recs) res = do {
     (out, err) \<leftarrow> run_leased_step r rec;
     case err of Some e \<Rightarrow> State_Monad.return (count_outcome out res, Some e)
     | None \<Rightarrow> run_records r recs (count_outcome out res) }"

definition run_due_steps :: "runner \<Rightarrow> (run_due_result \<times> wf_error option) wf" where
  "run_due_steps r = do {
     now \<leftarrow> clock;
     l \<leftarrow> db_call (\<lambda>m. lease_queued_steps (m_now m) (m_locked m) (r_target r) (r_batch_size r) (r_lease_owner r) (now + r_lease_ttl r));
     case l of Inl e \<Rightarrow> State_Monad.return (no_steps_run, Some e)
     | Inr recs \<Rightarrow> do { note_leased recs; run_records r recs (no_steps_run\<lparr>leased := length recs\<rparr>) } }"

definition add_results :: "run_due_result \<Rightarrow> run_due_result \<Rightarrow> run_due_result" where
  "add_results a b = \<lparr>leased = leased a + leased b, completed = completed a + completed b,
     waiting = waiting a + waiting b, failed = failed a + failed b, skipped = skipped a + skipped b\<rparr>"

fun drain_loop :: "nat \<Rightarrow> runner \<Rightarrow> run_due_result \<Rightarrow> (run_due_result \<times> wf_error option) wf" where
  "drain_loop 0 r acc = State_Monad.return (acc, None)"
| "drain_loop (Suc n) r acc = do {
     (current, err) \<leftarrow> run_due_steps r;
     let acc = add_results acc current;
     case err of Some e \<Rightarrow> State_Monad.return (acc, Some e)
     | None \<Rightarrow>
         if leased current = 0 \<or> 0 < waiting current \<or> 0 < failed current then State_Monad.return (acc, None)
         else drain_loop n r acc }"

definition drain_due_steps :: "runner_options \<Rightarrow> int \<Rightarrow> (run_due_result \<times> wf_error option) wf" where
  "drain_due_steps opts max_iterations =
     (let limit = (if max_iterations \<le> 0 then default_drain_limit else max_iterations)
      in case new_runner opts of
           Inl e \<Rightarrow> State_Monad.return (no_steps_run, Some e)
         | Inr r \<Rightarrow> drain_loop (nat limit) r no_steps_run)"

end
