(* ===== verification/CallLogic.thy ===== *)
theory CallLogic imports Main "HOL-Library.State_Monad" begin

section \<open>Programs that stay within a relation\<close>

text \<open>
  A program of the state monad does no more than a relation allows when its initial and its final
  world are related. For every reflexive and transitive relation this is closed under the
  combinators programs are written with: the interface is the locale \<open>call_logic\<close>, interpreted
  on the relations the components use.
\<close>

definition does :: "('w \<Rightarrow> 'w \<Rightarrow> bool) \<Rightarrow> ('w, 'a) state \<Rightarrow> bool" where
  "does R m \<longleftrightarrow> (\<forall>w. R w (snd (run_state m w)))"

lemma doesD: "does R m \<Longrightarrow> run_state m w = (x, w') \<Longrightarrow> R w w'"
  by (metis does_def snd_conv)

lemma doesI: "(\<And>w x w'. run_state m w = (x, w') \<Longrightarrow> R w w') \<Longrightarrow> does R m"
  by (metis does_def prod.collapse)

text \<open>Programs that return an error or a result: a call whose error is returned at once, and a guard.\<close>

definition attempt :: "('w, 'e + 'a) state \<Rightarrow> ('a \<Rightarrow> ('w, 'e + 'b) state) \<Rightarrow> ('w, 'e + 'b) state" where
  "attempt m f = do { r \<leftarrow> m; case r of Inl e \<Rightarrow> State_Monad.return (Inl e) | Inr x \<Rightarrow> f x }"

abbreviation returns :: "'a \<Rightarrow> ('w, 'e + 'a) state" where
  "returns x \<equiv> State_Monad.return (Inr x)"

abbreviation raise :: "'e \<Rightarrow> ('w, 'e + 'a) state" where
  "raise e \<equiv> State_Monad.return (Inl e)"

definition require :: "bool \<Rightarrow> 'e \<Rightarrow> ('w, 'e + 'a) state \<Rightarrow> ('w, 'e + 'a) state" where
  "require b e m = (if b then m else raise e)"

lemma attempt_result [simp]: "attempt (State_Monad.return r) f = (case r of Inl e \<Rightarrow> raise e | Inr x \<Rightarrow> f x)"
  by (simp add: attempt_def)

locale call_logic =
  fixes R :: "'w \<Rightarrow> 'w \<Rightarrow> bool"
  assumes stays: "R w w"
    and chains: "R u v \<Longrightarrow> R v w \<Longrightarrow> R u w"
begin

lemma return: "does R (State_Monad.return x)"
  by (simp add: does_def stays)

lemma bind: "does R m \<Longrightarrow> (\<And>x. does R (f x)) \<Longrightarrow> does R (m \<bind> f)"
  by (auto simp: does_def run_state_bind split: prod.splits) (metis chains snd_conv)

lemma branch: "does R m \<Longrightarrow> does R n \<Longrightarrow> does R (if b then m else n)"
  by simp

lemma sum: "(\<And>e. does R (f e)) \<Longrightarrow> (\<And>x. does R (g x)) \<Longrightarrow> does R (case r of Inl e \<Rightarrow> f e | Inr x \<Rightarrow> g x)"
  by (cases r) simp_all

lemma option: "does R m \<Longrightarrow> (\<And>x. does R (g x)) \<Longrightarrow> does R (case r of None \<Rightarrow> m | Some x \<Rightarrow> g x)"
  by (cases r) simp_all

lemma pair: "(\<And>x y. does R (f x y)) \<Longrightarrow> does R (case p of (x, y) \<Rightarrow> f x y)"
  by (cases p) simp_all

lemma local: "(\<And>x. does R (f x)) \<Longrightarrow> does R (let x = v in f x)"
  by simp

lemma attempt: "does R m \<Longrightarrow> (\<And>x. does R (f x)) \<Longrightarrow> does R (attempt m f)"
  unfolding attempt_def by (intro bind sum return)

lemma require: "does R m \<Longrightarrow> does R (require b e m)"
  unfolding require_def by (intro branch return)

lemmas logic = return bind branch sum option pair local attempt require

end

end
