(* ===== verification/WorkflowSafety.thy ===== *)
theory WorkflowSafety imports WorkflowRunner CallLogic "HOL-Library.Sublist" begin

section \<open>Every step record runs at most once\<close>

text \<open>
  What any process does to the step records is a sequence of the repositories' statements:
  \<open>wf_step\<close>. Along it a record that left the queue never returns to it, so the leases of all
  runners together give out every record once, and a runner executes a node once per record.
  The one statement left out is the re-queueing of \<open>AssignmentTracker.ProcessTimeouts\<close>, which
  nothing in the repository calls; \<open>WorkflowServiceSafety\<close> says what it requeues.
\<close>

subsection \<open>The statements\<close>

definition keeps_record :: "(step_record \<Rightarrow> step_record) \<Rightarrow> bool" where
  "keeps_record upd \<longleftrightarrow> (\<forall>r. rec_id (upd r) = rec_id r \<and> rec_instance (upd r) = rec_instance r \<and>
     rec_step (upd r) = rec_step r \<and> rec_state (upd r) = rec_state r)"

definition after_queue :: "string list" where
  "after_queue = [''in_progress'', ''waiting'', ''completed'', ''failed'']"

inductive wf_step :: "wf_db \<Rightarrow> wf_db \<Rightarrow> bool" where
  Append: "rec_state r = ''queued'' \<Longrightarrow> append_record r db = (x, db') \<Longrightarrow> wf_step db db'"
| Lease: "lease_rows now locked inst limit owner until db = (rs, db') \<Longrightarrow> wf_step db db'"
| Attempt: "keeps_record upd \<Longrightarrow> next \<in> set after_queue \<Longrightarrow> update_for_attempt now i a next upd db = (x, db') \<Longrightarrow> wf_step db db'"
| Update: "keeps_record upd \<Longrightarrow> next \<in> set after_queue \<Longrightarrow> wf_step db (update_state now i next upd db)"
| Instances: "db_records db' = db_records db \<Longrightarrow> db_next_id db' = db_next_id db \<Longrightarrow> wf_step db db'"

inductive_cases wf_stepE: "wf_step db db'"

abbreviation wf_steps :: "wf_db \<Rightarrow> wf_db \<Rightarrow> bool" where
  "wf_steps \<equiv> wf_step\<^sup>*\<^sup>*"

subsection \<open>Identities\<close>

definition ids_ok :: "wf_db \<Rightarrow> bool" where
  "ids_ok db \<longleftrightarrow> distinct (map rec_id (db_records db)) \<and> (\<forall>r\<in>set (db_records db). rec_id r < db_next_id db)"

definition left_queue :: "nat \<Rightarrow> wf_db \<Rightarrow> bool" where
  "left_queue i db \<longleftrightarrow> i < db_next_id db \<and> (\<forall>r\<in>set (db_records db). rec_id r = i \<longrightarrow> rec_state r \<noteq> ''queued'')"

definition row_change :: "(step_record \<Rightarrow> step_record) \<Rightarrow> bool" where
  "row_change f \<longleftrightarrow> (\<forall>r. rec_id (f r) = rec_id r \<and> (rec_state (f r) = rec_state r \<or> rec_state (f r) \<in> set after_queue))"

lemma update_rows_next [simp]: "db_next_id (update_rows p f db) = db_next_id db"
  by (simp add: update_rows_def)

lemma rows_changed:
  assumes "row_change f"
  shows "ids_ok (update_rows p f db) = ids_ok db" "left_queue i db \<Longrightarrow> left_queue i (update_rows p f db)"
proof -
  have "map rec_id (db_records (update_rows p f db)) = map rec_id (db_records db)"
    using assms by (simp add: update_rows_def row_change_def comp_def if_distrib)
  moreover have "rec_id ` set (db_records (update_rows p f db)) = rec_id ` set (db_records db)"
    using calculation by (metis set_map)
  ultimately show "ids_ok (update_rows p f db) = ids_ok db" unfolding ids_ok_def
    by simp (metis (no_types, lifting) image_iff)
  assume left: "left_queue i db"
  show "left_queue i (update_rows p f db)" unfolding left_queue_def
  proof (intro conjI ballI impI)
    fix r' assume "r' \<in> set (db_records (update_rows p f db))" "rec_id r' = i"
    then obtain r where r: "r \<in> set (db_records db)" "r' = (if p r then f r else r)" by (auto simp: update_rows_def)
    have "rec_id r = i" using r(2) \<open>rec_id r' = i\<close> assms by (simp add: row_change_def split: if_splits)
    then have "rec_state r \<noteq> ''queued''" using left r(1) by (simp add: left_queue_def)
    moreover have "''queued'' \<notin> set after_queue" by (simp add: after_queue_def)
    ultimately show "rec_state r' \<noteq> ''queued''" using r(2) assms unfolding row_change_def by metis
  qed (use left in \<open>simp add: left_queue_def\<close>)
qed

lemma row_changes:
  "row_change (take_lease now owner until)"
  "keeps_record upd \<Longrightarrow> next \<in> set after_queue \<Longrightarrow> row_change (\<lambda>r. move_to now next (upd r))"
  "keeps_record upd \<Longrightarrow> next \<in> set after_queue \<Longrightarrow> row_change (\<lambda>r. close_record now next (move_to now next (upd r)))"
  by (auto simp: row_change_def keeps_record_def take_lease_def move_to_def close_record_def after_queue_def)

lemma step_rows:
  assumes "wf_step db db'"
  shows "(\<exists>p f. row_change f \<and> db_records db' = db_records (update_rows p f db) \<and> db_next_id db' = db_next_id db) \<or>
    (\<exists>r. db_records db' = db_records db @ [r] \<and> rec_id r = db_next_id db \<and> db_next_id db' = Suc (db_next_id db))"
  using assms
proof cases
  case (Append r x)
  then show ?thesis
    by (auto simp: append_record_def Let_def row_change_def update_rows_def split: if_splits intro!: exI [of _ id] exI [of _ "\<lambda>_. False"])
next
  case (Lease now locked inst limit owner until rs)
  then have "\<exists>p. db' = update_rows p (take_lease now owner until) db" by (auto simp: lease_rows_def Let_def)
  then show ?thesis using row_changes(1) by fastforce
next
  case (Attempt upd nxt now i a x)
  then have "db' = db \<or> (\<exists>p. db' = update_rows p (\<lambda>r. close_record now nxt (move_to now nxt (upd r))) db)"
    by (auto simp: update_for_attempt_def Let_def split: if_splits)
  moreover have "db = update_rows (\<lambda>_. False) id db" by (simp add: update_rows_def)
  moreover have "row_change id" by (simp add: row_change_def)
  ultimately show ?thesis using row_changes(3) [OF Attempt(1,2)] update_rows_next by metis
next
  case (Update upd nxt now i)
  then show ?thesis using row_changes(2) by (fastforce simp: update_state_def)
next
  case Instances
  have "row_change id" by (simp add: row_change_def)
  moreover have "db_records db = db_records (update_rows (\<lambda>_. False) id db)" by (simp add: update_rows_def)
  ultimately show ?thesis using Instances by metis
qed

text \<open>The states a record can have.\<close>

definition states_ok :: "wf_db \<Rightarrow> bool" where
  "states_ok db \<longleftrightarrow> (\<forall>r\<in>set (db_records db). rec_state r = ''queued'' \<or> rec_state r \<in> set after_queue)"

lemma step_states:
  assumes "wf_step db db'" shows "states_ok db \<Longrightarrow> states_ok db'"
proof -
  have change: "states_ok db'" if "row_change f" "db_records db' = db_records (update_rows p f db)" "states_ok db" for p f
  proof -
    have "rec_state (f r) = ''queued'' \<or> rec_state (f r) \<in> set after_queue" if "r \<in> set (db_records db)" for r
      using that \<open>row_change f\<close> \<open>states_ok db\<close> unfolding states_ok_def row_change_def by metis
    then show ?thesis using that(2,3) by (auto simp: states_ok_def update_rows_def)
  qed
  from assms show "states_ok db \<Longrightarrow> states_ok db'"
  proof cases
    case (Append r x)
    then show "states_ok db \<Longrightarrow> states_ok db'"
      by (auto simp: append_record_def Let_def states_ok_def split: if_splits)
  next
    case (Lease now locked inst limit owner until rs)
    then have "\<exists>p. db' = update_rows p (take_lease now owner until) db" by (auto simp: lease_rows_def Let_def)
    then show "states_ok db \<Longrightarrow> states_ok db'" using change [OF row_changes(1)] by blast
  next
    case (Attempt upd nxt now i a x)
    then have "db' = db \<or> (\<exists>p. db' = update_rows p (\<lambda>r. close_record now nxt (move_to now nxt (upd r))) db)"
      by (auto simp: update_for_attempt_def Let_def split: if_splits)
    then show "states_ok db \<Longrightarrow> states_ok db'" using change [OF row_changes(3) [OF Attempt(1,2)]] by blast
  next
    case (Update upd nxt now i)
    then show "states_ok db \<Longrightarrow> states_ok db'" using change [OF row_changes(2) [OF Update(2,3)]] by (simp add: update_state_def)
  next
    case Instances
    then show "states_ok db \<Longrightarrow> states_ok db'" by (simp add: states_ok_def)
  qed
qed

lemma steps_states: "wf_steps db db' \<Longrightarrow> states_ok db \<Longrightarrow> states_ok db'"
  by (induction rule: rtranclp_induct) (auto dest: step_states)

lemma ids_ok_rows: "db_records db' = db_records db \<Longrightarrow> db_next_id db' = db_next_id db \<Longrightarrow> ids_ok db' = ids_ok db \<and> left_queue i db' = left_queue i db"
  by (simp add: ids_ok_def left_queue_def)

lemma step_keeps:
  assumes "wf_step db db'"
  shows "ids_ok db \<Longrightarrow> ids_ok db'" "left_queue i db \<Longrightarrow> left_queue i db'" "db_next_id db \<le> db_next_id db'"
proof -
  consider (change) p f where "row_change f" "db_records db' = db_records (update_rows p f db)" "db_next_id db' = db_next_id db"
    | (append) r where "db_records db' = db_records db @ [r]" "rec_id r = db_next_id db" "db_next_id db' = Suc (db_next_id db)"
    using step_rows [OF assms] by blast
  then have "(ids_ok db \<longrightarrow> ids_ok db') \<and> (left_queue i db \<longrightarrow> left_queue i db') \<and> db_next_id db \<le> db_next_id db'"
  proof cases
    case (change p f)
    then show ?thesis using rows_changed [of f _ db] ids_ok_rows [of db' "update_rows p f db"] by simp
  next
    case append
    then show ?thesis by (auto simp: ids_ok_def left_queue_def less_Suc_eq)
  qed
  then show "ids_ok db \<Longrightarrow> ids_ok db'" "left_queue i db \<Longrightarrow> left_queue i db'" "db_next_id db \<le> db_next_id db'" by blast+
qed

lemma steps_keep:
  assumes "wf_steps db db'"
  shows "ids_ok db \<Longrightarrow> ids_ok db'" "left_queue i db \<Longrightarrow> left_queue i db'" "db_next_id db \<le> db_next_id db'"
  using assms by (induction rule: rtranclp_induct) (auto dest: step_keeps)

subsection \<open>Leases\<close>

lemma in_order_set [simp]: "set (in_order rs) = set rs"
  by (simp add: in_order_def)

lemma in_order_distinct [simp]: "distinct (map rec_id (in_order rs)) \<longleftrightarrow> distinct (map rec_id rs)"
  by (simp add: distinct_map in_order_def)

lemma in_order_length [simp]: "length (in_order rs) = length rs"
  by (simp add: in_order_def)

lemma lease_facts:
  assumes ok: "ids_ok db" and l: "lease_rows now locked inst limit owner until db = (rs, db')"
  shows "distinct (map rec_id rs)"
    and "r \<in> set rs \<Longrightarrow> \<exists>q\<in>set (db_records db). leasable now locked inst q \<and> r = take_lease now owner until q"
    and "r \<in> set rs \<Longrightarrow> left_queue (rec_id r) db' \<and> \<not> left_queue (rec_id r) db"
proof -
  define ids where "ids = map rec_id (take (lease_limit limit) (in_order (filter (leasable now locked inst) (db_records db))))"
  have db': "db' = update_rows (\<lambda>r. rec_id r \<in> set ids \<and> rec_state r = ''queued'') (take_lease now owner until) db"
    and rs: "rs = in_order [r \<leftarrow> db_records db'. rec_id r \<in> set ids]"
    using l by (auto simp: lease_rows_def Let_def ids_def)
  have ok': "ids_ok db'" using ok rows_changed(1) [OF row_changes(1)] by (simp add: db')
  then show "distinct (map rec_id rs)" by (simp add: rs ids_ok_def distinct_map_filter)
  have sel: "q \<in> set (db_records db) \<and> leasable now locked inst q" if "i \<in> set ids" "q \<in> set (db_records db)" "rec_id q = i" for i q
  proof -
    note given = that
    obtain q' where t: "q' \<in> set (take (lease_limit limit) (in_order (filter (leasable now locked inst) (db_records db))))" "rec_id q' = i"
      using given(1) unfolding ids_def set_map by blast
    then have q': "q' \<in> set (db_records db)" "leasable now locked inst q'" "rec_id q' = i"
      using in_set_takeD [OF t(1)] by simp_all
    then have "q' = q" using given(2,3) ok by (auto simp: ids_ok_def distinct_map inj_on_def)
    then show ?thesis using q' by simp
  qed
  assume "r \<in> set rs"
  then obtain q where q: "q \<in> set (db_records db)" "rec_id r \<in> set ids"
      "r = (if rec_id q \<in> set ids \<and> rec_state q = ''queued'' then take_lease now owner until q else q)"
    by (auto simp: rs db' update_rows_def)
  have "rec_id q = rec_id r" using q(3) by (simp add: take_lease_def)
  then have qs: "leasable now locked inst q" "r = take_lease now owner until q"
    using sel [OF q(2,1)] q(2,3) by (auto simp: leasable_def)
  then show "\<exists>q\<in>set (db_records db). leasable now locked inst q \<and> r = take_lease now owner until q" using q(1) by blast
  have "\<not> left_queue (rec_id r) db" using qs q(1) \<open>rec_id q = rec_id r\<close> by (auto simp: left_queue_def leasable_def)
  moreover have "left_queue (rec_id r) db'" unfolding left_queue_def
  proof (intro conjI ballI impI)
    show "rec_id r < db_next_id db'" using ok q(1) by (simp add: ids_ok_def db' flip: \<open>rec_id q = rec_id r\<close>)
    fix r' assume r': "r' \<in> set (db_records db')" "rec_id r' = rec_id r"
    then have "r' = r" using ok' \<open>r \<in> set rs\<close> by (auto simp: rs ids_ok_def distinct_map inj_on_def)
    then show "rec_state r' \<noteq> ''queued''" using qs(2) by (simp add: take_lease_def)
  qed
  ultimately show "left_queue (rec_id r) db' \<and> \<not> left_queue (rec_id r) db" by blast
qed

text \<open>C16: No step record is ever leased twice, by whichever processes and whatever happens in between:
  what two leases of one history return is disjoint, and no lease returns a record twice. A record whose runner died, was
  paused or met an error after the lease is not run again either.\<close>

theorem leased_at_most_once:
  assumes "ids_ok db" "lease_rows now locked inst limit owner until db = (rs, db1)" "wf_steps db1 db2"
    and "lease_rows now' locked' inst' limit' owner' until' db2 = (rs', db3)"
  shows "set (map rec_id rs) \<inter> set (map rec_id rs') = {} \<and> distinct (map rec_id rs)"
proof -
  have "ids_ok db1" using step_keeps(1) [OF wf_step.Lease [OF assms(2)] assms(1)] .
  then have ok2: "ids_ok db2" by (rule steps_keep(1) [OF assms(3)])
  have "False" if "r \<in> set rs" "r' \<in> set rs'" "rec_id r = rec_id r'" for r r'
  proof -
    have "left_queue (rec_id r) db2" using steps_keep(2) [OF assms(3)] lease_facts(3) [OF assms(1,2) that(1)] by blast
    then show False using lease_facts(3) [OF ok2 assms(4) that(2)] that(3) by simp
  qed
  then show ?thesis using lease_facts(1) [OF assms(1,2)] by auto
qed

subsection \<open>What the programs do\<close>

definition fair_others :: "wf_env \<Rightarrow> bool" where
  "fair_others env \<longleftrightarrow> (\<forall>k db. wf_steps db (m_others (moments env k) db))"

text \<open>A program that takes leases and executes nothing, and one that does neither.\<close>

definition quiet :: "wf_world \<Rightarrow> wf_world \<Rightarrow> bool" where
  "quiet w w' \<longleftrightarrow> (fair_others (w_env w) \<longrightarrow> w_env w' = w_env w \<and> wf_steps (w_db w) (w_db w') \<and>
     w_executed w' = w_executed w \<and> w_leased w' = w_leased w)"

interpretation quiet: call_logic quiet
  by unfold_locales (auto simp: quiet_def)

named_theorems quiets "programs that execute and lease nothing"

lemmas quiet_logic [quiets] = quiet.logic

definition db_safe :: "(moment \<Rightarrow> wf_db \<Rightarrow> (wf_error + 'a) \<times> wf_db) \<Rightarrow> bool" where
  "db_safe f \<longleftrightarrow> (\<forall>m db. wf_steps db (snd (f m db)))"

lemma quiet_db_call: "db_safe f \<Longrightarrow> does quiet (db_call f)"
proof (rule doesI)
  fix w r w' assume safe: "db_safe f" and run: "run_state (db_call f) w = (r, w')"
  let ?m = "moments (w_env w) (w_calls w)"
  have "wf_steps (m_others ?m (w_db w)) (snd (f ?m (m_others ?m (w_db w))))" using safe by (simp add: db_safe_def)
  moreover have "w_db w' = m_others ?m (w_db w) \<or> w_db w' = snd (f ?m (m_others ?m (w_db w)))"
    "w_env w' = w_env w" "w_executed w' = w_executed w" "w_leased w' = w_leased w"
    using run by (auto simp: db_call_def Let_def split: prod.splits option.splits if_splits)
  ultimately show "quiet w w'" unfolding quiet_def fair_others_def by (metis rtranclp_trans)
qed

lemma quiet_read [quiets]: "does quiet (db_read f)"
  unfolding db_read_def by (rule quiet_db_call) (simp add: db_safe_def)

lemma quiet_clock [quiets]: "does quiet clock"
  by (rule doesI) (auto simp: clock_def Let_def quiet_def fair_others_def)

lemma quiet_publish [quiets]: "does quiet (publish inst ty sid)"
  by (rule doesI) (auto simp: publish_def quiet_def)

lemma quiet_environment [quiets]: "does quiet environment"
  by (rule doesI) (auto simp: environment_def quiet_def)

lemma quiet_update_step: "keeps_record upd \<Longrightarrow> next \<in> set after_queue \<Longrightarrow> does quiet (update_step record next upd)"
  unfolding update_step_def
  by (rule quiet_db_call) (auto simp: db_safe_def intro!: r_into_rtranclp wf_step.Attempt [of upd "next"] prod.collapse [symmetric])

lemma quiet_set_instance [quiets]: "does quiet (set_instance inst next upd)"
  unfolding set_instance_def
  by (rule quiet_db_call) (auto simp: db_safe_def update_instance_def intro!: r_into_rtranclp wf_step.Instances)

lemma quiet_append: "rec_state r = ''queued'' \<Longrightarrow> does quiet (db_call (\<lambda>m. append_record r))"
  by (rule quiet_db_call) (auto simp: db_safe_def intro!: r_into_rtranclp wf_step.Append [of r] prod.collapse [symmetric])

lemma quiet_queued [quiets]: "does quiet (db_call (\<lambda>m. append_record (queued_record inst s e now p)))"
  by (rule quiet_append) (simp add: queued_record_def)

lemma quiet_complete [quiets]: "does quiet (complete_step record inst result)"
  unfolding complete_step_def by (intro quiets quiet_update_step) (simp_all add: keeps_record_def after_queue_def)

lemma quiet_waiting [quiets]: "does quiet (mark_step_waiting record inst result)"
  unfolding mark_step_waiting_def by (intro quiets quiet_update_step) (simp_all add: keeps_record_def after_queue_def)

lemma quiet_fail [quiets]: "does quiet (fail_step record inst code message)"
  unfolding fail_step_def Let_def by (intro quiets quiet_update_step) (simp_all add: keeps_record_def after_queue_def)

lemma quiet_compensating [quiets]: "does quiet (mark_instance_compensating record inst result)"
  unfolding mark_instance_compensating_def by (intro quiets)

lemma quiet_dependencies_loop [quiets]: "does quiet (dependencies_loop inst ds)"
  by (induction ds) (auto simp: find_latest_def intro!: quiets)

lemma quiet_dependencies [quiets]: "does quiet (dependencies_completed inst ds)"
  unfolding dependencies_completed_def by (intro quiets)

lemma quiet_enqueue_loop: "does quiet (enqueue_loop r inst v now payload sids)"
  by (induction sids) (auto intro!: quiets)

lemma quiet_enqueue [quiets]: "does quiet (enqueue_next_steps r inst v sids payload)"
  unfolding enqueue_next_steps_def by (intro quiets quiet_enqueue_loop)

lemma quiet_converge [quiets]: "does quiet (converge_instance_state inst)"
  unfolding converge_instance_state_def settle_instance_def list_records_def Let_def by (intro quiets)

lemma quiet_failing [quiets]: "does quiet m \<Longrightarrow> does quiet (failing m)"
  unfolding failing_def by (intro quiets)

lemma quiet_go_on [quiets]: "does quiet (go_on r inst v sids out)"
  unfolding go_on_def by (intro quiets)

lemma quiet_succeeded [quiets]: "does quiet (step_succeeded r record inst v step result)"
  unfolding step_succeeded_def Let_def by (intro quiets)

lemma quiet_finish [quiets]: "does quiet (finish_step r record inst v step result)"
  unfolding finish_step_def Let_def by (intro quiets)

lemma quiet_load [quiets]: "does quiet (load_definition inst)"
  unfolding load_definition_def by (intro quiets)

text \<open>A program that executes the nodes of some of the given records, each at most once, in order.\<close>

definition executes :: "nat list \<Rightarrow> 'a wf \<Rightarrow> bool" where
  "executes ids m \<longleftrightarrow> (\<forall>w x w'. run_state m w = (x, w') \<longrightarrow> fair_others (w_env w) \<longrightarrow>
     w_env w' = w_env w \<and> wf_steps (w_db w) (w_db w') \<and> w_leased w' = w_leased w \<and>
     (\<exists>es. subseq es ids \<and> w_executed w' = w_executed w @ es))"

lemma executesD:
  assumes "executes ids m" "run_state m w = (x, w')" "fair_others (w_env w)"
  obtains es where "subseq es ids" "w_executed w' = w_executed w @ es" "w_env w' = w_env w"
    "wf_steps (w_db w) (w_db w')" "w_leased w' = w_leased w"
  using assms unfolding executes_def by metis

lemma executes_quiet: "does quiet m \<Longrightarrow> executes ids m"
  unfolding executes_def by (metis append_Nil2 doesD list_emb_Nil quiet_def)

lemma executes_bind:
  assumes "executes a m" "\<And>x. executes b (f x)"
  shows "executes (a @ b) (m \<bind> f)"
  unfolding executes_def
proof (intro allI impI)
  fix w y w' assume run: "run_state (m \<bind> f) w = (y, w')" and fair: "fair_others (w_env w)"
  obtain x v where m: "run_state m w = (x, v)" and f: "run_state (f x) v = (y, w')"
    using run by (auto simp: run_state_bind split: prod.splits)
  obtain es where es: "subseq es a" "w_executed v = w_executed w @ es" "w_env v = w_env w" "wf_steps (w_db w) (w_db v)" "w_leased v = w_leased w"
    using executesD [OF assms(1) m fair] by metis
  obtain es' where "subseq es' b" "w_executed w' = w_executed v @ es'" "w_env w' = w_env v" "wf_steps (w_db v) (w_db w')" "w_leased w' = w_leased v"
    using executesD [OF assms(2) f] fair es(3) by metis
  then show "w_env w' = w_env w \<and> wf_steps (w_db w) (w_db w') \<and> w_leased w' = w_leased w \<and>
      (\<exists>es. subseq es (a @ b) \<and> w_executed w' = w_executed w @ es)"
    using es by (auto intro!: exI [of _ "es @ es'"] list_emb_append_mono)
qed

lemma executes_after_quiet: "does quiet m \<Longrightarrow> (\<And>x. executes ids (f x)) \<Longrightarrow> executes ids (m \<bind> f)"
  using executes_bind [of "[]" m ids f] executes_quiet [of m "[]"] by simp

lemma executes_execute: "executes [rid] (execute a rid inst step payload)"
  unfolding executes_def
proof (intro allI impI)
  fix w x w' assume run: "run_state (execute a rid inst step payload) w = (x, w')" and fair: "fair_others (w_env w)"
  have "w_executed w' = w_executed w @ [rid]" "w_env w' = w_env w" "w_leased w' = w_leased w"
    "w_db w' = m_others (moments (w_env w) (w_calls w)) (w_db w)"
    using run by (auto simp: execute_def Let_def)
  then show "w_env w' = w_env w \<and> wf_steps (w_db w) (w_db w') \<and> w_leased w' = w_leased w \<and>
      (\<exists>es. subseq es [rid] \<and> w_executed w' = w_executed w @ es)"
    using fair by (auto simp: fair_others_def)
qed

lemma executes_run_node: "executes [rec_id record] (run_node r record inst v step)"
proof -
  have tail: "executes [rec_id record] (execute a (rec_id record) inst step payload \<bind> f)"
    if "\<And>p. does quiet (f p)" for a payload and f :: "node_result \<times> string option \<Rightarrow> outcome wf"
    using executes_bind [OF executes_execute executes_quiet [OF that, of "[]"]] by simp
  show ?thesis unfolding run_node_def
    by (rule executes_after_quiet [OF quiet_environment])
       (auto split: sum.split option.split intro!: executes_quiet quiets tail)
qed

lemma executes_run_leased_step: "executes [rec_id record] (run_leased_step r record)"
proof -
  have node: "executes [rec_id record] (case d of Inl e \<Rightarrow> State_Monad.return (''failed'', Some e) | Inr v \<Rightarrow>
      (case step_by_id v (rec_step record) of None \<Rightarrow> State_Monad.return (''failed'', Some (StepUnknown (rec_step record)))
       | Some step \<Rightarrow> run_node r record inst v step))" for d inst
    by (auto split: sum.split option.split intro!: executes_quiet quiets executes_run_node)
  show ?thesis unfolding run_leased_step_def
    by (rule executes_after_quiet [OF quiet_read])
       (auto split: sum.split intro!: executes_after_quiet node quiets intro: executes_quiet)
qed

lemma executes_run_records: "executes (map rec_id recs) (run_records r recs res)"
proof (induction recs arbitrary: res)
  case (Cons rec recs)
  have "executes ([rec_id rec] @ map rec_id recs) (run_records r (rec # recs) res)"
    unfolding run_records.simps
    by (rule executes_bind [OF executes_run_leased_step]) (auto split: option.split intro!: Cons.IH executes_quiet [OF quiet.return])
  then show ?case by simp
qed (auto intro!: executes_quiet quiets)

text \<open>The records a process was leased have left the queue, and it executes some of them, once each.\<close>

definition lease_log_ok :: "wf_world \<Rightarrow> bool" where
  "lease_log_ok w \<longleftrightarrow> fair_others (w_env w) \<and> ids_ok (w_db w) \<and> distinct (w_executed w) \<and>
     set (w_executed w) \<subseteq> set (w_leased w) \<and> (\<forall>i\<in>set (w_leased w). left_queue i (w_db w))"

definition logs_only :: "wf_world \<Rightarrow> wf_world \<Rightarrow> bool" where
  "logs_only w w' \<longleftrightarrow> (lease_log_ok w \<longrightarrow> lease_log_ok w' \<and> wf_steps (w_db w) (w_db w') \<and>
     (\<exists>es. w_executed w' = w_executed w @ es \<and> (\<forall>i\<in>set es. \<not> left_queue i (w_db w) \<and> left_queue i (w_db w'))))"

lemma log_quiet: "quiet w w' \<Longrightarrow> lease_log_ok w \<Longrightarrow> lease_log_ok w'"
  unfolding lease_log_ok_def quiet_def using steps_keep by auto

lemma subseq_parts: "subseq xs ys \<Longrightarrow> set xs \<subseteq> set ys" "subseq xs ys \<Longrightarrow> distinct ys \<Longrightarrow> distinct xs"
proof -
  show parts: "subseq xs ys \<Longrightarrow> set xs \<subseteq> set ys" for xs ys :: "'a list"
    by (auto dest: list_emb_set)
  show "subseq xs ys \<Longrightarrow> distinct ys \<Longrightarrow> distinct xs"
    by (induction rule: list_emb.induct) (auto dest: parts)
qed

definition lease_call :: "runner \<Rightarrow> int \<Rightarrow> (wf_error + step_record list) wf" where
  "lease_call r now = db_call (\<lambda>m. lease_queued_steps (m_now m) (m_locked m) (r_target r) (r_batch_size r) (r_lease_owner r) (now + r_lease_ttl r))"

lemma lease_step: "wf_steps db (snd (lease_queued_steps now locked inst limit owner until db))"
  by (auto simp: lease_queued_steps_def split: prod.splits intro!: r_into_rtranclp wf_step.Lease)

lemma quiet_lease_call: "does quiet (lease_call r now)"
  unfolding lease_call_def by (rule quiet_db_call) (simp add: db_safe_def lease_step)

lemma lease_call_Inr:
  assumes "run_state (lease_call r now) w = (Inr recs, w')" "fair_others (w_env w)"
  obtains db t locked where "wf_steps (w_db w) db"
    "lease_rows t locked (r_target r) (r_batch_size r) (trim_space (r_lease_owner r)) (now + r_lease_ttl r) db = (recs, w_db w')"
proof -
  let ?m = "moments (w_env w) (w_calls w)"
  have "lease_queued_steps (m_now ?m) (m_locked ?m) (r_target r) (r_batch_size r) (r_lease_owner r) (now + r_lease_ttl r)
      (m_others ?m (w_db w)) = (Inr recs, w_db w')"
    using assms(1) by (auto simp: lease_call_def db_call_def Let_def split: prod.splits option.splits if_splits)
  then have "lease_rows (m_now ?m) (m_locked ?m) (r_target r) (r_batch_size r) (trim_space (r_lease_owner r)) (now + r_lease_ttl r)
      (m_others ?m (w_db w)) = (recs, w_db w')"
    by (auto simp: lease_queued_steps_def split: if_splits prod.splits)
  then show ?thesis using that assms(2) unfolding fair_others_def by blast
qed

lemma logs_run_due: "does logs_only (run_due_steps r)"
proof (rule doesI)
  fix w x w' assume run: "run_state (run_due_steps r) w = (x, w')"
  obtain now w1 where c: "run_state clock w = (now, w1)" by fastforce
  obtain l w2 where l: "run_state (lease_call r now) w1 = (l, w2)" by fastforce
  have q: "quiet w w2" using quiet.chains doesD [OF quiet_clock c] doesD [OF quiet_lease_call l] by blast
  show "logs_only w w'" unfolding logs_only_def
  proof
    assume ok: "lease_log_ok w"
    then have fair: "fair_others (w_env w)" and ids: "ids_ok (w_db w)" by (simp_all add: lease_log_ok_def)
    have ok2: "lease_log_ok w2" by (rule log_quiet [OF q ok])
    have keep: "w_executed w2 = w_executed w" "w_leased w2 = w_leased w" "wf_steps (w_db w) (w_db w2)" "w_env w2 = w_env w"
      using q fair by (auto simp: quiet_def)
    show "lease_log_ok w' \<and> wf_steps (w_db w) (w_db w') \<and> (\<exists>es. w_executed w' = w_executed w @ es \<and> (\<forall>i\<in>set es. \<not> left_queue i (w_db w) \<and> left_queue i (w_db w')))"
    proof (cases l)
      case (Inl e)
      then have "w' = w2" using run c l by (auto simp: run_due_steps_def run_state_bind lease_call_def [symmetric])
      then show ?thesis using ok2 keep by simp
    next
      case (Inr recs)
      define w3 where "w3 = w2\<lparr>w_leased := w_leased w2 @ map rec_id recs\<rparr>"
      have run3: "run_state (run_records r recs (no_steps_run\<lparr>leased := length recs\<rparr>)) w3 = (x, w')"
        using run c l Inr by (auto simp: run_due_steps_def run_state_bind lease_call_def [symmetric] run_note_leased w3_def)
      have f1: "fair_others (w_env w1)" "wf_steps (w_db w) (w_db w1)" using doesD [OF quiet_clock c] fair by (auto simp: quiet_def)
      obtain db t locked where db: "wf_steps (w_db w1) db"
          "lease_rows t locked (r_target r) (r_batch_size r) (trim_space (r_lease_owner r)) (now + r_lease_ttl r) db = (recs, w_db w2)"
        using lease_call_Inr [OF l [unfolded Inr] f1(1)] by blast
      have steps: "wf_steps (w_db w) db" using f1(2) db(1) by (rule rtranclp_trans)
      have fresh: "\<not> left_queue i (w_db w)" "left_queue i (w_db w2)" if "i \<in> set (map rec_id recs)" for i
        using that lease_facts(3) [OF steps_keep(1) [OF steps ids] db(2)] steps_keep(2) [OF steps] by auto
      obtain es where es: "subseq es (map rec_id recs)" "w_executed w' = w_executed w3 @ es" "w_env w' = w_env w3"
          "wf_steps (w_db w3) (w_db w')" "w_leased w' = w_leased w3"
        using executesD [OF executes_run_records run3] fair keep(4) by (metis wf_world.select_convs(6) wf_world.surjective wf_world.update_convs(3) w3_def)
      have new: "set es \<subseteq> set (map rec_id recs)" "distinct es"
        using es(1) lease_facts(1) [OF steps_keep(1) [OF steps ids] db(2)] using subseq_parts by blast+
      have "set es \<inter> set (w_executed w) = {}"
        using ok fresh(1) new(1) unfolding lease_log_ok_def by blast
      then have "lease_log_ok w'"
        using ok2 es new fresh(2) steps_keep [OF es(4)] keep(1) by (auto simp: lease_log_ok_def w3_def)
      moreover have "left_queue i (w_db w')" if "i \<in> set es" for i
        using fresh(2) new(1) that steps_keep(2) [OF es(4)] by (auto simp: w3_def)
      moreover have "wf_steps (w_db w) (w_db w')" using keep(3) es(4) by (simp add: w3_def)
      ultimately show ?thesis using es(2) fresh(1) new(1) keep(1) by (auto simp: w3_def)
    qed
  qed
qed

interpretation logs: call_logic logs_only
proof
  fix u v w
  show "logs_only w w" by (simp add: logs_only_def)
  assume one: "logs_only u v" and two: "logs_only v w"
  show "logs_only u w" unfolding logs_only_def
  proof
    assume ok: "lease_log_ok u"
    obtain es where es: "w_executed v = w_executed u @ es" "\<forall>i\<in>set es. \<not> left_queue i (w_db u) \<and> left_queue i (w_db v)"
      using one ok by (auto simp: logs_only_def)
    have v: "lease_log_ok v" "wf_steps (w_db u) (w_db v)" using one ok by (auto simp: logs_only_def)
    obtain es' where es': "w_executed w = w_executed v @ es'" "\<forall>i\<in>set es'. \<not> left_queue i (w_db v) \<and> left_queue i (w_db w)"
      using two v by (auto simp: logs_only_def)
    have w: "lease_log_ok w" "wf_steps (w_db v) (w_db w)" using two v by (auto simp: logs_only_def)
    have "\<forall>i\<in>set (es @ es'). \<not> left_queue i (w_db u) \<and> left_queue i (w_db w)"
      using es(2) es'(2) steps_keep(2) v(2) w(2) by fastforce
    then show "lease_log_ok w \<and> wf_steps (w_db u) (w_db w) \<and>
        (\<exists>es. w_executed w = w_executed u @ es \<and> (\<forall>i\<in>set es. \<not> left_queue i (w_db u) \<and> left_queue i (w_db w)))"
      using es(1) es'(1) w v(2) by (auto intro: rtranclp_trans exI [of _ "es @ es'"])
  qed
qed

lemma logs_drain_loop: "does logs_only (drain_loop n r acc)"
  by (induction n arbitrary: acc) (auto simp: Let_def split: option.split intro!: logs.logic logs_run_due)

lemma logs_drain: "does logs_only (drain_due_steps opts n)"
  unfolding drain_due_steps_def Let_def by (intro logs.logic logs_drain_loop)

text \<open>C17: Draining executes the node of a step record at most once, whatever calls fail and whatever other processes do
  in between, short of putting records back into the queue, which of all operations of the repository only
  \<open>ProcessTimeouts\<close> does and nothing calls: every record it executes was still queued, or did not exist, when it began, and can
  never be leased by anyone again once it ends.\<close>

theorem drain_executes_once:
  assumes "fair_others (w_env w)" "ids_ok (w_db w)" "w_executed w = []" "w_leased w = []"
    and "run_state (drain_due_steps opts n) w = (x, w')"
  shows "distinct (w_executed w') \<and> set (w_executed w') \<subseteq> set (w_leased w') \<and>
    (\<forall>i\<in>set (w_executed w'). \<not> left_queue i (w_db w) \<and> left_queue i (w_db w'))"
proof -
  have "lease_log_ok w" using assms(1-4) by (simp add: lease_log_ok_def)
  then show ?thesis using doesD [OF logs_drain assms(5)] assms(3) by (auto simp: logs_only_def lease_log_ok_def)
qed

definition demo_node :: node_adapter where
  "demo_node = \<lparr>adapter_validate = \<lambda>_. None, adapter_execute = \<lambda>_ _ _ payload.
     (\<lparr>nr_status = ''succeeded'', nr_output = payload, nr_decision = [], nr_branches = [], nr_error_code = [],
       nr_error_message = [], nr_awaiting_human = False, nr_review_task = uuid_nil, nr_retryable = False\<rparr>, None)\<rparr>"

definition demo_env :: wf_env where
  "demo_env = \<lparr>moments = \<lambda>k. \<lparr>m_others = \<lambda>db. db, m_now = int k, m_locked = [], m_uuid = ''i1'', m_fault = None\<rparr>,
     adapters = [(''input.capture'', demo_node), (''skill.invoke'', demo_node), (''workflow.end'', demo_node)],
     map_input = \<lambda>p _. Inr p, map_output = \<lambda>p _. Inr p, error_text = \<lambda>s _. s, parse_uuid = Some, check_grant = None, retry_queue = None\<rparr>"

definition demo_row :: step_record where
  "demo_row = \<lparr>rec_id = 1, rec_instance = ''i1'', rec_step = ''in'', rec_type = ''system'', rec_node_kind = ''input.capture'',
     rec_node_ref = [], rec_state = ''queued'', rec_subject_type = ''system'', rec_subject = uuid_nil, rec_grant = ([], 0),
     rec_attempt = 0, rec_input_mapping = [], rec_output_mapping = [], rec_payload_in = [], rec_payload_out = [],
     rec_failure_reason = [], rec_error_code = [], rec_error_message = [], rec_scheduled_at = 0, rec_lease_owner = [],
     rec_lease_until = None, rec_started_at = None, rec_completed_at = None, rec_last_transition = 0, rec_awaiting_human = False\<rparr>"

definition demo_rows :: wf_db where
  "demo_rows = \<lparr>db_records = [demo_row], db_next_id = 2, db_instances = [], db_definitions = [],
     db_assignments = [], db_compensations = [], db_reviews = []\<rparr>"

lemma demo_rows_ids: "ids_ok demo_rows"
  by (simp add: ids_ok_def demo_rows_def demo_row_def)

theorem leased_at_most_once_witness:
  "let (rs, db) = lease_rows 0 [] uuid_nil 10 ''a'' 5 demo_rows; (rs', _) = lease_rows 9 [] uuid_nil 10 ''b'' 20 db
   in map rec_id rs = [1] \<and> set (map rec_id rs) \<inter> set (map rec_id rs') = {}"
proof -
  obtain rs db where one: "lease_rows 0 [] uuid_nil 10 ''a'' 5 demo_rows = (rs, db)" by fastforce
  obtain rs' db' where two: "lease_rows 9 [] uuid_nil 10 ''b'' 20 db = (rs', db')" by fastforce
  have "map rec_id (fst (lease_rows 0 [] uuid_nil 10 ''a'' 5 demo_rows)) = [1]" by code_simp
  then have "map rec_id rs = [1]" by (simp add: one)
  moreover have "set (map rec_id rs) \<inter> set (map rec_id rs') = {}"
    using leased_at_most_once [OF demo_rows_ids one rtranclp.rtrancl_refl two] by blast
  ultimately show ?thesis unfolding one two prod.case Let_def by blast
qed

end
