(* ===== verification/WorkflowDrain.thy ===== *)
theory WorkflowDrain imports WorkflowSafety begin

section \<open>An undisturbed workflow runs to its end\<close>

text \<open>
  A workflow whose successors and dependencies agree and whose nodes succeed, drained by one
  process: every step runs once, after all the steps it depends on, and the instance ends as
  succeeded. The proof follows the programs with a weakest-precondition predicate \<open>ok\<close> for the
  undisturbed world.
\<close>

subsection \<open>Programs in an undisturbed world\<close>

definition undisturbed :: "wf_env \<Rightarrow> bool" where
  "undisturbed env \<longleftrightarrow> (\<forall>k. m_others (moments env k) = (\<lambda>db. db) \<and> m_fault (moments env k) = None \<and>
     m_locked (moments env k) = [] \<and> m_now (moments env k) \<le> m_now (moments env (Suc k)))"

definition time_of :: "wf_world \<Rightarrow> int" where
  "time_of w = m_now (moments (w_env w) (w_calls w))"

definition later :: "wf_world \<Rightarrow> wf_world \<Rightarrow> bool" where
  "later w w' \<longleftrightarrow> w_env w' = w_env w \<and> w_calls w \<le> w_calls w'"

definition ok :: "'a wf \<Rightarrow> wf_world \<Rightarrow> ('a \<Rightarrow> wf_world \<Rightarrow> bool) \<Rightarrow> bool" where
  "ok m w Q \<longleftrightarrow> later w (snd (run_state m w)) \<and> Q (fst (run_state m w)) (snd (run_state m w))"

lemma later_refl [simp]: "later w w"
  by (simp add: later_def)

lemma later_trans: "later u v \<Longrightarrow> later v w \<Longrightarrow> later u w"
  by (simp add: later_def)

lemma later_time: "undisturbed (w_env w) \<Longrightarrow> later w w' \<Longrightarrow> time_of w \<le> time_of w'"
  unfolding later_def time_of_def using lift_Suc_mono_le [of "\<lambda>k. m_now (moments (w_env w) k)"]
  by (auto simp: undisturbed_def)

lemma ok_return [simp]: "ok (State_Monad.return x) w Q \<longleftrightarrow> Q x w"
  by (simp add: ok_def)

lemma ok_bind:
  assumes "ok m w P" "\<And>x v. later w v \<Longrightarrow> P x v \<Longrightarrow> ok (f x) v Q"
  shows "ok (m \<bind> f) w Q"
  using assms later_trans unfolding ok_def run_state_bind by (auto split: prod.splits)

lemma ok_mono: "ok m w P \<Longrightarrow> (\<And>x v. later w v \<Longrightarrow> P x v \<Longrightarrow> Q x v) \<Longrightarrow> ok m w Q"
  by (simp add: ok_def)

lemma ok_db_call:
  assumes "undisturbed (w_env w)" "f (moments (w_env w) (w_calls w)) (w_db w) = (r, db')"
    and "Q r (w\<lparr>w_db := db', w_calls := Suc (w_calls w)\<rparr>)"
  shows "ok (db_call f) w Q"
  using assms by (simp add: ok_def db_call_def undisturbed_def later_def Let_def)

lemma ok_db_read:
  assumes "undisturbed (w_env w)" "f (w_db w) = r" "Q r (w\<lparr>w_calls := Suc (w_calls w)\<rparr>)"
  shows "ok (db_read f) w Q"
  using assms by (cases w) (simp add: ok_def db_read_def db_call_def undisturbed_def later_def Let_def)

lemma ok_clock:
  assumes "undisturbed (w_env w)" "Q (time_of w) (w\<lparr>w_calls := Suc (w_calls w)\<rparr>)"
  shows "ok clock w Q"
  using assms by (simp add: ok_def clock_def undisturbed_def later_def time_of_def Let_def)

lemma ok_publish: "Q () (w\<lparr>w_events := w_events w @ [\<lparr>ev_instance = inst, ev_type = ty, ev_step = sid\<rparr>]\<rparr>) \<Longrightarrow> ok (publish inst ty sid) w Q"
  by (simp add: ok_def publish_def later_def)

lemma ok_environment: "Q (w_env w) w \<Longrightarrow> ok environment w Q"
  by (simp add: ok_def environment_def)

lemma ok_execute:
  assumes "undisturbed (w_env w)"
    and "Q (adapter_execute a (w_calls w) inst step payload) (w\<lparr>w_calls := Suc (w_calls w), w_executed := w_executed w @ [rid]\<rparr>)"
  shows "ok (execute a rid inst step payload) w Q"
  using assms by (simp add: ok_def execute_def undisturbed_def later_def Let_def)

subsection \<open>The workflows and their rows\<close>

abbreviation step_names :: "validation \<Rightarrow> string set" where
  "step_names v \<equiv> step_id ` set (v_steps v)"

definition preds :: "validation \<Rightarrow> string \<Rightarrow> string set" where
  "preds v i = {a. (a, i) \<in> graph_edges (v_steps v)}"

definition ready :: "validation \<Rightarrow> string set \<Rightarrow> string set" where
  "ready v C = {i \<in> step_names v. preds v i \<subseteq> C}"

text \<open>Successors and dependencies name the same edges, and no step chooses among its successors.\<close>

definition plain_workflow :: "validation \<Rightarrow> bool" where
  "plain_workflow v \<longleftrightarrow>
     (\<forall>a\<in>set (v_steps v). \<forall>b\<in>set (v_steps v). step_id b \<in> set (next_step_ids a) \<longleftrightarrow> step_id a \<in> set (depends_on b)) \<and>
     (\<forall>s\<in>set (v_steps v). step_type s \<in> {''agent'', ''system'', ''parallel'', ''compensation''})"

text \<open>Every node is known, accepts its definition, and succeeds without selecting branches.\<close>

definition nodes_succeed :: "wf_env \<Rightarrow> validation \<Rightarrow> bool" where
  "nodes_succeed env v \<longleftrightarrow> (\<forall>s\<in>set (v_steps v).
     (\<exists>a. adapter_for (adapters env) (node_kind s) = Inr a \<and> adapter_validate a s = None \<and>
        (\<forall>k i p. \<exists>res. adapter_execute a k i s p = (res, None) \<and> trim_space (to_lower (nr_status res)) = ''succeeded'' \<and>
           nr_branches res = [])) \<and>
     (\<forall>p. \<exists>q. map_input env p (input_mapping s) = Inr q) \<and> (\<forall>p. \<exists>q. map_output env p (output_mapping s) = Inr q))"

abbreviation rows_of :: "string \<Rightarrow> wf_db \<Rightarrow> step_record list" where
  "rows_of u db \<equiv> [r \<leftarrow> db_records db. rec_instance r = u]"

text \<open>
  The rows of an instance: one for each step of \<open>S\<close>, closed for those of \<open>C\<close>, leased for those
  of \<open>B\<close>, and queued and due at \<open>t\<close> for the others.
\<close>

definition job_rows :: "string \<Rightarrow> string set \<Rightarrow> string set \<Rightarrow> string set \<Rightarrow> int \<Rightarrow> wf_db \<Rightarrow> bool" where
  "job_rows u S C B t db \<longleftrightarrow> ids_ok db \<and> 0 < db_next_id db \<and> distinct (map rec_step (rows_of u db)) \<and>
     rec_step ` set (rows_of u db) = S \<and>
     (\<forall>r\<in>set (rows_of u db). 0 < rec_id r \<and> 0 \<le> rec_attempt r \<and>
        rec_state r = (if rec_step r \<in> C then ''completed'' else if rec_step r \<in> B then ''in_progress'' else ''queued'') \<and>
        (rec_state r = ''queued'' \<longrightarrow> rec_lease_until r = None \<and> rec_scheduled_at r \<le> t))"

text \<open>The instance, in a state, of a definition that loads as \<open>v\<close>.\<close>

definition job_instance :: "string \<Rightarrow> string \<Rightarrow> validation \<Rightarrow> string \<Rightarrow> wf_db \<Rightarrow> bool" where
  "job_instance T u v st db \<longleftrightarrow> u \<noteq> uuid_nil \<and> tenant_of T = T \<and> T \<noteq> [] \<and>
     (\<exists>i d. List.find (\<lambda>i. inst_uuid i = u) (db_instances db) = Some i \<and> inst_state i = st \<and> inst_tenant i = T \<and>
     definition_by_uuid T (inst_definition i) (Some (inst_version i)) db = Inr d \<and> stored_graph d = Inr v)"

lemma job_rows_later: "job_rows u S C B t db \<Longrightarrow> t \<le> t' \<Longrightarrow> job_rows u S C B t' db"
  unfolding job_rows_def by force

subsection \<open>Changing rows\<close>

lemma rows_of_update:
  "(\<And>r. rec_instance (f r) = rec_instance r) \<Longrightarrow> rows_of u (update_rows p f db) = map (\<lambda>r. if p r then f r else r) (rows_of u db)"
  by (simp add: update_rows_def filter_map comp_def if_distrib [of rec_instance])

lemma job_rows_update:
  assumes "job_rows u S C B t db" "row_change f" "\<And>r. rec_instance (f r) = rec_instance r \<and> rec_step (f r) = rec_step r"
    and "\<And>r. r \<in> set (rows_of u db) \<Longrightarrow> (let r' = (if p r then f r else r) in 0 \<le> rec_attempt r' \<and>
        rec_state r' = (if rec_step r \<in> C' then ''completed'' else if rec_step r \<in> B' then ''in_progress'' else ''queued'') \<and>
        (rec_state r' = ''queued'' \<longrightarrow> rec_lease_until r' = None \<and> rec_scheduled_at r' \<le> t))"
  shows "job_rows u S C' B' t (update_rows p f db)"
proof -
  have rows: "rows_of u (update_rows p f db) = map (\<lambda>r. if p r then f r else r) (rows_of u db)"
    using assms(3) by (simp add: rows_of_update)
  then have steps: "map rec_step (rows_of u (update_rows p f db)) = map rec_step (rows_of u db)"
    using assms(3) by (simp add: comp_def if_distrib [of rec_step])
  then have names: "rec_step ` set (rows_of u (update_rows p f db)) = rec_step ` set (rows_of u db)" by (metis set_map)
  have each: "0 < rec_id r' \<and> 0 \<le> rec_attempt r' \<and>
      rec_state r' = (if rec_step r' \<in> C' then ''completed'' else if rec_step r' \<in> B' then ''in_progress'' else ''queued'') \<and>
      (rec_state r' = ''queued'' \<longrightarrow> rec_lease_until r' = None \<and> rec_scheduled_at r' \<le> t)"
    if "r' \<in> set (rows_of u (update_rows p f db))" for r'
  proof -
    obtain r where r: "r \<in> set (rows_of u db)" "r' = (if p r then f r else r)" using \<open>r' \<in> _\<close> unfolding rows set_map by blast
    have "rec_step r' = rec_step r" "rec_id r' = rec_id r" using r(2) assms(2,3) by (simp_all add: row_change_def)
    moreover have "0 < rec_id r" using assms(1) r(1) by (simp add: job_rows_def)
    ultimately show ?thesis using assms(4) [OF r(1)] by (simp only: Let_def r(2) [symmetric]) simp
  qed
  have "ids_ok (update_rows p f db)" using rows_changed(1) [OF assms(2)] assms(1) by (simp add: job_rows_def)
  then show ?thesis unfolding job_rows_def names steps using assms(1) each by (simp add: job_rows_def)
qed

text \<open>A row of the instance is known by its step, and by its number.\<close>

lemma same_row:
  assumes "job_rows u S C B t db" "r \<in> set (rows_of u db)" "q \<in> set (rows_of u db)"
  shows "rec_step r = rec_step q \<longleftrightarrow> r = q" "rec_id r = rec_id q \<longleftrightarrow> r = q"
proof -
  have "inj_on rec_step (set (rows_of u db))" "inj_on rec_id (set (db_records db))"
    using assms(1) by (simp_all add: job_rows_def ids_ok_def distinct_map)
  then show "rec_step r = rec_step q \<longleftrightarrow> r = q" "rec_id r = rec_id q \<longleftrightarrow> r = q"
    using assms(2,3) by (auto dest: inj_onD)
qed

lemma job_rows_complete:
  assumes j: "job_rows u S C B t db" and rec: "record \<in> set (rows_of u db)" "rec_step record \<in> B" "rec_step record \<notin> C"
    and upd: "keeps_record upd" "\<And>r. rec_attempt (upd r) = rec_attempt r"
    and run: "update_for_attempt now (rec_id record) (rec_attempt record) ''completed'' upd db = (x, db')"
  shows "x = Inr True" "job_rows u S (insert (rec_step record) C) (B - {rec_step record}) t db'"
    and "\<And>r. r \<in> set (db_records db) \<Longrightarrow> rec_id r \<noteq> rec_id record \<Longrightarrow> r \<in> set (db_records db')"
    and "db_instances db' = db_instances db" "db_definitions db' = db_definitions db"
proof -
  let ?hit = "\<lambda>r. rec_id r = rec_id record \<and> rec_attempt r = rec_attempt record"
  let ?f = "\<lambda>r. close_record now ''completed'' (move_to now ''completed'' (upd r))"
  have n: "rec_id record \<noteq> 0" "\<not> rec_attempt record < 0" using j rec(1) by (fastforce simp: job_rows_def)+
  then have db': "x = Inr (list_ex ?hit (db_records db))" "db' = update_rows ?hit ?f db"
    using run by (simp_all add: update_for_attempt_def Let_def)
  then show "x = Inr True" using rec(1) by (auto simp: list_ex_iff)
  have f: "rec_instance (?f r) = rec_instance r" "rec_step (?f r) = rec_step r" "rec_state (?f r) = ''completed''" "rec_attempt (?f r) = rec_attempt r" for r
    using upd by (simp_all add: close_record_def move_to_def keeps_record_def)
  show "job_rows u S (insert (rec_step record) C) (B - {rec_step record}) t db'" unfolding db'(2)
  proof (rule job_rows_update [OF j])
    show "row_change ?f" by (rule row_changes(3) [OF upd(1)]) (simp add: after_queue_def)
    fix r assume r: "r \<in> set (rows_of u db)"
    have "?hit r \<longleftrightarrow> r = record" "rec_step r = rec_step record \<longleftrightarrow> r = record" using same_row [OF j r rec(1)] by auto
    then show "let r' = if ?hit r then ?f r else r in 0 \<le> rec_attempt r' \<and>
        rec_state r' = (if rec_step r \<in> insert (rec_step record) C then ''completed'' else if rec_step r \<in> B - {rec_step record} then ''in_progress'' else ''queued'') \<and>
        (rec_state r' = ''queued'' \<longrightarrow> rec_lease_until r' = None \<and> rec_scheduled_at r' \<le> t)"
      using j r by (auto simp: job_rows_def f Let_def)
  qed (use f in simp_all)
  show "\<And>r. r \<in> set (db_records db) \<Longrightarrow> rec_id r \<noteq> rec_id record \<Longrightarrow> r \<in> set (db_records db')"
    by (force simp: db'(2) update_rows_def)
  show "db_instances db' = db_instances db" "db_definitions db' = db_definitions db" by (simp_all add: db'(2) update_rows_def)
qed

subsection \<open>The workflow's steps\<close>

lemma workflow_steps:
  assumes "validate_steps raw = Inr v" "s \<in> set (v_steps v)"
  shows "\<exists>e. executor_for new_executor_router (step_type s) = Inr e" "normalize_strings (depends_on s) = depends_on s"
    and "normalize_strings (next_step_ids s) = next_step_ids s" "step_by_id v (step_id s) = Some s"
proof -
  obtain r where s: "s = normalized r" using assms validationD(2) [OF assms(1)] by auto
  have "step_accepted s" using assms validationD(3) by blast
  then have "is_ok (router_validate new_executor_router s)" by (simp add: step_accepted_def s)
  then show "\<exists>e. executor_for new_executor_router (step_type s) = Inr e"
    by (cases "executor_for new_executor_router (step_type s)") (simp_all add: router_validate_def is_ok_def)
  show "normalize_strings (depends_on s) = depends_on s" "normalize_strings (next_step_ids s) = next_step_ids s"
    by (simp_all add: s)
  show "step_by_id v (step_id s) = Some s" using assms validationD(5) by blast
qed

lemma known_edges: "validate_steps raw = Inr v \<Longrightarrow> (a, b) \<in> graph_edges (v_steps v) \<Longrightarrow> a \<in> step_names v \<and> b \<in> step_names v"
  using validationD(1) unfolding workflow_graph_def by fastforce

lemma plain_edges:
  assumes v: "validate_steps raw = Inr v" and p: "plain_workflow v" and s: "s \<in> set (v_steps v)"
  shows "preds v (step_id s) = set (depends_on s)" "b \<in> set (next_step_ids s) \<longleftrightarrow> step_id s \<in> preds v b"
proof -
  have one: "q = s" if "q \<in> set (v_steps v)" "step_id q = step_id s" for q
    using that s validationD(5) [OF v] by (metis option.inject)
  have agree: "step_id b \<in> set (next_step_ids a) \<longleftrightarrow> step_id a \<in> set (depends_on b)"
    if "a \<in> set (v_steps v)" "b \<in> set (v_steps v)" for a b using that p by (auto simp: plain_workflow_def)
  have inward: "a \<in> set (depends_on s)" if e: "(a, step_id s) \<in> graph_edges (v_steps v)" for a
  proof -
    from e obtain t where t: "t \<in> set (v_steps v)"
        "(step_id t = a \<and> step_id s \<in> set (next_step_ids t)) \<or> (step_id t = step_id s \<and> a \<in> set (depends_on t))"
      by (simp add: graph_edges_def) (metis that)
    from t(2) show ?thesis using agree [OF t(1) s] one [OF t(1)] by (elim disjE conjE) simp_all
  qed
  have "(a, step_id s) \<in> graph_edges (v_steps v)" if "a \<in> set (depends_on s)" for a
    unfolding graph_edges_def using s that by blast
  then show "preds v (step_id s) = set (depends_on s)" using inward unfolding preds_def by blast
  have outward: "b \<in> set (next_step_ids s)" if e: "(step_id s, b) \<in> graph_edges (v_steps v)"
  proof -
    from e obtain t where t: "t \<in> set (v_steps v)"
        "(step_id t = step_id s \<and> b \<in> set (next_step_ids t)) \<or> (step_id t = b \<and> step_id s \<in> set (depends_on t))"
      by (simp add: graph_edges_def) (metis that)
    from t(2) show ?thesis using agree [OF s t(1)] one [OF t(1)] by (elim disjE conjE) simp_all
  qed
  have "(step_id s, b) \<in> graph_edges (v_steps v)" if "b \<in> set (next_step_ids s)"
    unfolding graph_edges_def using s that by blast
  then show "b \<in> set (next_step_ids s) \<longleftrightarrow> step_id s \<in> preds v b" using outward unfolding preds_def by blast
qed

subsection \<open>Dependencies\<close>

lemma filter_unique: "distinct (map f xs) \<Longrightarrow> x \<in> set xs \<Longrightarrow> [y \<leftarrow> xs. f y = f x] = [x]"
  by (induction xs) (auto simp: filter_empty_conv image_iff)

lemma latest_row:
  assumes "job_rows u S C B t db"
  shows "r \<in> set (rows_of u db) \<Longrightarrow> find_latest_by_step u (rec_step r) db = Inr r"
    and "d \<notin> S \<Longrightarrow> find_latest_by_step u d db = Inl RecordNotFound"
proof -
  have two: "[q \<leftarrow> db_records db. rec_instance q = u \<and> rec_step q = d] = [q \<leftarrow> rows_of u db. rec_step q = d]" for d
    by simp
  show "find_latest_by_step u (rec_step r) db = Inr r" if "r \<in> set (rows_of u db)"
    using filter_unique [of rec_step "rows_of u db" r] that assms unfolding find_latest_by_step_def two by (simp add: job_rows_def)
  show "find_latest_by_step u d db = Inl RecordNotFound" if "d \<notin> S"
  proof -
    have "[q \<leftarrow> rows_of u db. rec_step q = d] = []" using that assms by (auto simp: filter_empty_conv job_rows_def)
    then show ?thesis unfolding find_latest_by_step_def two by simp
  qed
qed

definition same_data :: "wf_world \<Rightarrow> wf_world \<Rightarrow> bool" where
  "same_data w w' \<longleftrightarrow> w_db w' = w_db w"

lemma ok_dependencies_loop:
  assumes "undisturbed (w_env w)" "job_rows u S C B t (w_db w)" "C \<subseteq> S" "u \<noteq> uuid_nil" "\<forall>d\<in>set ds. \<not> blank d"
  shows "ok (dependencies_loop u ds) w (\<lambda>b v. (b \<longleftrightarrow> set ds \<subseteq> C) \<and> same_data w v)"
  using assms
proof (induction ds arbitrary: w)
  case (Cons d ds)
  let ?w = "w\<lparr>w_calls := Suc (w_calls w)\<rparr>"
  have rest: "ok (dependencies_loop u ds) ?w (\<lambda>b v. (b \<longleftrightarrow> set ds \<subseteq> C) \<and> same_data w v)"
    using Cons.IH [of ?w] Cons.prems by (simp add: same_data_def)
  show ?case
  proof (cases "d \<in> S")
    case True
    then obtain r where r: "r \<in> set (rows_of u (w_db w))" "rec_step r = d" using Cons.prems(2) by (auto simp: job_rows_def)
    then have "rec_state r = ''completed'' \<longleftrightarrow> d \<in> C" using Cons.prems(2) by (auto simp: job_rows_def)
    then show ?thesis using latest_row(1) [OF Cons.prems(2) r(1)] r(2) Cons.prems rest unfolding dependencies_loop.simps find_latest_def
      by (intro ok_bind [where P = "\<lambda>x v. x = Inr r \<and> v = ?w"] ok_db_read) (auto simp: same_data_def)
  next
    case False
    then show ?thesis using latest_row(2) [OF Cons.prems(2) False] Cons.prems unfolding dependencies_loop.simps find_latest_def
      by (intro ok_bind [where P = "\<lambda>x v. x = Inl RecordNotFound \<and> v = ?w"] ok_db_read) (auto simp: same_data_def)
  qed
qed (simp add: same_data_def)

lemma ok_dependencies:
  assumes "undisturbed (w_env w)" "job_rows u S C B t (w_db w)" "C \<subseteq> S" "u \<noteq> uuid_nil" "normalize_strings ds = ds"
  shows "ok (dependencies_completed u ds) w (\<lambda>b v. (b \<longleftrightarrow> set ds \<subseteq> C) \<and> same_data w v)"
proof -
  have "\<forall>d\<in>set ds. \<not> blank d" using assms(5) normalize_strings_member by metis
  then show ?thesis unfolding dependencies_completed_def
    using ok_dependencies_loop [OF assms(1-4)] assms(5) by (auto simp: same_data_def)
qed

subsection \<open>Queueing the successors\<close>

lemma job_instance_same:
  "db_instances db' = db_instances db \<Longrightarrow> db_definitions db' = db_definitions db \<Longrightarrow> job_instance T u v st db' = job_instance T u v st db"
  by (simp add: job_instance_def definition_by_uuid_def)

lemma job_rows_append_row:
  assumes j: "job_rows u S C B t db" and new: "rec_step q \<notin> S" "C \<subseteq> S" "B \<subseteq> S"
    and q: "rec_instance q = u" "u \<noteq> uuid_nil" "rec_state q = ''queued''" "rec_attempt q = 0" "rec_lease_until q = None"
      "rec_scheduled_at q \<le> t"
    and run: "append_record q db = (x, db')"
  shows "\<exists>r. x = Inr r" "job_rows u (insert (rec_step q) S) C B t db'" "set (db_records db) \<subseteq> set (db_records db')"
    and "db_instances db' = db_instances db" "db_definitions db' = db_definitions db"
proof -
  define r where "r = q\<lparr>rec_id := db_next_id db\<rparr>"
  have r: "rec_instance r = u" "rec_step r = rec_step q" "rec_state r = ''queued''" "rec_attempt r = 0" "rec_id r = db_next_id db"
    "rec_lease_until r = None" "rec_scheduled_at r \<le> t"
    using q by (simp_all add: r_def)
  have db': "x = Inr r" "db' = db\<lparr>db_records := db_records db @ [r], db_next_id := Suc (db_next_id db)\<rparr>"
    using run q(1-3) by (auto simp: append_record_def Let_def r_def)
  then show "\<exists>r. x = Inr r" "set (db_records db) \<subseteq> set (db_records db')"
    "db_instances db' = db_instances db" "db_definitions db' = db_definitions db" by auto
  have rows: "rows_of u db' = rows_of u db @ [r]" by (simp add: db'(2) r)
  have "ids_ok db'" using j by (auto simp: ids_ok_def job_rows_def db'(2) r less_Suc_eq)
  then show "job_rows u (insert (rec_step q) S) C B t db'"
    using j new unfolding job_rows_def rows by (auto simp: r db'(2))
qed

lemma job_rows_append:
  assumes j: "job_rows u S C B t db" and new: "step_id s \<notin> S" "C \<subseteq> S" "B \<subseteq> S"
    and inst: "inst_uuid inst = u" "u \<noteq> uuid_nil" and now: "now \<le> t"
    and run: "append_record (queued_record inst s e now p) db = (x, db')"
  shows "\<exists>r. x = Inr r" "job_rows u (insert (step_id s) S) C B t db'" "set (db_records db) \<subseteq> set (db_records db')"
    and "db_instances db' = db_instances db" "db_definitions db' = db_definitions db"
  using job_rows_append_row [OF j _ new(2,3) _ inst(2) _ _ _ _ run] new(1) inst(1) now by (simp_all add: queued_record_def)

lemma ok_enqueue_loop:
  assumes v: "validate_steps raw = Inr v" "plain_workflow v" and r: "r_router r = new_executor_router"
    and inst: "inst_uuid inst = u" "u \<noteq> uuid_nil"
  shows "undisturbed (w_env w) \<Longrightarrow> job_rows u S C B (time_of w) (w_db w) \<Longrightarrow> job_instance T u v st (w_db w) \<Longrightarrow>
    now \<le> time_of w \<Longrightarrow> set ns \<subseteq> step_names v \<Longrightarrow> distinct ns \<Longrightarrow> \<forall>n\<in>set ns. preds v n \<subseteq> C \<longrightarrow> n \<notin> S \<Longrightarrow> C \<subseteq> S \<Longrightarrow> B \<subseteq> S \<Longrightarrow>
    ok (enqueue_loop r inst v now p ns) w (\<lambda>e w'. e = None \<and>
      job_rows u (S \<union> {n \<in> set ns. preds v n \<subseteq> C}) C B (time_of w') (w_db w') \<and> job_instance T u v st (w_db w') \<and>
      set (db_records (w_db w)) \<subseteq> set (db_records (w_db w')))"
proof (induction ns arbitrary: w S)
  case (Cons n ns)
  obtain s where s: "s \<in> set (v_steps v)" "step_id s = n" using Cons.prems(5) by auto
  have step: "step_by_id v n = Some s" using workflow_steps(4) [OF v(1) s(1)] s(2) by simp
  obtain e where e: "executor_for (r_router r) (step_type s) = Inr e" using workflow_steps(1) [OF v(1) s(1)] r by auto
  have deps: "set (depends_on s) = preds v n" using plain_edges(1) [OF v s(1)] s(2) by simp
  have u: "inst_uuid inst \<noteq> uuid_nil" using inst by simp
  note ready = ok_dependencies [OF Cons.prems(1,2,8) inst(2) workflow_steps(2) [OF v(1) s(1)]]
  have rest: "ok (enqueue_loop r inst v now p ns) w' (\<lambda>e w2. e = None \<and>
      job_rows u (S' \<union> {n \<in> set ns. preds v n \<subseteq> C}) C B (time_of w2) (w_db w2) \<and> job_instance T u v st (w_db w2) \<and>
      set (db_records (w_db w)) \<subseteq> set (db_records (w_db w2)))"
    if "later w w'" "job_rows u S' C B (time_of w') (w_db w')" "job_instance T u v st (w_db w')" "S \<subseteq> S'" "S' \<subseteq> insert n S"
      "set (db_records (w_db w)) \<subseteq> set (db_records (w_db w'))" for w' S'
  proof -
    have env: "undisturbed (w_env w')" "now \<le> time_of w'"
      using that(1) later_time [OF Cons.prems(1) that(1)] Cons.prems(1,4) by (simp_all add: later_def)
    have "\<forall>n\<in>set ns. preds v n \<subseteq> C \<longrightarrow> n \<notin> S'" using Cons.prems(6,7) that(5) by auto
    then show ?thesis
      using that Cons.prems(5,6,8,9) by (intro ok_mono [OF Cons.IH [OF env(1) that(2,3) env(2)]]) auto
  qed
  show ?case unfolding enqueue_loop.simps step option.case inst(1)
  proof (rule ok_bind [OF ready])
    fix b w1 assume l1: "later w w1" and b: "(b \<longleftrightarrow> set (depends_on s) \<subseteq> C) \<and> same_data w w1"
    have db1: "w_db w1 = w_db w" using b by (simp add: same_data_def)
    have und1: "undisturbed (w_env w1)" and t1: "time_of w \<le> time_of w1"
      using l1 later_time [OF Cons.prems(1) l1] Cons.prems(1) by (simp_all add: later_def)
    have rows1: "job_rows u S C B (time_of w1) (w_db w1)" using job_rows_later [OF Cons.prems(2) t1] by (simp add: db1)
    show "ok (if \<not> b then enqueue_loop r inst v now p ns else case executor_for (r_router r) (step_type s) of
        Inl e \<Rightarrow> State_Monad.return (Some (RoutingFailed e))
      | Inr exec \<Rightarrow> do { c \<leftarrow> db_call (\<lambda>m. append_record (queued_record inst s exec now p));
          case c of Inl e \<Rightarrow> State_Monad.return (Some e)
          | Inr _ \<Rightarrow> do { publish u ''workflow.step.queued'' (step_id s); enqueue_loop r inst v now p ns } }) w1
      (\<lambda>e w'. e = None \<and> job_rows u (S \<union> {m \<in> set (n # ns). preds v m \<subseteq> C}) C B (time_of w') (w_db w') \<and>
        job_instance T u v st (w_db w') \<and> set (db_records (w_db w)) \<subseteq> set (db_records (w_db w')))"
    proof (cases b)
      case False
      then have "{m \<in> set (n # ns). preds v m \<subseteq> C} = {n \<in> set ns. preds v n \<subseteq> C}" using b deps by auto
      then show ?thesis using rest [OF l1 rows1 _ order_refl subset_insertI] Cons.prems(3) False by (simp add: db1)
    next
      case True
      then have sub: "preds v n \<subseteq> C" using b deps by simp
      then have all: "S \<union> {m \<in> set (n # ns). preds v m \<subseteq> C} = insert n S \<union> {n \<in> set ns. preds v n \<subseteq> C}" by auto
      obtain x db' where a: "append_record (queued_record inst s e now p) (w_db w1) = (x, db')" by fastforce
      have "now \<le> time_of w1" using t1 Cons.prems(4) by simp
      note app = job_rows_append [OF rows1 _ Cons.prems(8,9) inst this a, unfolded s(2)]
      have fresh: "n \<notin> S" using Cons.prems(7) sub by simp
      obtain rec where x: "x = Inr rec" using app(1) fresh by auto
      let ?w = "w1\<lparr>w_db := db', w_calls := Suc (w_calls w1)\<rparr>"
      have tail: "ok (do { publish u ''workflow.step.queued'' (step_id s); enqueue_loop r inst v now p ns }) ?w
        (\<lambda>e w'. e = None \<and> job_rows u (insert n S \<union> {n \<in> set ns. preds v n \<subseteq> C}) C B (time_of w') (w_db w') \<and>
          job_instance T u v st (w_db w') \<and> set (db_records (w_db w)) \<subseteq> set (db_records (w_db w')))"
        (is "ok _ _ ?Q")
      proof (rule ok_bind [where P = "\<lambda>_ v. w_db v = db'"])
        show "ok (publish u ''workflow.step.queued'' (step_id s)) ?w (\<lambda>_ v. w_db v = db')" by (rule ok_publish) simp
        fix y w2 assume l2: "later ?w w2" and db2: "w_db w2 = db'"
        have "later w1 ?w" by (simp add: later_def)
        then have l12: "later w1 w2" using l2 by (rule later_trans)
        have "job_rows u (insert n S) C B (time_of w2) (w_db w2)"
          using job_rows_later [OF app(2) later_time [OF und1 l12]] fresh db2 by simp
        moreover have "job_instance T u v st (w_db w2)"
          using Cons.prems(3) job_instance_same [of db' "w_db w"] app(4,5) fresh db2 by (simp add: db1)
        ultimately show "ok (enqueue_loop r inst v now p ns) w2 ?Q"
          using rest [OF later_trans [OF l1 l12] _ _ subset_insertI order_refl] app(3) fresh db2 by (simp add: db1)
      qed
      then show ?thesis unfolding all using True e
        by (auto intro!: ok_bind [where P = "\<lambda>y v. y = Inr rec \<and> v = ?w"] ok_db_call [OF und1, where r = x and db' = db'] simp: a x)
    qed
  qed
qed (auto intro: order_refl)

subsection \<open>Settling the instance\<close>

definition keeps_instance :: "(workflow_instance \<Rightarrow> workflow_instance) \<Rightarrow> bool" where
  "keeps_instance upd \<longleftrightarrow> (\<forall>i. inst_uuid (upd i) = inst_uuid i \<and> inst_tenant (upd i) = inst_tenant i \<and>
     inst_definition (upd i) = inst_definition i \<and> inst_version (upd i) = inst_version i)"

lemma find_map_same:
  "(\<And>x. P (f x) \<longleftrightarrow> P x) \<Longrightarrow> List.find P (map f xs) = map_option f (List.find P xs)"
  by (induction xs) auto

lemma job_rows_same: "db_records db' = db_records db \<Longrightarrow> db_next_id db' = db_next_id db \<Longrightarrow> job_rows u S C B t db' = job_rows u S C B t db"
  by (simp add: job_rows_def ids_ok_def)

lemma job_instance_update:
  assumes j: "job_instance T u v st db" and upd: "keeps_instance upd" and nxt: "nxt \<noteq> []"
    and run: "update_instance now T u nxt upd db = (x, db')"
  shows "x = Inr ()" "job_instance T u v nxt db'" "db_records db' = db_records db" "db_next_id db' = db_next_id db"
proof -
  obtain i d where i: "List.find (\<lambda>i. inst_uuid i = u) (db_instances db) = Some i" "inst_state i = st" "inst_tenant i = T"
      "definition_by_uuid T (inst_definition i) (Some (inst_version i)) db = Inr d" "stored_graph d = Inr v"
    and T: "u \<noteq> uuid_nil" "tenant_of T = T" "T \<noteq> []"
    using j unfolding job_instance_def by blast
  have "\<not> blank T" using T(2,3) by (metis tenant_of_def to_lower_Nil(1))
  then have db': "x = Inr ()" "db' = db\<lparr>db_instances := map (\<lambda>i. if inst_tenant i = T \<and> inst_uuid i = u
      then (upd i)\<lparr>inst_state := nxt, inst_last_transition := now\<rparr> else i) (db_instances db)\<rparr>"
    using run T nxt by (simp_all add: update_instance_def cong: if_cong)
  then show "x = Inr ()" "db_records db' = db_records db" "db_next_id db' = db_next_id db" by simp_all
  have "List.find (\<lambda>i. inst_uuid i = u) (db_instances db') = Some ((upd i)\<lparr>inst_state := nxt, inst_last_transition := now\<rparr>)"
    unfolding db'(2) using i(1,3) upd
    by (simp add: find_map_same keeps_instance_def) (metis (mono_tags, lifting) find_Some_iff)
  moreover have "definition_by_uuid T uid ver db' = definition_by_uuid T uid ver db" for uid ver
    by (simp add: db'(2) definition_by_uuid_def)
  ultimately show "job_instance T u v nxt db'"
    using i T upd unfolding job_instance_def by (simp add: keeps_instance_def)
qed

lemma converge_to_rows:
  assumes "job_rows u S C B t db"
  shows "converge_to (list_by_instance u db) = (if S \<subseteq> C then ''succeeded'' else ''running'')"
proof -
  have "\<not> list_ex (\<lambda>r. rec_state r = ''failed'') (list_by_instance u db)"
    using assms by (auto simp: list_ex_iff list_by_instance_def job_rows_def)
  moreover have "list_ex (\<lambda>r. rec_state r \<in> set active_states) (list_by_instance u db) \<longleftrightarrow> \<not> S \<subseteq> C"
    using assms unfolding list_ex_iff list_by_instance_def job_rows_def in_order_set active_states_def by auto
  ultimately show ?thesis by (simp add: converge_to_def)
qed

lemma ok_set_instance:
  assumes "undisturbed (w_env w)" "job_instance T u v st (w_db w)" "job_rows u S C B (time_of w) (w_db w)"
    and "keeps_instance upd" "nxt \<noteq> []" "inst_uuid inst = u" "inst_tenant inst = T"
  shows "ok (set_instance inst nxt upd) w (\<lambda>x w'. x = Inr () \<and> job_instance T u v nxt (w_db w') \<and>
    job_rows u S C B (time_of w') (w_db w') \<and> db_records (w_db w') = db_records (w_db w))"
proof -
  obtain x db' where run: "update_instance (m_now (moments (w_env w) (w_calls w))) T u nxt upd (w_db w) = (x, db')" by fastforce
  note i = job_instance_update [OF assms(2,4,5) run]
  let ?w = "w\<lparr>w_db := db', w_calls := Suc (w_calls w)\<rparr>"
  have "later w ?w" by (simp add: later_def)
  from later_time [OF assms(1) this] have "job_rows u S C B (time_of ?w) (w_db ?w)"
    using job_rows_later [OF assms(3)] job_rows_same [OF i(3,4)] by simp
  then show ?thesis unfolding set_instance_def assms(6,7)
    by (intro ok_db_call [OF assms(1), where r = x and db' = db']) (use run i in simp_all)
qed

lemma ok_settle:
  assumes "undisturbed (w_env w)" "job_instance T u v st (w_db w)" "job_rows u S C B (time_of w) (w_db w)"
    and inst: "inst_uuid inst = u" "inst_tenant inst = T" and nxt: "converge_to rs = nxt" "nxt \<noteq> []"
  shows "ok (settle_instance inst rs) w (\<lambda>e w'. e = None \<and> job_instance T u v nxt (w_db w') \<and>
    job_rows u S C B (time_of w') (w_db w') \<and> db_records (w_db w') = db_records (w_db w))"
proof -
  have clock: "ok (if nxt = ''running'' then State_Monad.return 0 else clock) w (\<lambda>_ v. w_db v = w_db w)"
    using assms(1) by (simp add: ok_clock)
  show ?thesis unfolding settle_instance_def Let_def nxt
    apply (rule ok_bind [OF clock])
    subgoal for now w1
      apply (rule ok_bind [OF ok_set_instance [where u = u and T = T and v = v and st = st and S = S and C = C and B = B]])
      subgoal using assms(1) by (simp add: later_def)
      subgoal using assms(2) by simp
      subgoal using job_rows_later [OF assms(3) later_time [OF assms(1)]] by simp
      subgoal by (simp add: keeps_instance_def)
      subgoal by (rule nxt(2))
      subgoal by (rule inst(1))
      subgoal by (rule inst(2))
      subgoal for x w2
        by (auto intro!: ok_bind [where P = "\<lambda>_ v. w_db v = w_db w2 \<and> time_of v = time_of w2"] ok_publish simp: time_of_def)
      done
    done
qed

lemma ok_converge:
  assumes "undisturbed (w_env w)" "job_instance T u v st (w_db w)" "job_rows u S C B (time_of w) (w_db w)"
    and inst: "inst_uuid inst = u" "inst_tenant inst = T"
  shows "ok (converge_instance_state inst) w (\<lambda>e w'. e = None \<and>
    job_instance T u v (if S \<subseteq> C then ''succeeded'' else ''running'') (w_db w') \<and>
    job_rows u S C B (time_of w') (w_db w') \<and> db_records (w_db w') = db_records (w_db w))"
proof -
  have u: "u \<noteq> uuid_nil" using assms(2) by (simp add: job_instance_def)
  show ?thesis unfolding converge_instance_state_def list_records_def inst(1)
    apply (rule ok_bind [where P = "\<lambda>l v'. l = Inr (list_by_instance u (w_db w)) \<and> w_db v' = w_db w"])
    subgoal by (rule ok_db_read [OF assms(1) refl]) (simp add: u)
    subgoal premises p for l w1
    proof -
      have "undisturbed (w_env w1)" "job_rows u S C B (time_of w1) (w_db w1)"
        using p assms(1) job_rows_later [OF assms(3) later_time [OF assms(1) p(1)]] by (simp_all add: later_def)
      then show ?thesis using p(2) assms(2) inst converge_to_rows [OF assms(3)] ok_settle [of w1 T u v st S C B inst "list_by_instance u (w_db w)"]
        by simp
    qed
    done
qed

subsection \<open>One step\<close>

lemma builtin_types:
  "executor_for new_executor_router ''agent'' = Inr AgentExecutor"
  "executor_for new_executor_router ''system'' = Inr SystemExecutor"
  "executor_for new_executor_router ''parallel'' = Inr ParallelExecutor"
  "executor_for new_executor_router ''compensation'' = Inr CompensationExecutor"
  by code_simp+

lemma plain_next:
  assumes "step_type s \<in> {''agent'', ''system'', ''parallel'', ''compensation''}" "selected_branches res = []"
  shows "next_steps new_executor_router s res = Inr (next_step_ids s)"
  using assms by (auto simp: next_steps_def builtin_types parallel_next_def)

lemma ready_insert:
  assumes v: "validate_steps raw = Inr v" "plain_workflow v" and s: "s \<in> set (v_steps v)" and n: "n = step_id s"
  shows "ready v C \<union> {m \<in> set (next_step_ids s). preds v m \<subseteq> insert n C} = ready v (insert n C)"
    and "set (next_step_ids s) \<subseteq> step_names v" "distinct (next_step_ids s)"
    and "n \<notin> C \<Longrightarrow> m \<in> set (next_step_ids s) \<Longrightarrow> m \<notin> ready v C"
proof -
  have succ: "m \<in> set (next_step_ids s) \<longleftrightarrow> n \<in> preds v m" for m using plain_edges(2) [OF v s] n by simp
  show names: "set (next_step_ids s) \<subseteq> step_names v"
    using succ known_edges [OF v(1)] unfolding preds_def by blast
  show "distinct (next_step_ids s)" using workflow_steps(3) [OF v(1) s] by (metis normalize_strings_eq unique_strings_facts(2))
  show "ready v C \<union> {m \<in> set (next_step_ids s). preds v m \<subseteq> insert n C} = ready v (insert n C)"
    using succ names unfolding ready_def by blast
  show "n \<notin> C \<Longrightarrow> m \<in> set (next_step_ids s) \<Longrightarrow> m \<notin> ready v C" using succ unfolding ready_def by blast
qed

lemma ok_complete:
  assumes "undisturbed (w_env w)" "job_rows u S C B (time_of w) (w_db w)" "job_instance T u v st (w_db w)"
    and rec: "record \<in> set (rows_of u (w_db w))" "rec_step record \<in> B" "rec_step record \<notin> C"
  shows "ok (complete_step record inst result) w (\<lambda>e w'. e = None \<and>
    job_rows u S (insert (rec_step record) C) (B - {rec_step record}) (time_of w') (w_db w') \<and> job_instance T u v st (w_db w') \<and>
    (\<forall>q\<in>set (db_records (w_db w)). rec_id q \<noteq> rec_id record \<longrightarrow> q \<in> set (db_records (w_db w'))))"
proof -
  let ?upd = "\<lambda>r. r\<lparr>rec_payload_out := json_column (nr_output result), rec_awaiting_human := False,
       rec_error_code := [], rec_error_message := [], rec_failure_reason := []\<rparr>"
  obtain x db' where run: "update_for_attempt (m_now (moments (w_env w) (w_calls w))) (rec_id record) (rec_attempt record)
      ''completed'' ?upd (w_db w) = (x, db')" by fastforce
  have "keeps_record ?upd" "\<And>r. rec_attempt (?upd r) = rec_attempt r" by (simp_all add: keeps_record_def)
  note c = job_rows_complete [OF assms(2) rec this run]
  let ?w = "w\<lparr>w_db := db', w_calls := Suc (w_calls w)\<rparr>"
  have "later w ?w" by (simp add: later_def)
  from later_time [OF assms(1) this]
  have rows: "job_rows u S (insert (rec_step record) C) (B - {rec_step record}) (time_of ?w) db'" by (rule job_rows_later [OF c(2)])
  have inst: "job_instance T u v st db'" using assms(3) job_instance_same [OF c(4,5)] by simp
  show ?thesis unfolding complete_step_def update_step_def
    apply (rule ok_bind [where P = "\<lambda>y v. y = Inr True \<and> v = ?w"])
    subgoal by (rule ok_db_call [OF assms(1), where r = x and db' = db']) (use run c(1) in simp_all)
    subgoal using rows inst c(3)
      by (auto intro!: ok_bind [where P = "\<lambda>_ v. w_db v = db' \<and> time_of v = time_of ?w"] ok_publish simp: time_of_def)
    done
qed

abbreviation settled :: "validation \<Rightarrow> string set \<Rightarrow> string" where
  "settled v C \<equiv> (if ready v C \<subseteq> C then ''succeeded'' else ''running'')"

lemma ok_go_on:
  assumes v: "validate_steps raw = Inr v" "plain_workflow v" and r: "r_router r = new_executor_router"
    and env: "undisturbed (w_env w)" and s: "s \<in> set (v_steps v)" "step_id s \<notin> C" "step_id s \<in> ready v C"
    and rows: "job_rows u (ready v C) (insert (step_id s) C) B (time_of w) (w_db w)" "C \<subseteq> ready v C" "B \<subseteq> ready v C"
    and j: "job_instance T u v st (w_db w)" "inst_uuid inst = u" "inst_tenant inst = T"
  defines "C' \<equiv> insert (step_id s) C"
  shows "ok (go_on r inst v (next_step_ids s) out) w (\<lambda>e w'. e = (''completed'', None) \<and>
    job_rows u (ready v C') C' B (time_of w') (w_db w') \<and> job_instance T u v (settled v C') (w_db w') \<and>
    set (db_records (w_db w)) \<subseteq> set (db_records (w_db w')))"
proof -
  note succ = ready_insert [OF v s(1) refl]
  have u: "u \<noteq> uuid_nil" using j(1) by (simp add: job_instance_def)
  have sub: "C' \<subseteq> ready v C" using rows(2) s(3) by (simp add: C'_def)
  have all: "ready v C \<union> {m \<in> set (next_step_ids s). preds v m \<subseteq> C'} = ready v C'" unfolding C'_def by (rule succ(1))
  have q: "ok (enqueue_next_steps r inst v (next_step_ids s) out) w (\<lambda>e w'. e = None \<and>
      job_rows u (ready v C') C' B (time_of w') (w_db w') \<and> job_instance T u v st (w_db w') \<and>
      set (db_records (w_db w)) \<subseteq> set (db_records (w_db w')))"
    unfolding enqueue_next_steps_def workflow_steps(3) [OF v(1) s(1)]
    apply (rule ok_bind [where P = "\<lambda>t v'. t = time_of w \<and> w_db v' = w_db w"])
    subgoal by (rule ok_clock [OF env]) simp
    subgoal premises p for now w1
    proof -
      have w1: "undisturbed (w_env w1)" "time_of w \<le> time_of w1" using p(1) env later_time [OF env p(1)] by (simp_all add: later_def)
      have rows1: "job_rows u (ready v C) C' B (time_of w1) (w_db w1)" using job_rows_later [OF rows(1) w1(2)] p(2) by (simp add: C'_def)
      have "\<forall>n\<in>set (next_step_ids s). preds v n \<subseteq> C' \<longrightarrow> n \<notin> ready v C" using succ(4) [OF s(2)] by blast
      from ok_enqueue_loop [OF v r j(2) u w1(1) rows1 _ _ succ(2,3) this sub rows(3), of T st now out] w1(2) p(2) j(1)
      show ?thesis by (simp only: all simp_thms)
    qed
    done
  show ?thesis unfolding go_on_def
    apply (rule ok_bind [OF q])
    subgoal premises p for e w1
    proof -
      have w1: "undisturbed (w_env w1)" using p(1) env by (simp add: later_def)
      have e: "e = None" using p(2) by simp
      show ?thesis unfolding e option.case
        by (rule ok_bind [OF ok_converge [where u = u and T = T and v = v and st = st and S = "ready v C'" and C = C' and B = B]])
           (use w1 p(2) j in \<open>auto simp: option.case_eq_if\<close>)
    qed
    done
qed

lemma ok_step_succeeded:
  assumes v: "validate_steps raw = Inr v" "plain_workflow v" and r: "r_router r = new_executor_router"
    and env: "undisturbed (w_env w)" "nodes_succeed (w_env w) v"
    and rows: "job_rows u (ready v C) C B (time_of w) (w_db w)" "C \<subseteq> ready v C" "B \<subseteq> ready v C"
    and j: "job_instance T u v st (w_db w)" "inst_uuid inst = u" "inst_tenant inst = T"
    and rec: "record \<in> set (rows_of u (w_db w))" "rec_step record \<in> B" "rec_step record \<notin> C"
    and s: "s \<in> set (v_steps v)" "step_id s = rec_step record" and res: "nr_branches result = []"
  defines "C' \<equiv> insert (rec_step record) C"
  shows "ok (step_succeeded r record inst v s result) w (\<lambda>e w'. e = (''completed'', None) \<and>
    job_rows u (ready v C') C' (B - {rec_step record}) (time_of w') (w_db w') \<and> job_instance T u v (settled v C') (w_db w') \<and>
    (\<forall>q\<in>set (db_records (w_db w)). rec_id q \<noteq> rec_id record \<longrightarrow> q \<in> set (db_records (w_db w'))))"
proof -
  obtain out where out: "map_output (w_env w) (nr_output result) (output_mapping s) = Inr out"
    using env(2) s(1) unfolding nodes_succeed_def by blast
  have type: "step_type s \<in> {''agent'', ''system'', ''parallel'', ''compensation''}" using v(2) s(1) by (simp add: plain_workflow_def)
  have nxt: "next_steps (r_router r) s (to_step_result (result\<lparr>nr_output := out\<rparr>)) = Inr (next_step_ids s)"
    unfolding r by (rule plain_next [OF type]) (simp add: to_step_result_def res)
  have here: "rec_step record \<in> ready v C" using rec(2) rows(3) by blast
  have sub: "B - {rec_step record} \<subseteq> ready v C" using rows(3) by auto
  show ?thesis unfolding step_succeeded_def
    apply (rule ok_bind [where P = "\<lambda>e v. e = w_env w \<and> v = w"])
    subgoal by (rule ok_environment) simp
    apply (elim conjE)
    apply (simp only: out sum.case Let_def)
    apply (rule ok_bind [OF ok_complete [OF env(1) rows(1) j(1) rec]])
    subgoal premises p for z w0 e w1
    proof -
      have w1: "undisturbed (w_env w1)" using p(4) env(1) by (simp add: later_def)
      have e: "e = None" using p(5) by simp
      show ?thesis unfolding e option.case nxt sum.case C'_def s(2) [symmetric]
        by (rule ok_mono [OF ok_go_on [OF v r w1 s(1), where C = C and u = u and T = T and st = st and B = "B - {step_id s}"]])
           (use p(5) rows(2) sub here rec(3) s(2) j in auto)
    qed
    done
qed

lemma ok_run_node:
  assumes v: "validate_steps raw = Inr v" "plain_workflow v" and r: "r_router r = new_executor_router"
    and env: "undisturbed (w_env w)" "nodes_succeed (w_env w) v"
    and rows: "job_rows u (ready v C) C B (time_of w) (w_db w)" "C \<subseteq> ready v C" "B \<subseteq> ready v C"
    and j: "job_instance T u v st (w_db w)" "inst_uuid inst = u" "inst_tenant inst = T"
    and rec: "record \<in> set (rows_of u (w_db w))" "rec_step record \<in> B" "rec_step record \<notin> C"
    and s: "s \<in> set (v_steps v)" "step_id s = rec_step record"
  defines "C' \<equiv> insert (rec_step record) C"
  shows "ok (run_node r record inst v s) w (\<lambda>e w'. e = (''completed'', None) \<and>
    job_rows u (ready v C') C' (B - {rec_step record}) (time_of w') (w_db w') \<and> job_instance T u v (settled v C') (w_db w') \<and>
    (\<forall>q\<in>set (db_records (w_db w)). rec_id q \<noteq> rec_id record \<longrightarrow> q \<in> set (db_records (w_db w'))))"
proof -
  obtain a q where a: "adapter_for (adapters (w_env w)) (node_kind s) = Inr a" "adapter_validate a s = None"
    and ex: "\<forall>k i p. \<exists>res. adapter_execute a k i s p = (res, None) \<and> trim_space (to_lower (nr_status res)) = ''succeeded'' \<and> nr_branches res = []"
    and q: "map_input (w_env w) (rec_payload_in record) (input_mapping s) = Inr q"
    using env(2) s(1) unfolding nodes_succeed_def by blast
  obtain res where res: "adapter_execute a (w_calls w) inst s q = (res, None)" "trim_space (to_lower (nr_status res)) = ''succeeded''" "nr_branches res = []"
    using ex by blast
  let ?w = "w\<lparr>w_calls := Suc (w_calls w), w_executed := w_executed w @ [rec_id record]\<rparr>"
  have "later w ?w" by (simp add: later_def)
  from later_time [OF env(1) this] have rows': "job_rows u (ready v C) C B (time_of ?w) (w_db ?w)"
    using job_rows_later [OF rows(1)] by simp
  have fin: "finish_step r record inst v s res = step_succeeded r record inst v s res"
    by (simp add: finish_step_def res(2) Let_def)
  show ?thesis unfolding run_node_def
    apply (rule ok_bind [where P = "\<lambda>e v. e = w_env w \<and> v = w"])
    subgoal by (rule ok_environment) simp
    apply (elim conjE)
    apply (simp only: a q sum.case option.case)
    apply (rule ok_bind [where P = "\<lambda>p v. p = (res, None) \<and> v = ?w"])
    subgoal by (rule ok_execute [OF env(1)]) (simp add: res(1))
    apply (elim conjE)
    apply (simp only: prod.case option.case fin)
    subgoal unfolding C'_def
      by (rule ok_mono [OF ok_step_succeeded [OF v r _ _ rows' rows(2,3) _ j(2,3) _ rec(2,3) s res(3), where st = st]])
         (use env j rec(1) in auto)
    done
qed

lemma ok_run_leased_step:
  assumes v: "validate_steps raw = Inr v" "plain_workflow v" and r: "r_router r = new_executor_router"
    and env: "undisturbed (w_env w)" "nodes_succeed (w_env w) v"
    and rows: "job_rows u (ready v C) C B (time_of w) (w_db w)" "C \<subseteq> ready v C" "B \<subseteq> ready v C"
    and j: "job_instance T u v ''running'' (w_db w)"
    and rec: "record \<in> set (rows_of u (w_db w))" "rec_step record \<in> B" "rec_step record \<notin> C"
  defines "C' \<equiv> insert (rec_step record) C"
  shows "ok (run_leased_step r record) w (\<lambda>e w'. e = (''completed'', None) \<and>
    job_rows u (ready v C') C' (B - {rec_step record}) (time_of w') (w_db w') \<and> job_instance T u v (settled v C') (w_db w') \<and>
    (\<forall>q\<in>set (db_records (w_db w)). rec_id q \<noteq> rec_id record \<longrightarrow> q \<in> set (db_records (w_db w'))))"
proof -
  obtain i d where i: "List.find (\<lambda>i. inst_uuid i = u) (db_instances (w_db w)) = Some i" "inst_state i = ''running''" "inst_tenant i = T"
      "definition_by_uuid T (inst_definition i) (Some (inst_version i)) (w_db w) = Inr d" "stored_graph d = Inr v"
    and u: "u \<noteq> uuid_nil"
    using j unfolding job_instance_def by blast
  have iu: "inst_uuid i = u" using i(1) by (auto simp: find_Some_iff)
  have found: "instance_any_tenant (rec_instance record) (w_db w) = Inr i" using i(1) u rec(1) by (simp add: instance_any_tenant_def)
  have "rec_step record \<in> step_names v" using rec(2) rows(3) by (auto simp: ready_def)
  then obtain s where s: "s \<in> set (v_steps v)" "step_id s = rec_step record" by auto
  have step: "step_by_id v (rec_step record) = Some s" using workflow_steps(4) [OF v(1) s(1)] s(2) by simp
  have go: "\<not> (inst_state i = ''canceled'' \<or> inst_state i = ''suspended'')" using i(2) by simp
  show ?thesis unfolding run_leased_step_def
    apply (rule ok_bind [where P = "\<lambda>x v. x = Inr i \<and> w_db v = w_db w"])
    subgoal by (rule ok_db_read [OF env(1), where r = "Inr i"]) (simp_all add: found)
    subgoal premises p1 for x w1
    proof -
      have w1: "undisturbed (w_env w1)" using p1(1) env(1) by (simp add: later_def)
      have x: "x = Inr i" using p1(2) by simp
      show ?thesis unfolding x sum.case if_not_P [OF go]
        apply (rule ok_bind [where P = "\<lambda>_ v. w_db v = w_db w"])
        subgoal by (rule ok_publish) (simp add: p1(2))
        subgoal premises p2 for y w2
          apply (rule ok_bind [where P = "\<lambda>d v'. d = Inr v \<and> w_db v' = w_db w"])
          subgoal unfolding load_definition_def
            by (rule ok_bind [where P = "\<lambda>y v. y = Inr d \<and> w_db v = w_db w"], rule ok_db_read [where r = "Inr d"])
               (use w1 p2 i in \<open>auto simp: later_def\<close>)
          subgoal premises p3 for l w3
          proof -
            have l: "l = Inr v" using p3(2) by simp
            have w3: "later w w3" using p1(1) p2(1) p3(1) later_trans by blast
            then have env3: "undisturbed (w_env w3)" "nodes_succeed (w_env w3) v" using env by (simp_all add: later_def)
            have rows3: "job_rows u (ready v C) C B (time_of w3) (w_db w3)"
              using job_rows_later [OF rows(1) later_time [OF env(1) w3]] p3(2) by simp
            show ?thesis unfolding l sum.case step option.case C'_def
              by (rule ok_mono [OF ok_run_node [OF v r env3 rows3 rows(2,3) _ iu i(3) _ rec(2,3) s, where st = "''running''"]])
                 (use p3(2) j rec(1) in auto)
          qed
          done
        done
    qed
    done
qed

subsection \<open>One batch\<close>

lemma ok_run_records:
  assumes v: "validate_steps raw = Inr v" "plain_workflow v" and r: "r_router r = new_executor_router"
  shows "undisturbed (w_env w) \<Longrightarrow> nodes_succeed (w_env w) v \<Longrightarrow>
    job_rows u (ready v C) C (rec_step ` set recs) (time_of w) (w_db w) \<Longrightarrow> C \<subseteq> ready v C \<Longrightarrow>
    job_instance T u v st (w_db w) \<Longrightarrow> (recs \<noteq> [] \<longrightarrow> st = ''running'') \<Longrightarrow> set recs \<subseteq> set (rows_of u (w_db w)) \<Longrightarrow>
    distinct (map rec_step recs) \<Longrightarrow> rec_step ` set recs \<inter> C = {} \<Longrightarrow>
    ok (run_records r recs res) w (\<lambda>(x, e) w'. e = None \<and> x = res\<lparr>completed := completed res + length recs\<rparr> \<and>
      job_rows u (ready v (C \<union> rec_step ` set recs)) (C \<union> rec_step ` set recs) {} (time_of w') (w_db w') \<and>
      C \<union> rec_step ` set recs \<subseteq> ready v (C \<union> rec_step ` set recs) \<and>
      job_instance T u v (if recs = [] then st else settled v (C \<union> rec_step ` set recs)) (w_db w'))"
proof (induction recs arbitrary: w C st res)
  case (Cons rec recs)
  let ?n = "rec_step rec"
  let ?C = "insert ?n C" and ?B = "rec_step ` set (rec # recs)"
  have rowsB: "?B \<subseteq> ready v C" using Cons.prems(3,7) by (auto simp: job_rows_def)
  have rec: "rec \<in> set (rows_of u (w_db w))" "?n \<in> ?B" "?n \<notin> C" using Cons.prems(7,9) by auto
  have rest: "?B - {?n} = rec_step ` set recs" using Cons.prems(8) by auto
  have all: "?C \<union> rec_step ` set recs = C \<union> ?B" by auto
  have ready: "?C \<subseteq> ready v ?C" using Cons.prems(4) rowsB unfolding ready_def by auto
  have more: "settled v ?C = ''running''" if ne: "recs \<noteq> []"
  proof -
    obtain q where "q \<in> set recs" using ne by (cases recs) auto
    then have "rec_step q \<in> rec_step ` set recs" by simp
    then have "rec_step q \<in> ready v C" "rec_step q \<notin> ?C" using rowsB Cons.prems(8,9) by auto
    moreover have "ready v C \<subseteq> ready v ?C" unfolding ready_def by auto
    ultimately show ?thesis by auto
  qed
  have run: "st = ''running''" using Cons.prems(6) by simp
  show ?case unfolding run_records.simps
    apply (rule ok_bind [OF ok_run_leased_step [OF v r Cons.prems(1,2,3,4) rowsB Cons.prems(5) [unfolded run] rec]])
    subgoal premises p for x w1
    proof -
      have x: "x = (''completed'', None)" using p(2) by simp
      have w1: "undisturbed (w_env w1)" "nodes_succeed (w_env w1) v" using p(1) Cons.prems(1,2) by (simp_all add: later_def)
      have rows1: "job_rows u (ready v ?C) ?C (rec_step ` set recs) (time_of w1) (w_db w1)" using p(2) rest by simp
      have ids: "rec_id q \<noteq> rec_id rec" if "q \<in> set recs" for q
        using that same_row(2) [OF Cons.prems(3), of q rec] rec(1) Cons.prems(7,8) by auto
      have here: "set recs \<subseteq> set (rows_of u (w_db w1))"
        using Cons.prems(7) p(2) ids by auto
      have "distinct (map rec_step recs)" "rec_step ` set recs \<inter> ?C = {}" using Cons.prems(8,9) by auto
      note ih = Cons.IH [OF w1 rows1 ready _ _ here this, of "settled v ?C" "count_outcome ''completed'' res"]
      show ?thesis unfolding x prod.case option.case
        by (rule ok_mono [OF ih]) (use p(2) more in \<open>auto simp: all count_outcome_def split: prod.splits if_splits\<close>)
    qed
    done
qed (auto simp: job_rows_def)

lemma lease_limit_pos: "0 < lease_limit l"
  by (simp add: lease_limit_def)

lemma job_rows_lease:
  assumes j: "job_rows u S C {} t db" and t: "t \<le> now" and u: "u \<noteq> uuid_nil" and sub: "C \<subseteq> S"
    and run: "lease_rows now [] u limit owner until db = (recs, db')"
  defines "B \<equiv> rec_step ` set recs"
  shows "job_rows u S C B t db'" "set recs \<subseteq> set (rows_of u db')" "distinct (map rec_step recs)" "B \<inter> C = {}"
    and "recs = [] \<longleftrightarrow> S \<subseteq> C" "db_instances db' = db_instances db" "db_definitions db' = db_definitions db"
proof -
  define ids where "ids = map rec_id (take (lease_limit limit) (in_order (filter (leasable now [] u) (db_records db))))"
  let ?p = "\<lambda>r. rec_id r \<in> set ids \<and> rec_state r = ''queued''" and ?f = "take_lease now owner until"
  have db': "db' = update_rows ?p ?f db" and recs: "recs = in_order [r \<leftarrow> db_records db'. rec_id r \<in> set ids]"
    using run by (auto simp: lease_rows_def Let_def ids_def)
  show "db_instances db' = db_instances db" "db_definitions db' = db_definitions db" by (simp_all add: db' update_rows_def)
  have ok: "ids_ok db" using j by (simp add: job_rows_def)
  have due: "leasable now [] u r \<longleftrightarrow> rec_state r = ''queued''" if "r \<in> set (rows_of u db)" for r
    using that j t u unfolding leasable_def job_rows_def by force
  have taken: "\<exists>q\<in>set (rows_of u db). rec_state q = ''queued'' \<and> r = ?f q" if "r \<in> set recs" for r
    using lease_facts(2) [OF ok run that] u by (auto simp: leasable_def)
  have f: "rec_instance (?f r) = rec_instance r" "rec_step (?f r) = rec_step r" "rec_id (?f r) = rec_id r" for r
    by (simp_all add: take_lease_def)
  have hit: "?p r \<longleftrightarrow> rec_step r \<in> B" if r: "r \<in> set (rows_of u db)" for r
  proof
    assume "?p r"
    then have "?f r \<in> set recs" using r f by (auto simp: recs db' update_rows_def image_iff)
    then show "rec_step r \<in> B" unfolding B_def using f(2) by (metis image_eqI)
  next
    assume "rec_step r \<in> B"
    then obtain r' where r': "r' \<in> set recs" "rec_step r' = rec_step r" by (auto simp: B_def)
    obtain q where q: "q \<in> set (rows_of u db)" "rec_state q = ''queued''" "r' = ?f q" using taken [OF r'(1)] by blast
    then have "q = r" using same_row(1) [OF j q(1) r] r'(2) f(2) by simp
    then show "?p r" using q r'(1) f(3) by (auto simp: recs)
  qed
  show B: "job_rows u S C B t db'" unfolding db'
  proof (rule job_rows_update [OF j row_changes(1)])
    fix r assume r: "r \<in> set (rows_of u db)"
    have "rec_state r = ''queued'' \<longleftrightarrow> rec_step r \<notin> C" using j r by (auto simp: job_rows_def)
    then show "let r' = if ?p r then ?f r else r in 0 \<le> rec_attempt r' \<and>
        rec_state r' = (if rec_step r \<in> C then ''completed'' else if rec_step r \<in> B then ''in_progress'' else ''queued'') \<and>
        (rec_state r' = ''queued'' \<longrightarrow> rec_lease_until r' = None \<and> rec_scheduled_at r' \<le> t)"
      using j r hit [OF r] by (auto simp: job_rows_def take_lease_def Let_def)
  qed (use f in simp)
  have rows': "rows_of u db' = map (\<lambda>r. if ?p r then ?f r else r) (rows_of u db)" unfolding db' by (rule rows_of_update) (simp add: f)
  show here: "set recs \<subseteq> set (rows_of u db')" using taken f by (fastforce simp: recs)
  show "distinct (map rec_step recs)"
  proof -
    have "inj_on rec_step (set recs)" using same_row(1) [OF B] here by (auto intro!: inj_onI)
    moreover have "distinct recs" using lease_facts(1) [OF ok run] by (simp add: distinct_map)
    ultimately show ?thesis by (simp add: distinct_map)
  qed
  show "B \<inter> C = {}" using taken j f(2) by (fastforce simp: B_def job_rows_def)
  show "recs = [] \<longleftrightarrow> S \<subseteq> C"
  proof
    assume "S \<subseteq> C"
    then show "recs = []" using taken j by (cases recs) (fastforce simp: job_rows_def)+
  next
    assume none: "recs = []"
    have "filter (leasable now [] u) (db_records db) = []"
    proof (rule ccontr)
      assume "filter (leasable now [] u) (db_records db) \<noteq> []"
      then have "ids \<noteq> []" unfolding ids_def using lease_limit_pos [of limit] in_order_length [of "filter (leasable now [] u) (db_records db)"]
        by (metis in_order_set length_0_conv list.map_disc_iff not_less_zero set_empty take_eq_Nil)
      then obtain i where "i \<in> set ids" by (cases ids) auto
      then obtain q where q: "q \<in> set (db_records db)" "leasable now [] u q" "rec_id q = i"
        unfolding ids_def set_map by (auto dest!: in_set_takeD)
      then have "q \<in> set (rows_of u db)" "?p q" using u \<open>i \<in> set ids\<close> by (auto simp: leasable_def)
      then show False using hit none by (simp add: B_def)
    qed
    then have "\<forall>r\<in>set (rows_of u db). rec_state r \<noteq> ''queued''" using due by (auto simp: filter_empty_conv)
    moreover have "rec_state r = (if rec_step r \<in> C then ''completed'' else ''queued'')" if "r \<in> set (rows_of u db)" for r
      using j that by (simp add: job_rows_def)
    ultimately have "rec_step r \<in> C" if "r \<in> set (rows_of u db)" for r using that by (metis (full_types))
    then show "S \<subseteq> C" using j unfolding job_rows_def by blast
  qed
qed

text \<open>All is done once every step that is ready has completed.\<close>

lemma ready_closed:
  assumes v: "validate_steps raw = Inr v" and sub: "ready v C \<subseteq> C"
  shows "step_names v \<subseteq> C"
proof -
  let ?E = "graph_edges (v_steps v)"
  have g: "acyclic ?E" "?E \<subseteq> step_names v \<times> step_names v"
    using validationD(1) [OF v] by (simp_all add: workflow_graph_def)
  have "finite ?E" using g(2) by (rule finite_subset) simp
  then have wf: "wf ?E" using g(1) by (rule finite_acyclic_wf)
  have "n \<in> step_names v \<Longrightarrow> n \<in> C" for n
  proof (induction n rule: wf_induct_rule [OF wf])
    case (1 n)
    have "preds v n \<subseteq> C" using 1 known_edges [OF v] unfolding preds_def by blast
    then show ?case using 1(2) sub unfolding ready_def by blast
  qed
  then show ?thesis by blast
qed

lemma ok_run_due:
  assumes v: "validate_steps raw = Inr v" "plain_workflow v" and r: "r_router r = new_executor_router"
      "r_target r = u" "\<not> blank (r_lease_owner r)"
    and env: "undisturbed (w_env w)" "nodes_succeed (w_env w) v"
    and rows: "job_rows u (ready v C) C {} (time_of w) (w_db w)" "C \<subseteq> ready v C" "C \<subseteq> step_names v"
    and j: "job_instance T u v (settled v C) (w_db w)"
  shows "ok (run_due_steps r) w (\<lambda>(x, e) w'. e = None \<and> (\<exists>D. D \<subseteq> step_names v \<and> D \<inter> C = {} \<and> finite D \<and>
    x = no_steps_run\<lparr>leased := card D, completed := card D\<rparr> \<and> (D = {} \<longrightarrow> C = step_names v) \<and>
    job_rows u (ready v (C \<union> D)) (C \<union> D) {} (time_of w') (w_db w') \<and> C \<union> D \<subseteq> ready v (C \<union> D) \<and>
    job_instance T u v (settled v (C \<union> D)) (w_db w')))"
proof -
  have u: "u \<noteq> uuid_nil" using j by (simp add: job_instance_def)
  show ?thesis unfolding run_due_steps_def
    apply (rule ok_bind [where P = "\<lambda>t w1. t = time_of w \<and> w_db w1 = w_db w"])
    subgoal by (rule ok_clock [OF env(1)]) simp
    subgoal premises p for t w1
    proof -
      have w1: "undisturbed (w_env w1)" "nodes_succeed (w_env w1) v" "time_of w \<le> time_of w1"
        using p(1) env later_time [OF env(1) p(1)] by (simp_all add: later_def)
      obtain recs db' where run: "lease_rows (time_of w1) [] u (r_batch_size r) (trim_space (r_lease_owner r)) (t + r_lease_ttl r) (w_db w1) = (recs, db')"
        by fastforce
      have rows1: "job_rows u (ready v C) C {} (time_of w1) (w_db w1)" using job_rows_later [OF rows(1) w1(3)] p(2) by simp
      note lease = job_rows_lease [OF rows1 order_refl u rows(2) run]
      let ?w = "w1\<lparr>w_db := db', w_calls := Suc (w_calls w1)\<rparr>" and ?D = "rec_step ` set recs"
      have call: "lease_queued_steps (m_now (moments (w_env w1) (w_calls w1))) (m_locked (moments (w_env w1) (w_calls w1)))
          (r_target r) (r_batch_size r) (r_lease_owner r) (t + r_lease_ttl r) (w_db w1) = (Inr recs, db')"
        using run r(2,3) w1(1) by (simp add: lease_queued_steps_def time_of_def undisturbed_def)
      have later: "later w1 ?w" by (simp add: later_def)
      have rows2: "job_rows u (ready v C) C ?D (time_of ?w) db'" using job_rows_later [OF lease(1) later_time [OF w1(1) later]] .
      have inst2: "job_instance T u v (settled v C) db'" using j p(2) job_instance_same [OF lease(6,7)] by simp
      have D: "?D \<subseteq> step_names v" "card ?D = length recs" "recs = [] \<Longrightarrow> C = step_names v"
        using lease(2,3,5) rows2 ready_closed [OF v(1)] rows(3) distinct_card [OF lease(3)]
        by (auto simp: job_rows_def ready_def)
      have run_state: "recs \<noteq> [] \<longrightarrow> settled v C = ''running''" using lease(5) by auto
      show ?thesis
        apply (rule ok_bind [where P = "\<lambda>y w2. y = Inr recs \<and> w2 = ?w"])
        subgoal by (rule ok_db_call [OF w1(1), where r = "Inr recs" and db' = db']) (use call in simp_all)
        apply (elim conjE)
        apply (simp only: sum.case)
        apply (rule ok_bind [where P = "\<lambda>y w2. w_db w2 = db' \<and> w_env w2 = w_env w1"])
        subgoal by (simp add: ok_def note_leased_def later_def)
        subgoal premises q for y w2 z w3
        proof -
          have "job_rows u (ready v C) C ?D (time_of w3) (w_db w3)"
            using job_rows_later [OF rows2 later_time [OF _ q(4) [unfolded q(3)]]] q(5) w1(1) by simp
          then have batch: "ok (run_records r recs (no_steps_run\<lparr>leased := length recs\<rparr>)) w3 (\<lambda>(x, e) w'. e = None \<and>
              x = no_steps_run\<lparr>leased := length recs, completed := length recs\<rparr> \<and>
              job_rows u (ready v (C \<union> ?D)) (C \<union> ?D) {} (time_of w') (w_db w') \<and> C \<union> ?D \<subseteq> ready v (C \<union> ?D) \<and>
              job_instance T u v (if recs = [] then settled v C else settled v (C \<union> ?D)) (w_db w'))"
            using q(5) w1 inst2 lease(2) ok_run_records [OF v r(1) _ _ _ rows(2) _ run_state _ lease(3,4), of w3 u T "no_steps_run\<lparr>leased := length recs\<rparr>"]
            by (simp add: no_steps_run_def)
          have fin: "(if recs = [] then settled v C else settled v (C \<union> ?D)) = settled v (C \<union> ?D)" by simp
          show ?thesis using D lease(4) by (intro ok_mono [OF batch]) (auto simp: fin D(2) split: if_splits intro!: exI [of _ ?D])
        qed
        done
    qed
    done
qed

subsection \<open>The whole drain\<close>

text \<open>
  What a drain of at most \<open>n\<close> batches has completed, starting after \<open>C\<close>: everything, once \<open>n\<close> is
  at least the number of the other steps, since every batch completes at least one.
\<close>

lemma ok_drain_loop:
  assumes v: "validate_steps raw = Inr v" "plain_workflow v" and r: "r_router r = new_executor_router"
      "r_target r = u" "\<not> blank (r_lease_owner r)"
  shows "undisturbed (w_env w) \<Longrightarrow> nodes_succeed (w_env w) v \<Longrightarrow>
    job_rows u (ready v C) C {} (time_of w) (w_db w) \<Longrightarrow> C \<subseteq> ready v C \<Longrightarrow> C \<subseteq> step_names v \<Longrightarrow>
    job_instance T u v (settled v C) (w_db w) \<Longrightarrow> card (step_names v - C) \<le> n \<Longrightarrow>
    ok (drain_loop n r acc) w (\<lambda>(x, e) w'. e = None \<and>
      x = add_results acc (no_steps_run\<lparr>leased := card (step_names v - C), completed := card (step_names v - C)\<rparr>) \<and>
      job_rows u (step_names v) (step_names v) {} (time_of w') (w_db w') \<and> job_instance T u v ''succeeded'' (w_db w'))"
proof (induction n arbitrary: w C acc)
  case 0
  then have "C = step_names v" by auto
  moreover have "ready v C = step_names v" using 0(4,5) calculation by (auto simp: ready_def)
  ultimately show ?case using 0(3,6) by (simp add: add_results_def no_steps_run_def)
next
  case (Suc n)
  show ?case unfolding drain_loop.simps
    apply (rule ok_bind [OF ok_run_due [OF v r Suc.prems(1-6)]])
    subgoal premises p for y w1
    proof -
      obtain x e where y: "y = (x, e)" by fastforce
      from p(2) obtain D where D: "D \<subseteq> step_names v" "D \<inter> C = {}" "finite D" "D = {} \<longrightarrow> C = step_names v"
          "job_rows u (ready v (C \<union> D)) (C \<union> D) {} (time_of w1) (w_db w1)" "C \<union> D \<subseteq> ready v (C \<union> D)"
          "job_instance T u v (settled v (C \<union> D)) (w_db w1)"
        and x: "x = no_steps_run\<lparr>leased := card D, completed := card D\<rparr>" and e: "e = None"
        unfolding y by auto
      have w1: "undisturbed (w_env w1)" "nodes_succeed (w_env w1) v" using p(1) Suc.prems(1,2) by (simp_all add: later_def)
      show ?thesis
      proof (cases "D = {}")
        case True
        then have all: "C = step_names v" using D(4) by simp
        then have rdy: "ready v C = step_names v" by (auto simp: ready_def preds_def known_edges [OF v(1)])
        show ?thesis unfolding y using D(5-7) x e True all rdy
          by (simp add: no_steps_run_def add_results_def)
      next
        case False
        then have "card D \<noteq> 0" using D(3) by simp
        have split: "card (step_names v - C) = card D + card (step_names v - (C \<union> D))"
        proof -
          have "step_names v - C = D \<union> (step_names v - (C \<union> D))" using D(1,2) by auto
          moreover have "card (D \<union> (step_names v - (C \<union> D))) = card D + card (step_names v - (C \<union> D))"
            by (rule card_Un_disjoint) (use D(3) in auto)
          ultimately show ?thesis by simp
        qed
        have le: "card (step_names v - (C \<union> D)) \<le> n" using split Suc.prems(7) \<open>card D \<noteq> 0\<close> by linarith
        have sub: "C \<union> D \<subseteq> step_names v" using D(1) Suc.prems(5) by simp
        have go: "\<not> (leased x = 0 \<or> 0 < waiting x \<or> 0 < failed x)" using x \<open>card D \<noteq> 0\<close> by (simp add: no_steps_run_def)
        have acc: "add_results (add_results acc x) (no_steps_run\<lparr>leased := card (step_names v - (C \<union> D)), completed := card (step_names v - (C \<union> D))\<rparr>) =
            add_results acc (no_steps_run\<lparr>leased := card (step_names v - C), completed := card (step_names v - C)\<rparr>)"
          by (simp add: x split add_results_def no_steps_run_def)
        show ?thesis unfolding y prod.case e option.case Let_def if_not_P [OF go] acc [symmetric]
          by (rule Suc.IH [OF w1 D(5,6) sub D(7) le])
      qed
    qed
    done
qed

end
