(* ===== verification/WorkflowService.thy ===== *)
theory WorkflowService imports WorkflowRunner CallLogic begin

section \<open>Definitions and the start of instances\<close>

text \<open>
  \<open>service.go\<close> and \<open>assignment_tracker.go\<close>: how a definition is created, revised and published, how
  an instance of it is started with its first step records, and how a step is dispatched to an
  agent. The programs run in the world of the runner; the audit events they emit and the runtime
  events they publish, both of which ignore errors, go to its log.
\<close>

subsection \<open>Tenants\<close>

definition normalize_tenant :: "string \<Rightarrow> wf_error + string" where
  "normalize_tenant raw = (if tenant_of raw = [] then Inl (BadArgument ''tenant uuid is required'') else Inr (tenant_of raw))"

lemma tenant_of_idem [simp]: "tenant_of (tenant_of t) = tenant_of t"
  by (simp add: tenant_of_def trim_lower)

subsection \<open>Creating definitions\<close>

text \<open>
  A Go map is nil or a list of entries. A value of the type \<open>any\<close> is a pair of a type and a value of it, or
  nil, which has neither: a map that is passed as an \<open>any\<close> carries its type, also when the map is nil,
  and \<open>v == nil\<close> asks for the missing type. \<open>json.Marshal\<close> writes a nil map as null.
\<close>

type_synonym go_map = "object option"

datatype go_any = NilAny | MapAny go_map

definition marshalled :: "go_any \<Rightarrow> any" where
  "marshalled v = (case v of NilAny \<Rightarrow> GoNil | MapAny None \<Rightarrow> GoNil | MapAny (Some es) \<Rightarrow> Obj (json_column es))"

definition to_json_or_empty :: "go_any \<Rightarrow> any" where
  "to_json_or_empty v = (if v = NilAny then Obj [] else marshalled v)"

text \<open>The bytes of a JSON column are empty (\<open>None\<close>) or the text of a value.\<close>

definition json_or_inherited :: "go_any \<Rightarrow> any option \<Rightarrow> any" where
  "json_or_inherited v inherited = (if v = NilAny
     then (case inherited of Some j \<Rightarrow> j | None \<Rightarrow> Obj [])
     else to_json_or_empty v)"

record definition_input =
  in_tenant :: string
  in_source :: string
  in_name :: string
  in_description :: string
  in_created_by :: string
  in_steps :: "step_definition list"
  in_retry :: go_map
  in_compensation :: go_map
  in_sla :: go_map
  in_metadata :: go_map

definition draft :: "string \<Rightarrow> string \<Rightarrow> string \<Rightarrow> int \<Rightarrow> step_definition list \<Rightarrow> string \<Rightarrow> workflow_definition" where
  "draft tenant name desc version steps by = \<lparr>def_uuid = uuid_nil, def_tenant = tenant, def_name = name,
     def_description = desc, def_version = version, def_status = ''draft'', def_graph = Some (map json_step steps),
     def_retry = GoNil, def_compensation = GoNil, def_sla = GoNil, def_metadata = GoNil, def_pack_key = [],
     def_source_type = [], def_created_by = by, def_published_at = None, def_published_by = uuid_nil, def_change_note = []\<rparr>"

definition store_definition :: "workflow_definition \<Rightarrow> string \<Rightarrow> (wf_error + workflow_definition) wf" where
  "store_definition d event = attempt (db_call (\<lambda>m. create_definition_row (m_uuid m) d))
     (\<lambda>created. do { publish uuid_nil event []; returns created })"

definition create_definition :: "definition_input \<Rightarrow> (wf_error + workflow_definition) wf" where
  "create_definition i = attempt (State_Monad.return (normalize_tenant (in_tenant i))) (\<lambda>tenant.
     require (\<not> blank (in_name i)) (BadArgument ''name is required'') (
     require (in_created_by i \<noteq> uuid_nil) (BadArgument ''created_by is required'') (
     attempt (State_Monad.return (map_err GraphInvalid (validate_steps (in_steps i)))) (\<lambda>v.
     attempt (db_read (next_version tenant (in_name i))) (\<lambda>version.
     store_definition ((draft tenant (trim_space (in_name i)) (trim_space (in_description i)) version (v_steps v) (in_created_by i))
       \<lparr>def_retry := to_json_or_empty (MapAny (in_retry i)), def_compensation := to_json_or_empty (MapAny (in_compensation i)),
         def_sla := to_json_or_empty (MapAny (in_sla i)), def_metadata := to_json_or_empty (MapAny (in_metadata i))\<rparr>)
       ''workflow.definition.created'')))))"

fun validate_nodes :: "(string \<times> node_adapter) list \<Rightarrow> step_definition list \<Rightarrow> wf_error + unit" where
  "validate_nodes reg [] = Inr ()"
| "validate_nodes reg (s # ss) = (case adapter_for reg (node_kind s) of
     Inl msg \<Rightarrow> Inl (AdapterRefused msg)
   | Inr a \<Rightarrow> (case adapter_validate a s of Some msg \<Rightarrow> Inl (AdapterRefused msg) | None \<Rightarrow> validate_nodes reg ss))"

definition source_steps :: "definition_input \<Rightarrow> workflow_definition \<Rightarrow> wf_error + step_definition list" where
  "source_steps i source = (if in_steps i \<noteq> [] then Inr (in_steps i)
     else case def_graph source of None \<Rightarrow> Inl GraphUndecodable | Some steps \<Rightarrow> Inr steps)"

definition create_definition_revision :: "definition_input \<Rightarrow> (wf_error + workflow_definition) wf" where
  "create_definition_revision i = attempt (State_Monad.return (normalize_tenant (in_tenant i))) (\<lambda>tenant.
     require (in_source i \<noteq> uuid_nil) (BadArgument ''definition_id is required'') (
     require (in_created_by i \<noteq> uuid_nil) (BadArgument ''created_by is required'') (
     attempt (db_read (definition_by_uuid tenant (in_source i) None)) (\<lambda>source.
     require (def_status source \<noteq> ''archived'') DefinitionArchived (
     let name = (if blank (in_name i) then def_name source else trim_space (in_name i));
         desc = (if blank (in_description i) then def_description source else trim_space (in_description i)) in
     attempt (State_Monad.return (source_steps i source)) (\<lambda>steps.
     attempt (State_Monad.return (map_err GraphInvalid (validate_steps steps))) (\<lambda>v. do {
     env \<leftarrow> environment;
     attempt (State_Monad.return (validate_nodes (adapters env) (v_steps v))) (\<lambda>_.
     attempt (db_read (next_version tenant name)) (\<lambda>version.
     store_definition ((draft tenant name desc version (v_steps v) (in_created_by i))
       \<lparr>def_retry := json_or_inherited (MapAny (in_retry i)) (Some (def_retry source)),
         def_compensation := json_or_inherited (MapAny (in_compensation i)) (Some (def_compensation source)),
         def_sla := json_or_inherited (MapAny (in_sla i)) (Some (def_sla source)),
         def_metadata := json_or_inherited (MapAny (in_metadata i)) (Some (def_metadata source)),
         def_pack_key := def_pack_key source,
         def_source_type := def_source_type source\<rparr>)
       ''workflow.definition.revision_created'')) })))))))"

definition given_version :: "int \<Rightarrow> int option" where
  "given_version v = (if v > 0 then Some v else None)"

definition publish_definition :: "string \<Rightarrow> string \<Rightarrow> int \<Rightarrow> string \<Rightarrow> string \<Rightarrow> (wf_error + workflow_definition) wf" where
  "publish_definition raw_tenant uid version by note = attempt (State_Monad.return (normalize_tenant raw_tenant)) (\<lambda>tenant.
     require (uid \<noteq> uuid_nil) (BadArgument ''definition_id is required'') (
     require (by \<noteq> uuid_nil) (BadArgument ''published_by is required'') (
     attempt (db_read (definition_by_uuid tenant uid (given_version version))) (\<lambda>d.
     if def_status d = ''published'' then returns d
     else do {
       now \<leftarrow> clock;
       attempt (db_call (\<lambda>_. update_definition tenant uid (def_version d) ''published'' (\<lambda>r. r\<lparr>def_published_at := Some now,
           def_published_by := by, def_change_note := trim_space note\<rparr>))) (\<lambda>_.
       attempt (db_read (definition_by_uuid tenant uid (Some (def_version d)))) (\<lambda>d. do {
         publish uuid_nil ''workflow.definition.published'' []; returns d })) }))))"

subsection \<open>Dispatching a step to an agent\<close>

definition ack_timeout :: int where
  "ack_timeout = 120000000000"

definition no_grant :: "string \<times> int" where
  "no_grant = ([], 0)"

definition grant_for :: "string \<Rightarrow> string \<Rightarrow> string \<Rightarrow> (wf_error + string \<times> int) wf" where
  "grant_for tenant agent capability = State (\<lambda>w. (case check_grant (w_env w) of
     None \<Rightarrow> Inr no_grant
   | Some check \<Rightarrow> map_err GrantRefused (check (w_calls w) tenant agent capability), w))"

definition update_record :: "nat \<Rightarrow> string \<Rightarrow> (step_record \<Rightarrow> step_record) \<Rightarrow> (wf_error + unit) wf" where
  "update_record i next upd = db_call (\<lambda>m db. if i = 0 then (Inl (BadArgument ''step record id is required''), db)
     else (Inr (), update_state (m_now m) i next upd db))"

definition dispatched :: "string \<Rightarrow> string \<times> int \<Rightarrow> int \<Rightarrow> int \<Rightarrow> step_record \<Rightarrow> step_record" where
  "dispatched agent grant att now r = r\<lparr>rec_subject := agent, rec_subject_type := ''agent'', rec_grant := grant,
     rec_attempt := att, rec_started_at := Some now, rec_awaiting_human := False, rec_failure_reason := []\<rparr>"

definition dispatch :: "string \<Rightarrow> string \<Rightarrow> nat \<Rightarrow> string \<Rightarrow> string \<Rightarrow> (wf_error + agent_assignment) wf" where
  "dispatch raw_tenant inst rid agent capability = attempt (State_Monad.return (normalize_tenant raw_tenant)) (\<lambda>tenant.
     require (inst \<noteq> uuid_nil) (BadArgument ''instance uuid is required'') (
     require (rid \<noteq> 0) (BadArgument ''step record id is required'') (
     require (agent \<noteq> uuid_nil) (BadArgument ''agent uuid is required'') (
     attempt (db_read (record_by_id rid)) (\<lambda>step.
     require (rec_instance step = inst) (ForeignStep (rec_id step)) (
     attempt (grant_for tenant agent capability) (\<lambda>grant. do {
       now \<leftarrow> clock;
       attempt (update_record (rec_id step) ''in_progress''
           (dispatched agent grant (if rec_attempt step \<le> 0 then 1 else rec_attempt step) now)) (\<lambda>_.
       db_call (\<lambda>_. create_assignment \<lparr>asg_id = 0, asg_record = rec_id step, asg_agent = agent, asg_status = ''dispatched'',
         asg_dispatched_at = now, asg_acknowledged_at = None, asg_ack_deadline = Some (now + ack_timeout), asg_completed_at = None\<rparr>)) })))))))"

text \<open>
  \<open>ProcessTimeouts\<close> puts the records of the assignments that were not acknowledged in time back into the
  queue, whatever state they are in by then. What it has done when it meets an error is part of its result.
\<close>

definition timed_out_update :: "int \<Rightarrow> step_record \<Rightarrow> step_record" where
  "timed_out_update att r = r\<lparr>rec_attempt := att, rec_failure_reason := ''assignment timeout''\<rparr>"

fun requeue_timed_out :: "int \<Rightarrow> agent_assignment list \<Rightarrow> agent_assignment list \<Rightarrow> (agent_assignment list \<times> wf_error option) wf" where
  "requeue_timed_out now [] done_so_far = State_Monad.return (done_so_far, None)"
| "requeue_timed_out now (a # as) done_so_far = do {
     step \<leftarrow> db_read (record_by_id (asg_record a));
     case step of Inl e \<Rightarrow> State_Monad.return (done_so_far, Some e)
     | Inr r \<Rightarrow> if rec_instance r = uuid_nil then State_Monad.return (done_so_far, Some (StepWithoutInstance (rec_id r)))
       else do {
         u \<leftarrow> update_record (rec_id r) ''queued'' (timed_out_update (if rec_attempt r \<le> 0 then 1 else rec_attempt r + 1));
         case u of Inl e \<Rightarrow> State_Monad.return (done_so_far, Some e)
         | Inr _ \<Rightarrow> do {
             s \<leftarrow> db_call (\<lambda>m. update_assignment (m_now m) (asg_id a) ''timeout'' (\<lambda>b. b\<lparr>asg_completed_at := Some now\<rparr>));
             case s of Inl e \<Rightarrow> State_Monad.return (done_so_far, Some e)
             | Inr _ \<Rightarrow> requeue_timed_out now as (done_so_far @ [a]) } } }"

definition process_timeouts :: "string \<Rightarrow> int \<Rightarrow> (agent_assignment list \<times> wf_error option) wf" where
  "process_timeouts raw_tenant limit = (case normalize_tenant raw_tenant of
     Inl e \<Rightarrow> State_Monad.return ([], Some e)
   | Inr tenant \<Rightarrow> do {
       now \<leftarrow> clock;
       found \<leftarrow> db_read (find_timed_out tenant now (if limit \<le> 0 then 50 else limit));
       case found of Inl e \<Rightarrow> State_Monad.return ([], Some e)
       | Inr as \<Rightarrow> requeue_timed_out now as [] })"

definition extract_agent_config :: "(string \<Rightarrow> string option) \<Rightarrow> step_definition \<Rightarrow> string \<times> string" where
  "extract_agent_config parse step = (case config step of None \<Rightarrow> (uuid_nil, []) | Some c \<Rightarrow>
     (case index c ''agent_id'' of Str s \<Rightarrow> (case parse (trim_space s) of Some u \<Rightarrow> u | None \<Rightarrow> uuid_nil) | _ \<Rightarrow> uuid_nil,
      as_string (index c ''capability'')))"

subsection \<open>Starting an instance\<close>

record start_input =
  st_tenant :: string
  st_definition :: string
  st_version :: int
  st_initiator :: string
  st_agent :: string
  st_trace :: string
  st_input :: object
  st_correlation :: string

definition new_instance :: "start_input \<Rightarrow> string \<Rightarrow> workflow_definition \<Rightarrow> validation \<Rightarrow> int \<Rightarrow> workflow_instance" where
  "new_instance i tenant d v now = \<lparr>inst_uuid = uuid_nil, inst_tenant = tenant, inst_definition = def_uuid d,
     inst_version = def_version d, inst_state = ''running'', inst_input = json_column (st_input i), inst_last_error = [],
     inst_correlation = trim_space (st_correlation i), inst_agent = st_agent i, inst_initiator = st_initiator i,
     inst_trace = trim_space (st_trace i), inst_started_at = Some now, inst_completed_at = None,
     inst_current_step = (case start_step_ids v of [] \<Rightarrow> [] | s # _ \<Rightarrow> s), inst_last_transition = now\<rparr>"

definition start_record :: "workflow_instance \<Rightarrow> step_definition \<Rightarrow> executor \<Rightarrow> int \<Rightarrow> object \<Rightarrow> step_record" where
  "start_record inst step exec now payload = (queued_record inst step exec now payload)
     \<lparr>rec_awaiting_human := subject_type exec = ''human''\<rparr>"

fun start_steps :: "start_input \<Rightarrow> workflow_instance \<Rightarrow> validation \<Rightarrow> int \<Rightarrow> string list \<Rightarrow> (wf_error + step_record list) wf" where
  "start_steps i inst v now [] = returns []"
| "start_steps i inst v now (sid # sids) = (case step_by_id v sid of
     None \<Rightarrow> raise (StepUnknown sid)
   | Some step \<Rightarrow> (case executor_for new_executor_router (step_type step) of
       Inl e \<Rightarrow> raise (RoutingFailed e)
     | Inr exec \<Rightarrow> attempt (db_call (\<lambda>m. append_record (start_record inst step exec now (st_input i)))) (\<lambda>created. do {
         env \<leftarrow> environment;
         let (agent, capability) = extract_agent_config (parse_uuid env) step;
         attempt (if to_lower (step_type step) = ''agent'' \<and> agent \<noteq> uuid_nil
             then attempt (dispatch (st_tenant i) (inst_uuid inst) (rec_id created) agent capability) (\<lambda>_. returns ())
             else returns ()) (\<lambda>_.
         attempt (start_steps i inst v now sids) (\<lambda>rest. returns (created # rest))) })))"

fun publish_queued :: "string \<Rightarrow> step_record list \<Rightarrow> unit wf" where
  "publish_queued inst [] = State_Monad.return ()"
| "publish_queued inst (r # rs) = do { publish inst ''workflow.step.queued'' (rec_step r); publish_queued inst rs }"

definition start_instance :: "start_input \<Rightarrow> (wf_error + workflow_instance) wf" where
  "start_instance i = attempt (State_Monad.return (normalize_tenant (st_tenant i))) (\<lambda>tenant.
     require (st_definition i \<noteq> uuid_nil) (BadArgument ''definition_id is required'') (
     attempt (db_read (definition_by_uuid tenant (st_definition i) (given_version (st_version i)))) (\<lambda>d.
     require (def_status d = ''published'') (NotPublished (def_uuid d)) (
     attempt (State_Monad.return (stored_graph d)) (\<lambda>v. do {
       now \<leftarrow> clock;
       attempt (db_call (\<lambda>m. create_instance (m_uuid m) (new_instance i tenant d v now))) (\<lambda>inst.
       attempt (start_steps i inst v now (start_step_ids v)) (\<lambda>created. do {
         publish (inst_uuid inst) ''workflow.instance.started'' [];
         publish_queued (inst_uuid inst) created;
         publish (inst_uuid inst) ''workflow.instance.started'' (inst_current_step inst);
         returns inst })) })))))"

end
