(* ===== verification/WorkflowLaunch.thy ===== *)
theory WorkflowLaunch imports WorkflowDrain WorkflowService begin

section \<open>From the start of an instance to its end\<close>

text \<open>
  \<open>StartInstance\<close> followed by \<open>DrainDueSteps\<close>, in the undisturbed world of \<open>WorkflowDrain\<close>.
\<close>

lemma ok_attempt:
  assumes "ok m w (\<lambda>r w1. \<exists>x. r = Inr x \<and> P x w1)" "\<And>x w1. later w w1 \<Longrightarrow> P x w1 \<Longrightarrow> ok (f x) w1 Q"
  shows "ok (attempt m f) w Q"
  unfolding attempt_def by (rule ok_bind [OF assms(1)]) (use assms(2) in auto)

definition undispatched :: "wf_env \<Rightarrow> validation \<Rightarrow> bool" where
  "undispatched env v \<longleftrightarrow> (\<forall>s\<in>set (v_steps v). to_lower (step_type s) = ''agent'' \<longrightarrow>
     fst (extract_agent_config (parse_uuid env) s) = uuid_nil)"

lemma ok_publish_queued: "ok (publish_queued u rs) w (\<lambda>_ w'. w_db w' = w_db w)"
proof (induction rs arbitrary: w)
  case (Cons r rs)
  show ?case unfolding publish_queued.simps
    by (rule ok_bind [where P = "\<lambda>_ w1. w_db w1 = w_db w"], rule ok_publish, simp, rule ok_mono [OF Cons.IH]) simp
qed simp

lemma ok_start_steps:
  assumes v: "validate_steps raw = Inr v" and inst: "inst_uuid inst = u" "u \<noteq> uuid_nil"
  shows "undisturbed (w_env w) \<Longrightarrow> undispatched (w_env w) v \<Longrightarrow> job_rows u S {} {} (time_of w) (w_db w) \<Longrightarrow> job_instance T u v st (w_db w) \<Longrightarrow>
    now \<le> time_of w \<Longrightarrow> set ns \<subseteq> step_names v \<Longrightarrow> distinct ns \<Longrightarrow> S \<inter> set ns = {} \<Longrightarrow>
    ok (start_steps i inst v now ns) w (\<lambda>r w'. \<exists>rs. r = Inr rs \<and>
      job_rows u (S \<union> set ns) {} {} (time_of w') (w_db w') \<and> job_instance T u v st (w_db w'))"
proof (induction ns arbitrary: w S)
  case (Cons n ns)
  obtain s where s: "s \<in> set (v_steps v)" "step_id s = n" using Cons.prems(6) by auto
  have step: "step_by_id v n = Some s" using workflow_steps(4) [OF v s(1)] s(2) by simp
  obtain e where e: "executor_for new_executor_router (step_type s) = Inr e" using workflow_steps(1) [OF v s(1)] by auto
  obtain x db' where a: "append_record (start_record inst s e now (st_input i)) (w_db w) = (x, db')" by fastforce
  have fresh: "n \<notin> S" using Cons.prems(8) by simp
  note app = job_rows_append_row [OF Cons.prems(3) _ _ _ _ inst(2) _ _ _ _ a]
  have app: "\<exists>r. x = Inr r" "job_rows u (insert n S) {} {} (time_of w) db'"
      "db_instances db' = db_instances (w_db w)" "db_definitions db' = db_definitions (w_db w)"
    using app fresh s(2) inst(1) Cons.prems(5) by (simp_all add: start_record_def queued_record_def)
  obtain c where x: "x = Inr c" using app(1) by auto
  let ?w = "w\<lparr>w_db := db', w_calls := Suc (w_calls w)\<rparr>"
  show ?case unfolding start_steps.simps step option.case e sum.case
  proof (rule ok_attempt [where P = "\<lambda>y w1. y = c \<and> w1 = ?w"])
    show "ok (db_call (\<lambda>m. append_record (start_record inst s e now (st_input i)))) w (\<lambda>r w1. \<exists>y. r = Inr y \<and> y = c \<and> w1 = ?w)"
      by (rule ok_db_call [OF Cons.prems(1), where r = x and db' = db']) (simp_all add: a x)
    fix y w1 assume l: "later w w1" and P: "y = c \<and> w1 = ?w"
    have env: "undisturbed (w_env w1)" "undispatched (w_env w1) v" "time_of w \<le> time_of w1" "w_db w1 = db'"
      using l later_time [OF Cons.prems(1) l] Cons.prems(1,2) P by (simp_all add: later_def)
    have rows: "job_rows u (insert n S) {} {} (time_of w1) (w_db w1)" using job_rows_later [OF app(2) env(3)] env(4) by simp
    have inst1: "job_instance T u v st (w_db w1)" using Cons.prems(4) job_instance_same [of db' "w_db w"] app(3,4) env(4) by simp
    have none: "\<not> (to_lower (step_type s) = ''agent'' \<and> fst (extract_agent_config (parse_uuid (w_env w1)) s) \<noteq> uuid_nil)"
      using env(2) s(1) by (auto simp: undispatched_def)
    have rest: "ok (start_steps i inst v now ns) w1 (\<lambda>r w'. \<exists>rs. r = Inr rs \<and>
        job_rows u (insert n S \<union> set ns) {} {} (time_of w') (w_db w') \<and> job_instance T u v st (w_db w'))"
      by (rule Cons.IH [OF env(1,2) rows inst1]) (use Cons.prems env(3) in auto)
    show "ok (do { env \<leftarrow> environment;
         let (agent, capability) = extract_agent_config (parse_uuid env) s;
         attempt (if to_lower (step_type s) = ''agent'' \<and> agent \<noteq> uuid_nil
             then attempt (dispatch (st_tenant i) (inst_uuid inst) (rec_id y) agent capability) (\<lambda>_. returns ())
             else returns ()) (\<lambda>_. attempt (start_steps i inst v now ns) (\<lambda>rest. returns (y # rest))) }) w1
       (\<lambda>r w'. \<exists>rs. r = Inr rs \<and> job_rows u (S \<union> set (n # ns)) {} {} (time_of w') (w_db w') \<and> job_instance T u v st (w_db w'))"
      apply (rule ok_bind [where P = "\<lambda>env w2. env = w_env w1 \<and> w2 = w1"], rule ok_environment, simp)
      using none apply (auto simp: Let_def split: prod.splits)
       apply (rule ok_attempt [OF rest], simp)+
      done
  qed
qed simp

text \<open>The version an instance was started with is found again.\<close>

lemma definition_again:
  assumes "definition_by_uuid T uid ver db = Inr d" "0 < def_version d" "tenant_of T = T"
  shows "definition_by_uuid T (def_uuid d) (Some (def_version d)) db = Inr d" "def_uuid d = uid" "uid \<noteq> uuid_nil"
proof -
  let ?P = "\<lambda>d. def_tenant d = T \<and> def_uuid d = uid \<and> (case ver of Some v \<Rightarrow> v > 0 \<longrightarrow> def_version d = v | None \<Rightarrow> True)"
  have f: "List.find ?P (db_definitions db) = Some d" and ok: "\<not> blank T" "uid \<noteq> uuid_nil"
    using assms(1,3) by (cases ver; auto simp: definition_by_uuid_def split: if_splits option.splits)+
  have P: "?P d" using f by (auto simp: find_Some_iff)
  then show "def_uuid d = uid" "uid \<noteq> uuid_nil" using ok by simp_all
  have "List.find (\<lambda>e. def_tenant e = T \<and> def_uuid e = uid \<and> def_version e = def_version d) ds = Some d"
    if "List.find ?P ds = Some d" for ds
    using that P by (induction ds) (auto split: if_splits option.splits)
  from this [OF f] show "definition_by_uuid T (def_uuid d) (Some (def_version d)) db = Inr d"
    using ok P assms(2,3) by (simp add: definition_by_uuid_def)
qed

lemma find_snoc: "\<forall>x\<in>set xs. \<not> P x \<Longrightarrow> List.find P (xs @ [y]) = (if P y then Some y else None)"
  by (induction xs) auto

text \<open>A database and surroundings in which a new instance and its records are new.\<close>

definition fresh_start :: "wf_world \<Rightarrow> bool" where
  "fresh_start w \<longleftrightarrow> ids_ok (w_db w) \<and> 0 < db_next_id (w_db w) \<and>
     (\<forall>k\<ge>w_calls w. m_uuid (moments (w_env w) k) \<noteq> uuid_nil \<and> m_uuid (moments (w_env w) k) \<notin> inst_uuid ` set (db_instances (w_db w)) \<and>
        m_uuid (moments (w_env w) k) \<notin> rec_instance ` set (db_records (w_db w)))"

lemma start_ready: "validate_steps raw = Inr v \<Longrightarrow> set (start_step_ids v) = ready v {}"
  using validationD(4) by (auto simp: ready_def preds_def)

lemma ok_start_instance:
  assumes u: "undisturbed (w_env w)" "undispatched (w_env w) v" and fresh: "fresh_start w"
    and tenant: "tenant_of (st_tenant i) = T" "T \<noteq> []"
    and d: "definition_by_uuid T (st_definition i) (given_version (st_version i)) (w_db w) = Inr d" "0 < def_version d"
      "def_status d = ''published''" "stored_graph d = Inr v"
  shows "ok (start_instance i) w (\<lambda>r w'. \<exists>inst. r = Inr inst \<and> job_rows (inst_uuid inst) (ready v {}) {} {} (time_of w') (w_db w') \<and>
    job_instance T (inst_uuid inst) v ''running'' (w_db w'))"
proof -
  have norm: "normalize_tenant (st_tenant i) = Inr T" and T: "tenant_of T = T" using tenant by (auto simp: normalize_tenant_def)
  obtain raw where raw: "validate_steps raw = Inr v"
    using d(4) by (auto simp: stored_graph_def map_err_def split: option.splits sum.splits)
  have uid: "st_definition i \<noteq> uuid_nil" "def_uuid d \<noteq> uuid_nil" using definition_again [OF d(1,2) T] by simp_all
  let ?k = "Suc (Suc (w_calls w))"
  define u' where "u' = m_uuid (moments (w_env w) ?k)"
  let ?now = "m_now (moments (w_env w) (Suc (w_calls w)))"
  define inst where "inst = (new_instance i T d v ?now)\<lparr>inst_uuid := u'\<rparr>"
  let ?db = "(w_db w)\<lparr>db_instances := db_instances (w_db w) @ [inst]\<rparr>"
  have u': "u' \<noteq> uuid_nil" "u' \<notin> inst_uuid ` set (db_instances (w_db w))" "u' \<notin> rec_instance ` set (db_records (w_db w))"
    using fresh by (simp_all add: fresh_start_def u'_def)
  have created: "create_instance u' (new_instance i T d v ?now) (w_db w) = (Inr inst, ?db)"
    using u' uid by (simp add: create_instance_def new_instance_def inst_def Let_def)
  have inst: "inst_uuid inst = u'" "inst_definition inst = def_uuid d" "inst_version inst = def_version d" "inst_state inst = ''running''"
      "inst_tenant inst = T" by (simp_all add: inst_def new_instance_def)
  have rows: "job_rows u' {} {} {} t ?db" for t
  proof -
    have "rows_of u' (w_db w) = []" using u'(3) by (auto simp: filter_empty_conv)
    then show ?thesis using fresh by (simp add: job_rows_def fresh_start_def ids_ok_def)
  qed
  have "definition_by_uuid T uid ver ?db = definition_by_uuid T uid ver (w_db w)" for uid ver by (simp add: definition_by_uuid_def)
  moreover have "List.find (\<lambda>i. inst_uuid i = u') (db_instances (w_db w) @ [inst]) = Some inst"
    using u'(2) inst(1) by (subst find_snoc) (auto simp: image_iff)
  ultimately have job: "job_instance T u' v ''running'' ?db"
    using definition_again(1) [OF d(1,2) T] u'(1) T tenant(2) inst d(4) by (auto simp: job_instance_def)
  let ?w1 = "w\<lparr>w_calls := Suc (w_calls w)\<rparr>" let ?w2 = "w\<lparr>w_calls := Suc (Suc (w_calls w))\<rparr>"
  let ?w3 = "w\<lparr>w_db := ?db, w_calls := Suc (Suc (Suc (w_calls w)))\<rparr>"
  have und3: "undisturbed (w_env ?w3)" "undispatched (w_env ?w3) v" using u by simp_all
  have "?now \<le> time_of ?w3"
    using later_time [of ?w1 ?w3] u(1) by (simp add: later_def time_of_def)
  then have steps: "ok (start_steps i inst v ?now (start_step_ids v)) ?w3 (\<lambda>r w'. \<exists>rs. r = Inr rs \<and>
      job_rows u' ({} \<union> set (start_step_ids v)) {} {} (time_of w') (w_db w') \<and> job_instance T u' v ''running'' (w_db w'))"
    using validationD(4,6) [OF raw] rows job
    by (intro ok_start_steps [OF raw inst(1) u'(1) und3]) auto
  have tail: "ok (do { publish u' ''workflow.instance.started'' []; publish_queued u' rs;
      publish u' ''workflow.instance.started'' (inst_current_step inst); (returns inst :: (wf_error + workflow_instance) wf) }) w4
      (\<lambda>r w'. \<exists>inst. r = Inr inst \<and> job_rows (inst_uuid inst) (ready v {}) {} {} (time_of w') (w_db w') \<and>
        job_instance T (inst_uuid inst) v ''running'' (w_db w'))"
    if "undisturbed (w_env w4)" "job_rows u' (ready v {}) {} {} (time_of w4) (w_db w4)" "job_instance T u' v ''running'' (w_db w4)" for rs w4
  proof -
    let ?P = "\<lambda>w'. later w4 w' \<and> w_db w' = w_db w4"
    have pub: "ok (publish u' ty sid) w' (\<lambda>_. ?P)" if "?P w'" for ty sid w'
      using that by (intro ok_publish) (simp add: later_def)
    have "ok (publish_queued u' rs) w' (\<lambda>_. ?P)" if "?P w'" for w'
      using that by (intro ok_mono [OF ok_publish_queued]) (auto elim: later_trans)
    note all = ok_bind [OF pub] ok_bind [OF this]
    show ?thesis
      apply (rule all(1), simp, rule all(2), simp, rule all(1), simp)
      using that later_time [OF that(1)] job_rows_later by (fastforce simp: inst(1))
  qed
  show ?thesis unfolding start_instance_def norm attempt_result sum.case require_def using uid(1)
    apply (simp only: if_True not_False_eq_True simp_thms)
    apply (rule ok_attempt [where P = "\<lambda>y w1. y = d \<and> w1 = ?w1"])
     apply (rule ok_db_read [where r = "Inr d"], rule u(1), rule d(1), simp)
    apply (simp only: d(3,4) if_True attempt_result sum.case simp_thms)
    apply (rule ok_bind [where P = "\<lambda>y w2. y = ?now \<and> w2 = ?w2"])
     apply (rule ok_clock, simp add: u(1), simp add: time_of_def)
    apply (rule ok_attempt [where P = "\<lambda>y w2. y = inst \<and> w2 = ?w3"])
    subgoal for _ _ _ _ by (rule ok_db_call [where r = "Inr inst" and db' = ?db]) (simp_all add: u(1) created [unfolded u'_def])
    subgoal premises p for _ _ t _ y w3
    proof -
      have y: "y = inst" "w3 = ?w3" "t = ?now" using p by simp_all
      show ?thesis unfolding y inst(1)
        by (rule ok_attempt, rule ok_mono [OF steps]) (use start_ready [OF raw] tail und3(1) in \<open>auto simp: later_def\<close>)
    qed
    done
qed

text \<open>Of the rows of a job that is through, each step has one, and it is completed.\<close>

lemma one_completed_row:
  assumes "job_rows u (step_names v) (step_names v) {} t db" "s \<in> set (v_steps v)"
  shows "\<exists>r. [r \<leftarrow> db_records db. rec_instance r = u \<and> rec_step r = step_id s] = [r] \<and> rec_state r = ''completed''"
proof -
  have "step_id s \<in> rec_step ` set (rows_of u db)" using assms by (auto simp: job_rows_def)
  then obtain r where q: "r \<in> set (rows_of u db)" "rec_step r = step_id s" by auto
  have "[q \<leftarrow> rows_of u db. rec_step q = rec_step r] = [r]"
    by (rule filter_unique [OF _ q(1)]) (use assms(1) in \<open>simp add: job_rows_def\<close>)
  moreover have "rec_state r = ''completed''" using assms(1) q assms(2) by (auto simp: job_rows_def)
  ultimately show ?thesis using q(2) by simp
qed

text \<open>C15: A published workflow whose successors and dependencies agree, without decision and human steps and without
  agent steps that name an agent, runs to its end: when its nodes succeed without selecting branches, no call fails, no
  other process acts and the instance's UUID is new, \<open>StartInstance\<close> followed by one \<open>DrainDueSteps\<close> for the instance, with at least
  as many iterations as the workflow has steps, returns without an error after it completed every step exactly once,
  and leaves one completed record for each step and an instance that succeeded.\<close>

theorem started_workflow_completes:
  assumes "undisturbed (w_env w)" "undispatched (w_env w) v" "nodes_succeed (w_env w) v" "plain_workflow v" "fresh_start w"
    and "tenant_of (st_tenant i) = T" "T \<noteq> []"
    and "definition_by_uuid T (st_definition i) (given_version (st_version i)) (w_db w) = Inr d" "0 < def_version d"
      "def_status d = ''published''" "stored_graph d = Inr v"
    and "run_state (start_instance i) w = (x, w1)"
  shows "\<exists>inst. x = Inr inst \<and> (\<forall>(opts :: runner_options) n. opt_complete opts \<and> opt_router opts = None \<and> opt_target opts = inst_uuid inst \<and>
      \<not> blank (opt_lease_owner opts) \<and> int (length (v_steps v)) \<le> n \<longrightarrow>
    (let ((res, err), w2) = run_state (drain_due_steps opts n) w1 in err = None \<and>
       res = no_steps_run\<lparr>leased := length (v_steps v), completed := length (v_steps v)\<rparr> \<and>
       (\<forall>s\<in>set (v_steps v). \<exists>r. [r \<leftarrow> db_records (w_db w2). rec_instance r = inst_uuid inst \<and> rec_step r = step_id s] = [r] \<and>
          rec_state r = ''completed'') \<and>
       (\<exists>i. instance_any_tenant (inst_uuid inst) (w_db w2) = Inr i \<and> inst_state i = ''succeeded'')))"
proof -
  note start = ok_start_instance [OF assms(1,2,5-11)]
  obtain inst where inst: "x = Inr inst" "job_rows (inst_uuid inst) (ready v {}) {} {} (time_of w1) (w_db w1)"
      "job_instance T (inst_uuid inst) v ''running'' (w_db w1)" and l: "later w w1"
    using start unfolding ok_def assms(12) by auto
  obtain raw where raw: "validate_steps raw = Inr v"
    using assms(11) by (auto simp: stored_graph_def map_err_def split: option.splits sum.splits)
  have env: "undisturbed (w_env w1)" "nodes_succeed (w_env w1) v" using l assms(1,3) by (simp_all add: later_def)
  have d: "distinct (map step_id (v_steps v))" using validationD(1) [OF raw] by (simp add: workflow_graph_def)
  then have card: "card (step_names v) = length (v_steps v)" by (metis distinct_card length_map set_map)
  have some: "v_steps v \<noteq> []" using raw validationD(2) [OF raw] validate_steps_Inr by auto
  have running: "settled v {} = ''running''" using ready_closed [OF raw, of "{}"] some by auto
  show ?thesis
  proof (intro exI conjI allI impI, rule inst(1))
    fix opts :: runner_options and n assume o: "opt_complete opts \<and> opt_router opts = None \<and> opt_target opts = inst_uuid inst \<and>
      \<not> blank (opt_lease_owner opts) \<and> int (length (v_steps v)) \<le> n"
    obtain r where r: "new_runner opts = Inr r" "r_router r = new_executor_router" "r_target r = inst_uuid inst" "\<not> blank (r_lease_owner r)"
      using o by (simp add: new_runner_def)
    have n: "\<not> n \<le> 0" using o some by (cases "v_steps v") auto
    then have prog: "drain_due_steps opts n = drain_loop (nat n) r no_steps_run" by (simp add: drain_due_steps_def r(1))
    have le: "card (step_names v - {}) \<le> nat n" using o card n by (simp add: le_nat_iff)
    have run: "ok (drain_loop (nat n) r no_steps_run) w1 (\<lambda>(x, e) w'. e = None \<and>
        x = add_results no_steps_run (no_steps_run\<lparr>leased := card (step_names v - {}), completed := card (step_names v - {})\<rparr>) \<and>
        job_rows (inst_uuid inst) (step_names v) (step_names v) {} (time_of w') (w_db w') \<and>
        job_instance T (inst_uuid inst) v ''succeeded'' (w_db w'))"
      by (rule ok_drain_loop [OF raw assms(4) r(2-4) env inst(2) _ _ _ le]) (use inst(3) running in simp_all)
    obtain res err w2 where out: "run_state (drain_loop (nat n) r no_steps_run) w1 = ((res, err), w2)" by (metis surj_pair)
    have fin: "err = None" "res = no_steps_run\<lparr>leased := length (v_steps v), completed := length (v_steps v)\<rparr>"
        "job_rows (inst_uuid inst) (step_names v) (step_names v) {} (time_of w2) (w_db w2)"
        "job_instance T (inst_uuid inst) v ''succeeded'' (w_db w2)"
      using run unfolding ok_def out by (simp_all add: add_results_def no_steps_run_def card)
    show "let ((res, err), w2) = run_state (drain_due_steps opts n) w1 in err = None \<and>
       res = no_steps_run\<lparr>leased := length (v_steps v), completed := length (v_steps v)\<rparr> \<and>
       (\<forall>s\<in>set (v_steps v). \<exists>r. [r \<leftarrow> db_records (w_db w2). rec_instance r = inst_uuid inst \<and> rec_step r = step_id s] = [r] \<and>
          rec_state r = ''completed'') \<and>
       (\<exists>i. instance_any_tenant (inst_uuid inst) (w_db w2) = Inr i \<and> inst_state i = ''succeeded'')"
      using fin one_completed_row [OF fin(3)] unfolding prog out by (auto simp: job_instance_def instance_any_tenant_def)
  qed
qed

definition published :: "step_definition list \<Rightarrow> workflow_definition" where
  "published steps = (draft ''t'' ''demo'' [] 1 steps ''u'')\<lparr>def_uuid := ''d1'', def_status := ''published''\<rparr>"

definition demo_db :: "step_definition list \<Rightarrow> wf_db" where
  "demo_db steps = \<lparr>db_records = [], db_next_id = 1, db_instances = [], db_definitions = [published steps],
     db_assignments = [], db_compensations = [], db_reviews = []\<rparr>"

definition demo_world :: "step_definition list \<Rightarrow> wf_world" where
  "demo_world steps = \<lparr>w_db = demo_db steps, w_calls = 0, w_leased = [], w_executed = [], w_events = [], w_env = demo_env\<rparr>"

definition demo_start :: start_input where
  "demo_start = \<lparr>st_tenant = '' T '', st_definition = ''d1'', st_version = 1, st_initiator = uuid_nil, st_agent = uuid_nil,
     st_trace = [], st_input = [(''x'', Str ''y'')], st_correlation = []\<rparr>"

definition demo_options :: "string \<Rightarrow> runner_options" where
  "demo_options u = \<lparr>opt_complete = True, opt_router = None, opt_target = u, opt_lease_owner = ''me'', opt_lease_duration = 0, opt_batch_size = 0\<rparr>"

lemma demo_nodes:
  assumes "list_all (\<lambda>s. is_ok (adapter_for (adapters demo_env) (node_kind s))) (v_steps v)"
  shows "nodes_succeed demo_env v"
proof -
  have one: "a = demo_node" if "adapter_for (adapters demo_env) k = Inr a" for k a
    using that by (auto simp: adapter_for_def demo_env_def Let_def split: if_splits option.splits)
  have "\<exists>a. adapter_for (adapters demo_env) (node_kind s) = Inr a \<and> a = demo_node" if "s \<in> set (v_steps v)" for s
    using assms that one by (auto simp: list_all_iff is_ok_iff)
  moreover have "trim_space (to_lower ''succeeded'') = ''succeeded''" by code_simp
  ultimately show ?thesis unfolding nodes_succeed_def by (fastforce simp: demo_node_def demo_env_def)
qed

lemma demo_env_undisturbed: "undisturbed demo_env"
  by (simp add: undisturbed_def demo_env_def)

theorem started_workflow_completes_witness:
  "\<exists>inst w1 w2 res. run_state (start_instance demo_start) (demo_world demo_workflow) = (Inr inst, w1) \<and>
     run_state (drain_due_steps (demo_options (inst_uuid inst)) 3) w1 = ((res, None), w2) \<and> completed res = 3"
proof -
  obtain v where v: "validate_steps demo_workflow = Inr v" using demo_workflow_accepted by blast
  have vs: "v_steps v = map normalized demo_workflow" by (rule validationD(2) [OF v])
  define d where "d = published demo_workflow"
  have json: "map json_step demo_workflow = demo_workflow"
    by (simp add: demo_workflow_def demo_step_def json_step_def)
  have nodes: "list_all (\<lambda>s. is_ok (adapter_for (adapters demo_env) (node_kind s))) (v_steps v)" unfolding vs by code_simp
  have types: "list_all (\<lambda>s. to_lower (step_type s) \<noteq> ''agent'') (v_steps v)" unfolding vs by code_simp
  have plain: "plain_workflow v" unfolding plain_workflow_def vs by code_simp
  have stored: "stored_graph d = Inr v" by (simp add: d_def published_def draft_def stored_graph_def json v map_err_def)
  have tenant: "tenant_of (st_tenant demo_start) = ''t''" by code_simp
  have t: "tenant_of ''t'' = ''t''" "\<not> blank ''t''" by code_simp+
  have found: "definition_by_uuid ''t'' (st_definition demo_start) (given_version (st_version demo_start)) (w_db (demo_world demo_workflow)) = Inr d"
    by (simp add: demo_world_def demo_db_def demo_start_def definition_by_uuid_def t given_version_def d_def published_def draft_def uuid_nil_def)
  have fresh: "fresh_start (demo_world demo_workflow)"
    by (simp add: fresh_start_def demo_world_def demo_db_def demo_env_def ids_ok_def uuid_nil_def)
  obtain x w1 where run: "run_state (start_instance demo_start) (demo_world demo_workflow) = (x, w1)" by fastforce
  have env: "w_env (demo_world demo_workflow) = demo_env" by (simp add: demo_world_def)
  have "undispatched demo_env v" using types by (auto simp: undispatched_def list_all_iff)
  then obtain inst where inst: "x = Inr inst" and all: "\<forall>(opts :: runner_options) n. opt_complete opts \<and> opt_router opts = None \<and>
      opt_target opts = inst_uuid inst \<and> \<not> blank (opt_lease_owner opts) \<and> int (length (v_steps v)) \<le> n \<longrightarrow>
    (let ((res, err), w2) = run_state (drain_due_steps opts n) w1 in err = None \<and>
       res = no_steps_run\<lparr>leased := length (v_steps v), completed := length (v_steps v)\<rparr> \<and>
       (\<forall>s\<in>set (v_steps v). \<exists>r. [r \<leftarrow> db_records (w_db w2). rec_instance r = inst_uuid inst \<and> rec_step r = step_id s] = [r] \<and>
          rec_state r = ''completed'') \<and>
       (\<exists>i. instance_any_tenant (inst_uuid inst) (w_db w2) = Inr i \<and> inst_state i = ''succeeded''))"
    using started_workflow_completes [of "demo_world demo_workflow" v demo_start "''t''" d x w1] demo_env_undisturbed demo_nodes [OF nodes]
      plain fresh tenant found stored run unfolding env by (auto simp: d_def published_def draft_def)
  have three: "length (v_steps v) = 3" by (simp add: vs demo_workflow_def)
  have "\<not> blank ''me''" by code_simp
  then have "let ((res, err), w2) = run_state (drain_due_steps (demo_options (inst_uuid inst)) 3) w1 in err = None \<and> completed res = 3"
    using all [rule_format, of "demo_options (inst_uuid inst)" 3] by (auto simp: demo_options_def three Let_def split: prod.splits)
  then show ?thesis using run inst by (auto simp: Let_def split: prod.splits)
qed

end
