(* ===== verification/WorkflowControl.thy ===== *)
theory WorkflowControl imports WorkflowService begin

section \<open>Control of instances, compensation and human review\<close>

text \<open>
  \<open>service_control.go\<close>, \<open>compensation.go\<close> and \<open>human_review.go\<close>: what an operator, a failed step or
  a reviewer does to an instance that is already running.
\<close>

subsection \<open>Definitions of a running instance\<close>

definition load_definition_context :: "workflow_instance \<Rightarrow> (wf_error + workflow_definition \<times> validation) wf" where
  "load_definition_context inst = attempt (db_read (definition_by_uuid (inst_tenant inst) (inst_definition inst) (Some (inst_version inst))))
     (\<lambda>d. attempt (State_Monad.return (stored_graph d)) (\<lambda>v. returns (d, v)))"

definition known_step :: "validation \<Rightarrow> string \<Rightarrow> wf_error + step_definition" where
  "known_step v sid = (case step_by_id v sid of None \<Rightarrow> Inl (StepUnknown sid) | Some s \<Rightarrow> Inr s)"

subsection \<open>Compensation\<close>

definition pending_compensation :: "step_definition \<Rightarrow> step_record \<Rightarrow> string \<Rightarrow> string \<Rightarrow> step_compensation" where
  "pending_compensation step record by notes = \<lparr>comp_id = 0, comp_record = rec_id record, comp_state = ''pending'',
     comp_handler = step_id step, comp_initiated_by = by, comp_notes = notes, comp_completed_at = None\<rparr>"

definition start_compensation ::
  "workflow_instance \<Rightarrow> step_definition \<Rightarrow> step_compensation \<Rightarrow> string \<Rightarrow> string \<Rightarrow> (wf_error + step_compensation) wf" where
  "start_compensation inst step c reason event = attempt (db_call (\<lambda>_. create_compensation c)) (\<lambda>created.
     attempt (set_instance inst ''compensating'' (\<lambda>i. i\<lparr>inst_last_error := reason\<rparr>)) (\<lambda>_. do {
       publish (inst_uuid inst) ''workflow.instance.compensating'' (step_id step);
       publish (inst_uuid inst) event (step_id step);
       returns created }))"

definition trigger_compensation :: "workflow_instance \<Rightarrow> step_definition \<Rightarrow> step_record \<Rightarrow> string \<Rightarrow> (wf_error + step_compensation) wf" where
  "trigger_compensation inst step record reason = require (compensatable step) (NotCompensatable (step_id step))
     (start_compensation inst step (pending_compensation step record ''auto'' reason) reason ''workflow.step.compensation_triggered'')"

definition create_manual_compensation ::
  "workflow_instance \<Rightarrow> step_definition \<Rightarrow> step_record \<Rightarrow> string \<Rightarrow> string \<Rightarrow> (wf_error + step_compensation) wf" where
  "create_manual_compensation inst step record operator reason =
     start_compensation inst step (pending_compensation step record ''operator''
       (if operator = uuid_nil then reason else reason @ '' (operator='' @ operator @ '')'')) reason ''workflow.step.compensation_requested''"

definition complete_compensation :: "workflow_instance \<Rightarrow> step_compensation \<Rightarrow> bool \<Rightarrow> string \<Rightarrow> (wf_error + unit) wf" where
  "complete_compensation inst row success notes = do {
     now \<leftarrow> (if success then clock else State_Monad.return 0);
     attempt (db_call (\<lambda>_. update_compensation (comp_id row) (if success then ''completed'' else ''failed'')
         (\<lambda>c. (if success then c\<lparr>comp_completed_at := Some now\<rparr> else c)\<lparr>comp_notes := notes\<rparr>))) (\<lambda>_.
     attempt (if success then set_instance inst ''compensated'' (\<lambda>i. i)
         else set_instance inst ''compensation_failed'' (\<lambda>i. i\<lparr>inst_last_error := notes\<rparr>)) (\<lambda>_. do {
       publish (inst_uuid inst) (if success then ''workflow.step.compensation_completed'' else ''workflow.step.compensation_failed'') [];
       returns () })) }"

subsection \<open>Control by an operator\<close>

text \<open>The retry's subject is read off the type of the step: only agents and humans are named.\<close>

definition retry_subject :: "step_definition \<Rightarrow> string" where
  "retry_subject step = (let t = to_lower (step_type step) in if t = ''agent'' \<or> t = ''human'' then t else ''system'')"

definition retry_record :: "workflow_instance \<Rightarrow> step_definition \<Rightarrow> int \<Rightarrow> object \<Rightarrow> step_record" where
  "retry_record inst step now payload = (queued_record inst step SystemExecutor now payload)\<lparr>rec_subject_type := retry_subject step\<rparr>"

definition raw_capability :: "step_definition \<Rightarrow> string" where
  "raw_capability step = (case config step of None \<Rightarrow> [] | Some c \<Rightarrow> (case index c ''capability'' of Str s \<Rightarrow> s | _ \<Rightarrow> []))"

definition manual_retry_step :: "string \<Rightarrow> workflow_instance \<Rightarrow> string \<Rightarrow> object \<Rightarrow> (wf_error + unit) wf" where
  "manual_retry_step raw_tenant inst sid payload = attempt (State_Monad.return (normalize_tenant raw_tenant)) (\<lambda>tenant.
     attempt (load_definition_context inst) (\<lambda>(_, v).
     attempt (State_Monad.return (known_step v sid)) (\<lambda>step. do {
       now \<leftarrow> clock;
       attempt (db_call (\<lambda>_. append_record (retry_record inst step now payload))) (\<lambda>created. do {
       env \<leftarrow> environment;
       let agent = fst (extract_agent_config (parse_uuid env) step);
       attempt (if retry_subject step = ''agent'' \<and> agent \<noteq> uuid_nil
           then attempt (dispatch tenant (inst_uuid inst) (rec_id created) agent (raw_capability step)) (\<lambda>_. returns ())
           else returns ()) (\<lambda>_.
       attempt (set_instance inst ''running'' (\<lambda>i. i\<lparr>inst_current_step := sid\<rparr>)) (\<lambda>_. do {
         publish (inst_uuid inst) ''workflow.step.retry_requested'' (step_id step);
         returns () })) }) })))"

definition manual_trigger_compensation :: "workflow_instance \<Rightarrow> string \<Rightarrow> string \<Rightarrow> string \<Rightarrow> (wf_error + unit) wf" where
  "manual_trigger_compensation inst sid operator reason = attempt (load_definition_context inst) (\<lambda>(_, v).
     attempt (State_Monad.return (known_step v sid)) (\<lambda>step.
     attempt (list_records (inst_uuid inst)) (\<lambda>rs.
     case List.find (\<lambda>r. rec_step r = sid) (rev rs) of
       None \<Rightarrow> raise (NoExecution sid)
     | Some target \<Rightarrow> attempt (create_manual_compensation inst step target operator reason) (\<lambda>_. returns ()))))"

record control_input =
  ct_tenant :: string
  ct_instance :: string
  ct_action :: string
  ct_operator :: string
  ct_step :: string
  ct_reason :: string
  ct_payload :: object

definition set_state :: "workflow_instance \<Rightarrow> string \<Rightarrow> string \<Rightarrow> string \<Rightarrow> (wf_error + unit) wf" where
  "set_state inst next reason event = attempt (set_instance inst next (\<lambda>i. i\<lparr>inst_last_error := reason\<rparr>)) (\<lambda>_. do {
     publish (inst_uuid inst) event [];
     publish (inst_uuid inst) event (inst_current_step inst);
     returns () })"

definition control_action :: "string \<Rightarrow> workflow_instance \<Rightarrow> control_input \<Rightarrow> (wf_error + unit) wf" where
  "control_action tenant inst c = (let action = to_lower (trim_space (ct_action c)); reason = trim_space (ct_reason c) in
     if action = ''pause'' then set_state inst ''suspended'' reason ''workflow.instance.paused''
     else if action = ''resume'' then set_state inst ''running'' [] ''workflow.instance.resumed''
     else if action = ''cancel'' then set_state inst ''canceled'' reason ''workflow.instance.canceled''
     else if action = ''retry_step'' then require (ct_step c \<noteq> []) (BadArgument ''step_id is required for retry_step'')
       (manual_retry_step tenant inst (ct_step c) (ct_payload c))
     else if action = ''trigger_compensation'' then require (ct_step c \<noteq> []) (BadArgument ''step_id is required for trigger_compensation'')
       (manual_trigger_compensation inst (ct_step c) (ct_operator c) (ct_reason c))
     else raise (ActionUnsupported (ct_action c)))"

definition control_instance :: "control_input \<Rightarrow> (wf_error + workflow_instance) wf" where
  "control_instance c = attempt (State_Monad.return (normalize_tenant (ct_tenant c))) (\<lambda>tenant.
     require (ct_instance c \<noteq> uuid_nil) (BadArgument ''instance uuid is required'') (
     attempt (db_read (instance_by_uuid tenant (ct_instance c))) (\<lambda>inst.
     attempt (control_action tenant inst c) (\<lambda>_.
     db_read (instance_by_uuid tenant (ct_instance c))))))"

subsection \<open>Failed steps\<close>

text \<open>
  The attempts a policy allows. A number of a JSON column is a floating-point number, whose
  integer part counts; one that no \<open>int\<close> holds converts to a value that is not positive.
\<close>

definition to_int :: "any \<Rightarrow> int" where
  "to_int v = (case v of
     Scalar t \<Rightarrow> if CHR ''e'' \<in> set t then 0 else (case atoi (takeWhile (\<lambda>c. c \<noteq> CHR ''.'') t) of Some n \<Rightarrow> n | None \<Rightarrow> 0)
   | _ \<Rightarrow> 0)"

definition max_attempts :: "any \<Rightarrow> int" where
  "max_attempts policy = (let v = (case policy of Obj m \<Rightarrow> to_int (index m ''max_attempts'') | _ \<Rightarrow> 0) in if v > 0 then v else 3)"

record failure_result =
  retry_scheduled :: bool
  compensation_triggered :: bool
  next_attempt :: int

definition schedule_retry :: "workflow_instance \<Rightarrow> step_record \<Rightarrow> int \<Rightarrow> (wf_error + unit) wf" where
  "schedule_retry inst record attempt_no = State (\<lambda>w. (case retry_queue (w_env w) of
     None \<Rightarrow> Inl RetryUnavailable
   | Some q \<Rightarrow> (case q (w_calls w) (inst_uuid inst) (rec_id record) attempt_no of Some e \<Rightarrow> Inl (DbError e) | None \<Rightarrow> Inr ()), w))"

definition failure_of :: "int \<Rightarrow> string \<Rightarrow> int \<Rightarrow> step_record \<Rightarrow> step_record" where
  "failure_of attempt_no reason now r = r\<lparr>rec_attempt := attempt_no, rec_failure_reason := trim_space reason, rec_completed_at := Some now\<rparr>"

definition handle_step_failure ::
  "string \<Rightarrow> string \<Rightarrow> nat \<Rightarrow> string \<Rightarrow> string \<Rightarrow> (wf_error + failure_result) wf" where
  "handle_step_failure raw_tenant inst_id rid sid reason = attempt (State_Monad.return (normalize_tenant raw_tenant)) (\<lambda>tenant.
     require (\<not> (inst_id = uuid_nil \<or> rid = 0 \<or> blank sid)) (BadArgument ''invalid failure input'') (
     attempt (db_read (instance_by_uuid tenant inst_id)) (\<lambda>inst.
     attempt (db_read (record_by_id rid)) (\<lambda>record.
     require (rec_instance record = inst_uuid inst) (ForeignStep (rec_id record)) (
     attempt (load_definition_context inst) (\<lambda>(d, v).
     attempt (State_Monad.return (known_step v sid)) (\<lambda>step. let att = max (rec_attempt record) 0 + 1 in do {
       now \<leftarrow> clock;
       attempt (update_record (rec_id record) ''failed'' (failure_of att reason now)) (\<lambda>_.
       if att < max_attempts (def_retry d) then
         attempt (schedule_retry inst record (att + 1)) (\<lambda>_.
         attempt (set_instance inst ''waiting'' (\<lambda>i. i\<lparr>inst_last_error := trim_space reason\<rparr>)) (\<lambda>_. do {
           publish (inst_uuid inst) ''workflow.step.retry_scheduled'' (step_id step);
           returns \<lparr>retry_scheduled = True, compensation_triggered = False, next_attempt = att + 1\<rparr> }))
       else attempt (trigger_compensation inst step record (trim_space reason)) (\<lambda>_.
         returns \<lparr>retry_scheduled = False, compensation_triggered = True, next_attempt = 0\<rparr>)) })))))))"

subsection \<open>Human review\<close>

definition normalize_review_action :: "string \<Rightarrow> string" where
  "normalize_review_action raw = (let a = to_lower (trim_space raw) in
     if a = ''approve'' \<or> a = ''approved'' then ''approve''
     else if a = ''reject'' \<or> a = ''rejected'' then ''reject''
     else if a = ''request_changes'' \<or> a = ''changes_requested'' then ''request_changes''
     else if a = ''cancel'' \<or> a = ''canceled'' then ''cancel'' else [])"

definition review_status :: "string \<Rightarrow> string" where
  "review_status a = (if a = ''approve'' then ''approved'' else if a = ''reject'' then ''rejected''
     else if a = ''request_changes'' then ''changes_requested'' else if a = ''cancel'' then ''canceled'' else [])"

definition review_decision :: "string \<Rightarrow> string" where
  "review_decision a = (if a = ''approve'' then ''approved'' else if a = ''reject'' then ''rejected'' else a)"

definition put :: "string \<Rightarrow> any \<Rightarrow> object \<Rightarrow> object" where
  "put k v m = AList.update k v m"

definition review_payload :: "step_record \<Rightarrow> review_task \<Rightarrow> string \<Rightarrow> object \<Rightarrow> object" where
  "review_payload record task action decided = (let
       out = (if rec_payload_in record = [] then task_payload task else rec_payload_in record);
       review = put ''workflow_instance_uuid'' (Str (task_instance task)) (put ''step_id'' (Str (task_step task)) (put ''action'' (Str action) decided))
     in put ''review'' (Obj review) (put ''decision'' (Str (review_decision action)) out))"

definition review_result :: "string \<Rightarrow> object \<Rightarrow> step_result" where
  "review_result action payload = \<lparr>sr_status = ''succeeded'', sr_decision = action, sr_output = payload, selected_branches = [],
     approved = action = ''approve'', has_approval = True\<rparr>"

definition review_runner :: runner where
  "review_runner = \<lparr>r_router = new_executor_router, r_target = uuid_nil, r_lease_owner = ''workflow-review-action'',
     r_lease_ttl = default_lease_duration, r_batch_size = default_batch_size\<rparr>"

definition or_error :: "wf_error option wf \<Rightarrow> (wf_error + unit) wf" where
  "or_error m = do { e \<leftarrow> m; State_Monad.return (case e of Some e \<Rightarrow> Inl e | None \<Rightarrow> Inr ()) }"

text \<open>Every batch drains the due steps of all instances, and the last one settles the reviewed instance.\<close>

fun review_drain :: "nat \<Rightarrow> workflow_instance \<Rightarrow> (wf_error + unit) wf" where
  "review_drain 0 inst = or_error (converge_instance_state inst)"
| "review_drain (Suc n) inst = do {
     (current, err) \<leftarrow> run_due_steps review_runner;
     case err of Some e \<Rightarrow> raise e
     | None \<Rightarrow> if leased current = 0 \<or> 0 < waiting current \<or> 0 < failed current then or_error (converge_instance_state inst)
         else review_drain n inst }"

definition cancel_review :: "workflow_instance \<Rightarrow> step_record \<Rightarrow> (wf_error + unit) wf" where
  "cancel_review inst record = attempt (update_record (rec_id record) ''failed'' (\<lambda>r. r\<lparr>rec_awaiting_human := False,
       rec_error_code := ''workflow.human_review_canceled'', rec_error_message := ''workflow.human_review_canceled''\<rparr>)) (\<lambda>_. do {
     now \<leftarrow> clock;
     attempt (set_instance inst ''failed'' (\<lambda>i. i\<lparr>inst_current_step := rec_step record,
         inst_last_error := ''workflow.human_review_canceled'', inst_completed_at := Some now\<rparr>)) (\<lambda>_. do {
       publish (inst_uuid inst) ''workflow.step.failed'' (rec_step record);
       returns () }) })"

definition resume_after_review ::
  "workflow_instance \<Rightarrow> validation \<Rightarrow> step_record \<Rightarrow> string list \<Rightarrow> object \<Rightarrow> (wf_error + unit) wf" where
  "resume_after_review inst v record sids payload =
     attempt (update_record (rec_id record) ''completed'' (\<lambda>r. r\<lparr>rec_payload_out := json_column payload, rec_awaiting_human := False\<rparr>)) (\<lambda>_. do {
       publish (inst_uuid inst) ''workflow.step.completed'' (rec_step record);
       attempt (or_error (enqueue_next_steps review_runner inst v sids payload)) (\<lambda>_.
       review_drain (nat default_drain_limit) inst) })"

definition apply_review_decision :: "review_task \<Rightarrow> string \<Rightarrow> object \<Rightarrow> (wf_error + unit) wf" where
  "apply_review_decision task action decided = attempt (db_read (instance_by_uuid (task_tenant task) (task_instance task))) (\<lambda>inst.
     attempt (load_definition_context inst) (\<lambda>(_, v).
     attempt (State_Monad.return (known_step v (task_step task))) (\<lambda>step.
     attempt (find_latest (inst_uuid inst) (task_step task)) (\<lambda>record.
     require (rec_state record = ''waiting'') (StepNotWaiting (rec_state record)) (
     if action = ''cancel'' then cancel_review inst record
     else let payload = review_payload record task action decided in
       case next_steps new_executor_router step (review_result action payload) of
         Inl e \<Rightarrow> raise (RoutingFailed e)
       | Inr sids \<Rightarrow> resume_after_review inst v record sids payload)))))"

record review_input =
  rv_tenant :: string
  rv_task :: string
  rv_action :: string
  rv_reviewer :: string
  rv_comment :: string
  rv_payload :: object

definition act_review_task :: "review_input \<Rightarrow> (wf_error + review_task) wf" where
  "act_review_task i = attempt (State_Monad.return (normalize_tenant (rv_tenant i))) (\<lambda>tenant.
     require (rv_task i \<noteq> uuid_nil) (BadArgument ''workflow.review_task_uuid_required'') (
     require (rv_reviewer i \<noteq> uuid_nil) (BadArgument ''workflow.reviewer_uuid_required'') (
     let action = normalize_review_action (rv_action i) in
     require (action \<noteq> []) (BadArgument ''workflow.review_action_invalid'') (
     attempt (db_read (task_by_uuid tenant (rv_task i))) (\<lambda>task.
     require (task_status task = ''pending'') (TaskNotPending (task_status task)) (do {
       now \<leftarrow> clock;
       attempt (db_call (\<lambda>_. update_decision tenant (rv_task i) (review_status action) (\<lambda>t. t\<lparr>task_reviewer := rv_reviewer i,
           task_decision := action, task_decision_payload := json_column (rv_payload i), task_comment := trim_space (rv_comment i),
           task_completed_at := Some now\<rparr>))) (\<lambda>_.
       attempt (apply_review_decision task action (rv_payload i)) (\<lambda>_.
       db_read (task_by_uuid tenant (rv_task i)))) }))))))"

end
