(* ===== verification/WorkflowServiceSafety.thy ===== *)
theory WorkflowServiceSafety imports WorkflowSafety WorkflowControl begin

section \<open>What the service does to step records\<close>

text \<open>
  Every program of the service but one is a sequence of the statements of \<open>wf_step\<close>, so the assumption
  that \<open>WorkflowSafety\<close> makes about other processes holds of them: starting, controlling, failing,
  compensating and reviewing instances never puts a record back into the queue. The one is
  \<open>ProcessTimeouts\<close> of the assignment tracker, which is there to requeue.
\<close>

lemma quiet_same_data: "(\<And>w. w_db (snd (run_state m w)) = w_db w \<and> w_env (snd (run_state m w)) = w_env w \<and>
    w_executed (snd (run_state m w)) = w_executed w \<and> w_leased (snd (run_state m w)) = w_leased w) \<Longrightarrow> does quiet m"
  by (simp add: does_def quiet_def)

definition rows_kept :: "(wf_db \<Rightarrow> 'a \<times> wf_db) \<Rightarrow> bool" where
  "rows_kept f \<longleftrightarrow> (\<forall>db. db_records (snd (f db)) = db_records db \<and> db_next_id (snd (f db)) = db_next_id db)"

lemma quiet_rows_kept: "(\<And>m. rows_kept (f m)) \<Longrightarrow> does quiet (db_call f)"
  by (rule quiet_db_call) (auto simp: db_safe_def rows_kept_def intro!: r_into_rtranclp wf_step.Instances)

lemma rows_kept:
  "rows_kept (create_definition_row u d)" "rows_kept (update_definition tn u vn st upd)" "rows_kept (create_instance u i)"
  "rows_kept (create_assignment a)" "rows_kept (create_compensation c)" "rows_kept (update_compensation n st cupd)"
  "rows_kept (update_decision tn u st tupd)"
  by (simp_all add: rows_kept_def create_definition_row_def update_definition_def create_instance_def create_assignment_def
      create_compensation_def update_compensation_def update_decision_def Let_def)

lemmas quiet_rows [quiets] = rows_kept [THEN quiet_rows_kept]

lemma quiet_update_state:
  "keeps_record upd \<Longrightarrow> next \<in> set after_queue \<Longrightarrow> does quiet (update_record i next upd)"
  unfolding update_record_def by (rule quiet_db_call) (auto simp: db_safe_def intro!: r_into_rtranclp wf_step.Update)

subsection \<open>Definitions, dispatch and start\<close>

lemma quiet_store_definition [quiets]: "does quiet (store_definition d ev)"
  unfolding store_definition_def by (intro quiets)

lemma quiet_create_definition: "does quiet (create_definition i)"
  unfolding create_definition_def by (intro quiets)

lemma quiet_create_revision: "does quiet (create_definition_revision i)"
  unfolding create_definition_revision_def Let_def by (intro quiets)

lemma quiet_publish_definition: "does quiet (publish_definition tn u vn by note)"
  unfolding publish_definition_def by (intro quiets)

lemma quiet_grant [quiets]: "does quiet (grant_for tn ag cp)"
  unfolding grant_for_def by (rule quiet_same_data) simp

lemma quiet_dispatch [quiets]: "does quiet (dispatch tn inst rid ag cp)"
  unfolding dispatch_def by (intro quiets quiet_update_state) (simp_all add: keeps_record_def dispatched_def after_queue_def)

lemma quiet_new_records [quiets]:
  "does quiet (db_call (\<lambda>m. append_record (start_record inst s e now p)))"
  "does quiet (db_call (\<lambda>m. append_record (retry_record inst s now p)))"
  by (rule quiet_append, simp add: start_record_def retry_record_def queued_record_def)+

lemma quiet_start_steps [quiets]: "does quiet (start_steps i inst v now sids)"
  by (induction sids) (auto intro!: quiets simp: Let_def)

lemma quiet_publish_queued [quiets]: "does quiet (publish_queued inst rs)"
  by (induction rs) (auto intro!: quiets)

lemma quiet_start_instance: "does quiet (start_instance i)"
  unfolding start_instance_def by (intro quiets)

subsection \<open>Control, failure and compensation\<close>

lemma quiet_context [quiets]: "does quiet (load_definition_context inst)"
  unfolding load_definition_context_def by (intro quiets)

lemma quiet_compensation [quiets]:
  "does quiet (start_compensation inst step c reason ev)" "does quiet (trigger_compensation inst step record reason)"
  "does quiet (create_manual_compensation inst step record op reason)" "does quiet (complete_compensation inst c ok notes)"
  unfolding trigger_compensation_def create_manual_compensation_def complete_compensation_def start_compensation_def
  by (intro quiets)+

lemma quiet_control_instance: "does quiet (control_instance c)"
  unfolding control_instance_def control_action_def set_state_def manual_retry_step_def manual_trigger_compensation_def
    list_records_def Let_def by (intro quiets)

lemma quiet_schedule [quiets]: "does quiet (schedule_retry inst record n)"
  unfolding schedule_retry_def by (rule quiet_same_data) simp

lemma quiet_step_failure: "does quiet (handle_step_failure tn inst rid sid reason)"
  unfolding handle_step_failure_def Let_def
  by (intro quiets quiet_update_state) (simp_all add: keeps_record_def failure_of_def after_queue_def)

subsection \<open>Reviews, which also run what is due\<close>

definition on_path :: "wf_world \<Rightarrow> wf_world \<Rightarrow> bool" where
  "on_path w w' \<longleftrightarrow> (fair_others (w_env w) \<longrightarrow> w_env w' = w_env w \<and> wf_steps (w_db w) (w_db w'))"

interpretation path: call_logic on_path
  by unfold_locales (auto simp: on_path_def)

lemma path_quiet: "does quiet m \<Longrightarrow> does on_path m"
  by (auto simp: does_def quiet_def on_path_def)

lemma path_executes: "executes ids m \<Longrightarrow> does on_path m"
  by (rule doesI) (auto simp: executes_def on_path_def)

lemma path_run_due: "does on_path (run_due_steps r)"
  unfolding run_due_steps_def lease_call_def [symmetric]
  by (intro path.logic path_quiet [OF quiet_clock] path_quiet [OF quiet_lease_call] path_executes [OF executes_run_records])
     (simp add: does_def note_leased_def on_path_def)

lemma quiet_or_error [quiets]: "does quiet m \<Longrightarrow> does quiet (or_error m)"
  unfolding or_error_def by (intro quiets)

lemma path_settle: "does on_path (or_error (converge_instance_state inst))"
  by (rule path_quiet) (intro quiets)

lemma path_review_drain: "does on_path (review_drain n inst)"
proof (induction n)
  case (Suc n)
  then show ?case unfolding review_drain.simps
    by (intro path.logic path_run_due path_settle)
qed (simp add: path_settle)

lemma path_drain: "does on_path (drain_due_steps opts n)"
proof -
  have "does on_path (drain_loop n r acc)" for n r acc
    by (induction n arbitrary: acc) (auto simp: Let_def split: option.split intro!: path.logic path_run_due)
  then show ?thesis unfolding drain_due_steps_def Let_def by (intro path.logic)
qed

lemma quiet_review [quiets]:
  "does quiet (cancel_review inst record)"
  "does quiet (update_record i ''completed'' (\<lambda>r. r\<lparr>rec_payload_out := p, rec_awaiting_human := False\<rparr>))"
  unfolding cancel_review_def
  by (intro quiets quiet_update_state; simp add: keeps_record_def after_queue_def)+

lemma quiet_find_latest [quiets]: "does quiet (find_latest inst sid)"
  unfolding find_latest_def by (intro quiets)

lemma path_act_review: "does on_path (act_review_task i)"
  unfolding act_review_task_def apply_review_decision_def resume_after_review_def Let_def
  by (intro path.logic path_review_drain path_quiet quiets)

definition never_requeues :: "'a wf \<Rightarrow> bool" where
  "never_requeues m \<longleftrightarrow> (\<forall>w x w'. fair_others (w_env w) \<longrightarrow> run_state m w = (x, w') \<longrightarrow>
     (\<forall>i. left_queue i (w_db w) \<longrightarrow> left_queue i (w_db w')))"

lemma path_never_requeues: "does on_path m \<Longrightarrow> never_requeues m"
  unfolding never_requeues_def by (metis doesD on_path_def steps_keep(2))

subsection \<open>The one operation that requeues\<close>

definition requeues :: "nat set \<Rightarrow> wf_db \<Rightarrow> wf_db \<Rightarrow> bool" where
  "requeues I db db' \<longleftrightarrow> wf_step db db' \<or>
     (\<exists>now i upd. keeps_record upd \<and> i \<in> I \<and> db' = update_state now i ''queued'' upd db)"

abbreviation requeue_steps :: "nat set \<Rightarrow> wf_db \<Rightarrow> wf_db \<Rightarrow> bool" where
  "requeue_steps I \<equiv> (requeues I)\<^sup>*\<^sup>*"

lemma wf_steps_requeue: "wf_steps db db' \<Longrightarrow> requeue_steps I db db'"
  by (induction rule: rtranclp_induct) (auto simp: requeues_def intro: rtranclp.rtrancl_into_rtrancl)

lemma requeues_keep:
  assumes "requeues I db db'"
  shows "i \<notin> I \<Longrightarrow> left_queue i db \<Longrightarrow> left_queue i db'" "states_ok db \<Longrightarrow> states_ok db'"
proof -
  have upd: "left_queue i db \<longrightarrow> left_queue i (update_state now j ''queued'' u db)" "states_ok db \<longrightarrow> states_ok (update_state now j ''queued'' u db)"
    if "keeps_record u" "i \<notin> I" "j \<in> I" for now j u i
  proof -
    have "i \<noteq> j" using that by blast
    then show "left_queue i db \<longrightarrow> left_queue i (update_state now j ''queued'' u db)"
      using that(1) by (auto simp: left_queue_def update_state_def update_rows_def move_to_def keeps_record_def)
    show "states_ok db \<longrightarrow> states_ok (update_state now j ''queued'' u db)"
      by (auto simp: states_ok_def update_state_def update_rows_def move_to_def)
  qed
  then show "i \<notin> I \<Longrightarrow> left_queue i db \<Longrightarrow> left_queue i db'"
    using assms step_keeps(2) unfolding requeues_def by blast
  have "states_ok (update_state now j ''queued'' u d)" if "states_ok d" for now j u d
    using that by (auto simp: states_ok_def update_state_def update_rows_def move_to_def)
  then show "states_ok db \<Longrightarrow> states_ok db'" using assms step_states unfolding requeues_def by blast
qed

lemma requeue_steps_keep:
  assumes "requeue_steps I db db'"
  shows "i \<notin> I \<Longrightarrow> left_queue i db \<Longrightarrow> left_queue i db'" "states_ok db \<Longrightarrow> states_ok db'"
  using assms by (induction rule: rtranclp_induct) (auto dest: requeues_keep)

definition tracked :: "nat set \<Rightarrow> wf_world \<Rightarrow> wf_world \<Rightarrow> bool" where
  "tracked I w w' \<longleftrightarrow> (fair_others (w_env w) \<longrightarrow> w_env w' = w_env w \<and> requeue_steps I (w_db w) (w_db w'))"

interpretation tracked: call_logic "tracked I" for I
  by unfold_locales (auto simp: tracked_def)

lemma tracked_quiet: "does quiet m \<Longrightarrow> does (tracked I) m"
  by (auto simp: does_def quiet_def tracked_def intro: wf_steps_requeue)

lemma tracked_requeue:
  assumes "i \<in> I" "keeps_record upd" shows "does (tracked I) (update_record i ''queued'' upd)"
proof (rule doesI)
  fix w x w' assume run: "run_state (update_record i ''queued'' upd) w = (x, w')"
  let ?m = "moments (w_env w) (w_calls w)"
  have "w_env w' = w_env w" "w_db w' = m_others ?m (w_db w) \<or> w_db w' = update_state (m_now ?m) i ''queued'' upd (m_others ?m (w_db w))"
    using run by (auto simp: update_record_def db_call_def Let_def split: prod.splits option.splits if_splits)
  moreover have "requeues I db (update_state now i ''queued'' upd db)" for now db using assms unfolding requeues_def by blast
  ultimately show "tracked I w w'" unfolding tracked_def fair_others_def
    by (metis wf_steps_requeue rtranclp.rtrancl_into_rtrancl)
qed

lemma tracked_assignment: "does (tracked I) (db_call (\<lambda>m. update_assignment (m_now m) i st upd))"
  by (rule tracked_quiet, rule quiet_rows_kept) (simp add: rows_kept_def update_assignment_def)

lemma db_read_Inr: "run_state (db_read f) w = (Inr x, w') \<Longrightarrow> f (w_db w') = Inr x"
  by (auto simp: db_read_def db_call_def Let_def split: prod.splits option.splits if_splits)

lemma record_by_id_Inr: "record_by_id i db = Inr r \<Longrightarrow> rec_id r = i"
  by (auto simp: record_by_id_def find_Some_iff split: if_splits option.splits)

lemma timed_out_update_keeps: "keeps_record (timed_out_update att)"
  by (simp add: keeps_record_def timed_out_update_def)

definition all_queued :: "nat \<Rightarrow> wf_db \<Rightarrow> bool" where
  "all_queued i db \<longleftrightarrow> (\<forall>r\<in>set (db_records db). rec_id r = i \<longrightarrow> rec_state r = ''queued'')"

lemma requeued_all: "keeps_record upd \<Longrightarrow> all_queued i (update_state now i ''queued'' upd db)"
  unfolding all_queued_def
proof (intro ballI impI)
  fix r' assume upd: "keeps_record upd" and r': "r' \<in> set (db_records (update_state now i ''queued'' upd db))" "rec_id r' = i"
  then obtain r where r: "r' = (if rec_id r = i then move_to now ''queued'' (upd r) else r)"
    unfolding update_state_def update_rows_def by fastforce
  then show "rec_state r' = ''queued''" using r'(2) by (cases "rec_id r = i") (simp_all add: move_to_def)
qed

lemma update_record_Inr:
  assumes "run_state (update_record i ''queued'' upd) w = (Inr x, w')" "keeps_record upd" shows "all_queued i (w_db w')"
  using assms(1) requeued_all [OF assms(2)]
  by (auto simp: update_record_def db_call_def Let_def split: option.splits if_splits)

lemma requeue_loop:
  assumes "run_state (requeue_timed_out now as acc) w = ((res, err), w')" "asg_record ` set as \<subseteq> I" "fair_others (w_env w)"
  shows "w_env w' = w_env w \<and> requeue_steps I (w_db w) (w_db w') \<and>
    (\<exists>new. res = acc @ new \<and> prefix new as \<and> (\<forall>a\<in>set new. \<exists>db. requeue_steps I (w_db w) db \<and> all_queued (asg_record a) db \<and> requeue_steps I db (w_db w')))"
  using assms
proof (induction as arbitrary: acc w)
  case (Cons a as)
  let ?upd = "\<lambda>r. timed_out_update (if rec_attempt r \<le> 0 then 1 else rec_attempt r + 1)"
  obtain x w1 where r: "run_state (db_read (record_by_id (asg_record a))) w = (x, w1)" by fastforce
  have t1: "w_env w1 = w_env w" "requeue_steps I (w_db w) (w_db w1)"
    using doesD [OF tracked_quiet [OF quiet_read] r] Cons.prems(3) by (auto simp: tracked_def)
  consider (stop) "res = acc" "w' = w1"
    | (go) st where "x = Inr st" "rec_instance st \<noteq> uuid_nil"
  proof (cases x)
    case (Inr st)
    then show ?thesis using stop go Cons.prems(1) r by (cases "rec_instance st = uuid_nil") (simp_all add: run_state_bind)
  qed (use stop Cons.prems(1) r in \<open>simp add: run_state_bind\<close>)
  then show ?case
  proof cases
    case stop
    then show ?thesis using t1 by simp
  next
    case (go st)
    have "record_by_id (asg_record a) (w_db w1) = Inr st" by (rule db_read_Inr) (use r go(1) in simp)
    then have sid: "rec_id st = asg_record a" by (rule record_by_id_Inr)
    obtain y w2 where u: "run_state (update_record (rec_id st) ''queued'' (?upd st)) w1 = (y, w2)" by fastforce
    have t2: "w_env w2 = w_env w" "requeue_steps I (w_db w1) (w_db w2)"
      using doesD [OF tracked_requeue [OF _ timed_out_update_keeps] u] Cons.prems(2,3) sid t1(1) by (auto simp: tracked_def)
    then have t12: "requeue_steps I (w_db w) (w_db w2)" using t1(2) by simp
    show ?thesis
    proof (cases y)
      case (Inl e)
      then show ?thesis using Cons.prems(1) r go u t2(1) t12 by (simp add: run_state_bind)
    next
      case (Inr z)
      obtain s w3 where a: "run_state (db_call (\<lambda>m. update_assignment (m_now m) (asg_id a) ''timeout'' (\<lambda>b. b\<lparr>asg_completed_at := Some now\<rparr>))) w2 = (s, w3)"
        by fastforce
      have t3: "w_env w3 = w_env w" "requeue_steps I (w_db w2) (w_db w3)"
        using doesD [OF tracked_assignment a] Cons.prems(3) t2(1) by (auto simp: tracked_def)
      show ?thesis
      proof (cases s)
        case (Inl e)
        then show ?thesis using Cons.prems(1) r go u Inr a t3 t12 by (auto simp: run_state_bind)
      next
        case (Inr q)
        have rest: "run_state (requeue_timed_out now as (acc @ [a])) w3 = ((res, err), w')"
          using Cons.prems(1) r go u \<open>y = Inr z\<close> a Inr by (simp add: run_state_bind)
        obtain new where IH: "w_env w' = w_env w3" "requeue_steps I (w_db w3) (w_db w')" "res = (acc @ [a]) @ new" "prefix new as"
            "\<forall>b\<in>set new. \<exists>db. requeue_steps I (w_db w3) db \<and> all_queued (asg_record b) db \<and> requeue_steps I db (w_db w')"
          using Cons.IH [OF rest] Cons.prems(2,3) t3(1) by auto
        have t13: "requeue_steps I (w_db w) (w_db w3)" "requeue_steps I (w_db w2) (w_db w')" using t12 t3(2) IH(2) by simp_all
        have "all_queued (asg_record a) (w_db w2)"
          using update_record_Inr [OF _ timed_out_update_keeps] u \<open>y = Inr z\<close> sid by metis
        then have "\<forall>b\<in>set (a # new). \<exists>db. requeue_steps I (w_db w) db \<and> all_queued (asg_record b) db \<and> requeue_steps I db (w_db w')"
          using t12 t13 IH(5) rtranclp_trans by (metis (no_types, lifting) set_ConsD)
        then show ?thesis using IH(1,3,4) t3(1) t13(1) IH(2)
          by (intro conjI exI [of _ "a # new"]) auto
      qed
    qed
  qed
qed simp

text \<open>
  What \<open>ProcessTimeouts\<close> may requeue are the records of the tenant's assignments that its scan found past their
  deadline, and the records of the assignments it returns it did put back.
\<close>

definition requeues_timed_out_only :: "string \<Rightarrow> (agent_assignment list \<times> wf_error option) wf \<Rightarrow> bool" where
  "requeues_timed_out_only tenant m \<longleftrightarrow> (\<forall>w found err w'. fair_others (w_env w) \<longrightarrow> run_state m w = ((found, err), w') \<longrightarrow>
     (\<exists>I. requeue_steps I (w_db w) (w_db w') \<and>
        (\<forall>i\<in>I. \<exists>db now. wf_steps (w_db w) db \<and> (\<exists>a\<in>set (db_assignments db). timed_out (tenant_of tenant) now db a \<and> asg_record a = i)) \<and>
        (\<forall>i. left_queue i (w_db w) \<and> i \<notin> I \<longrightarrow> left_queue i (w_db w')) \<and>
        (\<forall>a\<in>set found. asg_record a \<in> I \<and>
           (\<exists>db. requeue_steps I (w_db w) db \<and> all_queued (asg_record a) db \<and> requeue_steps I db (w_db w')))))"

lemma process_timeouts_requeues: "requeues_timed_out_only tenant (process_timeouts tenant limit)"
  unfolding requeues_timed_out_only_def
proof (intro allI impI)
  fix w found err w'
  assume fair: "fair_others (w_env w)" and run: "run_state (process_timeouts tenant limit) w = ((found, err), w')"
  consider (refused) "found = []" "w' = w" | (scan) "normalize_tenant tenant = Inr (tenant_of tenant)"
    using run by (auto simp: process_timeouts_def normalize_tenant_def split: if_splits)
  then show "\<exists>I. requeue_steps I (w_db w) (w_db w') \<and>
        (\<forall>i\<in>I. \<exists>db now. wf_steps (w_db w) db \<and> (\<exists>a\<in>set (db_assignments db). timed_out (tenant_of tenant) now db a \<and> asg_record a = i)) \<and>
        (\<forall>i. left_queue i (w_db w) \<and> i \<notin> I \<longrightarrow> left_queue i (w_db w')) \<and>
        (\<forall>a\<in>set found. asg_record a \<in> I \<and>
           (\<exists>db. requeue_steps I (w_db w) db \<and> all_queued (asg_record a) db \<and> requeue_steps I db (w_db w')))"
  proof cases
    case refused
    then show ?thesis by (intro exI [of _ "{}"]) simp
  next
    case scan
    obtain now w1 where c: "run_state clock w = (now, w1)" by fastforce
    obtain x w2 where s: "run_state (db_read (find_timed_out (tenant_of tenant) now (if limit \<le> 0 then 50 else limit))) w1 = (x, w2)" by fastforce
    have steps: "w_env w2 = w_env w" "wf_steps (w_db w) (w_db w2)"
      using doesD [OF quiet_clock c] doesD [OF quiet_read s] fair by (auto simp: quiet_def)
    show ?thesis
    proof (cases x)
      case (Inl e)
      then have "found = []" "w' = w2" using run scan c s by (simp_all add: process_timeouts_def run_state_bind)
      then show ?thesis using steps(2) wf_steps_requeue steps_keep(2) by (intro exI [of _ "{}"]) auto
    next
      case (Inr as)
      let ?I = "asg_record ` set as"
      have loop: "run_state (requeue_timed_out now as []) w2 = ((found, err), w')"
        using run scan c s Inr by (simp add: process_timeouts_def run_state_bind)
      have "fair_others (w_env w2)" using fair by (simp add: steps(1))
      from requeue_loop [OF loop subset_refl this] have l: "requeue_steps ?I (w_db w2) (w_db w')" "prefix found as"
          "\<forall>a\<in>set found. \<exists>db. requeue_steps ?I (w_db w2) db \<and> all_queued (asg_record a) db \<and> requeue_steps ?I db (w_db w')"
        by simp_all
      have "find_timed_out (tenant_of tenant) now (if limit \<le> 0 then 50 else limit) (w_db w2) = Inr as"
        by (rule db_read_Inr) (use s Inr in simp)
      then have due: "\<forall>a\<in>set as. a \<in> set (db_assignments (w_db w2)) \<and> timed_out (tenant_of tenant) now (w_db w2) a"
        by (auto simp: find_timed_out_def split: if_splits dest: in_set_takeD)
      have all: "requeue_steps ?I (w_db w) (w_db w2)" using steps(2) by (rule wf_steps_requeue)
      then have path: "requeue_steps ?I (w_db w) (w_db w')" using l(1) by simp
      have "asg_record a \<in> ?I" if "a \<in> set found" for a using that l(2) set_mono_prefix by blast
      moreover have "\<exists>db. requeue_steps ?I (w_db w) db \<and> all_queued (asg_record a) db \<and> requeue_steps ?I db (w_db w')" if "a \<in> set found" for a
        using bspec [OF l(3) that] all rtranclp_trans by metis
      ultimately show ?thesis using path requeue_steps_keep(1) [OF path] due steps(2) by (intro exI [of _ ?I]) blast
    qed
  qed
qed


definition keeps_states :: "'a wf \<Rightarrow> bool" where
  "keeps_states m \<longleftrightarrow> (\<forall>w x w'. fair_others (w_env w) \<longrightarrow> run_state m w = (x, w') \<longrightarrow> states_ok (w_db w) \<longrightarrow> states_ok (w_db w'))"

lemma path_keeps_states: "does on_path m \<Longrightarrow> keeps_states m"
  unfolding keeps_states_def by (metis doesD on_path_def steps_states)

lemma timeouts_keep_states: "keeps_states (process_timeouts tenant limit)"
  unfolding keeps_states_def
proof (intro allI impI)
  fix w x w' assume "fair_others (w_env w)" "run_state (process_timeouts tenant limit) w = (x, w')" "states_ok (w_db w)"
  then show "states_ok (w_db w')"
    using process_timeouts_requeues [of tenant limit] requeue_steps_keep(2) unfolding requeues_timed_out_only_def by (metis prod.collapse)
qed

text \<open>C19: A step record is always queued, in progress, waiting, completed or failed: no operation of the service, of
  the runner or of the assignment tracker, whatever its arguments and whatever fails, leaves a record in any other state.\<close>

theorem record_states_typed:
  "keeps_states (start_instance si) \<and> keeps_states (control_instance ci) \<and> keeps_states (act_review_task ri) \<and>
   keeps_states (handle_step_failure tn inst rid sid reason) \<and> keeps_states (dispatch tn inst rid ag cp) \<and>
   keeps_states (drain_due_steps opts n) \<and> keeps_states (process_timeouts tn limit)"
  using quiet_start_instance quiet_control_instance path_act_review quiet_step_failure quiet_dispatch path_drain
  by (intro conjI path_keeps_states timeouts_keep_states) (auto intro: path_quiet)

end
