(* ===== verification/WorkflowDefinitions.thy ===== *)
theory WorkflowDefinitions imports WorkflowControl WorkflowSafety begin

section \<open>What creating a definition guarantees\<close>

text \<open>
  The definitions that \<open>CreateDefinition\<close> and \<open>CreateDefinitionRevision\<close> return: their graph loads
  again as the one that was validated, and their policies are those of the request alone.
\<close>

subsection \<open>What a program can return\<close>

definition yields :: "('a \<Rightarrow> bool) \<Rightarrow> (wf_error + 'a) wf \<Rightarrow> bool" where
  "yields P m \<longleftrightarrow> (\<forall>w y w'. run_state m w = (Inr y, w') \<longrightarrow> P y)"

named_theorems yields "what a program can return"

lemma yieldsD: "yields P m \<Longrightarrow> run_state m w = (Inr y, w') \<Longrightarrow> P y"
  unfolding yields_def by blast

lemma yields_attempt [yields]: "(\<And>x. yields P (f x)) \<Longrightarrow> yields P (attempt m f)"
  by (auto simp: yields_def attempt_def run_state_bind split: prod.splits sum.splits)

lemma yields_given: "(\<And>x. r = Inr x \<Longrightarrow> yields P (f x)) \<Longrightarrow> yields P (attempt (State_Monad.return r) f)"
  by (auto simp: yields_def split: sum.splits)

lemma yields_require [yields]: "yields P m \<Longrightarrow> yields P (require b e m)"
  by (auto simp: yields_def require_def)

lemma yields_bind [yields]: "(\<And>x. yields P (f x)) \<Longrightarrow> yields P (m \<bind> f)"
  by (auto simp: yields_def run_state_bind split: prod.splits)

lemma yields_call: "(\<And>m db y db'. f m db = (Inr y, db') \<Longrightarrow> yields P (g y)) \<Longrightarrow> yields P (attempt (db_call f) g)"
  unfolding yields_def attempt_def
  by (auto simp: run_state_bind db_call_def Let_def split: prod.splits sum.splits option.splits if_splits)

lemma map_err_Inr [simp]: "map_err g r = Inr x \<longleftrightarrow> r = Inr x"
  by (cases r) (simp_all add: map_err_def)

definition stored_as :: "workflow_definition \<Rightarrow> workflow_definition \<Rightarrow> bool" where
  "stored_as d r \<longleftrightarrow> (\<exists>uid. r = d\<lparr>def_uuid := uid, def_version := if def_version d \<le> 0 then 1 else def_version d,
     def_status := if def_status d = [] then ''draft'' else def_status d,
     def_source_type := if def_source_type d = [] then ''manual'' else def_source_type d\<rparr>)"

lemma yields_store: "(\<And>r. stored_as d r \<Longrightarrow> P r) \<Longrightarrow> yields P (store_definition d ev)"
  unfolding store_definition_def
  by (rule yields_call, rule yields_bind)
     (auto simp: yields_def create_definition_row_def Let_def stored_as_def split: if_splits)

subsection \<open>Created definitions\<close>

lemma created_definition:
  "yields (\<lambda>d. \<exists>v. validate_steps (in_steps i) = Inr v \<and> def_graph d = Some (map json_step (v_steps v)) \<and> def_status d = ''draft'' \<and>
    def_tenant d = tenant_of (in_tenant i) \<and> def_name d = trim_space (in_name i) \<and> 0 < def_version d) (create_definition i)"
  unfolding create_definition_def
  by (rule yields_given, rule yields_require, rule yields_require, rule yields_given, rule yields_attempt, rule yields_store)
     (auto simp: stored_as_def draft_def normalize_tenant_def split: if_splits)

lemma normalized_shaped: "json_shaped_step (normalized s) \<longleftrightarrow> json_shaped_step s"
  by (simp add: normalized_def normalize_step_def json_shaped_step_def)

lemma stored_steps:
  assumes "validate_steps raw = Inr v" "list_all json_shaped_step raw"
  shows "map json_step (v_steps v) = v_steps v"
proof -
  have "\<forall>s\<in>set (v_steps v). json_shaped_step s"
    using assms(2) by (simp add: validationD(2) [OF assms(1)] list_all_iff normalized_shaped)
  then show ?thesis by (simp add: json_step_shaped map_idI)
qed

text \<open>C21: A definition that was created is a draft of the caller's tenant, under the request's trimmed name and a positive
  version, whose graph column holds the JSON of the steps the request was validated to. When the request's values are
  already of the shapes decoding JSON gives (its maps of any value, its lists of any value, no configuration that is empty
  but not nil), the stored graph loads again as exactly the validated one: what a created definition describes is
  then what an instance of it will run.\<close>

theorem created_definition_loads:
  assumes "run_state (create_definition i) w = (Inr d, w')"
  shows "(\<exists>v. validate_steps (in_steps i) = Inr v \<and> def_graph d = Some (map json_step (v_steps v)) \<and>
      (list_all json_shaped_step (in_steps i) \<longrightarrow> stored_graph d = Inr v)) \<and>
    def_status d = ''draft'' \<and> def_tenant d = tenant_of (in_tenant i) \<and> def_name d = trim_space (in_name i) \<and> 0 < def_version d"
proof -
  obtain v where v: "validate_steps (in_steps i) = Inr v" "def_graph d = Some (map json_step (v_steps v))" "def_status d = ''draft''"
      "def_tenant d = tenant_of (in_tenant i)" "def_name d = trim_space (in_name i)" "0 < def_version d"
    using yieldsD [OF created_definition assms(1)] by blast
  have "stored_graph d = Inr v" if "list_all json_shaped_step (in_steps i)"
    using v(2) stored_steps [OF v(1) that] validate_again [OF v(1)] by (simp add: stored_graph_def map_err_def)
  then show ?thesis using v by blast
qed

text \<open>
  The condition is needed: the service accepts a default route that is a Go list of strings with a blank one, which
  it drops, but the list decoded from the column is one of any value, in which a blank string is an error.
\<close>

lemma blank_route_not_reloaded:
  assumes "config s = Some [(''routes'', Obj [(''a'', Str ''b'')]), (''default_route'', StrList [[]])]"
  shows "extract_routes s = Inr ([(''a'', [''b''])], []) \<and> \<not> is_ok (extract_routes (json_step s))"
proof -
  have s: "extract_routes s = extract_routes ((demo_step ''d'' [] [] [])\<lparr>config := config s\<rparr>)"
    by (simp add: extract_routes_def)
  have j: "extract_routes (json_step s) = extract_routes (json_step ((demo_step ''d'' [] [] [])\<lparr>config := config s\<rparr>))"
    by (simp add: extract_routes_def json_step_def)
  show ?thesis unfolding s j assms by code_simp
qed

text \<open>
  The policies a revision was asked to keep, by leaving them out, are not kept: whatever the
  source's policy is, the revision has none, since the test for an absent policy never succeeds.
\<close>

lemma revision_policies:
  "yields (\<lambda>d. def_retry d = marshalled (MapAny (in_retry i)) \<and> def_compensation d = marshalled (MapAny (in_compensation i)) \<and>
    def_sla d = marshalled (MapAny (in_sla i)) \<and> def_metadata d = marshalled (MapAny (in_metadata i))) (create_definition_revision i)"
  unfolding create_definition_revision_def Let_def
  by (intro yields yields_store) (auto simp: stored_as_def draft_def json_or_inherited_def to_json_or_empty_def)

text \<open>C22: A revision loses each policy of its source that the request leaves out, whatever it is: a nil map passed as an
  \<open>any\<close> is not the nil \<open>jsonOrInherited\<close> looks for, so a policy left out is stored as null where
  an \<open>any\<close> that is nil would have inherited it, and without a retry policy of its own the revision's
  steps are retried the default three times.\<close>

theorem revision_forgets_policies:
  assumes "run_state (create_definition_revision i) w = (Inr d, w')"
  shows "(in_retry i = None \<longrightarrow> def_retry d = GoNil \<and> max_attempts (def_retry d) = 3) \<and> (in_compensation i = None \<longrightarrow> def_compensation d = GoNil) \<and>
    (in_sla i = None \<longrightarrow> def_sla d = GoNil) \<and> (in_metadata i = None \<longrightarrow> def_metadata d = GoNil) \<and>
    (\<forall>source. json_or_inherited NilAny (Some source) = source)"
  using yieldsD [OF revision_policies assms(1)] by (simp add: marshalled_def json_or_inherited_def max_attempts_def)

definition seven_attempts :: workflow_definition where
  "seven_attempts = (draft ''t'' ''demo'' [] 1 demo_workflow ''u'')\<lparr>def_uuid := ''d1'', def_retry := Obj [(''max_attempts'', Scalar ''7'')]\<rparr>"

definition demo_revision :: definition_input where
  "demo_revision = \<lparr>in_tenant = ''t'', in_source = ''d1'', in_name = [], in_description = [], in_created_by = ''u'', in_steps = [],
     in_retry = None, in_compensation = None, in_sla = None, in_metadata = None\<rparr>"

definition definitions_world :: wf_world where
  "definitions_world = \<lparr>w_db = \<lparr>db_records = [], db_next_id = 1, db_instances = [], db_definitions = [seven_attempts],
     db_assignments = [], db_compensations = [], db_reviews = []\<rparr>, w_calls = 0, w_leased = [], w_executed = [], w_events = [], w_env = demo_env\<rparr>"

lemma demo_nodes_accepted: "is_ok (validate_nodes (adapters demo_env) (map normalized demo_workflow))"
  by code_simp

lemma demo_json: "map json_step demo_workflow = demo_workflow"
  by (simp add: demo_workflow_def demo_step_def json_step_def)

lemma demo_world_facts:
  "tenant_of ''t'' = ''t''" "trim_space ''t'' = ''t''" "normalize_tenant ''t'' = Inr ''t''" "trim_space ''demo'' = ''demo''"
  "m_others (moments demo_env k) db = db" "m_fault (moments demo_env k) = None" "m_uuid (moments demo_env k) = ''i1''"
proof -
  show "tenant_of ''t'' = ''t''" "trim_space ''t'' = ''t''" "normalize_tenant ''t'' = Inr ''t''" "trim_space ''demo'' = ''demo''" by code_simp+
qed (simp_all add: demo_env_def)

theorem revision_forgets_policies_witness:
  "max_attempts (def_retry seven_attempts) = 7 \<and> (\<exists>d w'. run_state (create_definition_revision demo_revision) definitions_world = (Inr d, w') \<and>
     max_attempts (def_retry d) = 3)"
proof -
  have seven: "max_attempts (def_retry seven_attempts) = 7" by code_simp
  obtain v where v: "validate_steps demo_workflow = Inr v" using demo_workflow_accepted by blast
  have nodes: "validate_nodes (adapters demo_env) (v_steps v) = Inr ()"
    using demo_nodes_accepted validationD(2) [OF v] by (simp add: is_ok_iff)
  obtain d w' where run: "run_state (create_definition_revision demo_revision) definitions_world = (Inr d, w')"
    by (simp add: create_definition_revision_def demo_revision_def demo_world_facts require_def uuid_nil_def attempt_def wf_runs db_read_def db_call_def
        definitions_world_def definition_by_uuid_def seven_attempts_def draft_def source_steps_def demo_json v map_err_def nodes Let_def
        next_version_def store_definition_def create_definition_row_def)
  then show ?thesis using revision_forgets_policies [OF run] seven by (auto simp: demo_revision_def)
qed

definition demo_creation :: definition_input where
  "demo_creation = demo_revision\<lparr>in_name := ''demo'', in_steps := demo_workflow\<rparr>"

theorem created_definition_loads_witness:
  "\<exists>d w'. run_state (create_definition demo_creation) definitions_world = (Inr d, w') \<and> is_ok (stored_graph d)"
proof -
  obtain v where v: "validate_steps demo_workflow = Inr v" using demo_workflow_accepted by blast
  obtain d w' where run: "run_state (create_definition demo_creation) definitions_world = (Inr d, w')"
    by (simp add: create_definition_def demo_creation_def demo_revision_def demo_world_facts require_def uuid_nil_def attempt_def wf_runs
        db_read_def db_call_def definitions_world_def seven_attempts_def draft_def v map_err_def Let_def next_version_def
        store_definition_def create_definition_row_def)
  have "list_all json_shaped_step (in_steps demo_creation)"
    by (simp add: demo_creation_def demo_revision_def demo_workflow_def demo_step_def json_shaped_step_def)
  then show ?thesis using created_definition_loads [OF run] run by (auto simp: is_ok_def)
qed

end
