(* ===== verification/WorkflowScenarios.thy ===== *)
theory WorkflowScenarios imports WorkflowLaunch WorkflowServiceSafety WorkflowDefinitions begin

section \<open>Runs of the workflow engine\<close>

text \<open>
  Concrete runs: a drain after a start, and the histories in which the engine does something
  else than its comments and callers expect.
\<close>

theorem drain_executes_once_witness:
  "let (_, w1) = run_state (start_instance demo_start) (demo_world demo_workflow);
       (_, w2) = run_state (drain_due_steps (demo_options ''i1'') 3) w1
   in distinct (w_executed w2) \<and> set (w_executed w2) \<subseteq> set (w_leased w2)"
proof -
  obtain x w1 where start: "run_state (start_instance demo_start) (demo_world demo_workflow) = (x, w1)" by fastforce
  obtain y w2 where drain: "run_state (drain_due_steps (demo_options ''i1'') 3) w1 = (y, w2)" by fastforce
  have fair: "fair_others (w_env (demo_world demo_workflow))" by (simp add: fair_others_def demo_world_def demo_env_def)
  have "ids_ok (w_db (demo_world demo_workflow))" by (simp add: demo_world_def demo_db_def ids_ok_def)
  moreover have "w_executed (demo_world demo_workflow) = []" "w_leased (demo_world demo_workflow) = []" by (simp_all add: demo_world_def)
  ultimately have "fair_others (w_env w1)" "ids_ok (w_db w1)" "w_executed w1 = []" "w_leased w1 = []"
    using doesD [OF quiet_start_instance start] fair steps_keep(1) by (auto simp: quiet_def)
  then show ?thesis using drain_executes_once [OF _ _ _ _ drain] by (simp add: start drain)
qed

subsection \<open>Steps that only their dependants name\<close>

text \<open>
  The validator takes edges from \<open>next_step_ids\<close> and from \<open>depends_on\<close>, the runner follows the
  first only.
\<close>

lemma ok_last_step:
  assumes r: "r_router r = new_executor_router" and env: "undisturbed (w_env w)"
    and rows: "job_rows u S C B (time_of w) (w_db w)" "S \<subseteq> insert (rec_step record) C"
    and j: "job_instance T u v st (w_db w)" "inst_uuid inst = u" "inst_tenant inst = T"
    and rec: "record \<in> set (rows_of u (w_db w))" "rec_step record \<in> B" "rec_step record \<notin> C"
    and s: "next_step_ids s = []" "step_type s \<in> {''agent'', ''system'', ''parallel'', ''compensation''}"
      "map_output (w_env w) (nr_output result) (output_mapping s) = Inr out" "nr_branches result = []"
  shows "ok (step_succeeded r record inst v s result) w (\<lambda>e w'. e = (''completed'', None) \<and>
    job_rows u S (insert (rec_step record) C) (B - {rec_step record}) (time_of w') (w_db w') \<and> job_instance T u v ''succeeded'' (w_db w'))"
proof -
  have nxt: "next_steps (r_router r) s (to_step_result (result\<lparr>nr_output := out\<rparr>)) = Inr []"
    unfolding r using plain_next [OF s(2)] by (simp add: to_step_result_def s(1,4))
  show ?thesis unfolding step_succeeded_def
    apply (rule ok_bind [where P = "\<lambda>e v. e = w_env w \<and> v = w"])
    subgoal by (rule ok_environment) simp
    apply (elim conjE)
    apply (simp only: s(3) sum.case Let_def)
    apply (rule ok_bind [OF ok_complete [OF env rows(1) j(1) rec]])
    subgoal premises p for z w0 e w1
    proof -
      let ?C = "insert (rec_step record) C" let ?B = "B - {rec_step record}"
      have w1: "undisturbed (w_env w1)" using p(4) env by (simp add: later_def)
      have e: "e = None" and data: "job_rows u S ?C ?B (time_of w1) (w_db w1)" "job_instance T u v st (w_db w1)" using p(5) by simp_all
      have q: "ok (enqueue_next_steps r inst v [] out) w1 (\<lambda>e w2. e = None \<and> job_rows u S ?C ?B (time_of w2) (w_db w2) \<and> job_instance T u v st (w_db w2))"
        unfolding enqueue_next_steps_def
        apply (rule ok_bind [where P = "\<lambda>t v'. w_db v' = w_db w1"])
        subgoal by (rule ok_clock [OF w1]) simp
        subgoal premises h for now w2
          using data h(2) job_rows_later [OF data(1) later_time [OF w1 h(1)]] by (simp add: normalize_strings_def)
        done
      show ?thesis unfolding e option.case nxt sum.case go_on_def
        apply (rule ok_bind [OF q])
        subgoal premises g for e2 w2
        proof -
          have e2: "e2 = None" and w2: "undisturbed (w_env w2)" using g w1 by (simp_all add: later_def)
          show ?thesis unfolding e2 option.case
            by (rule ok_bind [OF ok_converge [where u = u and T = T and v = v and st = st and S = S and C = ?C and B = ?B]])
               (use w2 g(2) j rows(2) in auto)
        qed
        done
    qed
    done
qed


text \<open>A step of an instance whose node is running.\<close>

definition demo_running :: step_record where
  "demo_running = demo_row\<lparr>rec_state := ''in_progress'', rec_lease_owner := ''me''\<rparr>"

definition demo_instance :: "string \<Rightarrow> workflow_instance" where
  "demo_instance st = \<lparr>inst_uuid = ''i1'', inst_tenant = ''t'', inst_definition = ''d1'', inst_version = 1, inst_state = st,
     inst_input = [], inst_last_error = [], inst_correlation = [], inst_agent = uuid_nil, inst_initiator = uuid_nil,
     inst_trace = [], inst_started_at = None, inst_completed_at = None, inst_current_step = ''in'', inst_last_transition = 0\<rparr>"

definition running_world :: "step_definition list \<Rightarrow> string \<Rightarrow> wf_world" where
  "running_world steps st = (demo_world steps)\<lparr>w_db := (demo_db steps)\<lparr>db_records := [demo_running], db_next_id := 2,
     db_instances := [demo_instance st]\<rparr>\<rparr>"

definition demo_result :: node_result where
  "demo_result = \<lparr>nr_status = ''succeeded'', nr_output = [], nr_decision = [], nr_branches = [], nr_error_code = [],
     nr_error_message = [], nr_awaiting_human = False, nr_review_task = uuid_nil, nr_retryable = False\<rparr>"

definition me :: runner where
  "me = \<lparr>r_router = new_executor_router, r_target = uuid_nil, r_lease_owner = ''me'', r_lease_ttl = 1, r_batch_size = 1\<rparr>"

lemma running_world_facts:
  assumes "validate_steps steps = Inr v" "map json_step steps = steps"
  shows "job_rows ''i1'' {''in''} {} {''in''} (time_of (running_world steps st)) (w_db (running_world steps st))"
    and "job_instance ''t'' ''i1'' v st (w_db (running_world steps st))" "w_env (running_world steps st) = demo_env"
    and "demo_running \<in> set (rows_of ''i1'' (w_db (running_world steps st)))"
proof -
  have t: "tenant_of ''t'' = ''t''" "\<not> blank ''t''" by code_simp+
  show "job_instance ''t'' ''i1'' v st (w_db (running_world steps st))"
    using t assms by (simp add: job_instance_def running_world_def demo_world_def demo_db_def demo_instance_def definition_by_uuid_def
        published_def draft_def stored_graph_def map_err_def uuid_nil_def)
qed (simp_all add: running_world_def demo_world_def demo_db_def job_rows_def ids_ok_def demo_running_def demo_row_def)

lemma demo_running_step: "rec_step demo_running = ''in''"
  by (simp add: demo_running_def demo_row_def)

definition back_linked :: "step_definition list" where
  "back_linked = [demo_step ''in'' ''input.capture'' [] [], demo_step ''end'' ''workflow.end'' [] [''in'']]"


subsection \<open>Canceled while a node runs\<close>

text \<open>C29: Canceling an instance while one of its nodes runs does not stop it: when the node then succeeds,
  the runner, which read the instance before, completes the step, queues its successors and sets the
  instance back to running, or to succeeded when it was the last.\<close>

theorem canceled_instance_revived:
  assumes "validate_steps raw = Inr v" "plain_workflow v" "r_router r = new_executor_router"
    and "undisturbed (w_env w)" "nodes_succeed (w_env w) v"
    and "job_rows u (ready v C) C B (time_of w) (w_db w)" "C \<subseteq> ready v C" "B \<subseteq> ready v C"
    and "job_instance T u v ''canceled'' (w_db w)" "inst_uuid inst = u" "inst_tenant inst = T"
    and "record \<in> set (rows_of u (w_db w))" "rec_step record \<in> B" "rec_step record \<notin> C"
    and "s \<in> set (v_steps v)" "step_id s = rec_step record" "nr_branches res = []"
    and "run_state (step_succeeded r record inst v s res) w = (x, w')"
  shows "x = (''completed'', None) \<and> (let C' = insert (rec_step record) C in
    job_rows u (ready v C') C' (B - {rec_step record}) (time_of w') (w_db w') \<and> job_instance T u v (settled v C') (w_db w'))"
  using ok_step_succeeded [OF assms(1-17)] unfolding ok_def assms(18) by simp

lemma collect_insert: "{x \<in> insert a A. P x} = (if P a then insert a {x \<in> A. P x} else {x \<in> A. P x})"
  by auto

theorem canceled_instance_revived_witness:
  "\<exists>v. validate_steps demo_workflow = Inr v \<and> (let (x, w') = run_state (step_succeeded me demo_running (demo_instance ''running'') v
       (demo_step ''in'' ''input.capture'' [''a''] []) demo_result) (running_world demo_workflow ''canceled'')
     in x = (''completed'', None) \<and> job_instance ''t'' ''i1'' v ''running'' (w_db w'))"
proof -
  obtain v where v: "validate_steps demo_workflow = Inr v" using demo_workflow_accepted by blast
  note w = running_world_facts [OF v demo_json, where st = "''canceled''"] demo_running_step
  have vs: "v_steps v = map normalized demo_workflow" by (rule validationD(2) [OF v])
  have plain: "plain_workflow v" unfolding plain_workflow_def vs by code_simp
  have nodes: "list_all (\<lambda>s. is_ok (adapter_for (adapters demo_env) (node_kind s))) (v_steps v)" unfolding vs by code_simp
  have edges: "preds v ''in'' = {}" "preds v ''a'' = {''in''}" "preds v ''b'' = {''a''}" and names: "step_names v = {''in'', ''a'', ''b''}"
  proof -
    have "map (\<lambda>s. (step_id s, depends_on s)) (map normalized demo_workflow) = [(''in'', []), (''a'', [''in'']), (''b'', [''a''])]" by code_simp
    from arg_cong [OF this, of set]
    have pairs: "(\<lambda>s. (step_id s, depends_on s)) ` set (v_steps v) = {(''in'', []), (''a'', [''in'']), (''b'', [''a''])}"
      by (simp only: vs set_map list.set)
    have "map step_id (map normalized demo_workflow) = [''in'', ''a'', ''b'']" by code_simp
    then show "step_names v = {''in'', ''a'', ''b''}" unfolding vs by (metis list.simps(15) list.set(1) set_map)
    have p: "preds v i = set ds" if i: "(i, ds) \<in> (\<lambda>s. (step_id s, depends_on s)) ` set (v_steps v)" for i ds
    proof -
      obtain s where "s \<in> set (v_steps v)" "step_id s = i" "depends_on s = ds" using i by (elim imageE) simp
      then show ?thesis using plain_edges(1) [OF v plain, of s] by simp
    qed
    have "preds v ''in'' = set []" "preds v ''a'' = set [''in'']" "preds v ''b'' = set [''a'']"
      by (rule p, unfold pairs, rule insertI1 insertI2 [OF insertI1] insertI2 [OF insertI2 [OF insertI1]])+
    then show "preds v ''in'' = {}" "preds v ''a'' = {''in''}" "preds v ''b'' = {''a''}" by simp_all
  qed
  have ready: "ready v {} = {''in''}" "ready v {''in''} = {''in'', ''a''}" unfolding ready_def names
    by (simp_all only: collect_insert edges) simp_all
  let ?s = "demo_step ''in'' ''input.capture'' [''a''] []"
  have "?s = normalized (hd demo_workflow)" by code_simp
  then have s: "?s \<in> set (v_steps v)" unfolding vs demo_workflow_def by (simp only: list.sel list.set list.map insertI1)
  have id: "step_id ?s = ''in''" by (simp add: demo_step_def)
  obtain x w' where run: "run_state (step_succeeded me demo_running (demo_instance ''running'') v ?s demo_result) (running_world demo_workflow ''canceled'') = (x, w')"
    by fastforce
  have env: "undisturbed (w_env (running_world demo_workflow ''canceled''))" "nodes_succeed (w_env (running_world demo_workflow ''canceled'')) v"
    using demo_env_undisturbed demo_nodes [OF nodes] w(3) by simp_all
  have rows: "job_rows ''i1'' (ready v {}) {} {''in''} (time_of (running_world demo_workflow ''canceled'')) (w_db (running_world demo_workflow ''canceled''))"
    using w(1) ready by simp
  from canceled_instance_revived [OF v plain _ env rows _ _ w(2) _ _ w(4) _ _ s _ _ run] w(5) id ready
  show ?thesis using v run by (simp add: me_def demo_instance_def demo_result_def Let_def)
qed

end
