(* ===== verification/PayloadMapping.thy ===== *)
theory PayloadMapping imports WorkflowValue "HOL-Library.AList" "HOL-Library.List_Lexorder" "HOL-Library.Char_ord" "HOL-Library.Sublist" begin

section \<open>Input and output mappings of workflow steps\<close>

text \<open>
  \<open>applyWorkflowInputMapping\<close> and \<open>applyWorkflowOutputMapping\<close> of
  \<open>internal/service/workflow/runner.go\<close> build a new map from fields of a payload. A field that is
  itself a map is not copied but shared, so the functions are modelled over a store of maps:
  what they write is then seen through every map that shares it.
\<close>

subsection \<open>Maps in a store\<close>

text \<open>What an entry of a map holds: a value that is not a map, or the map at an address.\<close>

datatype slot = Val any | Ref nat

record go_heap =
  maps :: "nat \<Rightarrow> (string \<times> slot) list"
  free :: nat

definition new_map :: "go_heap \<Rightarrow> nat \<times> go_heap" where
  "new_map h = (free h, h\<lparr>maps := (maps h)(free h := []), free := Suc (free h)\<rparr>)"

definition set_key :: "go_heap \<Rightarrow> nat \<Rightarrow> string \<Rightarrow> slot \<Rightarrow> go_heap" where
  "set_key h a k v = h\<lparr>maps := (maps h)(a := AList.update k v (maps h a))\<rparr>"

abbreviation key_at :: "go_heap \<Rightarrow> nat \<Rightarrow> string \<Rightarrow> slot option" where
  "key_at h a k \<equiv> map_of (maps h a) k"

text \<open>The text \<open>fmt.Sprint\<close> gives a value: maps are printed in the order of their keys.\<close>

fun sprint :: "any \<Rightarrow> string" where
  "sprint GoNil = ''<nil>''"
| "sprint (Scalar s) = s"
| "sprint (Str s) = s"
| "sprint (StrList vs) = ''['' @ join_with CHR '' '' vs @ '']''"
| "sprint (StrMap m) = ''map['' @ join_with CHR '' '' (map (\<lambda>(k, v). k @ '':'' @ v) (sort_key fst m)) @ '']''"
| "sprint (Arr vs) = ''['' @ join_with CHR '' '' (map sprint vs) @ '']''"
| "sprint (Obj m) = ''map['' @ join_with CHR '' '' (map (\<lambda>(k, v). k @ '':'' @ v) (sort_key fst (map (\<lambda>(k, v). (k, sprint v)) m))) @ '']''"

subsection \<open>Fields\<close>

fun field_parts :: "go_heap \<Rightarrow> slot \<Rightarrow> string list \<Rightarrow> slot option" where
  "field_parts h current [] = Some current"
| "field_parts h current (part # parts) = (if trim_space part = [] then None else case current of
     Val _ \<Rightarrow> None
   | Ref a \<Rightarrow> (case key_at h a (trim_space part) of None \<Rightarrow> None | Some v \<Rightarrow> field_parts h v parts))"

definition workflow_field_value :: "go_heap \<Rightarrow> nat option \<Rightarrow> string \<Rightarrow> slot option" where
  "workflow_field_value h payload field = (case payload of None \<Rightarrow> None
   | Some a \<Rightarrow> if maps h a = [] then None else field_parts h (Ref a) (split_on CHR ''.'' field))"

text \<open>The type assertion \<open>current[key].(map[string]any)\<close>.\<close>

definition map_at :: "go_heap \<Rightarrow> nat \<Rightarrow> string \<Rightarrow> nat option" where
  "map_at h a k = (case key_at h a k of Some (Ref b) \<Rightarrow> Some b | _ \<Rightarrow> None)"

fun set_parts :: "go_heap \<Rightarrow> nat \<Rightarrow> string list \<Rightarrow> slot \<Rightarrow> go_heap" where
  "set_parts h current [] v = h"
| "set_parts h current (raw # parts) v = (let key = trim_space raw in
     if key = [] then h
     else if parts = [] then set_key h current key v
     else case map_at h current key of
       Some next \<Rightarrow> set_parts h next parts v
     | None \<Rightarrow> (let (next, h') = new_map h in set_parts (set_key h' current key (Ref next)) next parts v))"

definition workflow_set_field_value :: "go_heap \<Rightarrow> nat \<Rightarrow> string \<Rightarrow> slot \<Rightarrow> go_heap" where
  "workflow_set_field_value h payload field v = set_parts h payload (split_on CHR ''.'' field) v"

subsection \<open>Mappings\<close>

datatype mapping_error = MappingInvalid string | FieldMissing string

definition clone_map :: "go_heap \<Rightarrow> nat option \<Rightarrow> nat option \<times> go_heap" where
  "clone_map h m = (case m of None \<Rightarrow> (None, h)
   | Some a \<Rightarrow> if maps h a = [] then (None, h)
       else (let (b, h') = new_map h in (Some b, h'\<lparr>maps := (maps h')(b := maps h a)\<rparr>)))"

text \<open>One entry of a mapping: its key as written, the source's field and the target's.\<close>

type_synonym mapping_entry = "string \<times> string \<times> string"

definition input_entry :: "string \<times> any \<Rightarrow> mapping_entry" where
  "input_entry e = (fst e, trim_space (sprint (snd e)), trim_space (fst e))"

definition output_entry :: "string \<times> any \<Rightarrow> mapping_entry" where
  "output_entry e = (fst e, trim_space (fst e), trim_space (sprint (snd e)))"

fun map_fields :: "nat option \<Rightarrow> nat \<Rightarrow> mapping_entry list \<Rightarrow> go_heap \<Rightarrow> mapping_error + go_heap" where
  "map_fields payload out [] h = Inr h"
| "map_fields payload out ((key, source, target) # es) h =
     (if target = [] \<or> source = [] then Inl (MappingInvalid key)
      else case workflow_field_value h payload source of
        None \<Rightarrow> Inl (FieldMissing source)
      | Some v \<Rightarrow> map_fields payload out es (workflow_set_field_value h out target v))"

definition apply_entries :: "go_heap \<Rightarrow> nat option \<Rightarrow> mapping_entry list \<Rightarrow> mapping_error + nat option \<times> go_heap" where
  "apply_entries h payload es = (if es = [] then Inr (clone_map h payload)
     else let (out, h') = new_map h in bind_res (map_fields payload out es h') (\<lambda>h''. Inr (Some out, h'')))"

definition apply_input_mapping :: "go_heap \<Rightarrow> nat option \<Rightarrow> object \<Rightarrow> mapping_error + nat option \<times> go_heap" where
  "apply_input_mapping h payload m = apply_entries h payload (map input_entry m)"

definition apply_output_mapping :: "go_heap \<Rightarrow> nat option \<Rightarrow> object \<Rightarrow> mapping_error + nat option \<times> go_heap" where
  "apply_output_mapping h payload m = apply_entries h payload (map output_entry m)"


subsection \<open>What a mapping builds\<close>

text \<open>The keys a field's text stands for.\<close>

definition field_keys :: "string \<Rightarrow> string list" where
  "field_keys f = map trim_space (split_on CHR ''.'' f)"

lemma field_keys_not_Nil [simp]: "field_keys f \<noteq> []"
  by (simp add: field_keys_def split_on_not_Nil)

text \<open>
  While a mapping runs, the maps it has made form a tree below its result: \<open>own\<close> gives the map at
  each path, \<open>done_at\<close> what was written at the paths of the targets. The store below \<open>base\<close>
  is the payload's and is not written.
\<close>

definition built :: "string list set \<Rightarrow> go_heap \<Rightarrow> (string list \<Rightarrow> nat option) \<Rightarrow> (string list \<Rightarrow> slot option) \<Rightarrow> go_heap \<Rightarrow> bool" where
  "built T base own done_at h \<longleftrightarrow> (\<forall>p q a. own p = Some a \<longrightarrow> own q = Some a \<longrightarrow> p = q) \<and> (\<forall>p a. own p = Some a \<longrightarrow> free base \<le> a \<and> a < free h) \<and>
     (\<forall>p a. own p = Some a \<longrightarrow> p = [] \<or> (\<exists>t\<in>T. strict_prefix p t)) \<and> (\<forall>t v. done_at t = Some v \<longrightarrow> t \<in> T) \<and>
     (\<forall>p a k. own p = Some a \<longrightarrow> key_at h a k = (case own (p @ [k]) of Some b \<Rightarrow> Some (Ref b) | None \<Rightarrow> done_at (p @ [k]))) \<and>
     (\<forall>p k. own p = None \<longrightarrow> own (p @ [k]) = None \<and> done_at (p @ [k]) = None) \<and>
     (\<forall>a < free base. maps h a = maps base a) \<and> free base \<le> free h"

definition no_overlap :: "string list set \<Rightarrow> bool" where
  "no_overlap T \<longleftrightarrow> (\<forall>t\<in>T. t \<noteq> []) \<and> (\<forall>s\<in>T. \<forall>t\<in>T. prefix s t \<longrightarrow> s = t)"

lemma builtD:
  assumes "built T base own d h"
  shows "own p = Some a \<Longrightarrow> free base \<le> a \<and> a < free h"
    and "own p = Some a \<Longrightarrow> own q = Some a \<Longrightarrow> p = q"
    and "own p = Some a \<Longrightarrow> key_at h a k = (case own (p @ [k]) of Some b \<Rightarrow> Some (Ref b) | None \<Rightarrow> d (p @ [k]))"
    and "own p = Some a \<Longrightarrow> p = [] \<or> (\<exists>t\<in>T. strict_prefix p t)"
    and "own p = None \<Longrightarrow> own (p @ [k]) = None \<and> d (p @ [k]) = None"
    and "d t = Some v \<Longrightarrow> t \<in> T"
    and "b < free base \<Longrightarrow> maps h b = maps base b" and "free base \<le> free h"
  using assms unfolding built_def by blast+

lemma builtI:
  assumes "\<And>p q a. own p = Some a \<Longrightarrow> own q = Some a \<Longrightarrow> p = q"
    and "\<And>p a. own p = Some a \<Longrightarrow> free base \<le> a \<and> a < free h"
    and "\<And>p a. own p = Some a \<Longrightarrow> p = [] \<or> (\<exists>t\<in>T. strict_prefix p t)"
    and "\<And>t v. d t = Some v \<Longrightarrow> t \<in> T"
    and "\<And>p a k. own p = Some a \<Longrightarrow> key_at h a k = (case own (p @ [k]) of Some b \<Rightarrow> Some (Ref b) | None \<Rightarrow> d (p @ [k]))"
    and "\<And>p k. own p = None \<Longrightarrow> own (p @ [k]) = None \<and> d (p @ [k]) = None"
    and "\<And>a. a < free base \<Longrightarrow> maps h a = maps base a" and "free base \<le> free h"
  shows "built T base own d h"
  unfolding built_def using assms by simp

lemma target_not_own:
  assumes "built T base own d h" "no_overlap T" "t \<in> T"
  shows "own t = None"
  using builtD(4) [OF assms(1), of t] assms(2,3) unfolding no_overlap_def strict_prefix_def
  by (cases "own t") auto

text \<open>The last key of a target is written into a map that the mapping made.\<close>

lemma built_set_key:
  assumes b: "built T base own d h" "no_overlap T" "own p = Some a" "p @ [k] \<in> T"
  shows "built T base own (d(p @ [k] \<mapsto> v)) (set_key h a k v)"
proof -
  note D = builtD [OF b(1)]
  have n: "own (p @ [k]) = None" by (rule target_not_own [OF b(1,2,4)])
  have at: "maps (set_key h a k v) c = (if c = a then AList.update k v (maps h a) else maps h c)" for c
    by (simp add: set_key_def)
  have bounds: "free base \<le> c \<and> c < free (set_key h a k v)" if "own q = Some c" for q c
    using D(1) [OF that] by (simp add: set_key_def)
  have keys: "key_at (set_key h a k v) c j = (case own (q @ [j]) of Some b \<Rightarrow> Some (Ref b) | None \<Rightarrow> (d(p @ [k] \<mapsto> v)) (q @ [j]))"
    if q: "own q = Some c" for q c j
  proof -
    have "c = a \<longleftrightarrow> q = p" by (metis D(2) b(3) q option.inject)
    then show ?thesis using D(3) [OF q, of j] n by (auto simp: at update_conv' split: option.splits)
  qed
  have old: "maps (set_key h a k v) c = maps base c" if "c < free base" for c
    using that D(1) [OF b(3)] D(7) by (simp add: at)
  have up: "own (q @ [j]) = None \<and> (d(p @ [k] \<mapsto> v)) (q @ [j]) = None" if "own q = None" for q j
    using D(5) [OF that, of j] b(3) that by auto
  have tgt: "t \<in> T" if "(d(p @ [k] \<mapsto> v)) t = Some u" for t u using that D(6) b(4) by (auto split: if_splits)
  have grown: "free base \<le> free (set_key h a k v)" using D(8) by (simp add: set_key_def)
  show ?thesis by (rule builtI) (fact D(2) bounds D(4) tgt keys up old grown)+
qed

text \<open>A map on the way to a target is made and linked.\<close>

lemma target_above:
  assumes "built T base own d h" "no_overlap T" "t \<in> T" "strict_prefix q t"
  shows "d q = None"
proof (cases "d q")
  case (Some v)
  then show ?thesis using builtD(6) [OF assms(1) Some] assms(2-4) by (auto simp: no_overlap_def strict_prefix_def)
qed

lemma built_new_map:
  assumes b: "built T base own d h" "no_overlap T" "own p = Some a" "t \<in> T" "strict_prefix (p @ [k]) t" "own (p @ [k]) = None"
  shows "built T base (own(p @ [k] \<mapsto> free h)) d (set_key (snd (new_map h)) a k (Ref (free h)))" (is "built T base ?own d ?h")
proof -
  note D = builtD [OF b(1)]
  have ne: "a \<noteq> free h" using D(1) [OF b(3)] by simp
  have at: "maps ?h c = (if c = a then AList.update k (Ref (free h)) (maps h a) else if c = free h then [] else maps h c)" for c
    using ne by (simp add: set_key_def new_map_def)
  have below: "own (p @ [k, j]) = None \<and> d (p @ [k, j]) = None" for j using D(5) [OF b(6), of j] by simp
  have here: "d (p @ [k]) = None" by (rule target_above [OF b(1,2,4,5)])
  have own: "q = p @ [k] \<and> c = free h \<or> q \<noteq> p @ [k] \<and> own q = Some c \<and> free base \<le> c \<and> c < free h" if "?own q = Some c" for q c
    using that D(1) by (auto split: if_splits)
  have next_free: "free ?h = Suc (free h)" by (simp add: new_map_def set_key_def)
  have keys: "key_at ?h c j = (case ?own (q @ [j]) of Some b \<Rightarrow> Some (Ref b) | None \<Rightarrow> d (q @ [j]))"
    if q: "?own q = Some c" for q c j
  proof (cases "q = p @ [k]")
    case True
    then have "c = free h" using q by simp
    then show ?thesis using True below ne by (simp add: at)
  next
    case False
    then have qc: "own q = Some c" "c < free h" using own [OF q] by auto
    then have "c = a \<longleftrightarrow> q = p" by (metis D(2) b(3) option.inject)
    then show ?thesis using D(3) [OF qc(1), of j] qc False b(6) here by (auto simp: at update_conv' split: option.splits)
  qed
  have inj: "q = q'" if "?own q = Some c" "?own q' = Some c" for q q' c
    using own [OF that(1)] own [OF that(2)] D(2) by auto
  have bounds: "free base \<le> c \<and> c < free ?h" if "?own q = Some c" for q c
    using own [OF that] D(8) by (auto simp: next_free)
  have above: "q = [] \<or> (\<exists>t\<in>T. strict_prefix q t)" if "?own q = Some c" for q c
    using own [OF that] D(4) b(4,5) by blast
  have up: "?own (q @ [j]) = None \<and> d (q @ [j]) = None" if "?own q = None" for q j
  proof -
    have "own q = None" "q \<noteq> p @ [k]" "q \<noteq> p" using that b(3) by (auto split: if_splits)
    then show ?thesis using D(5) by simp
  qed
  have old: "maps ?h c = maps base c" if "c < free base" for c
    using that D(1) [OF b(3)] D(7) [OF that] D(8) by (simp add: at)
  have grown: "free base \<le> free ?h" using D(8) by (simp add: next_free)
  show ?thesis by (rule builtI) (fact inj bounds above D(6) keys up old grown)+
qed

text \<open>A path with an empty segment is not written: \<open>workflowSetFieldValue\<close> stops at the segment, having made the
  maps above it.\<close>

definition written :: "(string list \<Rightarrow> slot option) \<Rightarrow> string list \<Rightarrow> string list \<Rightarrow> slot \<Rightarrow> string list \<Rightarrow> slot option" where
  "written d path ks v = (if [] \<in> set ks then d else d(path \<mapsto> v))"

lemma built_set_parts:
  assumes "built T base own d h" "no_overlap T" "own p = Some a" "ps \<noteq> []" "p @ map trim_space ps \<in> T"
  shows "\<exists>own'. built T base own' (written d (p @ map trim_space ps) (map trim_space ps) v) (set_parts h a ps v) \<and> own \<subseteq>\<^sub>m own'"
  using assms
proof (induction h a ps v arbitrary: own p rule: set_parts.induct)
  case (2 h a raw parts v)
  define k where "k = trim_space raw"
  have above: "strict_prefix (p @ [k]) (p @ map trim_space (raw # parts))" if "parts \<noteq> []" using that by (simp add: k_def strict_prefix_def)
  have tgt: "(p @ [k]) @ map trim_space parts \<in> T" using "2.prems"(5) by (simp add: k_def)
  have path: "written d (p @ map trim_space (raw # parts)) (map trim_space (raw # parts)) v =
      (if k = [] then d else written d ((p @ [k]) @ map trim_space parts) (map trim_space parts) v)"
    by (auto simp: written_def k_def)
  consider (blank) "k = []" | (last) "k \<noteq> []" "parts = []" | (inner) "k \<noteq> []" "parts \<noteq> []" by blast
  then show ?case
  proof cases
    case blank
    then show ?thesis using "2.prems"(1) path by (intro exI [of _ own]) (simp add: k_def)
  next
    case last
    then show ?thesis using built_set_key [OF "2.prems"(1-3), of k v] "2.prems"(5)
      by (intro exI [of _ own]) (simp add: Let_def k_def fun_upd_def written_def)
  next
    case inner
    note free_here = target_above [OF "2.prems"(1,2,5) above [OF inner(2)]]
    have key: "map_at h a k = own (p @ [k])"
      using builtD(3) [OF "2.prems"(1,3), of k] free_here by (simp add: map_at_def split: option.splits)
    show ?thesis
    proof (cases "own (p @ [k])")
      case (Some b)
      then show ?thesis
        using "2.IH"(2) [OF k_def inner key [unfolded Some] "2.prems"(1,2) Some inner(2) tgt] key inner path by (simp add: k_def Let_def)
    next
      case None
      let ?h = "set_key (snd (new_map h)) a k (Ref (free h))"
      let ?d = "written d ((p @ [k]) @ map trim_space parts) (map trim_space parts) v"
      have b: "built T base (own(p @ [k] \<mapsto> free h)) d ?h"
        by (rule built_new_map [OF "2.prems"(1-3,5) above [OF inner(2)] None])
      have "\<exists>own'. built T base own' ?d (set_parts ?h (free h) parts v) \<and> own(p @ [k] \<mapsto> free h) \<subseteq>\<^sub>m own'"
        by (rule "2.IH"(1) [OF k_def inner key [unfolded None] refl _ b "2.prems"(2) _ inner(2) tgt]) (simp_all add: new_map_def)
      then obtain own' where own': "built T base own' ?d (set_parts ?h (free h) parts v)" "own(p @ [k] \<mapsto> free h) \<subseteq>\<^sub>m own'" by blast
      have "own \<subseteq>\<^sub>m own(p @ [k] \<mapsto> free h)" using None by (auto simp: map_le_def)
      then have "own \<subseteq>\<^sub>m own'" using own'(2) map_le_trans by blast
      moreover have "set_parts h a (raw # parts) v = set_parts ?h (free h) parts v"
        using key None inner by (simp add: k_def Let_def new_map_def)
      ultimately show ?thesis using own'(1) inner path by auto
    qed
  qed
qed simp

lemma blank_field: "[] \<in> set (map trim_space ps) \<Longrightarrow> field_parts h cur ps = None"
  by (induction ps arbitrary: cur) (auto split: slot.splits option.splits)

lemma built_field:
  assumes "built T base own d h" "no_overlap T" "own p = Some a" "ps \<noteq> []" "p @ map trim_space ps \<in> T" "d (p @ map trim_space ps) = Some v"
    and "[] \<notin> set (map trim_space ps)"
  shows "field_parts h (Ref a) ps = Some v"
  using assms
proof (induction ps arbitrary: p a)
  case (Cons raw parts)
  define k where "k = trim_space raw"
  have k: "k \<noteq> []" using Cons.prems(7) by (auto simp: k_def)
  note key = builtD(3) [OF Cons.prems(1,3), of k]
  have tgt: "(p @ [k]) @ map trim_space parts \<in> T" "d ((p @ [k]) @ map trim_space parts) = Some v"
    using Cons.prems(5,6) by (simp_all add: k_def)
  show ?case
  proof (cases "parts = []")
    case True
    then have "own (p @ [k]) = None" using target_not_own [OF Cons.prems(1,2)] tgt(1) by simp
    then show ?thesis using key tgt(2) True k by (simp add: k_def)
  next
    case False
    have "own (p @ [k]) \<noteq> None"
    proof
      assume n: "own (p @ [k]) = None"
      have "own ((p @ [k]) @ qs) = None \<and> (qs \<noteq> [] \<longrightarrow> d ((p @ [k]) @ qs) = None)" for qs
      proof (induction qs rule: rev_induct)
        case (snoc q qs)
        then show ?case using builtD(5) [OF Cons.prems(1), of "(p @ [k]) @ qs" q] by simp
      qed (use n in simp)
      from this [of "map trim_space parts"] show False using tgt(2) False by simp
    qed
    then obtain b where b: "own (p @ [k]) = Some b" by blast
    then show ?thesis using Cons.IH [OF Cons.prems(1,2) b False tgt] Cons.prems(7) key k by (simp add: k_def)
  qed
qed simp

text \<open>A payload whose maps are all below the store's next address, as decoding one leaves it.\<close>

definition closed :: "go_heap \<Rightarrow> bool" where
  "closed h \<longleftrightarrow> (\<forall>a < free h. \<forall>k b. key_at h a k = Some (Ref b) \<longrightarrow> b < free h)"

lemma field_parts_base:
  assumes "closed base" "\<And>a. a < free base \<Longrightarrow> maps h a = maps base a" "case cur of Val _ \<Rightarrow> True | Ref a \<Rightarrow> a < free base"
  shows "field_parts h cur parts = field_parts base cur parts"
  using assms(3)
proof (induction parts arbitrary: cur)
  case (Cons part parts)
  show ?case
  proof (cases cur)
    case (Ref a)
    then have same: "maps h a = maps base a" using Cons.prems assms(2) by simp
    have "case v of Val _ \<Rightarrow> True | Ref b \<Rightarrow> b < free base" if "key_at base a (trim_space part) = Some v" for v
      using that assms(1) Cons.prems Ref by (cases v) (auto simp: closed_def)
    then show ?thesis using Ref same Cons.IH by (auto split: option.split)
  qed simp
qed simp

lemma built_payload:
  assumes "built T base own d h" "closed base" "case payload of None \<Rightarrow> True | Some a \<Rightarrow> a < free base"
  shows "workflow_field_value h payload f = workflow_field_value base payload f"
  using field_parts_base [OF assms(2), of h] builtD(7) [OF assms(1)] assms(3)
  by (auto simp: workflow_field_value_def split: option.splits)

text \<open>What is wrong with an entry, the first fault of a mapping, and what a mapping promises.\<close>

definition entry_error :: "go_heap \<Rightarrow> nat option \<Rightarrow> mapping_entry \<Rightarrow> mapping_error option" where
  "entry_error h payload = (\<lambda>(key, source, target).
     if source = [] \<or> target = [] then Some (MappingInvalid key)
     else if workflow_field_value h payload source = None then Some (FieldMissing source) else None)"

definition first_error :: "go_heap \<Rightarrow> nat option \<Rightarrow> mapping_entry list \<Rightarrow> mapping_error option" where
  "first_error h payload es = (case List.map_filter (entry_error h payload) es of [] \<Rightarrow> None | e # _ \<Rightarrow> Some e)"

lemma first_error_simps [simp]:
  "first_error h payload [] = None"
  "first_error h payload (e # es) = (case entry_error h payload e of None \<Rightarrow> first_error h payload es | Some x \<Rightarrow> Some x)"
  by (simp_all add: first_error_def split: option.split)

abbreviation target_of :: "mapping_entry \<Rightarrow> string list" where
  "target_of e \<equiv> field_keys (snd (snd e))"

text \<open>The paths of the targets that are not blank: no two are the same and none lies inside another.\<close>

definition targets :: "mapping_entry list \<Rightarrow> string list list" where
  "targets es = map target_of (filter (\<lambda>e. snd (snd e) \<noteq> []) es)"

definition separate :: "mapping_entry list \<Rightarrow> bool" where
  "separate es \<longleftrightarrow> distinct (targets es) \<and> (\<forall>s\<in>set (targets es). \<forall>t\<in>set (targets es). prefix s t \<longrightarrow> s = t)"

definition mapped :: "go_heap \<Rightarrow> nat option \<Rightarrow> mapping_entry list \<Rightarrow> mapping_error + nat option \<times> go_heap \<Rightarrow> bool" where
  "mapped h payload es r = (case r of
     Inl err \<Rightarrow> first_error h payload es = Some err
   | Inr (out, h') \<Rightarrow> first_error h payload es = None \<and>
       (\<forall>(key, source, target)\<in>set es. workflow_field_value h' out target =
          (if [] \<in> set (field_keys target) then None else workflow_field_value h payload source)) \<and>
       (\<forall>a < free h. maps h' a = maps h a))"

lemma map_fields_built:
  assumes "built T base own d h" "no_overlap T" "closed base" "case payload of None \<Rightarrow> True | Some a \<Rightarrow> a < free base"
    and "own [] = Some out" "distinct (targets es)" "set (targets es) \<subseteq> T"
  shows "case map_fields payload out es h of Inl err \<Rightarrow> first_error base payload es = Some err
    | Inr h' \<Rightarrow> first_error base payload es = None \<and> (\<exists>own' d'. built T base own' d' h' \<and> own' [] = Some out \<and>
        (\<forall>e\<in>set es. [] \<notin> set (target_of e) \<longrightarrow> d' (target_of e) = workflow_field_value base payload (fst (snd e))) \<and>
        (\<forall>t. t \<notin> set (targets es) \<longrightarrow> d' t = d t))"
  using assms
proof (induction es arbitrary: h own d)
  case (Cons e es)
  obtain key source target where e: "e = (key, source, target)" by (cases e)
  note src = built_payload [OF Cons.prems(1,3,4), of source]
  show ?case
  proof (cases "entry_error base payload e")
    case (Some err)
    then have "map_fields payload out (e # es) h = Inl err"
      unfolding e by (auto simp: entry_error_def src split: if_splits)
    then show ?thesis using Some by simp
  next
    case None
    then obtain v where v: "workflow_field_value base payload source = Some v" "source \<noteq> []" "target \<noteq> []"
      by (auto simp: entry_error_def e split: if_splits)
    have "split_on CHR ''.'' target \<noteq> []" "[] @ map trim_space (split_on CHR ''.'' target) \<in> T"
      using Cons.prems(7) v(3) by (simp_all add: e targets_def field_keys_def split_on_not_Nil)
    from built_set_parts [OF Cons.prems(1,2,5) this, of v] obtain own' where
      own': "built T base own' (written d (field_keys target) (field_keys target) v) (workflow_set_field_value h out target v)"
        "own' [] = Some out"
      using Cons.prems(5) by (auto simp: workflow_set_field_value_def field_keys_def map_le_def dom_def)
    have new: "targets (e # es) = target_of e # targets es" "target_of e \<notin> set (targets es)" "field_keys target = target_of e"
      using Cons.prems(6) v(3) by (simp_all add: e targets_def)
    note IH = Cons.IH [OF own'(1) Cons.prems(2-4) own'(2)]
    have step: "map_fields payload out (e # es) h = map_fields payload out es (workflow_set_field_value h out target v)"
      using v by (simp add: e src)
    show ?thesis
    proof (cases "map_fields payload out es (workflow_set_field_value h out target v)")
      case (Inl err)
      then show ?thesis using IH Cons.prems(6,7) step new None by simp
    next
      case (Inr h')
      then obtain own'' d' where ih: "first_error base payload es = None" "built T base own'' d' h'" "own'' [] = Some out"
          "\<forall>e\<in>set es. [] \<notin> set (target_of e) \<longrightarrow> d' (target_of e) = workflow_field_value base payload (fst (snd e))"
          "\<forall>t. t \<notin> set (targets es) \<longrightarrow> d' t = written d (field_keys target) (field_keys target) v t"
        using IH Cons.prems(6,7) new by auto
      have "[] \<notin> set (target_of e) \<longrightarrow> d' (target_of e) = workflow_field_value base payload (fst (snd e))"
        using ih(5) [rule_format, OF new(2)] v(1) by (simp add: e written_def)
      moreover have "\<forall>t. t \<notin> set (targets (e # es)) \<longrightarrow> d' t = d t" using ih(5) new by (simp add: written_def)
      ultimately show ?thesis using Inr step None ih by (auto intro!: exI [of _ own''] exI [of _ d'])
    qed
  qed
qed (auto intro: exI)

lemma built_result:
  assumes "built T base own d h" "no_overlap T" "own [] = Some out" "field_keys target \<in> T" "[] \<notin> set (field_keys target)"
    and "d (field_keys target) = Some v"
  shows "workflow_field_value h (Some out) target = Some v"
proof -
  have "field_parts h (Ref out) (split_on CHR ''.'' target) = Some v"
    by (rule built_field [OF assms(1-3) split_on_not_Nil]) (use assms(4-6) in \<open>simp_all add: field_keys_def\<close>)
  moreover have "maps h out \<noteq> []"
  proof
    assume "maps h out = []"
    then have "field_parts h (Ref out) (split_on CHR ''.'' target) = None"
      using split_on_not_Nil [of "CHR ''.''" target] by (cases "split_on CHR ''.'' target") auto
    then show False using calculation by simp
  qed
  ultimately show ?thesis by (simp add: workflow_field_value_def)
qed

lemma first_error_None: "first_error h payload es = None \<Longrightarrow> e \<in> set es \<Longrightarrow> entry_error h payload e = None"
  by (induction es) (auto split: option.splits)

lemma apply_entries_mapped:
  assumes "closed h" "case payload of None \<Rightarrow> True | Some a \<Rightarrow> a < free h" "separate es" "es \<noteq> []"
  shows "mapped h payload es (apply_entries h payload es)"
proof -
  let ?T = "set (targets es)" and ?h = "snd (new_map h)"
  have b: "built ?T h [[] \<mapsto> free h] Map.empty ?h"
    by (rule builtI) (auto simp: new_map_def split: if_splits)
  have o: "no_overlap ?T" "distinct (targets es)" using assms(3) by (auto simp: separate_def no_overlap_def targets_def)
  note loop = map_fields_built [OF b o(1) assms(1,2) _ o(2) subset_refl, of "free h"]
  show ?thesis
  proof (cases "map_fields payload (free h) es ?h")
    case (Inl e)
    then show ?thesis using loop assms(4) by (simp add: apply_entries_def new_map_def mapped_def)
  next
    case (Inr h')
    then obtain own d where ih: "first_error h payload es = None" "built ?T h own d h'" "own [] = Some (free h)"
        "\<forall>e\<in>set es. [] \<notin> set (target_of e) \<longrightarrow> d (target_of e) = workflow_field_value h payload (fst (snd e))"
      using loop by auto
    have "workflow_field_value h' (Some (free h)) target =
        (if [] \<in> set (field_keys target) then None else workflow_field_value h payload source)"
      if e: "(key, source, target) \<in> set es" for key source target
    proof (cases "[] \<in> set (field_keys target)")
      case True
      then show ?thesis by (simp add: workflow_field_value_def blank_field field_keys_def)
    next
      case False
      obtain v where v: "workflow_field_value h payload source = Some v" "target \<noteq> []"
        using first_error_None [OF ih(1) e] by (auto simp: entry_error_def split: if_splits)
      have "d (field_keys target) = Some v" using bspec [OF ih(4) e] False v(1) by simp
      moreover have "field_keys target \<in> ?T" using e v(2) by (force simp: targets_def)
      ultimately show ?thesis using built_result [OF ih(2) o(1) ih(3)] False v(1) by simp
    qed
    then show ?thesis using Inr ih(1) builtD(7) [OF ih(2)] assms(4)
      by (auto simp: apply_entries_def new_map_def mapped_def)
  qed
qed

text \<open>C23: When no target of a mapping is that of another or lies inside it, then in whatever order its entries are ranged
  over, it fails with the first fault in that order, which is a blank source or target or a source that the payload does
  not have, and it succeeds when there is none. Every target of the result then holds what its source holds in the payload,
  save that a target with an empty segment is dropped without an error; the payload is untouched although the result
  shares its maps.\<close>

theorem mapping_exact:
  assumes "closed h" "case payload of None \<Rightarrow> True | Some a \<Rightarrow> a < free h" "m \<noteq> []"
  shows "(separate (map input_entry m) \<longrightarrow> mapped h payload (map input_entry m) (apply_input_mapping h payload m)) \<and>
    (separate (map output_entry m) \<longrightarrow> mapped h payload (map output_entry m) (apply_output_mapping h payload m))"
  using apply_entries_mapped [OF assms(1,2)] assms(3) by (simp add: apply_input_mapping_def apply_output_mapping_def)

text \<open>A payload with the fields \<open>x\<close>, a map whose \<open>b\<close> is 1, and \<open>y\<close>, which is 2.\<close>

definition demo_heap :: go_heap where
  "demo_heap = \<lparr>maps = (\<lambda>a. if a = 0 then [(''x'', Ref 1), (''y'', Val (Scalar ''2''))]
     else if a = 1 then [(''b'', Val (Scalar ''1''))] else []), free = 2\<rparr>"

lemma demo_heap_closed: "closed demo_heap"
  by (auto simp: closed_def demo_heap_def split: if_splits)

theorem mapping_exact_witness:
  "mapped demo_heap (Some 0) (map input_entry [('' a.c '', Str ''x.b''), (''a.d'', Str ''x'')])
    (apply_input_mapping demo_heap (Some 0) [('' a.c '', Str ''x.b''), (''a.d'', Str ''x'')])"
proof -
  have "separate (map input_entry [('' a.c '', Str ''x.b''), (''a.d'', Str ''x'')])" by code_simp
  then show ?thesis
    using mapping_exact [OF demo_heap_closed, of "Some 0" "[('' a.c '', Str ''x.b''), (''a.d'', Str ''x'')]"]
    by (simp add: demo_heap_def)
qed

text \<open>When a target lies inside another the result depends on the order in which Go ranges over the mapping, which is
  random, and a mapping may write into the payload it reads: with the targets \<open>a\<close> and \<open>a.b\<close>
  one order copies the map and then overwrites a field of the payload's own, the other loses that field's new value.\<close>

theorem mapping_order_matters:
  "case apply_input_mapping demo_heap (Some 0) [(''a'', Str ''x''), (''a.b'', Str ''y'')] of
     Inl _ \<Rightarrow> False
   | Inr (out, h) \<Rightarrow> workflow_field_value h out ''a.b'' = Some (Val (Scalar ''2'')) \<and>
       workflow_field_value demo_heap (Some 0) ''x.b'' = Some (Val (Scalar ''1'')) \<and>
       workflow_field_value h (Some 0) ''x.b'' = Some (Val (Scalar ''2'')) \<and>
       (case apply_input_mapping demo_heap (Some 0) [(''a.b'', Str ''y''), (''a'', Str ''x'')] of
          Inl _ \<Rightarrow> False
        | Inr (out', h') \<Rightarrow> workflow_field_value h' out' ''a.b'' = Some (Val (Scalar ''1'')))"
  by code_simp

end
