(* ===== verification/EventStore.thy ===== *)
theory EventStore imports GoBase GoTime CallLogic "HOL-Library.AList" "HOL-Library.Product_Lexorder" "HOL-Library.List_Lexorder" "HOL-Library.Char_ord" begin

section \<open>The rows and the retry queue of event delivery\<close>

text \<open>
  What the delivery of events keeps: the rows of envelopes, delivery attempts, dead letters, topics
  and ACL bindings (\<open>pkg/corex/db/persistence/model/event_fabric\<close>) with the statements of their
  repositories, and the retry queue and leases in Redis (\<open>pkg/event_bus/redis_retry.go\<close>).
  A statement or a Redis command is one call of the world, as in the workflow engine. A retry item
  is its own member of the sorted set, since its JSON text determines it.
\<close>

subsection \<open>Rows\<close>

definition nil_uuid :: string where
  "nil_uuid = ''00000000-0000-0000-0000-000000000000''"

type_synonym attributes = "(string \<times> string) list"

record event_envelope =
  en_uuid :: string
  en_tenant :: string
  en_topic :: string
  en_event :: string
  en_idempotency :: string
  en_version :: string
  en_format :: string
  en_digest :: string
  en_payload :: string
  en_headers :: attributes
  en_published_by :: string
  en_published_at :: instant
  en_status :: string
  en_retry_count :: int
  en_max_retry :: int
  en_ack_timeout :: int
  en_trace :: string
  en_last_error :: string

record delivery_attempt =
  at_uuid :: string
  at_tenant :: string
  at_envelope :: string
  at_event :: string
  at_subscriber :: string
  at_no :: int
  at_status :: string
  at_latency :: int
  at_error_code :: string
  at_nack_reason :: string
  at_last_attempt :: "instant option"
  at_acked :: "instant option"
  at_trace :: string

record dead_letter =
  dl_uuid :: string
  dl_tenant :: string
  dl_topic :: string
  dl_envelope :: string
  dl_event :: string
  dl_error_code :: string
  dl_error :: string
  dl_payload :: string
  dl_headers :: attributes
  dl_status :: string
  dl_replayed_at :: "instant option"
  dl_operator :: string
  dl_trace :: string

record topic_row =
  tp_uuid :: string
  tp_scope_type :: string
  tp_scope :: string
  tp_tenant :: string
  tp_namespace :: string
  tp_name :: string
  tp_full :: string
  tp_versioning :: string
  tp_max_retry :: int
  tp_ack_timeout :: int

record acl_row =
  ac_tenant :: string
  ac_topic :: string
  ac_principal :: string
  ac_action :: string
  ac_expires :: "instant option"
  ac_status :: int

record retry_item =
  ri_event :: string
  ri_envelope :: string
  ri_subscriber :: string
  ri_tenant :: string
  ri_attempt :: int
  ri_execute_at :: instant
  ri_backoff :: duration
  ri_metadata :: attributes

text \<open>The lease keys hold integers, with the time after which a key is gone.\<close>

record ef_db =
  envelopes :: "event_envelope list"
  attempts :: "delivery_attempt list"
  dead_letters :: "dead_letter list"
  topics :: "topic_row list"
  bindings :: "acl_row list"
  retries :: "string \<Rightarrow> (retry_item \<times> int) list"
  lease_keys :: "string \<Rightarrow> (int \<times> instant option) option"

datatype ef_error =
    Refused string
  | TenantMismatch
  | Unauthorized
  | RetryExhausted
  | StoreError string

subsection \<open>The world\<close>

record ef_moment =
  e_others :: "ef_db \<Rightarrow> ef_db"
  e_now :: instant
  e_uuid :: string
  e_random :: int
  e_fault :: "(string \<times> bool) option"

text \<open>
  The settings of the service, and what it takes from outside: the guard of plugin usage, the
  parser of UUIDs, which gives the canonical text, SHA-256 in hexadecimal, the value of a
  conversion from a float beyond the range of a duration, which Go leaves to the implementation, and
  the JSON text of a retry item, by which Redis orders members of equal score.
\<close>

record ef_env =
  e_moments :: "nat \<Rightarrow> ef_moment"
  e_max_retry :: int
  e_fallback :: bool
  e_dlq :: bool
  e_acl :: bool
  e_usage_guard :: "(string \<Rightarrow> string option) option"
  e_parse_uuid :: "string \<Rightarrow> string option"
  e_digest :: "string \<Rightarrow> string"
  e_out_of_range :: "int \<Rightarrow> duration"
  e_item_text :: "retry_item \<Rightarrow> string"

record ef_world =
  e_db :: ef_db
  e_calls :: nat
  e_env :: ef_env

type_synonym 'a ef = "(ef_world, 'a) state"

definition ef_call :: "(ef_moment \<Rightarrow> ef_db \<Rightarrow> (ef_error + 'a) \<times> ef_db) \<Rightarrow> (ef_error + 'a) ef" where
  "ef_call f = State (\<lambda>w. let m = e_moments (e_env w) (e_calls w); db = e_others m (e_db w); (r, db') = f m db
     in case e_fault m of
          None \<Rightarrow> (r, w\<lparr>e_db := db', e_calls := Suc (e_calls w)\<rparr>)
        | Some (e, done) \<Rightarrow> (Inl (StoreError e), w\<lparr>e_db := if done then db' else db, e_calls := Suc (e_calls w)\<rparr>))"

definition ef_read :: "(ef_db \<Rightarrow> 'a) \<Rightarrow> (ef_error + 'a) ef" where
  "ef_read f = ef_call (\<lambda>m db. (Inr (f db), db))"

text \<open>What does not leave the process: the clock, the random numbers, the settings.\<close>

definition this_moment :: "ef_moment ef" where
  "this_moment = State (\<lambda>w. (e_moments (e_env w) (e_calls w), w\<lparr>e_calls := Suc (e_calls w)\<rparr>))"

definition settings :: "ef_env ef" where
  "settings = State (\<lambda>w. (e_env w, w))"

subsection \<open>Envelopes\<close>

text \<open>
  \<open>INSERT \<dots> ON CONFLICT (tenant_key, event_id) DO UPDATE\<close> counts the row it inserts or updates. The
  struct keeps the UUID its hook gave it: GORM reads back only columns the database generates. The
  index \<open>uk_event_envelopes_event_id\<close> makes the event id unique over all tenants.
\<close>

definition insert_envelope :: "string \<Rightarrow> event_envelope \<Rightarrow> ef_db \<Rightarrow> (ef_error + event_envelope \<times> nat) \<times> ef_db" where
  "insert_envelope fresh e db = (let e' = (if en_uuid e = nil_uuid then e\<lparr>en_uuid := fresh\<rparr> else e);
       same = (\<lambda>r. en_tenant r = en_tenant e \<and> en_event r = en_event e)
     in if list_ex same (envelopes db) then
          (Inr (e', 1), db\<lparr>envelopes := map (\<lambda>r. if same r then r\<lparr>en_payload := en_payload e, en_headers := en_headers e,
             en_format := en_format e, en_digest := en_digest e, en_published_by := en_published_by e, en_trace := en_trace e,
             en_status := en_status e, en_max_retry := en_max_retry e, en_ack_timeout := en_ack_timeout e\<rparr> else r) (envelopes db)\<rparr>)
        else if list_ex (\<lambda>r. en_event r = en_event e) (envelopes db) then (Inl (StoreError ''uk_event_envelopes_event_id''), db)
        else (Inr (e', 1), db\<lparr>envelopes := envelopes db @ [e']\<rparr>))"

definition find_envelope_by_event :: "string \<Rightarrow> string \<Rightarrow> ef_db \<Rightarrow> event_envelope option" where
  "find_envelope_by_event tenant event db = find (\<lambda>r. en_tenant r = tenant \<and> en_event r = event) (envelopes db)"

definition upsert_by_event_id :: "event_envelope \<Rightarrow> (ef_error + event_envelope option \<times> bool) ef" where
  "upsert_by_event_id e = attempt (ef_call (\<lambda>m. insert_envelope (e_uuid m) e)) (\<lambda>(stored, affected).
     if affected = 0 then attempt (ef_read (find_envelope_by_event (en_tenant e) (en_event e))) (\<lambda>r. returns (r, True))
     else returns (Some stored, False))"

definition find_envelope :: "string \<Rightarrow> ef_db \<Rightarrow> event_envelope option" where
  "find_envelope uid db = find (\<lambda>r. en_uuid r = uid) (envelopes db)"

definition update_envelope :: "string \<Rightarrow> (event_envelope \<Rightarrow> event_envelope) \<Rightarrow> (ef_error + unit) ef" where
  "update_envelope uid f = ef_call (\<lambda>m db. (Inr (), db\<lparr>envelopes := map (\<lambda>r. if en_uuid r = uid then f r else r) (envelopes db)\<rparr>))"

subsection \<open>Delivery attempts\<close>

definition same_attempt :: "delivery_attempt \<Rightarrow> delivery_attempt \<Rightarrow> bool" where
  "same_attempt a r \<longleftrightarrow> at_tenant r = at_tenant a \<and> at_event r = at_event a \<and> at_subscriber r = at_subscriber a \<and> at_no r = at_no a"

definition insert_attempt :: "string \<Rightarrow> delivery_attempt \<Rightarrow> ef_db \<Rightarrow> (ef_error + delivery_attempt \<times> nat) \<times> ef_db" where
  "insert_attempt fresh a db = (let a' = (if at_uuid a = nil_uuid then a\<lparr>at_uuid := fresh\<rparr> else a)
     in if list_ex (same_attempt a) (attempts db) then
          (Inr (a', 1), db\<lparr>attempts := map (\<lambda>r. if same_attempt a r then r\<lparr>at_status := at_status a, at_latency := at_latency a,
             at_error_code := at_error_code a, at_nack_reason := at_nack_reason a, at_last_attempt := at_last_attempt a,
             at_acked := at_acked a\<rparr> else r) (attempts db)\<rparr>)
        else (Inr (a', 1), db\<lparr>attempts := attempts db @ [a']\<rparr>))"

text \<open>The row with the highest number.\<close>

definition latest_attempt :: "string \<Rightarrow> string \<Rightarrow> ef_db \<Rightarrow> delivery_attempt option" where
  "latest_attempt env sub db = (let rows = [r \<leftarrow> attempts db. at_envelope r = env \<and> at_subscriber r = sub]
     in find (\<lambda>r. list_all (\<lambda>q. at_no q \<le> at_no r) rows) rows)"

definition upsert_attempt :: "delivery_attempt \<Rightarrow> (ef_error + delivery_attempt option) ef" where
  "upsert_attempt a = attempt (ef_call (\<lambda>m. insert_attempt (e_uuid m) a)) (\<lambda>(stored, affected).
     if affected = 0 then ef_read (latest_attempt (at_envelope a) (at_subscriber a)) else returns (Some stored))"

definition find_attempt :: "string \<Rightarrow> ef_db \<Rightarrow> delivery_attempt option" where
  "find_attempt uid db = find (\<lambda>r. at_uuid r = uid) (attempts db)"

definition update_attempt :: "string \<Rightarrow> (delivery_attempt \<Rightarrow> delivery_attempt) \<Rightarrow> (ef_error + unit) ef" where
  "update_attempt uid f = ef_call (\<lambda>m db. (Inr (), db\<lparr>attempts := map (\<lambda>r. if at_uuid r = uid then f r else r) (attempts db)\<rparr>))"

definition count_active :: "string \<Rightarrow> ef_db \<Rightarrow> nat" where
  "count_active env db = length [r \<leftarrow> attempts db. at_envelope r = env \<and> at_status r \<in> {''pending'', ''delivering''}]"

subsection \<open>Dead letters, topics and bindings\<close>

definition create_dead_letter :: "dead_letter \<Rightarrow> (ef_error + unit) ef" where
  "create_dead_letter d = ef_call (\<lambda>m db. (Inr (), db\<lparr>dead_letters := dead_letters db @
     [if dl_uuid d = nil_uuid then d\<lparr>dl_uuid := e_uuid m\<rparr> else d]\<rparr>))"

definition topic_owner :: "topic_row \<Rightarrow> string" where
  "topic_owner t = (if tp_scope t = [] then tp_tenant t else tp_scope t)"

definition topic_rank :: "string \<Rightarrow> topic_row \<Rightarrow> nat" where
  "topic_rank tenant t = (let owner = topic_owner t in
     if owner = trim_space tenant then 0 else if owner = ''global'' then 1 else if owner = ''system'' then 2 else 999)"

definition find_topic_by_composite :: "string \<Rightarrow> string \<Rightarrow> string \<Rightarrow> ef_db \<Rightarrow> topic_row option" where
  "find_topic_by_composite tenant namespace name db =
     (let keys = (if trim_space tenant = [] then [] else [trim_space tenant]) @ [''global'', ''system''];
          rows = [t \<leftarrow> topics db. topic_owner t \<in> set keys \<and> tp_namespace t = namespace \<and> tp_name t = name \<and>
            tp_scope_type t \<in> {''tenant'', ''system''}]
      in case sort_key (topic_rank tenant) rows of [] \<Rightarrow> None | t # _ \<Rightarrow> Some t)"

definition find_topic :: "string \<Rightarrow> ef_db \<Rightarrow> topic_row option" where
  "find_topic uid db = find (\<lambda>t. tp_uuid t = uid) (topics db)"

definition has_permission :: "string \<Rightarrow> string \<Rightarrow> string \<Rightarrow> string \<Rightarrow> instant \<Rightarrow> ef_db \<Rightarrow> bool" where
  "has_permission tenant topic who action now db = list_ex (\<lambda>b. ac_tenant b = tenant \<and> ac_topic b = topic \<and>
     ac_principal b = who \<and> ac_action b = action \<and> ac_status b = 1 \<and>
     (case ac_expires b of None \<Rightarrow> True | Some e \<Rightarrow> now < e)) (bindings db)"

definition bindings_of :: "string \<Rightarrow> string \<Rightarrow> ef_db \<Rightarrow> acl_row list" where
  "bindings_of tenant topic db = [b \<leftarrow> bindings db. ac_tenant b = tenant \<and> ac_topic b = topic]"

subsection \<open>The retry queue\<close>

definition unix_milli :: "instant \<Rightarrow> int" where
  "unix_milli t = t div millisecond_ns"

definition retries_changed :: "string \<Rightarrow> ((retry_item \<times> int) list \<Rightarrow> (retry_item \<times> int) list) \<Rightarrow> ef_db \<Rightarrow> ef_db" where
  "retries_changed tenant f db = db\<lparr>retries := (retries db)(tenant := f (retries db tenant))\<rparr>"

definition schedule_retry_item :: "retry_item \<Rightarrow> (ef_error + unit) ef" where
  "schedule_retry_item item = require (ri_tenant item \<noteq> []) (Refused ''tenant key is required'') (do {
     m \<leftarrow> this_moment;
     let item' = (if is_zero (ri_execute_at item) then item\<lparr>ri_execute_at := e_now m\<rparr> else item);
     ef_call (\<lambda>_ db. (Inr (), retries_changed (ri_tenant item') (AList.update item' (unix_milli (ri_execute_at item'))) db)) })"

text \<open>\<open>ZRANGEBYSCORE\<close> up to a score, by score and then by the members' bytes, with a limit.\<close>

definition due_items :: "(retry_item \<Rightarrow> string) \<Rightarrow> int \<Rightarrow> nat \<Rightarrow> (retry_item \<times> int) list \<Rightarrow> (retry_item \<times> int) list" where
  "due_items text upper n q = take n (sort_key (\<lambda>(i, s). (s, text i)) [p \<leftarrow> q. snd p \<le> upper])"

definition pop_due_retries :: "string \<Rightarrow> instant \<Rightarrow> int \<Rightarrow> (ef_error + retry_item list) ef" where
  "pop_due_retries tenant now limit = require (tenant \<noteq> []) (Refused ''tenant key is required'') (do {
     env \<leftarrow> settings;
     attempt (ef_read (\<lambda>db. due_items (e_item_text env) (unix_milli now) (nat (if limit \<le> 0 then 50 else limit)) (retries db tenant)))
       (\<lambda>values. if values = [] then returns [] else
          attempt (ef_call (\<lambda>_ db. (Inr (), retries_changed tenant (filter (\<lambda>p. fst p \<notin> fst ` set values)) db)))
            (\<lambda>_. returns (map (\<lambda>(i, s). i\<lparr>ri_tenant := tenant, ri_execute_at := s * millisecond_ns\<rparr>) values))) })"

definition remove_retry :: "retry_item \<Rightarrow> (ef_error + unit) ef" where
  "remove_retry item = require (ri_tenant item \<noteq> []) (Refused ''tenant key is required'')
     (ef_call (\<lambda>_ db. (Inr (), retries_changed (ri_tenant item) (filter (\<lambda>p. fst p \<noteq> item)) db)))"

subsection \<open>Leases\<close>

record delivery_lease =
  le_id :: string
  le_tenant :: string
  le_subscriber :: string
  le_ack_timeout :: duration
  le_max_concurrent :: int

definition lease_counter_key :: "string \<Rightarrow> string \<Rightarrow> string" where
  "lease_counter_key tenant sub = ''event:lease:'' @ tenant @ '':'' @ sub"

definition lease_instance_key :: "string \<Rightarrow> string \<Rightarrow> string \<Rightarrow> string" where
  "lease_instance_key tenant sub lease = ''event:lease:'' @ tenant @ '':'' @ sub @ '':'' @ lease"

definition live_value :: "instant \<Rightarrow> (int \<times> instant option) option \<Rightarrow> int option" where
  "live_value now k = (case k of None \<Rightarrow> None | Some (v, None) \<Rightarrow> Some v
     | Some (v, Some e) \<Rightarrow> if e \<le> now then None else Some v)"

definition key_command :: "string \<Rightarrow> (instant \<Rightarrow> (int \<times> instant option) option \<Rightarrow> 'a \<times> (int \<times> instant option) option) \<Rightarrow> (ef_error + 'a) ef" where
  "key_command key f = ef_call (\<lambda>m db. let k = lease_keys db key;
       live = (if live_value (e_now m) k = None then None else k); (r, k') = f (e_now m) live
     in (Inr r, db\<lparr>lease_keys := (lease_keys db)(key := k')\<rparr>))"

definition redis_set_nx :: "string \<Rightarrow> int \<Rightarrow> duration \<Rightarrow> (ef_error + bool) ef" where
  "redis_set_nx key v ttl = key_command key (\<lambda>now k. case k of None \<Rightarrow> (True, Some (v, Some (now + ttl))) | Some _ \<Rightarrow> (False, k))"

definition redis_expire :: "string \<Rightarrow> duration \<Rightarrow> (ef_error + bool) ef" where
  "redis_expire key ttl = key_command key (\<lambda>now k. case k of None \<Rightarrow> (False, None) | Some (v, _) \<Rightarrow> (True, Some (v, Some (now + ttl))))"

definition redis_add :: "string \<Rightarrow> int \<Rightarrow> (ef_error + int) ef" where
  "redis_add key d = key_command key (\<lambda>now k. case k of None \<Rightarrow> (d, Some (d, None)) | Some (v, e) \<Rightarrow> (v + d, Some (v + d, e)))"

definition redis_del :: "string \<Rightarrow> (ef_error + nat) ef" where
  "redis_del key = key_command key (\<lambda>now k. (if k = None then 0 else 1, None))"

definition acquire_lease :: "delivery_lease \<Rightarrow> (ef_error + bool) ef" where
  "acquire_lease l = require (le_tenant l \<noteq> [] \<and> le_subscriber l \<noteq> [] \<and> le_id l \<noteq> [])
       (Refused ''tenant key, subscriber id and lease id are required'')
     (let limit = (if le_max_concurrent l \<le> 0 then 1 else le_max_concurrent l);
          ttl = (if le_ack_timeout l \<le> 0 then 30 * second_ns else le_ack_timeout l);
          inst = lease_instance_key (le_tenant l) (le_subscriber l) (le_id l);
          counter = lease_counter_key (le_tenant l) (le_subscriber l)
      in attempt (redis_set_nx inst 1 ttl) (\<lambda>acquired.
         if \<not> acquired then attempt (redis_expire inst ttl) (\<lambda>_. returns True)
         else do {
           c \<leftarrow> redis_add counter 1;
           case c of
             Inl e \<Rightarrow> do { _ \<leftarrow> redis_del inst; raise e }
           | Inr count \<Rightarrow> do {
               _ \<leftarrow> (if count = 1 then redis_expire counter ttl else returns False);
               if limit < count then do { _ \<leftarrow> redis_add counter (-1); _ \<leftarrow> redis_del inst; returns False }
               else returns True } }))"

definition release_lease :: "delivery_lease \<Rightarrow> (ef_error + unit) ef" where
  "release_lease l = require (le_tenant l \<noteq> [] \<and> le_subscriber l \<noteq> [] \<and> le_id l \<noteq> [])
       (Refused ''tenant key, subscriber id and lease id are required'')
     (let inst = lease_instance_key (le_tenant l) (le_subscriber l) (le_id l);
          counter = lease_counter_key (le_tenant l) (le_subscriber l)
      in attempt (redis_del inst) (\<lambda>removed. if removed = 0 then returns ()
         else attempt (redis_add counter (-1)) (\<lambda>v. do {
           _ \<leftarrow> (if v \<le> 0 then attempt (redis_del counter) (\<lambda>_. returns True)
                 else if 0 < le_ack_timeout l then redis_expire counter (le_ack_timeout l) else returns False);
           returns () })))"

end
