(* ===== verification/EventDelivery.thy ===== *)
theory EventDelivery imports EventStore VersionNegotiation begin

section \<open>Event delivery\<close>

text \<open>
  \<open>internal/service/event_fabric/delivery\<close>: \<open>backoff_scheduler.go\<close> and \<open>service.go\<close>. Publishing
  stores an event's envelope, gives every subscriber of its topic a first delivery attempt and
  schedules it; polling takes due attempts from the retry queue, leases them and hands them out;
  a subscriber acknowledges an attempt or refuses it, which schedules the next one or, when there were
  too many, puts the event among the dead letters. Audit records and metrics, whose errors are
  ignored, are left out. \<open>dlq/service.go\<close> replays and purges dead letters.
\<close>

subsection \<open>Backoff\<close>

definition default_base_delay :: duration where "default_base_delay = 500 * millisecond_ns"
definition default_max_delay :: duration where "default_max_delay = 30 * second_ns"
definition default_ack_timeout :: duration where "default_ack_timeout = 30 * second_ns"

text \<open>
  The delays that are doubled are below \<open>2^53\<close> nanoseconds, so the floats that hold them and their
  products with powers of two are exact, as is a quarter of what remains below the maximum.
\<close>

definition to_duration :: "(int \<Rightarrow> duration) \<Rightarrow> int \<Rightarrow> duration" where
  "to_duration out_of_range x = (if min_int64 \<le> x \<and> x \<le> max_int64 then x else out_of_range x)"

definition backoff_delay :: "(int \<Rightarrow> duration) \<Rightarrow> int \<Rightarrow> duration \<Rightarrow> duration" where
  "backoff_delay out_of_range att base = (if att = 1 \<and> base = 0 then base
     else let b = (if base \<le> 0 then default_base_delay else base);
              d = to_duration out_of_range (b * 2 ^ nat (att - 1))
          in if default_max_delay < d then default_max_delay else d)"

definition random_jitter :: "int \<Rightarrow> duration \<Rightarrow> duration" where
  "random_jitter r bound = (if bound \<le> 0 then 0 else r mod bound)"

record schedule_options =
  so_tenant :: string
  so_subscriber :: string
  so_event :: string
  so_envelope :: string
  so_attempt :: int
  so_base :: duration
  so_metadata :: attributes

definition schedule :: "schedule_options \<Rightarrow> (ef_error + retry_item) ef" where
  "schedule opts = do {
     env \<leftarrow> settings;
     m \<leftarrow> this_moment;
     let att = (if so_attempt opts \<le> 0 then 1 else so_attempt opts);
     let d = backoff_delay (e_out_of_range env) att (so_base opts);
     let delay = d + random_jitter (e_random m) (d div 4);
     let item = \<lparr>ri_event = so_event opts, ri_envelope = so_envelope opts, ri_subscriber = so_subscriber opts,
       ri_tenant = so_tenant opts, ri_attempt = att, ri_execute_at = e_now m + delay, ri_backoff = delay, ri_metadata = so_metadata opts\<rparr>;
     attempt (schedule_retry_item item) (\<lambda>_. returns item) }"

definition attempt_options :: "delivery_attempt \<Rightarrow> event_envelope \<Rightarrow> int \<Rightarrow> duration \<Rightarrow> string \<Rightarrow> schedule_options" where
  "attempt_options a e no base named = \<lparr>so_tenant = at_tenant a, so_subscriber = at_subscriber a, so_event = at_event a,
     so_envelope = at_envelope a, so_attempt = no, so_base = base,
     so_metadata = [(''attempt_uuid'', named), (''ack_timeout_sec'', itoa (en_ack_timeout e))]\<rparr>"

definition lease_of :: "delivery_attempt \<Rightarrow> event_envelope \<Rightarrow> delivery_lease" where
  "lease_of a e = \<lparr>le_id = at_uuid a, le_tenant = at_tenant a, le_subscriber = at_subscriber a,
     le_ack_timeout = en_ack_timeout e * second_ns, le_max_concurrent = 1\<rparr>"

subsection \<open>Publishing\<close>

record publish_request =
  pr_tenant :: string
  pr_topic :: string
  pr_event :: string
  pr_trace :: string
  pr_version :: string
  pr_payload :: string
  pr_format :: string
  pr_idempotency :: string
  pr_attributes :: attributes

definition attribute :: "attributes \<Rightarrow> string \<Rightarrow> string" where
  "attribute m k = (case map_of m k of None \<Rightarrow> [] | Some v \<Rightarrow> v)"

definition resolve_tenant_key :: "string \<Rightarrow> ef_error + string" where
  "resolve_tenant_key v = (if trim_space v \<noteq> [] then Inr (trim_space v) else Inl (Refused ''tenant_uuid is required''))"

definition parse_topic_name :: "(string \<Rightarrow> string option) \<Rightarrow> string \<Rightarrow> ef_error + string \<times> string \<times> string" where
  "parse_topic_name parse topic = (let parts = split_on CHR ''.'' (trim_space topic) in
     if length parts < 2 then Inl (Refused ''invalid topic format'')
     else let first = trim_space (hd parts) in
       if (case parse first of None \<Rightarrow> False | Some u \<Rightarrow> u \<noteq> nil_uuid) \<and> 3 \<le> length parts
       then Inr (first, join_with CHR ''.'' (butlast (tl parts)), last parts)
       else Inr ([], join_with CHR ''.'' (butlast parts), last parts))"

definition is_shared_topic_tenant :: "string \<Rightarrow> bool" where
  "is_shared_topic_tenant t = (let k = to_lower (trim_space t) in k = ''global'' \<or> k = ''system'')"

definition default_version :: "string \<Rightarrow> string" where
  "default_version v = (if blank v then ''v1'' else v)"

definition default_format :: "string \<Rightarrow> string" where
  "default_format f = (if blank f then ''json'' else to_lower f)"

definition accepts_new_usage :: "ef_env \<Rightarrow> attributes \<Rightarrow> ef_error + unit" where
  "accepts_new_usage env attrs = (case e_usage_guard env of
     None \<Rightarrow> Inr ()
   | Some guard \<Rightarrow> (let p = trim_space (attribute attrs ''plugin_id'') in
       if attrs = [] \<or> p = [] then Inr ()
       else case guard p of None \<Rightarrow> Inr () | Some msg \<Rightarrow> Inl (Refused msg)))"

fun live_subscribers :: "instant \<Rightarrow> acl_row list \<Rightarrow> string list" where
  "live_subscribers now [] = []"
| "live_subscribers now (b # bs) =
     (if ac_action b \<noteq> ''subscribe'' then live_subscribers now bs
      else if ac_status b \<noteq> 1 then live_subscribers now bs
      else if (case ac_expires b of None \<Rightarrow> False | Some e \<Rightarrow> e < now) then live_subscribers now bs
      else ac_principal b # live_subscribers now bs)"

definition collect_subscribers :: "string \<Rightarrow> string \<Rightarrow> (ef_error + string list) ef" where
  "collect_subscribers tenant topic = do {
     env \<leftarrow> settings;
     if \<not> e_acl env then returns []
     else attempt (ef_read (bindings_of tenant topic)) (\<lambda>rows. do {
       m \<leftarrow> this_moment;
       returns (live_subscribers (e_now m) rows) }) }"

definition envelope_for :: "publish_request \<Rightarrow> string \<Rightarrow> string \<Rightarrow> topic_row \<Rightarrow> ef_env \<Rightarrow> instant \<Rightarrow> event_envelope" where
  "envelope_for req tenant event t env now = (let payload = (if pr_payload req = [] then ''{}'' else pr_payload req)
     in \<lparr>en_uuid = nil_uuid, en_tenant = tenant, en_topic = tp_uuid t, en_event = event, en_idempotency = pr_idempotency req,
       en_version = default_version (pr_version req), en_format = default_format (pr_format req), en_digest = e_digest env payload,
       en_payload = payload, en_headers = pr_attributes req, en_published_by = attribute (pr_attributes req) ''principal_id'',
       en_published_at = now, en_status = ''pending'', en_retry_count = 0,
       en_max_retry = (if tp_max_retry t \<le> 0 then e_max_retry env else tp_max_retry t),
       en_ack_timeout = (if tp_ack_timeout t \<le> 0 then default_ack_timeout div second_ns else tp_ack_timeout t),
       en_trace = pr_trace req, en_last_error = []\<rparr>)"

definition first_attempt :: "string \<Rightarrow> event_envelope \<Rightarrow> string \<Rightarrow> delivery_attempt" where
  "first_attempt tenant e sub = \<lparr>at_uuid = nil_uuid, at_tenant = tenant, at_envelope = en_uuid e, at_event = en_event e,
     at_subscriber = sub, at_no = 1, at_status = ''pending'', at_latency = 0, at_error_code = [], at_nack_reason = [],
     at_last_attempt = None, at_acked = None, at_trace = en_trace e\<rparr>"

text \<open>\<open>FindByEnvelopeAndSubscriber\<close> can answer nil, whose field the caller then reads: a panic, here \<open>NilAttempt\<close>.\<close>

definition nil_attempt :: ef_error where
  "nil_attempt = StoreError ''nil attempt''"

fun publish_to :: "string \<Rightarrow> event_envelope \<Rightarrow> int \<Rightarrow> string list \<Rightarrow> (ef_error + unit) ef" where
  "publish_to tenant e ack [] = returns ()"
| "publish_to tenant e ack (sub # subs) = attempt (upsert_attempt (first_attempt tenant e sub)) (\<lambda>stored. case stored of
     None \<Rightarrow> raise nil_attempt
   | Some a \<Rightarrow> attempt (schedule \<lparr>so_tenant = tenant, so_subscriber = sub, so_event = en_event e, so_envelope = en_uuid e,
        so_attempt = at_no a, so_base = 0, so_metadata = [(''attempt_uuid'', at_uuid a), (''ack_timeout_sec'', itoa ack)]\<rparr>)
       (\<lambda>_. publish_to tenant e ack subs))"

definition topic_accepts :: "string \<Rightarrow> string \<Rightarrow> topic_row option \<Rightarrow> ef_error + topic_row" where
  "topic_accepts tenant named found = (case found of
     None \<Rightarrow> Inl (Refused (''topic '' @ named @ '' not found''))
   | Some t \<Rightarrow> if \<not> equal_fold (tp_tenant t) tenant \<and> \<not> is_shared_topic_tenant (tp_tenant t) then Inl TenantMismatch else Inr t)"

definition may_publish :: "string \<Rightarrow> topic_row \<Rightarrow> string \<Rightarrow> (ef_error + unit) ef" where
  "may_publish tenant t who = do {
     env \<leftarrow> settings;
     if \<not> e_acl env \<or> who = [] then returns ()
     else do {
       m \<leftarrow> this_moment;
       attempt (ef_read (has_permission tenant (tp_uuid t) who ''publish'' (e_now m)))
         (\<lambda>allowed. require allowed Unauthorized (returns ())) } }"

definition publish_envelope :: "publish_request \<Rightarrow> string \<Rightarrow> string \<Rightarrow> string \<Rightarrow> topic_row \<Rightarrow> (ef_error + unit) ef" where
  "publish_envelope req tenant acl_tenant event t = do {
     env \<leftarrow> settings;
     m \<leftarrow> this_moment;
     let e = envelope_for req tenant event t env (e_now m);
     attempt (upsert_by_event_id e) (\<lambda>(stored, existed). if existed then returns () else
       case stored of None \<Rightarrow> raise nil_attempt
       | Some e' \<Rightarrow> attempt (collect_subscribers acl_tenant (tp_uuid t)) (\<lambda>subs. publish_to tenant e' (en_ack_timeout e) subs)) }"

definition publish_event :: "publish_request \<Rightarrow> (ef_error + unit) ef" where
  "publish_event req = attempt (State_Monad.return (resolve_tenant_key (pr_tenant req))) (\<lambda>tenant.
     require (\<not> blank (pr_topic req)) (Refused ''topic is required'') (do {
     env \<leftarrow> settings;
     m \<leftarrow> this_moment;
     attempt (State_Monad.return (accepts_new_usage env (pr_attributes req))) (\<lambda>_.
     let event = (if blank (pr_event req) then e_uuid m else trim_space (pr_event req)) in
     attempt (State_Monad.return (parse_topic_name (e_parse_uuid env) (trim_space (pr_topic req)))) (\<lambda>(topic_tenant, namespace, name).
     require (topic_tenant = [] \<or> equal_fold topic_tenant tenant \<or> is_shared_topic_tenant topic_tenant) TenantMismatch (
     attempt (ef_read (find_topic_by_composite tenant namespace name)) (\<lambda>found.
     attempt (State_Monad.return (topic_accepts tenant (pr_topic req) found)) (\<lambda>t.
     let acl_tenant = (if tp_tenant t = [] then tenant else tp_tenant t) in
     attempt (may_publish acl_tenant t (trim_space (attribute (pr_attributes req) ''principal_id''))) (\<lambda>_.
     publish_envelope req tenant acl_tenant event t)))))) }))"

subsection \<open>Acknowledging and refusing\<close>

definition addressed :: "string \<Rightarrow> string \<Rightarrow> (ef_error + delivery_attempt \<times> event_envelope) ef" where
  "addressed delivery_id sub = do {
     env \<leftarrow> settings;
     case e_parse_uuid env delivery_id of
       None \<Rightarrow> raise (Refused ''invalid delivery id'')
     | Some uid \<Rightarrow> attempt (ef_read (find_attempt uid)) (\<lambda>found. case found of
         None \<Rightarrow> raise (Refused ''delivery attempt not found'')
       | Some a \<Rightarrow> require (sub = [] \<or> equal_fold sub (at_subscriber a)) (Refused ''subscriber mismatch'') (
           attempt (ef_read (find_envelope (at_envelope a))) (\<lambda>e. case e of
             None \<Rightarrow> raise (Refused ''envelope missing for attempt'')
           | Some e \<Rightarrow> returns (a, e)))) }"

definition acked :: "instant \<Rightarrow> delivery_attempt \<Rightarrow> delivery_attempt \<Rightarrow> delivery_attempt" where
  "acked now a r = r\<lparr>at_status := ''succeeded'', at_acked := Some now,
     at_latency := (case at_last_attempt a of None \<Rightarrow> 0 | Some t \<Rightarrow> milliseconds (time_sub now t)),
     at_error_code := [], at_nack_reason := []\<rparr>"

definition ack_delivery :: "string \<Rightarrow> string \<Rightarrow> (ef_error + unit) ef" where
  "ack_delivery delivery_id sub = attempt (addressed delivery_id sub) (\<lambda>(a, e). do {
     m \<leftarrow> this_moment;
     attempt (update_attempt (at_uuid a) (acked (e_now m) a)) (\<lambda>_.
     attempt (ef_read (count_active (at_envelope a))) (\<lambda>active.
     attempt (update_envelope (at_envelope a) (\<lambda>r. r\<lparr>en_status := (if 0 < active then ''delivering'' else ''succeeded''),
       en_retry_count := at_no a - 1\<rparr>)) (\<lambda>_.
     release_lease (lease_of a e)))) })"

definition refused_by :: "instant \<Rightarrow> string \<Rightarrow> string \<Rightarrow> delivery_attempt \<Rightarrow> delivery_attempt" where
  "refused_by now code why r = r\<lparr>at_status := ''failed'', at_error_code := code, at_nack_reason := why, at_last_attempt := Some now\<rparr>"

definition letter_for :: "event_envelope \<Rightarrow> string \<Rightarrow> dead_letter" where
  "letter_for e why = \<lparr>dl_uuid = nil_uuid, dl_tenant = en_tenant e, dl_topic = en_topic e, dl_envelope = en_uuid e,
     dl_event = en_event e, dl_error_code = ''nack'', dl_error = why, dl_payload = en_payload e, dl_headers = en_headers e,
     dl_status = ''queued'', dl_replayed_at = None, dl_operator = [], dl_trace = en_trace e\<rparr>"

definition push_to_dlq :: "event_envelope \<Rightarrow> string \<Rightarrow> (ef_error + unit) ef" where
  "push_to_dlq e why = do { env \<leftarrow> settings; if e_dlq env then create_dead_letter (letter_for e why) else returns () }"

record retry_plan =
  rp_max :: int
  rp_remaining :: int
  rp_delay :: duration

definition to_int32 :: "int \<Rightarrow> int" where
  "to_int32 x = (x + 2 ^ 31) mod 2 ^ 32 - 2 ^ 31"

definition attempt_limit :: "ef_env \<Rightarrow> event_envelope \<Rightarrow> int" where
  "attempt_limit env e = (if en_max_retry e \<le> 0 then e_max_retry env else en_max_retry e)"

definition next_attempt_of :: "delivery_attempt \<Rightarrow> delivery_attempt" where
  "next_attempt_of a = \<lparr>at_uuid = nil_uuid, at_tenant = at_tenant a, at_envelope = at_envelope a, at_event = at_event a,
     at_subscriber = at_subscriber a, at_no = at_no a + 1, at_status = ''pending'', at_latency = 0, at_error_code = [],
     at_nack_reason = [], at_last_attempt = None, at_acked = None, at_trace = at_trace a\<rparr>"

definition give_up :: "delivery_attempt \<Rightarrow> event_envelope \<Rightarrow> string \<Rightarrow> (ef_error + retry_plan) ef" where
  "give_up a e why = attempt (push_to_dlq e why) (\<lambda>_.
     attempt (update_envelope (at_envelope a) (\<lambda>r. r\<lparr>en_status := ''failed'', en_last_error := why\<rparr>)) (\<lambda>_.
     raise RetryExhausted))"

definition retry_base :: duration where "retry_base = default_ack_timeout div 6"

definition try_again :: "delivery_attempt \<Rightarrow> event_envelope \<Rightarrow> int \<Rightarrow> string \<Rightarrow> (ef_error + retry_plan) ef" where
  "try_again a e limit why = attempt (upsert_attempt (next_attempt_of a)) (\<lambda>stored. case stored of
     None \<Rightarrow> raise nil_attempt
   | Some b \<Rightarrow> attempt (schedule (attempt_options a e (at_no a + 1) retry_base (at_uuid b))) (\<lambda>item.
       attempt (update_envelope (at_envelope a) (\<lambda>r. r\<lparr>en_status := ''pending'', en_retry_count := at_no a, en_last_error := why\<rparr>)) (\<lambda>_.
       returns \<lparr>rp_max = to_int32 limit, rp_remaining = to_int32 (max 0 (limit - (at_no a + 1) + 1)), rp_delay = ri_backoff item\<rparr>)))"

definition nack_delivery :: "string \<Rightarrow> string \<Rightarrow> string \<Rightarrow> (ef_error + retry_plan) ef" where
  "nack_delivery delivery_id sub why = attempt (addressed delivery_id sub) (\<lambda>(a, e). do {
     env \<leftarrow> settings;
     m \<leftarrow> this_moment;
     attempt (update_attempt (at_uuid a) (refused_by (e_now m) ''nack'' why)) (\<lambda>_. do {
       _ \<leftarrow> release_lease (lease_of a e);
       if attempt_limit env e < at_no a + 1 then give_up a e why else try_again a e (attempt_limit env e) why }) })"

subsection \<open>Polling\<close>

text \<open>What the caller's context says, as the accessors of \<open>shared/context.go\<close> read it.\<close>

record poll_context =
  pc_tenant :: string
  pc_subscriber :: string
  pc_topics :: "string list"
  pc_mode :: string
  pc_versions :: "string list"

definition topic_filter :: "poll_context \<Rightarrow> string list" where
  "topic_filter c = map to_lower (filter (\<lambda>t. t \<noteq> []) (map trim_space (pc_topics c)))"

definition accepted_versions :: "poll_context \<Rightarrow> string list" where
  "accepted_versions c = filter (\<lambda>v. v \<noteq> []) (map trim_space (pc_versions c))"

record event_delivery =
  dv_attempt :: int
  dv_subscriber :: string
  dv_event :: string
  dv_uuid :: string
  dv_envelope :: string
  dv_payload :: string
  dv_headers :: attributes
  dv_version :: string
  dv_format :: string
  dv_trace :: string
  dv_topic :: string
  dv_started :: instant
  dv_ack_timeout :: duration
  dv_max :: int
  dv_remaining :: int

type_synonym deliveries = "(string \<times> event_delivery list) list"

definition find_polled :: "retry_item \<Rightarrow> (ef_error + delivery_attempt option) ef" where
  "find_polled item = do {
     env \<leftarrow> settings;
     let uid = (case e_parse_uuid env (attribute (ri_metadata item) ''attempt_uuid'') of None \<Rightarrow> nil_uuid | Some u \<Rightarrow> u);
     attempt (if uid = nil_uuid then returns None else ef_read (find_attempt uid)) (\<lambda>found. case found of
       Some a \<Rightarrow> returns (Some a)
     | None \<Rightarrow> if \<not> e_fallback env then returns None
         else case e_parse_uuid env (ri_envelope item) of None \<Rightarrow> returns None
           | Some en \<Rightarrow> do {
               r \<leftarrow> ef_read (latest_attempt en (ri_subscriber item));
               case r of Inl _ \<Rightarrow> returns None | Inr a \<Rightarrow> returns a }) }"

definition reschedule_attempt :: "delivery_attempt \<Rightarrow> event_envelope \<Rightarrow> duration \<Rightarrow> unit ef" where
  "reschedule_attempt a e base = do { _ \<leftarrow> schedule (attempt_options a e (at_no a) base (at_uuid a)); State_Monad.return () }"

definition ignoring :: "(ef_error + 'a) ef \<Rightarrow> unit ef" where
  "ignoring m = do { _ \<leftarrow> m; State_Monad.return () }"

definition handle_version_incompatible :: "delivery_attempt \<Rightarrow> event_envelope \<Rightarrow> string \<Rightarrow> unit ef" where
  "handle_version_incompatible a e why = do {
     m \<leftarrow> this_moment;
     ignoring (update_attempt (at_uuid a) (refused_by (e_now m) ''version_incompatible'' why));
     ignoring (push_to_dlq e why);
     ignoring (update_envelope (en_uuid e) (\<lambda>r. r\<lparr>en_status := ''failed'', en_last_error := why\<rparr>));
     ignoring (release_lease (lease_of a e)) }"

definition put_back :: "delivery_attempt \<Rightarrow> event_envelope \<Rightarrow> unit ef" where
  "put_back a e = do {
     reschedule_attempt a e 0;
     ignoring (update_attempt (at_uuid a) (\<lambda>r. r\<lparr>at_status := ''pending''\<rparr>));
     ignoring (release_lease (lease_of a e)) }"

definition mode_text :: "compat_mode \<Rightarrow> string" where
  "mode_text m = (case m of ModeAny \<Rightarrow> ''any'' | ModeStrict \<Rightarrow> ''strict'' | ModeBackward \<Rightarrow> ''backward'')"

definition delivery_headers :: "attributes \<Rightarrow> outcome \<Rightarrow> attributes" where
  "delivery_headers h o' = (let h' = AList.update ''version_compatible'' ''true'' (AList.update ''version_mode'' (mode_text (outcome_mode o')) h)
     in if selected_version o' = [] then h' else AList.update ''version_selected'' (selected_version o') h')"

definition delivery_of :: "ef_env \<Rightarrow> instant \<Rightarrow> delivery_attempt \<Rightarrow> event_envelope \<Rightarrow> string \<Rightarrow> outcome \<Rightarrow> event_delivery" where
  "delivery_of env now a e topic o' = \<lparr>dv_attempt = to_int32 (at_no a), dv_subscriber = at_subscriber a, dv_event = en_event e,
     dv_uuid = at_uuid a, dv_envelope = en_uuid e, dv_payload = en_payload e, dv_headers = delivery_headers (en_headers e) o',
     dv_version = en_version e, dv_format = en_format e, dv_trace = en_trace e, dv_topic = topic, dv_started = now,
     dv_ack_timeout = en_ack_timeout e * second_ns, dv_max = to_int32 (attempt_limit env e),
     dv_remaining = to_int32 (max 0 (attempt_limit env e - at_no a + 1))\<rparr>"

definition add_delivery :: "string \<Rightarrow> event_delivery \<Rightarrow> deliveries \<Rightarrow> deliveries" where
  "add_delivery event d ds = AList.update event ((case map_of ds event of None \<Rightarrow> [] | Some l \<Rightarrow> l) @ [d]) ds"

definition compatibility_of :: "poll_context \<Rightarrow> topic_row option \<Rightarrow> string" where
  "compatibility_of c t = (let mode = trim_space (to_lower (pc_mode c)) in if mode \<noteq> [] then mode
     else case t of None \<Rightarrow> ''any'' | Some t \<Rightarrow> if blank (tp_versioning t) then ''any'' else to_lower (trim_space (tp_versioning t)))"

definition hand_out :: "poll_context \<Rightarrow> instant \<Rightarrow> retry_item \<Rightarrow> delivery_attempt \<Rightarrow> event_envelope \<Rightarrow> deliveries \<Rightarrow> (ef_error + deliveries) ef" where
  "hand_out c now item a e acc = attempt (update_attempt (at_uuid a) (\<lambda>r. r\<lparr>at_status := ''delivering'', at_last_attempt := Some now\<rparr>)) (\<lambda>_. do {
     env \<leftarrow> settings;
     found \<leftarrow> ef_read (find_topic (en_topic e));
     let t = (case found of Inl _ \<Rightarrow> None | Inr t \<Rightarrow> t);
     let topic = (case t of Some t \<Rightarrow> if tp_full t = [] then en_tenant e else tp_full t | None \<Rightarrow> en_tenant e);
     if topic_filter c \<noteq> [] \<and> to_lower (trim_space topic) \<notin> set (topic_filter c) then do { put_back a e; returns acc }
     else let o' = negotiate (compatibility_of c t) (en_version e) (accepted_versions c) in
       if \<not> compatible o' then do { handle_version_incompatible a e (reason o'); returns acc }
       else returns (add_delivery (ri_event item) (delivery_of env now a e topic o') acc) })"

definition poll_item :: "poll_context \<Rightarrow> instant \<Rightarrow> retry_item \<Rightarrow> deliveries \<Rightarrow> (ef_error + deliveries) ef" where
  "poll_item c now item acc = attempt (find_polled item) (\<lambda>found. case found of
     None \<Rightarrow> returns acc
   | Some a \<Rightarrow> do {
       r \<leftarrow> ef_read (find_envelope (at_envelope a));
       case r of Inl _ \<Rightarrow> returns acc | Inr None \<Rightarrow> returns acc
       | Inr (Some e) \<Rightarrow>
           if trim_space (pc_subscriber c) \<noteq> [] \<and> \<not> equal_fold (at_subscriber a) (trim_space (pc_subscriber c))
           then do { reschedule_attempt a e 0; returns acc }
           else attempt (acquire_lease (lease_of a e)) (\<lambda>granted.
             if \<not> granted then do { reschedule_attempt a e (200 * millisecond_ns); returns acc }
             else hand_out c now item a e acc) })"

fun poll_items :: "poll_context \<Rightarrow> instant \<Rightarrow> retry_item list \<Rightarrow> deliveries \<Rightarrow> (ef_error + deliveries) ef" where
  "poll_items c now [] acc = returns acc"
| "poll_items c now (i # is) acc = attempt (poll_item c now i acc) (poll_items c now is)"

definition poll_retry :: "poll_context \<Rightarrow> int \<Rightarrow> (ef_error + deliveries) ef" where
  "poll_retry c limit = require (\<not> blank (pc_tenant c)) TenantMismatch (do {
     m \<leftarrow> this_moment;
     attempt (pop_due_retries (trim_space (pc_tenant c)) (e_now m) (if limit \<le> 0 then 50 else limit)) (\<lambda>items. do {
       m \<leftarrow> this_moment;
       poll_items c (e_now m) items [] }) })"

subsection \<open>Dead letters\<close>

definition find_letter :: "string \<Rightarrow> ef_db \<Rightarrow> dead_letter option" where
  "find_letter uid db = find (\<lambda>d. dl_uuid d = uid) (dead_letters db)"

definition update_letter :: "string \<Rightarrow> (dead_letter \<Rightarrow> dead_letter) \<Rightarrow> (ef_error + unit) ef" where
  "update_letter uid f = ef_call (\<lambda>m db. (Inr (), db\<lparr>dead_letters := map (\<lambda>d. if dl_uuid d = uid then f d else d) (dead_letters db)\<rparr>))"

definition merge_headers :: "attributes list \<Rightarrow> attributes" where
  "merge_headers ms = fold (\<lambda>m r. fold (\<lambda>(k, v). AList.update k v) m r) ms []"

record replay_request =
  rq_messages :: "string list"
  rq_operator :: string
  rq_notes :: string

definition replay_publication :: "replay_request \<Rightarrow> dead_letter \<Rightarrow> event_envelope \<Rightarrow> topic_row \<Rightarrow> instant \<Rightarrow> publish_request" where
  "replay_publication req d e t now = (let h = AList.update ''replay_of'' (dl_event d) (merge_headers [en_headers e, dl_headers d]);
       h' = (if rq_operator req = [] then h else AList.update ''replay_operator'' (rq_operator req) h);
       h'' = (if rq_notes req = [] then h' else AList.update ''replay_notes'' (rq_notes req) h')
     in \<lparr>pr_tenant = en_tenant e, pr_topic = tp_full t, pr_event = dl_event d @ ''-replay-'' @ itoa now, pr_trace = en_trace e,
       pr_version = en_version e, pr_payload = (if en_payload e = [] then ''{}'' else en_payload e), pr_format = en_format e,
       pr_idempotency = ''replay:'' @ dl_event d, pr_attributes = h''\<rparr>)"

text \<open>One message: whether it was replayed, or the loop went on without it.\<close>

definition replay_message :: "replay_request \<Rightarrow> string \<Rightarrow> (ef_error + bool) ef" where
  "replay_message req mid = do {
     env \<leftarrow> settings;
     case e_parse_uuid env (trim_space mid) of
       None \<Rightarrow> raise (Refused ''invalid message id'')
     | Some uid \<Rightarrow> attempt (ef_read (find_letter uid)) (\<lambda>found. case found of None \<Rightarrow> returns False | Some d \<Rightarrow>
         attempt (ef_read (find_envelope (dl_envelope d))) (\<lambda>e. case e of None \<Rightarrow> returns False | Some e \<Rightarrow>
         attempt (ef_read (find_topic (dl_topic d))) (\<lambda>t. case t of None \<Rightarrow> returns False | Some t \<Rightarrow> do {
           m \<leftarrow> this_moment;
           attempt (publish_event (replay_publication req d e t (e_now m))) (\<lambda>_. do {
             m \<leftarrow> this_moment;
             attempt (update_letter uid (\<lambda>d. d\<lparr>dl_status := ''replayed'', dl_replayed_at := Some (e_now m), dl_operator := rq_operator req\<rparr>))
               (\<lambda>_. returns True) }) }))) }"

fun replay_messages :: "replay_request \<Rightarrow> string list \<Rightarrow> nat \<Rightarrow> (nat \<times> ef_error option) ef" where
  "replay_messages req [] n = State_Monad.return (n, None)"
| "replay_messages req (mid # mids) n = do {
     r \<leftarrow> replay_message req mid;
     case r of Inl e \<Rightarrow> State_Monad.return (n, Some e) | Inr b \<Rightarrow> replay_messages req mids (if b then Suc n else n) }"

definition replay :: "replay_request \<Rightarrow> (nat \<times> ef_error option) ef" where
  "replay req = (if rq_messages req = [] then State_Monad.return (0, Some (Refused ''no message ids provided''))
     else replay_messages req (rq_messages req) 0)"

definition purge :: "string \<Rightarrow> string \<Rightarrow> (ef_error + nat) ef" where
  "purge raw_tenant topic_id = attempt (State_Monad.return (resolve_tenant_key raw_tenant)) (\<lambda>tenant. do {
     env \<leftarrow> settings;
     case (if blank topic_id then Some nil_uuid else e_parse_uuid env topic_id) of
       None \<Rightarrow> raise (Refused ''invalid topic id'')
     | Some topic \<Rightarrow> let gone = (\<lambda>d. dl_tenant d = tenant \<and> (topic = nil_uuid \<or> dl_topic d = topic))
         in ef_call (\<lambda>m db. (Inr (length (filter gone (dead_letters db))), db\<lparr>dead_letters := filter (\<lambda>d. \<not> gone d) (dead_letters db)\<rparr>)) })"

end
