(* ===== verification/EventPromise.thy ===== *)
theory EventPromise imports EventDelivery begin

section \<open>The promise of event delivery\<close>

text \<open>
  Event delivery promises its subscribers: an attempt that is pending has an item in the retry
  queue that names it, and an attempt that failed is followed by the next one or by a dead letter.
  Within an operation the promise is broken for single attempts and restored: the sets \<open>P\<close> and \<open>F\<close>
  hold the attempts for which it is suspended, and \<open>K\<close> the attempts an operation has read. Here is
  what each statement and each Redis command does to the promise of a service that runs by itself.
\<close>

subsection \<open>Triples\<close>

definition triple :: "(ef_world \<Rightarrow> bool) \<Rightarrow> 'a ef \<Rightarrow> ('a \<Rightarrow> ef_world \<Rightarrow> bool) \<Rightarrow> bool" where
  "triple A m B \<longleftrightarrow> (\<forall>w. A w \<longrightarrow> (case run_state m w of (x, w') \<Rightarrow> B x w'))"

lemma tripleD: "triple A m B \<Longrightarrow> A w \<Longrightarrow> run_state m w = (x, w') \<Longrightarrow> B x w'"
  by (force simp: triple_def)

lemma triple_return [simp]: "triple A (State_Monad.return x) B \<longleftrightarrow> (\<forall>w. A w \<longrightarrow> B x w)"
  by (simp add: triple_def)

lemma triple_bind: "triple A m M \<Longrightarrow> (\<And>x. triple (M x) (f x) B) \<Longrightarrow> triple A (m \<bind> f) B"
  by (fastforce simp: triple_def run_state_bind split: prod.splits)

lemma triple_weaken: "triple A m B \<Longrightarrow> (\<And>w. A' w \<Longrightarrow> A w) \<Longrightarrow> (\<And>x w. B x w \<Longrightarrow> B' x w) \<Longrightarrow> triple A' m B'"
  by (force simp: triple_def split: prod.splits)

lemma triple_pre: "(b \<Longrightarrow> triple A m B) \<Longrightarrow> triple (\<lambda>w. b \<and> A w) m B"
  by (force simp: triple_def)

lemma triple_if: "(b \<Longrightarrow> triple A m B) \<Longrightarrow> (\<not> b \<Longrightarrow> triple A n B) \<Longrightarrow> triple A (if b then m else n) B"
  by simp

lemma triple_attempt:
  assumes "triple A m M" "\<And>x. triple (M (Inr x)) (f x) B" "\<And>e w. M (Inl e) w \<Longrightarrow> B (Inl e) w"
  shows "triple A (attempt m f) B"
  unfolding attempt_def by (rule triple_bind [OF assms(1)]) (auto split: sum.split intro: assms(2,3))

lemma triple_require: "(b \<Longrightarrow> triple A m B) \<Longrightarrow> (\<And>w. A w \<Longrightarrow> B (Inl e) w) \<Longrightarrow> triple A (require b e m) B"
  by (simp add: require_def)

subsection \<open>The promise\<close>

text \<open>A process of its own: no other client, no fault, and a generator of fresh UUIDs.\<close>

definition runs_alone :: "ef_env \<Rightarrow> bool" where
  "runs_alone env \<longleftrightarrow> (\<forall>k. e_others (e_moments env k) = (\<lambda>db. db) \<and> e_fault (e_moments env k) = None \<and>
     e_parse_uuid env (e_uuid (e_moments env k)) = Some (e_uuid (e_moments env k)) \<and>
     e_uuid (e_moments env k) \<noteq> nil_uuid \<and> e_uuid (e_moments env k) \<noteq> []) \<and>
     inj (\<lambda>k. e_uuid (e_moments env k)) \<and> e_dlq env"

definition named :: "retry_item \<Rightarrow> string" where
  "named i = attribute (ri_metadata i) ''attempt_uuid''"

definition waits :: "delivery_attempt \<Rightarrow> ef_db \<Rightarrow> bool" where
  "waits a db \<longleftrightarrow> (\<exists>p\<in>set (retries db (at_tenant a)). named (fst p) = at_uuid a)"

definition follows :: "delivery_attempt \<Rightarrow> delivery_attempt \<Rightarrow> bool" where
  "follows a b \<longleftrightarrow> at_tenant b = at_tenant a \<and> at_envelope b = at_envelope a \<and> at_event b = at_event a \<and>
     at_subscriber b = at_subscriber a \<and> at_no b = at_no a + 1"

definition accounted :: "delivery_attempt \<Rightarrow> ef_db \<Rightarrow> bool" where
  "accounted a db \<longleftrightarrow> (\<exists>b\<in>set (attempts db). follows a b) \<or> (\<exists>d\<in>set (dead_letters db). dl_envelope d = at_envelope a)"

definition attempt_key :: "delivery_attempt \<Rightarrow> string \<times> string \<times> string \<times> int" where
  "attempt_key a = (at_tenant a, at_event a, at_subscriber a, at_no a)"

definition identity :: "delivery_attempt \<Rightarrow> string \<times> string \<times> string \<times> string \<times> string \<times> int" where
  "identity a = (at_uuid a, at_tenant a, at_envelope a, at_event a, at_subscriber a, at_no a)"

definition row_ok :: "ef_env \<Rightarrow> ef_db \<Rightarrow> delivery_attempt \<Rightarrow> bool" where
  "row_ok env db a \<longleftrightarrow> e_parse_uuid env (at_uuid a) = Some (at_uuid a) \<and> at_uuid a \<noteq> nil_uuid \<and> at_uuid a \<noteq> [] \<and>
     at_tenant a \<noteq> [] \<and> at_subscriber a \<noteq> [] \<and>
     (\<exists>e\<in>set (envelopes db). en_uuid e = at_envelope a \<and> en_event e = at_event a)"

definition fresh_uuids :: "ef_env \<Rightarrow> nat \<Rightarrow> ef_db \<Rightarrow> bool" where
  "fresh_uuids env n db \<longleftrightarrow> (\<forall>k\<ge>n. e_uuid (e_moments env k) \<notin> at_uuid ` set (attempts db) \<and>
     e_uuid (e_moments env k) \<notin> en_event ` set (envelopes db))"

definition rows_ok :: "ef_env \<Rightarrow> nat \<Rightarrow> ef_db \<Rightarrow> bool" where
  "rows_ok env n db \<longleftrightarrow> runs_alone env \<and> distinct (map at_uuid (attempts db)) \<and> distinct (map attempt_key (attempts db)) \<and>
     (\<forall>a\<in>set (attempts db). row_ok env db a) \<and> fresh_uuids env n db"

definition keeps :: "string set \<Rightarrow> string set \<Rightarrow> ef_db \<Rightarrow> bool" where
  "keeps P F db \<longleftrightarrow> (\<forall>a\<in>set (attempts db). (at_status a = ''pending'' \<and> at_uuid a \<notin> P \<longrightarrow> waits a db) \<and>
     (at_status a = ''failed'' \<and> at_uuid a \<notin> F \<longrightarrow> accounted a db))"

definition known :: "delivery_attempt \<Rightarrow> ef_db \<Rightarrow> bool" where
  "known a db \<longleftrightarrow> (\<exists>r\<in>set (attempts db). identity r = identity a)"

definition promise :: "ef_env \<Rightarrow> string set \<Rightarrow> string set \<Rightarrow> delivery_attempt set \<Rightarrow> ef_world \<Rightarrow> bool" where
  "promise E P F K w \<longleftrightarrow> e_env w = E \<and> rows_ok E (e_calls w) (e_db w) \<and> keeps P F (e_db w) \<and> (\<forall>a\<in>K. known a (e_db w))"

lemma promiseD:
  assumes "promise E P F K w"
  shows "runs_alone E" "rows_ok E (e_calls w) (e_db w)" "keeps P F (e_db w)" "a \<in> K \<Longrightarrow> known a (e_db w)" "e_env w = E"
  using assms by (auto simp: promise_def rows_ok_def)

lemma rows_ok_later: "rows_ok env n db \<Longrightarrow> rows_ok env (Suc n) db"
  by (auto simp: rows_ok_def fresh_uuids_def)

lemma keeps_mono: "keeps P F db \<Longrightarrow> P \<subseteq> P' \<Longrightarrow> F \<subseteq> F' \<Longrightarrow> keeps P' F' db"
  by (auto simp: keeps_def)

lemma promise_mono: "promise E P F K w \<Longrightarrow> P \<subseteq> P' \<Longrightarrow> F \<subseteq> F' \<Longrightarrow> K' \<subseteq> K \<Longrightarrow> promise E P' F' K' w"
  by (auto simp: promise_def intro: keeps_mono)

text \<open>A call of the undisturbed world.\<close>

lemma triple_call_when:
  assumes "\<And>w r db'. promise E P F K w \<Longrightarrow> C w \<Longrightarrow> f (e_moments (e_env w) (e_calls w)) (e_db w) = (r, db') \<Longrightarrow>
      B r (w\<lparr>e_db := db', e_calls := Suc (e_calls w)\<rparr>)"
  shows "triple (\<lambda>w. promise E P F K w \<and> C w) (ef_call f) B"
  unfolding triple_def
proof (intro allI impI)
  fix w assume "promise E P F K w \<and> C w"
  then have w: "promise E P F K w" "C w" by simp_all
  obtain r db' where f: "f (e_moments (e_env w) (e_calls w)) (e_db w) = (r, db')" by fastforce
  show "case run_state (ef_call f) w of (x, w') \<Rightarrow> B x w'"
    using assms [OF w f] promiseD(1,5) [OF w(1)] f by (simp add: ef_call_def runs_alone_def Let_def)
qed

lemmas triple_call = triple_call_when [where C = "\<lambda>_. True", simplified]

lemma triple_this_moment: "triple (promise E P F K) this_moment (\<lambda>m. promise E P F K)"
  by (simp add: triple_def this_moment_def promise_def) (metis rows_ok_later)

lemma triple_settings: "triple (promise E P F K) settings (\<lambda>env w. env = E \<and> promise E P F K w)"
  by (simp add: triple_def settings_def promise_def)

lemma triple_read:
  assumes "\<And>w. promise E P F K w \<Longrightarrow> C (f (e_db w))"
  shows "triple (promise E P F K) (ef_read f) (\<lambda>r w. promise E P F K w \<and> (\<exists>x. r = Inr x \<and> C x))"
  unfolding ef_read_def by (rule triple_call) (auto simp: promise_def intro: rows_ok_later assms [unfolded promise_def])

lemma triple_then:
  assumes "triple A m (\<lambda>r w. \<exists>x. r = Inr x \<and> M x w)" "\<And>x. triple (M x) (f x) B"
  shows "triple A (attempt m f) B"
  by (rule triple_attempt [OF assms(1)]) (use assms(2) in \<open>auto simp: triple_def\<close>)

subsection \<open>What each call does to the promise\<close>

lemma find_known: "find_attempt u db = Some a \<Longrightarrow> known a db \<and> at_uuid a = u"
  by (auto simp: find_attempt_def find_Some_iff known_def)

lemma triple_find_attempt:
  "triple (promise E P F K) (ef_read (find_attempt u))
     (\<lambda>r w. \<exists>x. r = Inr x \<and> (promise E P F (K \<union> set_option x) w \<and> (\<forall>a. x = Some a \<longrightarrow> at_uuid a = u) \<and>
        (x = None \<longrightarrow> u \<notin> at_uuid ` set (attempts (e_db w)))))"
  unfolding ef_read_def
proof (rule triple_call, goal_cases)
  case (1 w r db')
  then have r: "r = Inr (find_attempt u (e_db w))" "db' = e_db w" by auto
  have "find_attempt u (e_db w) = None \<Longrightarrow> u \<notin> at_uuid ` set (attempts (e_db w))"
    by (auto simp: find_attempt_def find_None_iff)
  then show ?case using r promiseD [OF 1(1)] find_known [of u "e_db w"]
    by (auto simp: promise_def intro: rows_ok_later)
qed

lemma triple_latest_attempt:
  "triple (promise E P F K) (ef_read (latest_attempt en sub))
     (\<lambda>r w. \<exists>x. r = Inr x \<and> promise E P F (K \<union> set_option x) w)"
  unfolding ef_read_def
proof (rule triple_call, goal_cases)
  case (1 w r db')
  then have r: "r = Inr (latest_attempt en sub (e_db w))" "db' = e_db w" by auto
  have "latest_attempt en sub (e_db w) = Some a \<Longrightarrow> known a (e_db w)" for a
    by (auto simp: latest_attempt_def Let_def find_Some_iff known_def) (metis (no_types, lifting) filter_is_subset nth_mem subsetD)
  then show ?case using r promiseD [OF 1(1)] by (auto simp: promise_def intro: rows_ok_later)
qed

lemma triple_find_envelope:
  "triple (promise E P F K) (ef_read (find_envelope u))
     (\<lambda>r w. promise E P F K w \<and> (\<exists>x. r = Inr x \<and> (\<forall>e. x = Some e \<longrightarrow> en_uuid e = u)))"
  by (rule triple_weaken [OF triple_read [where C = "\<lambda>x. \<forall>e. x = Some e \<longrightarrow> en_uuid e = u"]])
     (auto simp: find_envelope_def find_Some_iff)

text \<open>Changes to rows that keep what identifies them.\<close>

lemma map_same: "(\<And>r. g (f r) = g r) \<Longrightarrow> map g (map f xs) = map g xs"
  by simp

lemma rows_ok_update:
  assumes "rows_ok env n db" "\<And>r. identity (f r) = identity r"
  shows "rows_ok env (Suc n) (db\<lparr>attempts := map f (attempts db)\<rparr>)"
proof -
  have f: "at_uuid (f r) = at_uuid r" "attempt_key (f r) = attempt_key r" "row_ok env d (f r) = row_ok env d r" for r d
    using assms(2) [of r] by (simp_all add: identity_def attempt_key_def row_ok_def)
  have "row_ok env (db\<lparr>attempts := a\<rparr>) r = row_ok env db r" for a r by (simp add: row_ok_def)
  then show ?thesis using rows_ok_later [OF assms(1)] f
    by (auto simp: rows_ok_def fresh_uuids_def o_def image_image)
qed

lemma known_update: "known a db \<Longrightarrow> (\<And>r. identity (f r) = identity r) \<Longrightarrow> known a (db\<lparr>attempts := map f (attempts db)\<rparr>)"
  by (auto simp: known_def)

lemma follows_identity: "identity b = identity b' \<Longrightarrow> identity a = identity a' \<Longrightarrow> follows a b = follows a' b'"
  by (simp add: identity_def follows_def)

lemma accounted_update:
  assumes "\<And>r. identity (f r) = identity r" "identity a = identity a'" "accounted a' db"
  shows "accounted a (db\<lparr>attempts := map f (attempts db)\<rparr>)"
  using assms(3) follows_identity [OF assms(1,2)] follows_identity [OF refl assms(2)] assms(2)
  by (auto simp: accounted_def identity_def)

lemma triple_update_attempt:
  assumes "\<And>r. identity (f r) = identity r" "\<And>r. at_status (f r) = s"
  shows "triple (promise E P F K) (update_attempt u f) (\<lambda>r w. \<exists>x. r = Inr x \<and>
    promise E (if s = ''pending'' then insert u P else P - {u}) (if s = ''failed'' then insert u F else F - {u}) K w)"
  unfolding update_attempt_def
proof (rule triple_call, goal_cases)
  case (1 w r db')
  let ?f = "\<lambda>r. if at_uuid r = u then f r else r"
  have f: "identity (?f r) = identity r" for r using assms(1) by simp
  note D = promiseD [OF 1(1)]
  have "keeps (if s = ''pending'' then insert u P else P - {u}) (if s = ''failed'' then insert u F else F - {u})
      ((e_db w)\<lparr>attempts := map ?f (attempts (e_db w))\<rparr>)"
    unfolding keeps_def
  proof
    fix a assume "a \<in> set (attempts ((e_db w)\<lparr>attempts := map ?f (attempts (e_db w))\<rparr>))"
    then obtain q where q: "q \<in> set (attempts (e_db w))" "a = ?f q" by auto
    have i: "identity a = identity q" using f q(2) by simp
    then have u: "at_uuid a = at_uuid q" "at_tenant a = at_tenant q" by (simp_all add: identity_def)
    have "waits q (e_db w) \<Longrightarrow> waits a ((e_db w)\<lparr>attempts := map ?f (attempts (e_db w))\<rparr>)"
      by (simp add: waits_def u)
    moreover have "accounted q (e_db w) \<Longrightarrow> accounted a ((e_db w)\<lparr>attempts := map ?f (attempts (e_db w))\<rparr>)"
      by (rule accounted_update [OF f i])
    moreover have "at_status a = (if at_uuid q = u then s else at_status q)" using q(2) assms(2) by simp
    ultimately show "(at_status a = ''pending'' \<and> at_uuid a \<notin> (if s = ''pending'' then insert u P else P - {u}) \<longrightarrow>
        waits a ((e_db w)\<lparr>attempts := map ?f (attempts (e_db w))\<rparr>)) \<and>
      (at_status a = ''failed'' \<and> at_uuid a \<notin> (if s = ''failed'' then insert u F else F - {u}) \<longrightarrow>
        accounted a ((e_db w)\<lparr>attempts := map ?f (attempts (e_db w))\<rparr>))"
      using D(3) q(1) u(1) by (auto simp: keeps_def split: if_splits)
  qed
  then show ?case using 1(2) rows_ok_update [OF D(2) f] known_update [OF D(4) f] D(5) by (auto simp: promise_def)
qed

lemma rows_ok_same:
  assumes "rows_ok env n db" "attempts db' = attempts db" "map (\<lambda>e. (en_uuid e, en_event e)) (envelopes db') = map (\<lambda>e. (en_uuid e, en_event e)) (envelopes db)"
  shows "rows_ok env (Suc n) db'"
proof -
  let ?g = "\<lambda>e :: event_envelope. (en_uuid e, en_event e)"
  have g: "?g ` set (envelopes db') = ?g ` set (envelopes db)" using arg_cong [OF assms(3), of set] by simp
  have "(\<exists>e\<in>set es. en_uuid e = u \<and> en_event e = v) \<longleftrightarrow> (u, v) \<in> ?g ` set es" for es u v by force
  moreover have "en_event ` set es = snd ` ?g ` set es" for es by (simp add: image_image)
  ultimately have "(\<exists>e\<in>set (envelopes db'). en_uuid e = u \<and> en_event e = v) = (\<exists>e\<in>set (envelopes db). en_uuid e = u \<and> en_event e = v)"
      "en_event ` set (envelopes db') = en_event ` set (envelopes db)" for u v
    using g by simp_all
  then show ?thesis using rows_ok_later [OF assms(1)] assms(2) by (simp add: rows_ok_def row_ok_def fresh_uuids_def)
qed

text \<open>Changes to other tables and keys, which may only add retry items and dead letters.\<close>

lemma triple_aside:
  assumes "\<And>m db r db'. f m db = (r, db') \<Longrightarrow> (\<exists>x. r = Inr x) \<and> attempts db' = attempts db \<and>
      map (\<lambda>e. (en_uuid e, en_event e)) (envelopes db') = map (\<lambda>e. (en_uuid e, en_event e)) (envelopes db) \<and>
      set (dead_letters db) \<subseteq> set (dead_letters db') \<and> retries db' = retries db"
  shows "triple (promise E P F K) (ef_call f) (\<lambda>r w. \<exists>x. r = Inr x \<and> promise E P F K w)"
proof (rule triple_call, goal_cases)
  case (1 w r db')
  note a = assms [OF 1(2)] and D = promiseD [OF 1(1)]
  have "keeps P F db'" using D(3) a by (fastforce simp: keeps_def waits_def accounted_def)
  then show ?case using a rows_ok_same [OF D(2)] D(4,5) by (auto simp: promise_def known_def)
qed

lemma triple_update_envelope:
  assumes "\<And>e. en_uuid (f e) = en_uuid e" "\<And>e. en_event (f e) = en_event e"
  shows "triple (promise E P F K) (update_envelope u f) (\<lambda>r w. \<exists>x. r = Inr x \<and> promise E P F K w)"
  unfolding update_envelope_def by (rule triple_aside) (use assms in auto)

lemma triple_key_command: "triple (promise E P F K) (key_command k f) (\<lambda>r w. \<exists>x. r = Inr x \<and> promise E P F K w)"
  unfolding key_command_def Let_def by (rule triple_aside) (auto split: prod.splits)

lemma triple_count: "triple (promise E P F K) (ef_read f) (\<lambda>r w. \<exists>x. r = Inr x \<and> promise E P F K w)"
  unfolding ef_read_def by (rule triple_aside) auto

lemma triple_dead_letter:
  assumes "a \<in> K" "dl_envelope d = at_envelope a"
  shows "triple (promise E P F K) (create_dead_letter d) (\<lambda>r w. \<exists>x. r = Inr x \<and> promise E P (F - {at_uuid a}) K w)"
  unfolding create_dead_letter_def
proof (rule triple_call, goal_cases)
  case (1 w r db')
  note D = promiseD [OF 1(1)]
  let ?d = "if dl_uuid d = nil_uuid then d\<lparr>dl_uuid := e_uuid (e_moments (e_env w) (e_calls w))\<rparr> else d"
  have db': "r = Inr ()" "db' = (e_db w)\<lparr>dead_letters := dead_letters (e_db w) @ [?d]\<rparr>" using 1(2) by auto
  have env: "dl_envelope ?d = at_envelope a" using assms(2) by simp
  have rows: "rows_ok E (Suc (e_calls w)) db'" by (rule rows_ok_same [OF D(2)]) (simp_all add: db')
  have "keeps P (F - {at_uuid a}) db'" unfolding keeps_def
  proof
    fix r assume "r \<in> set (attempts db')"
    then have r: "r \<in> set (attempts (e_db w))" by (simp add: db')
    obtain q where q: "q \<in> set (attempts (e_db w))" "identity q = identity a" using D(4) [OF assms(1)] by (auto simp: known_def)
    have "accounted r db'" if "at_uuid r = at_uuid a"
    proof -
      have "at_uuid r = at_uuid q" using that q(2) by (simp add: identity_def)
      then have "r = q" using D(2) r q(1) by (auto simp: rows_ok_def distinct_map dest: inj_onD)
      then have "dl_envelope ?d = at_envelope r" using q(2) env by (simp add: identity_def)
      moreover have "?d \<in> set (dead_letters db')" unfolding db'(2) by simp
      ultimately show ?thesis unfolding accounted_def by blast
    qed
    moreover have "accounted r (e_db w) \<Longrightarrow> accounted r db'" by (auto simp: accounted_def db'(2))
    moreover have "waits r db' = waits r (e_db w)" by (simp add: waits_def db'(2))
    ultimately show "(at_status r = ''pending'' \<and> at_uuid r \<notin> P \<longrightarrow> waits r db') \<and>
        (at_status r = ''failed'' \<and> at_uuid r \<notin> F - {at_uuid a} \<longrightarrow> accounted r db')"
      using D(3) r by (auto simp: keeps_def)
  qed
  moreover have "known b (e_db w) \<Longrightarrow> known b db'" for b by (simp add: known_def db'(2))
  ultimately show ?case using rows db'(1) D(4,5) by (auto simp: promise_def)
qed

text \<open>A new attempt: its key has no row yet, and its envelope is stored.\<close>

definition new_attempt :: "delivery_attempt \<Rightarrow> ef_world \<Rightarrow> bool" where
  "new_attempt a w \<longleftrightarrow> attempt_key a \<notin> attempt_key ` set (attempts (e_db w)) \<and>
     (\<exists>e\<in>set (envelopes (e_db w)). en_uuid e = at_envelope a \<and> en_event e = at_event a)"

lemma same_attempt_key: "same_attempt a r \<longleftrightarrow> attempt_key r = attempt_key a"
  by (auto simp: same_attempt_def attempt_key_def)

lemma inserted_rows_ok:
  assumes "rows_ok E n db" "attempt_key b \<notin> attempt_key ` set (attempts db)" "row_ok E db b" "at_uuid b = e_uuid (e_moments E n)"
  shows "rows_ok E (Suc n) (db\<lparr>attempts := attempts db @ [b]\<rparr>)"
proof -
  have inj: "e_uuid (e_moments E k) \<noteq> e_uuid (e_moments E n)" if "Suc n \<le> k" for k
    using that assms(1) by (auto simp: rows_ok_def runs_alone_def dest: injD)
  have "at_uuid b \<notin> at_uuid ` set (attempts db)" using assms(1,4) by (simp add: rows_ok_def fresh_uuids_def)
  moreover have "row_ok E (db\<lparr>attempts := x\<rparr>) r = row_ok E db r" for x r by (simp add: row_ok_def)
  ultimately show ?thesis using assms inj by (auto simp: rows_ok_def fresh_uuids_def)
qed

lemma triple_upsert_attempt:
  assumes a: "at_uuid a = nil_uuid" "at_status a = ''pending''" "at_tenant a \<noteq> []" "at_subscriber a \<noteq> []"
  shows "triple (\<lambda>w. promise E P F K w \<and> new_attempt a w) (upsert_attempt a) (\<lambda>r w. \<exists>x. r = Inr x \<and>
    (\<exists>u. x = Some (a\<lparr>at_uuid := u\<rparr>) \<and>
      promise E (insert u P) (F - at_uuid ` {c \<in> K. follows c a}) (insert (a\<lparr>at_uuid := u\<rparr>) K) w))"
  unfolding upsert_attempt_def
proof (rule triple_attempt [OF triple_call_when])
  fix w r db' assume p: "promise E P F K w" "new_attempt a w" "insert_attempt (e_uuid (e_moments (e_env w) (e_calls w))) a (e_db w) = (r, db')"
  note D = promiseD [OF p(1)]
  define b where "b = a\<lparr>at_uuid := e_uuid (e_moments E (e_calls w))\<rparr>"
  have b: "at_uuid b = e_uuid (e_moments E (e_calls w))" "attempt_key b = attempt_key a" "at_status b = ''pending''"
      "at_envelope b = at_envelope a" "at_event b = at_event a" "at_tenant b = at_tenant a" "at_subscriber b = at_subscriber a"
    using a(2) by (simp_all add: b_def attempt_key_def)
  have "\<not> list_ex (same_attempt a) (attempts (e_db w))"
    using p(2) unfolding new_attempt_def same_attempt_key list_ex_iff by (metis imageI)
  then have db': "r = Inr (b, 1)" "db' = (e_db w)\<lparr>attempts := attempts (e_db w) @ [b]\<rparr>"
    using p(3) a(1) by (auto simp: insert_attempt_def Let_def b_def D(5))
  have "row_ok E (e_db w) b"
    using p(2) D(1) a b by (simp add: row_ok_def new_attempt_def runs_alone_def)
  then have rows: "rows_ok E (Suc (e_calls w)) db'"
    unfolding db' by (intro inserted_rows_ok [OF D(2)]) (use p(2) b in \<open>simp_all add: new_attempt_def\<close>)
  have acc: "accounted r (e_db w) \<Longrightarrow> accounted r db'" "waits r db' = waits r (e_db w)" for r
    by (auto simp: accounted_def waits_def db'(2))
  have "keeps (insert (at_uuid b) P) (F - at_uuid ` {c \<in> K. follows c a}) db'"
    unfolding keeps_def
  proof
    fix r assume "r \<in> set (attempts db')"
    then consider "r = b" | "r \<in> set (attempts (e_db w))" by (auto simp: db'(2))
    then show "(at_status r = ''pending'' \<and> at_uuid r \<notin> insert (at_uuid b) P \<longrightarrow> waits r db') \<and>
        (at_status r = ''failed'' \<and> at_uuid r \<notin> F - at_uuid ` {c \<in> K. follows c a} \<longrightarrow> accounted r db')"
    proof cases
      case 2
      have "accounted r db'" if c: "c \<in> K" "follows c a" "at_uuid r = at_uuid c" for c
      proof -
        obtain q where q: "q \<in> set (attempts (e_db w))" "identity q = identity c" using D(4) [OF c(1)] by (auto simp: known_def)
        then have "at_uuid r = at_uuid q" using c(3) by (simp add: identity_def)
        then have "r = q" using D(2) 2 q(1) by (auto simp: rows_ok_def distinct_map dest: inj_onD)
        then have "follows r b" using c(2) q(2) by (simp add: follows_def identity_def b_def)
        then show ?thesis by (auto simp: accounted_def db'(2))
      qed
      then show ?thesis using D(3) 2 acc by (auto simp: keeps_def)
    qed (use b(3) in simp)
  qed
  then show "\<exists>u. r = Inr (a\<lparr>at_uuid := u\<rparr>, 1) \<and> promise E (insert u P) (F - at_uuid ` {c \<in> K. follows c a})
      (insert (a\<lparr>at_uuid := u\<rparr>) K) (w\<lparr>e_db := db', e_calls := Suc (e_calls w)\<rparr>)"
    using rows db'(1) D(4,5) unfolding b_def [symmetric]
    by (intro exI [of _ "at_uuid b"]) (auto simp: promise_def known_def db'(2) b_def)
qed (auto simp: triple_def split: prod.splits)

text \<open>Scheduling an item that names an attempt.\<close>

lemma triple_retries:
  assumes "\<And>q p. p \<in> set q \<Longrightarrow> p \<notin> set (f q) \<Longrightarrow> named (fst p) \<in> N \<or> (\<exists>p'\<in>set (f q). named (fst p') = named (fst p))"
    and "\<And>q. M \<subseteq> named ` fst ` set (f q)" "\<And>u. u \<in> M \<Longrightarrow> \<exists>a\<in>K. at_uuid a = u \<and> at_tenant a = t"
  shows "triple (promise E P F K) (ef_call (\<lambda>m db. (Inr (), retries_changed t f db)))
    (\<lambda>r w. \<exists>x. r = Inr x \<and> promise E (P \<union> N - M) F K w)"
proof (rule triple_call, goal_cases)
  case (1 w r db')
  note D = promiseD [OF 1(1)]
  have db': "r = Inr ()" "db' = (e_db w)\<lparr>retries := (retries (e_db w))(t := f (retries (e_db w) t))\<rparr>"
    using 1(2) by (auto simp: retries_changed_def)
  have rows: "rows_ok E (Suc (e_calls w)) db'" by (rule rows_ok_same [OF D(2)]) (simp_all add: db')
  have "keeps (P \<union> N - M) F db'" unfolding keeps_def
  proof
    fix r assume "r \<in> set (attempts db')"
    then have r: "r \<in> set (attempts (e_db w))" by (simp add: db')
    have old: "waits r db' \<or> at_uuid r \<in> N" if "waits r (e_db w)"
    proof (cases "at_tenant r = t")
      case True
      then show ?thesis using that assms(1) by (simp add: waits_def db'(2)) metis
    qed (use that in \<open>simp add: waits_def db'(2)\<close>)
    have new: "waits r db'" if m: "at_uuid r \<in> M"
    proof -
      obtain a where a: "a \<in> K" "at_uuid a = at_uuid r" "at_tenant a = t" using assms(3) [OF m] by blast
      obtain q where q: "q \<in> set (attempts (e_db w))" "identity q = identity a" using D(4) [OF a(1)] by (auto simp: known_def)
      then have "at_uuid r = at_uuid q" using a(2) by (simp add: identity_def)
      then have "r = q" using D(2) r q(1) by (auto simp: rows_ok_def distinct_map dest: inj_onD)
      then have "at_tenant r = t" using q(2) a(3) by (simp add: identity_def)
      then show ?thesis using subsetD [OF assms(2) m, of "retries (e_db w) t"] by (force simp: waits_def db'(2))
    qed
    have "accounted r db' = accounted r (e_db w)" by (simp add: accounted_def db'(2))
    then show "(at_status r = ''pending'' \<and> at_uuid r \<notin> P \<union> N - M \<longrightarrow> waits r db') \<and>
        (at_status r = ''failed'' \<and> at_uuid r \<notin> F \<longrightarrow> accounted r db')"
      using D(3) r old new by (auto simp: keeps_def)
  qed
  then show ?case using rows db'(1) D(4,5) by (auto simp: promise_def known_def db'(2))
qed

lemma update_item: "(i, s) \<in> set (AList.update i s q)"
  by (induction q) auto

lemma update_item_other: "p \<in> set q \<Longrightarrow> fst p \<noteq> i \<Longrightarrow> p \<in> set (AList.update i s q)"
  by (induction q) auto

lemma triple_schedule_retry:
  assumes "ri_tenant item \<noteq> []" "\<exists>a\<in>K. at_uuid a = named item \<and> at_tenant a = ri_tenant item"
  shows "triple (promise E P F K) (schedule_retry_item item) (\<lambda>r w. \<exists>x. r = Inr x \<and> promise E (P - {named item}) F K w)"
  unfolding schedule_retry_item_def require_def if_P [OF assms(1)]
proof (rule triple_bind [OF triple_this_moment], goal_cases)
  case (1 m)
  define i where "i = (if is_zero (ri_execute_at item) then item\<lparr>ri_execute_at := e_now m\<rparr> else item)"
  have i: "named i = named item" "ri_tenant i = ri_tenant item" by (simp_all add: i_def named_def)
  have "triple (promise E P F K) (ef_call (\<lambda>_ db. (Inr (), retries_changed (ri_tenant i) (AList.update i (unix_milli (ri_execute_at i))) db)))
      (\<lambda>r w. \<exists>x. r = Inr x \<and> promise E (P \<union> {} - {named i}) F K w)"
  proof (rule triple_retries)
    fix q p assume "p \<in> set q" "p \<notin> set (AList.update i (unix_milli (ri_execute_at i)) q)"
    then have "fst p = i" using update_item_other by metis
    then show "named (fst p) \<in> {} \<or> (\<exists>p'\<in>set (AList.update i (unix_milli (ri_execute_at i)) q). named (fst p') = named (fst p))"
      using update_item by (metis fst_conv)
  next
    fix q show "{named i} \<subseteq> named ` fst ` set (AList.update i (unix_milli (ri_execute_at i)) q)"
      using update_item by force
  qed (use assms(2) i in auto)
  then show ?case unfolding Let_def i_def [symmetric] by (simp add: i)
qed

lemma triple_schedule:
  assumes "so_tenant opts \<noteq> []" "map_of (so_metadata opts) ''attempt_uuid'' = Some u" "\<exists>a\<in>K. at_uuid a = u \<and> at_tenant a = so_tenant opts"
  shows "triple (promise E P F K) (schedule opts) (\<lambda>r w. \<exists>x. r = Inr x \<and> promise E (P - {u}) F K w)"
  unfolding schedule_def Let_def
proof (rule triple_bind [OF triple_settings], goal_cases)
  case (1 env)
  show ?case
  proof (rule triple_pre, rule triple_bind [OF triple_this_moment], rule triple_then [OF triple_schedule_retry], goal_cases)
    case (1 m)
    then show ?case using assms(1) by simp
  next
    case (2 m)
    then show ?case using assms(2,3) by (auto simp: named_def attribute_def)
  next
    case (3 m x)
    then show ?case using assms(2) by (simp add: named_def attribute_def)
  qed
qed

lemma triple_pop:
  assumes "t \<noteq> []"
  shows "triple (promise E P F K) (pop_due_retries t now limit)
    (\<lambda>r w. \<exists>items. r = Inr items \<and> promise E (P \<union> named ` set items) F K w)"
  unfolding pop_due_retries_def require_def if_P [OF assms]
proof (rule triple_bind [OF triple_settings], rule triple_pre, rule triple_then [OF triple_count], rule triple_if, goal_cases)
  case (1 env vs)
  then show ?case by (auto intro: promise_mono)
next
  case (2 env vs)
  have "triple (promise E P F K) (ef_call (\<lambda>_ db. (Inr (), retries_changed t (filter (\<lambda>p. fst p \<notin> fst ` set vs)) db)))
      (\<lambda>r w. \<exists>x. r = Inr x \<and> promise E (P \<union> named ` fst ` set vs - {}) F K w)"
    by (rule triple_retries) auto
  moreover have "named ` set (map (\<lambda>(i, s). i\<lparr>ri_tenant := t, ri_execute_at := s * millisecond_ns\<rparr>) vs) = named ` fst ` set vs"
    by (force simp: named_def image_iff split: prod.splits)
  ultimately show ?case by (intro triple_then) auto
qed

text \<open>The lease keys play no part in the promise.\<close>

definition lease_named :: "delivery_lease \<Rightarrow> bool" where
  "lease_named l \<longleftrightarrow> le_tenant l \<noteq> [] \<and> le_subscriber l \<noteq> [] \<and> le_id l \<noteq> []"

abbreviation unharmed :: "ef_env \<Rightarrow> string set \<Rightarrow> string set \<Rightarrow> delivery_attempt set \<Rightarrow> (ef_error + 'a) ef \<Rightarrow> bool" where
  "unharmed E P F K m \<equiv> triple (promise E P F K) m (\<lambda>r w. is_ok r \<and> promise E P F K w)"

lemma unharmed_then: "unharmed E P F K m \<Longrightarrow> (\<And>x. triple (promise E P F K) (f x) B) \<Longrightarrow> triple (promise E P F K) (attempt m f) B"
  by (rule triple_then [where M = "\<lambda>_. promise E P F K"]) (auto elim: triple_weaken simp: is_ok_iff)

lemma unharmed_bind: "unharmed E P F K m \<Longrightarrow> (\<And>r. triple (promise E P F K) (f r) B) \<Longrightarrow> triple (promise E P F K) (m \<bind> f) B"
  by (rule triple_bind [where M = "\<lambda>_. promise E P F K"]) (auto elim: triple_weaken)

lemma unharmed_returns: "unharmed E P F K (returns x)"
  by (simp add: is_ok_def)

lemma unharmed_key: "unharmed E P F K (key_command k f)"
  by (rule triple_weaken [OF triple_key_command]) (auto simp: is_ok_def)

lemma unharmed_set_nx: "unharmed E P F K (redis_set_nx k v t)"
  unfolding redis_set_nx_def by (rule unharmed_key)

lemma unharmed_expire: "unharmed E P F K (redis_expire k t)"
  unfolding redis_expire_def by (rule unharmed_key)

lemma unharmed_add: "unharmed E P F K (redis_add k d)"
  unfolding redis_add_def by (rule unharmed_key)

lemma unharmed_del: "unharmed E P F K (redis_del k)"
  unfolding redis_del_def by (rule unharmed_key)

lemmas unharmed_keys = unharmed_set_nx unharmed_expire unharmed_add unharmed_del

lemma unharmed_acquire:
  assumes "lease_named l"
  shows "unharmed E P F K (acquire_lease l)"
proof -
  have n: "le_tenant l \<noteq> [] \<and> le_subscriber l \<noteq> [] \<and> le_id l \<noteq> []" using assms by (simp add: lease_named_def)
  show ?thesis
    unfolding acquire_lease_def require_def if_P [OF n] Let_def
  proof (rule unharmed_then [OF unharmed_set_nx], rule triple_if, goal_cases)
    case 1
    show ?case by (rule unharmed_then [OF unharmed_expire unharmed_returns])
  next
    case 2
    show ?case
    proof (rule triple_bind [OF unharmed_add], rule triple_pre, goal_cases)
      case (1 r)
      then obtain count where r: "r = Inr count" by (auto simp: is_ok_iff)
      show ?case unfolding r sum.case
        by (intro unharmed_bind triple_if unharmed_keys unharmed_returns)
    qed
  qed
qed

lemma unharmed_release:
  assumes "lease_named l"
  shows "unharmed E P F K (release_lease l)"
proof -
  have n: "le_tenant l \<noteq> [] \<and> le_subscriber l \<noteq> [] \<and> le_id l \<noteq> []" using assms by (simp add: lease_named_def)
  show ?thesis
    unfolding release_lease_def require_def if_P [OF n] Let_def
    by (intro unharmed_then unharmed_bind triple_if unharmed_keys unharmed_returns)
qed

end
