(* ===== verification/EventSafety.thy ===== *)
theory EventSafety imports EventPromise begin

section \<open>No delivery is forgotten\<close>

text \<open>
  Publishing, acknowledging, refusing and polling keep the promise of \<open>EventPromise\<close>: whatever
  happens to a delivery, its subscriber gets another attempt or the event is a dead letter.
\<close>

subsection \<open>What an operation can add\<close>

text \<open>Beyond the promise: attempts with keys in \<open>S\<close> and envelopes of events in \<open>T\<close>, and nothing is lost.\<close>

definition attempt_keys :: "ef_db \<Rightarrow> (string \<times> string \<times> string \<times> int) set" where
  "attempt_keys db = attempt_key ` set (attempts db)"

definition envelope_ids :: "ef_db \<Rightarrow> (string \<times> string) set" where
  "envelope_ids db = (\<lambda>e. (en_uuid e, en_event e)) ` set (envelopes db)"

lemma envelope_events: "en_event ` set (envelopes db) = snd ` envelope_ids db"
  by (simp add: envelope_ids_def image_image)

lemma new_attempt_iff: "new_attempt a w \<longleftrightarrow> attempt_key a \<notin> attempt_keys (e_db w) \<and> (at_envelope a, at_event a) \<in> envelope_ids (e_db w)"
  by (force simp: new_attempt_def attempt_keys_def envelope_ids_def)

definition added :: "(string \<times> string \<times> string \<times> int) set \<Rightarrow> string set \<Rightarrow> ef_db \<Rightarrow> ef_db \<Rightarrow> bool" where
  "added S T db db' \<longleftrightarrow> bindings db' = bindings db \<and> attempt_keys db' \<subseteq> S \<union> attempt_keys db \<and>
     snd ` envelope_ids db' \<subseteq> T \<union> snd ` envelope_ids db \<and> envelope_ids db \<subseteq> envelope_ids db'"

lemma grown_trans: "A \<subseteq> S \<union> B \<Longrightarrow> B \<subseteq> S \<union> C \<Longrightarrow> A \<subseteq> S \<union> C"
  by blast

lemma added_trans: "added S T u v \<Longrightarrow> added S T v w \<Longrightarrow> added S T u w"
  unfolding added_def by (elim conjE, intro conjI) (simp, (erule (1) grown_trans)+, rule subset_trans)

lemma added_same: "bindings db' = bindings db \<Longrightarrow> attempts db' = attempts db \<Longrightarrow> envelopes db' = envelopes db \<Longrightarrow> added S T db db'"
  by (simp add: added_def attempt_keys_def envelope_ids_def)

definition adds :: "(string \<times> string \<times> string \<times> int) set \<Rightarrow> string set \<Rightarrow> ef_world \<Rightarrow> ef_world \<Rightarrow> bool" where
  "adds S T w w' \<longleftrightarrow> runs_alone (e_env w) \<longrightarrow> (e_env w' = e_env w \<and> e_calls w \<le> e_calls w' \<and> added S T (e_db w) (e_db w'))"

interpretation adds: call_logic "adds S T"
proof
  show "adds S T w w" for w by (simp add: adds_def added_same)
  show "adds S T u v \<Longrightarrow> adds S T v w \<Longrightarrow> adds S T u w" for u v w
    using added_trans by (simp add: adds_def) (metis le_trans)
qed

lemma adds_call:
  assumes "\<And>m db. added S T db (snd (f m db))"
  shows "does (adds S T) (ef_call f)"
proof (rule doesI)
  fix w x w' assume run: "run_state (ef_call f) w = (x, w')"
  obtain r db' where f: "f (e_moments (e_env w) (e_calls w)) (e_db w) = (r, db')" by fastforce
  have "added S T (e_db w) db'" using assms [of "e_db w" "e_moments (e_env w) (e_calls w)"] f by simp
  then show "adds S T w w'" using run f by (auto simp: adds_def runs_alone_def ef_call_def Let_def)
qed

lemma adds_this_moment: "does (adds S T) this_moment"
  by (simp add: does_def adds_def this_moment_def added_same)

lemma adds_settings: "does (adds S T) settings"
  by (simp add: does_def adds_def settings_def added_same)

lemma adds_read: "does (adds S T) (ef_read f)"
  unfolding ef_read_def by (rule adds_call) (simp add: added_same)

lemma adds_update_attempt: "(\<And>r. identity (f r) = identity r) \<Longrightarrow> does (adds S T) (update_attempt u f)"
  unfolding update_attempt_def
  by (rule adds_call) (auto simp: added_def attempt_keys_def envelope_ids_def identity_def attempt_key_def)

lemma adds_key_command: "does (adds S T) (key_command k f)"
  unfolding key_command_def Let_def by (rule adds_call) (auto intro!: added_same split: prod.splits)

lemma adds_schedule: "does (adds S T) (schedule opts)"
proof -
  have "does (adds S T) (ef_call (\<lambda>_ db. (Inr (), retries_changed t f db)))" for t f
    by (rule adds_call) (simp add: added_same retries_changed_def)
  then show ?thesis unfolding schedule_def schedule_retry_item_def Let_def
    by (intro adds.logic adds_settings adds_this_moment)
qed

lemma adds_release: "does (adds S T) (release_lease l)"
  unfolding release_lease_def Let_def redis_del_def redis_add_def redis_expire_def
  by (intro adds.logic adds_key_command)

lemma adds_upsert_attempt: "attempt_key a \<in> S \<Longrightarrow> does (adds S T) (upsert_attempt a)"
  unfolding upsert_attempt_def
  by (intro adds.logic adds_read adds_call) (auto simp: added_def attempt_keys_def envelope_ids_def insert_attempt_def Let_def attempt_key_def)

lemma triple_does:
  assumes "triple A m B" "does R m" "\<And>w w'. A w \<Longrightarrow> R w w' \<Longrightarrow> C w \<Longrightarrow> C w'"
  shows "triple (\<lambda>w. A w \<and> C w) m (\<lambda>r w. B r w \<and> C w)"
  using assms unfolding triple_def does_def by (force split: prod.splits)

lemma new_attempt_stable:
  assumes "promise E P F K w" "adds S T w w'" "attempt_key a \<notin> S" "new_attempt a w"
  shows "new_attempt a w'"
  using assms promiseD(1) [OF assms(1)] promiseD(5) [OF assms(1)] by (auto simp: new_attempt_iff adds_def added_def)

text \<open>What no operation ends unless it adds rows.\<close>

definition lasting :: "(ef_world \<Rightarrow> bool) \<Rightarrow> bool" where
  "lasting C \<longleftrightarrow> (\<forall>w w'. runs_alone (e_env w) \<longrightarrow> adds {} {} w w' \<longrightarrow> C w \<longrightarrow> C w')"

lemma lasting_conj: "lasting C \<Longrightarrow> lasting D \<Longrightarrow> lasting (\<lambda>w. C w \<and> D w)"
  unfolding lasting_def by blast

lemma lasting_new: "lasting (new_attempt a)"
  by (auto simp: lasting_def new_attempt_iff adds_def added_def)

lemma lasting_triple:
  assumes "lasting C" "triple (promise E P F K) m B" "does (adds {} {}) m"
  shows "triple (\<lambda>w. promise E P F K w \<and> C w) m (\<lambda>r w. B r w \<and> C w)"
proof (rule triple_does [OF assms(2,3)])
  fix w w' assume w: "promise E P F K w" "adds {} {} w w'" "C w"
  then show "C w'" using assms(1) promiseD(1) [OF w(1)] promiseD(5) [OF w(1)] unfolding lasting_def by metis
qed

lemma lasting_bind:
  assumes "lasting C" "triple (promise E P F K) m (\<lambda>x. promise E P' F' K')" "does (adds {} {}) m"
    "\<And>x. triple (\<lambda>w. promise E P' F' K' w \<and> C w) (f x) B"
  shows "triple (\<lambda>w. promise E P F K w \<and> C w) (m \<bind> f) B"
  by (rule triple_bind [OF lasting_triple [OF assms(1-3)]]) (use assms(4) in simp_all)

lemma lasting_then:
  assumes "lasting C" "triple (promise E P F K) m (\<lambda>r w. \<exists>x. r = Inr x \<and> promise E P' F' K' w)" "does (adds {} {}) m"
    "\<And>x. triple (\<lambda>w. promise E P' F' K' w \<and> C w) (f x) B"
  shows "triple (\<lambda>w. promise E P F K w \<and> C w) (attempt m f) B"
  by (rule triple_then [where M = "\<lambda>_ w. promise E P' F' K' w \<and> C w"], rule triple_weaken [OF lasting_triple [OF assms(1-3)]])
    (use assms(4) in auto)

lemmas new_bind = lasting_bind [OF lasting_new]
lemmas new_then = lasting_then [OF lasting_new]

subsection \<open>Acknowledging and refusing\<close>

lemma promise_row:
  assumes "promise E P F K w" "a \<in> K"
  obtains r e where "r \<in> set (attempts (e_db w))" "identity r = identity a" "row_ok E (e_db w) a"
proof -
  obtain r where r: "r \<in> set (attempts (e_db w))" "identity r = identity a"
    using promiseD(4) [OF assms] by (auto simp: known_def)
  then have "row_ok E (e_db w) r" using promiseD(2) [OF assms(1)] by (simp add: rows_ok_def)
  then have "row_ok E (e_db w) a" using r(2) by (simp add: row_ok_def identity_def)
  then show ?thesis using that r by blast
qed

lemma promise_lease: "promise E P F K w \<Longrightarrow> a \<in> K \<Longrightarrow> lease_named (lease_of a e)"
  by (erule promise_row) (auto simp: lease_named_def lease_of_def row_ok_def)

lemma triple_fact: "(\<And>w. A w \<Longrightarrow> b) \<Longrightarrow> (b \<Longrightarrow> triple A m B) \<Longrightarrow> triple A m B"
  by (force simp: triple_def)

lemma triple_addressed:
  "triple (promise E P F {}) (addressed d sub) (\<lambda>r w. promise E P F {} w \<and> (case r of Inl e \<Rightarrow> True
     | Inr (a, e) \<Rightarrow> promise E P F {a} w \<and> en_uuid e = at_envelope a \<and> e_parse_uuid E d = Some (at_uuid a)))"
    (is "triple _ _ ?B")
  unfolding addressed_def
proof (rule triple_bind [OF triple_settings], rule triple_pre, goal_cases)
  case (1 env)
  have found: "triple (promise E P F {a}) (attempt (ef_read (find_envelope (at_envelope a))) (\<lambda>e. case e of
      None \<Rightarrow> raise (Refused ''envelope missing for attempt'') | Some e \<Rightarrow> returns (a, e))) ?B"
    if "e_parse_uuid env d = Some (at_uuid a)" for a
    by (rule triple_attempt [OF triple_find_envelope])
      (use 1 that in \<open>auto simp: triple_def intro: promise_mono split: option.split\<close>)
  have "triple (promise E P F {}) (attempt (ef_read (find_attempt u)) (\<lambda>found. case found of
         None \<Rightarrow> raise (Refused ''delivery attempt not found'')
       | Some a \<Rightarrow> require (sub = [] \<or> equal_fold sub (at_subscriber a)) (Refused ''subscriber mismatch'') (
           attempt (ef_read (find_envelope (at_envelope a))) (\<lambda>e. case e of
             None \<Rightarrow> raise (Refused ''envelope missing for attempt'')
           | Some e \<Rightarrow> returns (a, e))))) ?B" if u: "e_parse_uuid env d = Some u" for u
  proof (rule triple_then [OF triple_find_attempt], goal_cases)
    case (1 x)
    have "triple (promise E P F {a}) (require (sub = [] \<or> equal_fold sub (at_subscriber a)) (Refused ''subscriber mismatch'') (
           attempt (ef_read (find_envelope (at_envelope a))) (\<lambda>e. case e of
             None \<Rightarrow> raise (Refused ''envelope missing for attempt'')
           | Some e \<Rightarrow> returns (a, e)))) ?B" if "at_uuid a = u" for a
      by (rule triple_require [OF found]) (use u that in \<open>auto intro: promise_mono\<close>)
    note read = this
    show ?case
    proof (cases x)
      case (Some a)
      show ?thesis unfolding Some option.case
        by (rule triple_fact [where b = "at_uuid a = u"], simp, rule triple_weaken [OF read]) simp_all
    qed simp
  qed
  then show ?case by (cases "e_parse_uuid env d") simp_all
qed

lemma triple_ack: "triple (promise E P F {}) (ack_delivery d sub) (\<lambda>r. promise E P F {})"
  unfolding ack_delivery_def
proof (rule triple_attempt [OF triple_addressed], clarify, goal_cases)
  case (1 a e)
  have acked: "identity (acked now b r) = identity r" "at_status (acked now b r) = ''succeeded''" for now b r
    by (simp_all add: acked_def identity_def)
  have "triple (promise E P F {a}) (do {
      m \<leftarrow> this_moment;
      attempt (update_attempt (at_uuid a) (acked (e_now m) a)) (\<lambda>_.
      attempt (ef_read (count_active (at_envelope a))) (\<lambda>active.
      attempt (update_envelope (at_envelope a) (\<lambda>r. r\<lparr>en_status := (if 0 < active then ''delivering'' else ''succeeded''),
        en_retry_count := at_no a - 1\<rparr>)) (\<lambda>_.
      release_lease (lease_of a e)))) }) (\<lambda>r. promise E P F {})"
  proof (rule triple_bind [OF triple_this_moment], rule triple_then [OF triple_update_attempt [OF acked]], goal_cases)
    case (1 m x)
    show ?case
      by (rule triple_fact [OF promise_lease [of _ _ _ _ _ a e]], simp, simp, rule triple_then [OF triple_count],
          rule triple_then [OF triple_update_envelope], simp, simp,
          rule triple_weaken [OF unharmed_release]) (auto intro: promise_mono)
  qed
  then show ?case by (rule triple_weaken) auto
qed simp

text \<open>A refusal that is the first of its attempt: the next attempt is not stored yet.\<close>

definition first_refusal :: "string \<Rightarrow> ef_world \<Rightarrow> bool" where
  "first_refusal d w \<longleftrightarrow> (\<forall>a\<in>set (attempts (e_db w)). e_parse_uuid (e_env w) d = Some (at_uuid a) \<longrightarrow>
     attempt_key (next_attempt_of a) \<notin> attempt_key ` set (attempts (e_db w)))"

definition only_reads :: "ef_world \<Rightarrow> ef_world \<Rightarrow> bool" where
  "only_reads w w' \<longleftrightarrow> runs_alone (e_env w) \<longrightarrow> e_env w' = e_env w \<and> e_db w' = e_db w"

interpretation only_reads: call_logic only_reads
  by unfold_locales (auto simp: only_reads_def)

lemma only_reads_read: "does only_reads (ef_read f)"
  by (simp add: does_def only_reads_def ef_read_def ef_call_def Let_def runs_alone_def)

lemma only_reads_settings: "does only_reads settings"
  by (simp add: does_def only_reads_def settings_def)

lemma only_reads_addressed: "does only_reads (addressed d sub)"
  unfolding addressed_def by (intro only_reads.logic only_reads_read only_reads_settings)

lemma first_refusal_new:
  assumes "first_refusal d w" "promise E P F {a} w" "e_parse_uuid E d = Some (at_uuid a)"
  shows "new_attempt (next_attempt_of a) w"
proof -
  obtain r where r: "r \<in> set (attempts (e_db w))" "identity r = identity a" "row_ok E (e_db w) a"
    using promise_row [OF assms(2)] by blast
  then have "attempt_key (next_attempt_of r) = attempt_key (next_attempt_of a)" "at_uuid r = at_uuid a"
    by (simp_all add: identity_def attempt_key_def next_attempt_of_def)
  then show ?thesis using assms(1,3) r(1,3) promiseD(5) [OF assms(2)]
    by (auto simp: first_refusal_def new_attempt_def row_ok_def next_attempt_of_def)
qed

lemma triple_give_up:
  assumes "en_uuid e = at_envelope a"
  shows "triple (promise E P F {a}) (give_up a e why) (\<lambda>r. promise E P (F - {at_uuid a}) {})"
  unfolding give_up_def push_to_dlq_def
proof (rule triple_then [where M = "\<lambda>_. promise E P (F - {at_uuid a}) {a}"], goal_cases)
  case 1
  show ?case
  proof (rule triple_bind [OF triple_settings], rule triple_pre, goal_cases)
    case (1 env)
    have dlq: "promise E P F {a} w \<Longrightarrow> e_dlq env" for w using promiseD(1) 1 by (auto simp: runs_alone_def)
    show ?case
      by (rule triple_fact [OF dlq], assumption)
        (simp del: ex_simps, rule triple_weaken [OF triple_dead_letter], auto simp: letter_for_def assms)
  qed
next
  case (2 x)
  show ?case by (rule triple_then [OF triple_update_envelope]) (auto intro: promise_mono)
qed

lemma triple_try_again:
  "triple (\<lambda>w. promise E {} {at_uuid a} {a} w \<and> new_attempt (next_attempt_of a) w) (try_again a e limit why) (\<lambda>r. promise E {} {} {})"
proof (rule triple_fact [where b = "at_tenant a \<noteq> [] \<and> at_subscriber a \<noteq> []"], goal_cases)
  case (1 w)
  then show ?case by (auto simp: row_ok_def elim: promise_row)
next
  case 2
  let ?b = "next_attempt_of a"
  have b: "at_uuid ?b = nil_uuid" "at_status ?b = ''pending''" "at_tenant ?b \<noteq> []" "at_subscriber ?b \<noteq> []"
    using 2 by (simp_all add: next_attempt_of_def)
  have f: "follows a ?b" by (simp add: follows_def next_attempt_of_def)
  show ?case unfolding try_again_def
  proof (rule triple_then [OF triple_upsert_attempt [OF b]], goal_cases)
    case (1 x)
    show ?case
    proof (rule triple_fact [where b = "\<exists>u. x = Some (?b\<lparr>at_uuid := u\<rparr>)"], blast, clarsimp, goal_cases)
      case (1 u)
      show ?case
        using f 2 by (intro triple_weaken [OF triple_then [OF triple_schedule [where E = E and P = "{u}" and F = "{}" and
            K = "{?b\<lparr>at_uuid := u\<rparr>, a}" and u = u] triple_then [OF triple_update_envelope]]])
          (auto simp: attempt_options_def next_attempt_of_def triple_def intro: promise_mono)
    qed
  qed
qed

lemma triple_nack:
  "triple (\<lambda>w. promise E {} {} {} w \<and> first_refusal d w) (nack_delivery d sub why) (\<lambda>r. promise E {} {} {})"
  unfolding nack_delivery_def
proof (rule triple_attempt [OF triple_does [OF triple_addressed only_reads_addressed, where C = "first_refusal d"]], goal_cases)
  case (1 w w')
  then show ?case using promiseD(1,5) [OF 1(1)] by (simp add: first_refusal_def only_reads_def)
next
  case (2 x)
  obtain a e where x: "x = (a, e)" by fastforce
  let ?b = "next_attempt_of a"
  have refused: "identity (refused_by now c y r) = identity r" "at_status (refused_by now c y r) = ''failed''" for now c y r
    by (simp_all add: refused_by_def identity_def)
  have "triple (\<lambda>w. promise E {} {} {a} w \<and> new_attempt ?b w) (do {
     env \<leftarrow> settings;
     m \<leftarrow> this_moment;
     attempt (update_attempt (at_uuid a) (refused_by (e_now m) ''nack'' why)) (\<lambda>_. do {
       _ \<leftarrow> release_lease (lease_of a e);
       if attempt_limit env e < at_no a + 1 then give_up a e why else try_again a e (attempt_limit env e) why }) })
      (\<lambda>r. promise E {} {} {})" if e: "en_uuid e = at_envelope a"
  proof (rule new_bind [where P' = "{}" and F' = "{}" and K' = "{a}"], goal_cases)
    case (3 env)
    show ?case
    proof (rule new_bind [OF triple_this_moment adds_this_moment], rule new_then [where P' = "{}" and F' = "{at_uuid a}" and K' = "{a}"], goal_cases)
      case (1 m)
      show ?case by (rule triple_weaken [OF triple_update_attempt [OF refused]]) auto
    next
      case (3 m x)
      have lease: "lease_named (lease_of a e) \<Longrightarrow> triple (\<lambda>w. promise E {} {at_uuid a} {a} w \<and> new_attempt ?b w)
          (release_lease (lease_of a e) \<bind> (\<lambda>_. if attempt_limit env e < at_no a + 1 then give_up a e why else try_again a e (attempt_limit env e) why))
          (\<lambda>r. promise E {} {} {})"
      proof (rule new_bind [where P' = "{}" and F' = "{at_uuid a}" and K' = "{a}"], goal_cases)
        case (3 r)
        show ?case
          by (rule triple_if, rule triple_weaken [OF triple_give_up [OF e]]) (auto intro: triple_try_again)
      qed (simp_all add: adds_release triple_weaken [OF unharmed_release])
      show ?case by (rule triple_fact [OF _ lease]) (auto intro: promise_lease)
    qed (use refused in \<open>auto intro: adds_update_attempt\<close>)
  qed (simp_all add: adds_settings triple_weaken [OF triple_settings])
  note refuse = this
  show ?case unfolding x prod.case
    by (rule triple_fact [where b = "en_uuid e = at_envelope a"], simp, rule triple_weaken [OF refuse], assumption)
      (auto intro: first_refusal_new)
qed simp

subsection \<open>Polling\<close>

definition waiting :: "string \<Rightarrow> string \<Rightarrow> ef_world \<Rightarrow> bool" where
  "waiting t u w \<longleftrightarrow> (\<exists>p\<in>set (retries (e_db w) t). named (fst p) = u)"

lemma triple_conj: "triple A m B \<Longrightarrow> triple A m B' \<Longrightarrow> triple A m (\<lambda>r w. B r w \<and> B' r w)"
  by (auto simp: triple_def split: prod.splits)

lemma promise_waiting:
  assumes "promise E (insert (at_uuid a) P) F K w" "a \<in> K" "waiting (at_tenant a) (at_uuid a) w"
  shows "promise E P F K w"
proof -
  note D = promiseD [OF assms(1)]
  obtain q where q: "q \<in> set (attempts (e_db w))" "identity q = identity a" using D(4) [OF assms(2)] by (auto simp: known_def)
  have "waits r (e_db w)" if r: "r \<in> set (attempts (e_db w))" "at_uuid r = at_uuid a" for r
  proof -
    have "at_uuid r = at_uuid q" using r(2) q(2) by (simp add: identity_def)
    then have "r = q" using D(2) r(1) q(1) by (auto simp: rows_ok_def distinct_map dest: inj_onD)
    then show ?thesis using q(2) assms(3) by (simp add: waits_def waiting_def identity_def)
  qed
  then have "keeps P F (e_db w)" using D(3) by (auto simp: keeps_def)
  then show ?thesis using assms(1) by (simp add: promise_def)
qed

lemma promise_absent: "promise E (insert u P) F K w \<Longrightarrow> u \<notin> at_uuid ` set (attempts (e_db w)) \<Longrightarrow> promise E P F K w"
  by (auto simp: promise_def keeps_def)

lemma promise_unparsed: "promise E P F K w \<Longrightarrow> e_parse_uuid E u \<noteq> Some u \<or> u = nil_uuid \<Longrightarrow> u \<notin> at_uuid ` set (attempts (e_db w))"
  by (auto simp: promise_def rows_ok_def row_ok_def)

lemma triple_queued:
  assumes "so_tenant opts \<noteq> []" "map_of (so_metadata opts) ''attempt_uuid'' = Some u"
  shows "triple (promise E P F K) (schedule opts) (\<lambda>r. waiting (so_tenant opts) u)"
proof -
  have put: "triple (promise E P F K) (ef_call (\<lambda>_ db. (Inr (), retries_changed t (AList.update i s) db))) (\<lambda>r w. \<exists>x. r = Inr x \<and> waiting t (named i) w)" for t i s
  proof (rule triple_call, clarsimp simp: retries_changed_def waiting_def, goal_cases)
    case (1 w)
    then show ?case using update_item [of i s "retries (e_db w) t"] by force
  qed
  have item: "triple (promise E P F K) (schedule_retry_item i) (\<lambda>r w. \<exists>x. r = Inr x \<and> waiting (ri_tenant i) (named i) w)" if "ri_tenant i \<noteq> []" for i
    unfolding schedule_retry_item_def require_def if_P [OF that] Let_def
    by (rule triple_bind [OF triple_this_moment], rule triple_weaken [OF put]) (auto simp: named_def split: if_splits)
  show ?thesis unfolding schedule_def Let_def
  proof (rule triple_bind [OF triple_settings], rule triple_pre, rule triple_bind [OF triple_this_moment], rule triple_then [OF item], goal_cases)
    case (2 env m x)
    then show ?case using assms(2) by (simp add: named_def attribute_def)
  qed (use assms(1) in simp)
qed

lemma triple_reschedule:
  assumes "a \<in> K"
  shows "triple (promise E (insert (at_uuid a) P) F K) (reschedule_attempt a e base) (\<lambda>_ w. promise E P F K w \<and> waiting (at_tenant a) (at_uuid a) w)"
proof (rule triple_fact [where b = "at_tenant a \<noteq> []"], goal_cases)
  case (1 w)
  then show ?case by (rule promise_row [OF _ assms]) (simp add: row_ok_def)
next
  case 2
  let ?o = "attempt_options a e (at_no a) base (at_uuid a)"
  have o: "so_tenant ?o = at_tenant a" "map_of (so_metadata ?o) ''attempt_uuid'' = Some (at_uuid a)" by (simp_all add: attempt_options_def)
  have "triple (promise E (insert (at_uuid a) P) F K) (schedule ?o) (\<lambda>_ w. promise E P F K w \<and> waiting (at_tenant a) (at_uuid a) w)"
  proof (rule triple_weaken [OF triple_conj [OF triple_schedule triple_queued]])
    show "so_tenant ?o \<noteq> []" using 2 o by simp
  qed (use 2 o assms in \<open>auto intro: promise_mono\<close>)
  then show ?case unfolding reschedule_attempt_def by (rule triple_bind) simp
qed

lemma triple_pending_again:
  assumes "a \<in> K"
  shows "triple (\<lambda>w. promise E P F K w \<and> waiting (at_tenant a) (at_uuid a) w) (update_attempt (at_uuid a) (\<lambda>r. r\<lparr>at_status := ''pending''\<rparr>))
    (\<lambda>r w. is_ok r \<and> promise E P F K w)"
proof -
  have "triple (\<lambda>w. promise E P F K w \<and> waiting (at_tenant a) (at_uuid a) w) (update_attempt (at_uuid a) (\<lambda>r. r\<lparr>at_status := ''pending''\<rparr>))
      (\<lambda>r. waiting (at_tenant a) (at_uuid a))"
    unfolding update_attempt_def by (rule triple_call_when) (auto simp: waiting_def)
  moreover have "triple (\<lambda>w. promise E P F K w \<and> waiting (at_tenant a) (at_uuid a) w) (update_attempt (at_uuid a) (\<lambda>r. r\<lparr>at_status := ''pending''\<rparr>))
      (\<lambda>r w. is_ok r \<and> promise E (insert (at_uuid a) P) F K w)"
    by (rule triple_weaken [OF triple_update_attempt [where s = "''pending''"]]) (auto simp: identity_def is_ok_def intro: promise_mono)
  ultimately show ?thesis
    by (rule triple_weaken [OF triple_conj]) (use assms promise_waiting in blast)+
qed

lemma triple_find_polled:
  "triple (promise E (insert (named item) P) F {}) (find_polled item) (\<lambda>r w. \<exists>x. r = Inr x \<and>
    (case x of None \<Rightarrow> promise E P F {} w | Some a \<Rightarrow> promise E (insert (at_uuid a) P) F {a} w))"
  unfolding find_polled_def Let_def named_def [symmetric]
proof (rule triple_bind [OF triple_settings], rule triple_pre, goal_cases)
  case (1 env)
  let ?n = "named item"
  let ?u = "case e_parse_uuid env ?n of None \<Rightarrow> nil_uuid | Some u \<Rightarrow> u"
  let ?M = "\<lambda>x w. case x of None \<Rightarrow> promise E P F {} w | Some a \<Rightarrow> promise E (insert (at_uuid a) P) F {a} w"
  have gone: "promise E P F K w" if "promise E (insert ?n P) F K w" "?u = nil_uuid \<or> ?u \<noteq> ?n" for K w
    using promise_absent [OF that(1) promise_unparsed [OF that(1)]] that(2) 1 by (auto split: option.splits)
  show ?case
  proof (rule triple_then [where M = ?M], goal_cases)
    case 1
    show ?case
    proof (rule triple_if, goal_cases)
      case 1
      then show ?case using gone by simp
    next
      case 2
      show ?case
      proof (rule triple_weaken [OF triple_find_attempt], assumption, elim exE conjE, goal_cases)
        case (1 r w x)
        have "promise E P F {} w" if "x = None"
          using 1 that gone [of "{}" w] promise_absent [of E ?n P F "{}" w] by fastforce
        moreover have "promise E (insert (at_uuid a) P) F {a} w" if "x = Some a" for a
        proof (cases "?u = ?n")
          case False
          then show ?thesis using gone [of "{a}" w] 1 that by (auto intro: promise_mono)
        qed (use 1 that in simp)
        ultimately show ?case using 1 by (cases x) simp_all
      qed
    qed
  next
    case (2 x)
    show ?case
    proof (cases x)
      case None
      have latest: "triple (promise E P F {}) (ef_read (latest_attempt en (ri_subscriber item)) \<bind> (\<lambda>r. case r of Inl _ \<Rightarrow> returns None | Inr a \<Rightarrow> returns a))
          (\<lambda>r w. \<exists>x. r = Inr x \<and> ?M x w)" for en
        by (rule triple_bind [OF triple_latest_attempt]) (auto simp: triple_def intro: promise_mono split: sum.split option.split)
      show ?thesis unfolding None option.case
        by (rule triple_if, simp, cases "e_parse_uuid env (ri_envelope item)") (simp, simp only: option.case, rule latest)
    qed simp
  qed
qed

lemma triple_ignoring: "triple A m (\<lambda>_. B) \<Longrightarrow> triple A (ignoring m) (\<lambda>_. B)"
  unfolding ignoring_def by (rule triple_bind) (assumption, simp)

lemma triple_put_back:
  assumes "a \<in> K"
  shows "triple (promise E P F K) (put_back a e) (\<lambda>_. promise E P F K)"
  unfolding put_back_def
proof (rule triple_bind [OF triple_weaken [OF triple_reschedule [OF assms]]], rule promise_mono, assumption, blast, blast, blast, assumption,
    goal_cases)
  case (1 x)
  show ?case
  proof (rule triple_bind [OF triple_ignoring], rule triple_weaken [OF triple_pending_again [OF assms]], assumption, erule conjunct2, goal_cases)
    case (1 x)
    show ?case
      by (rule triple_fact [OF promise_lease [OF _ assms]], assumption, rule triple_ignoring, rule triple_weaken [OF unharmed_release]) auto
  qed
qed

lemma triple_version_incompatible:
  assumes "a \<in> K" "en_uuid e = at_envelope a"
  shows "triple (promise E P F K) (handle_version_incompatible a e why) (\<lambda>_. promise E P F K)"
  unfolding handle_version_incompatible_def
proof (rule triple_bind [OF triple_this_moment], rule triple_bind [where M = "\<lambda>_. promise E P (insert (at_uuid a) F) K"], goal_cases)
  case (1 m)
  have refused: "identity (refused_by now c y r) = identity r" "at_status (refused_by now c y r) = ''failed''" for now c y r
    by (simp_all add: refused_by_def identity_def)
  show ?case
    by (rule triple_ignoring, rule triple_weaken [OF triple_update_attempt [OF refused]]) (auto intro: promise_mono)
next
  case (2 m x)
  show ?case
  proof (rule triple_bind [where M = "\<lambda>_. promise E P F K"], goal_cases)
    case 1
    have "triple (promise E P (insert (at_uuid a) F) K) (push_to_dlq e why) (\<lambda>_. promise E P F K)" unfolding push_to_dlq_def
    proof (rule triple_bind [OF triple_settings], rule triple_pre, goal_cases)
      case (1 env)
      have dlq: "promise E P F' K w \<Longrightarrow> e_dlq env" for w F' using promiseD(1) 1 by (auto simp: runs_alone_def)
      show ?case
        by (rule triple_fact [OF dlq], assumption)
          (simp, rule triple_weaken [OF triple_dead_letter [OF assms(1)]], auto simp: letter_for_def assms(2) intro: promise_mono)
    qed
    then show ?case by (rule triple_ignoring)
  next
    case (2 y)
    show ?case
    proof (rule triple_bind [where M = "\<lambda>_. promise E P F K"], rule triple_ignoring, rule triple_weaken [OF triple_update_envelope], goal_cases)
      case (5 y)
      show ?case
        by (rule triple_fact [OF promise_lease [OF _ assms(1)]], assumption, rule triple_ignoring, rule triple_weaken [OF unharmed_release]) auto
    qed auto
  qed
qed

lemma triple_hand_out:
  assumes "en_uuid e = at_envelope a"
  shows "triple (promise E (insert (at_uuid a) P) F {a}) (hand_out c now item a e acc) (\<lambda>r w. is_ok r \<and> promise E P F {} w)"
  unfolding hand_out_def
proof (rule triple_then [where M = "\<lambda>_. promise E P F {a}"], goal_cases)
  case 1
  show ?case by (rule triple_weaken [OF triple_update_attempt [where s = "''delivering''"]]) (auto simp: identity_def intro: promise_mono)
next
  case (2 x)
  have goes: "triple (promise E P F {a}) (m \<bind> (\<lambda>_. returns acc)) (\<lambda>r w. is_ok r \<and> promise E P F {} w)"
    if "triple (promise E P F {a}) m (\<lambda>_. promise E P F {a})" for m :: "unit ef"
    by (rule triple_bind [OF that]) (auto simp: is_ok_def intro: promise_mono)
  show ?case
  proof (rule triple_bind [OF triple_settings], rule triple_pre, rule triple_bind [where M = "\<lambda>_. promise E P F {a}"], goal_cases)
    case (1 env)
    show ?case by (rule triple_weaken [OF triple_count]) auto
  next
    case (2 env found)
    show ?case unfolding Let_def
      by (intro triple_if goes triple_put_back triple_version_incompatible assms insertI1) (auto simp: is_ok_def intro: promise_mono)
  qed
qed

lemma triple_envelope_of:
  assumes "a \<in> K"
  shows "triple (promise E P F K) (ef_read (find_envelope (at_envelope a)))
    (\<lambda>r w. \<exists>x. r = Inr x \<and> (\<exists>e. x = Some e \<and> en_uuid e = at_envelope a \<and> promise E P F K w))"
  unfolding ef_read_def
proof (rule triple_call, goal_cases)
  case (1 w r db')
  obtain e where "e \<in> set (envelopes (e_db w))" "en_uuid e = at_envelope a"
    using 1(1) assms by (rule promise_row) (auto simp: row_ok_def)
  then obtain e' where "find_envelope (at_envelope a) (e_db w) = Some e'"
    by (cases "find_envelope (at_envelope a) (e_db w)") (auto simp: find_envelope_def find_None_iff)
  moreover from this have "en_uuid e' = at_envelope a" by (auto simp: find_envelope_def find_Some_iff)
  ultimately show ?case using 1 promiseD [OF 1(1)] by (auto simp: promise_def intro: rows_ok_later)
qed

lemma triple_poll_item:
  "triple (promise E (insert (named item) P) F {}) (poll_item c now item acc) (\<lambda>r w. is_ok r \<and> promise E P F {} w)"
  unfolding poll_item_def
proof (rule triple_then [OF triple_find_polled], goal_cases)
  case (1 x)
  show ?case
  proof (cases x)
    case (Some a)
    have again: "triple (promise E (insert (at_uuid a) P) F {a}) (reschedule_attempt a e base \<bind> (\<lambda>_. returns acc)) (\<lambda>r w. is_ok r \<and> promise E P F {} w)"
      for e base
      by (rule triple_bind [OF triple_reschedule]) (auto simp: is_ok_def intro: promise_mono)
    show ?thesis unfolding Some option.case
    proof (rule triple_bind [OF triple_envelope_of [of a]], simp, goal_cases)
      case (1 r)
      have "triple (promise E (insert (at_uuid a) P) F {a}) (if trim_space (pc_subscriber c) \<noteq> [] \<and> \<not> equal_fold (at_subscriber a) (trim_space (pc_subscriber c))
           then do { reschedule_attempt a e 0; returns acc }
           else attempt (acquire_lease (lease_of a e)) (\<lambda>granted.
             if \<not> granted then do { reschedule_attempt a e (200 * millisecond_ns); returns acc }
             else hand_out c now item a e acc)) (\<lambda>r w. is_ok r \<and> promise E P F {} w)" if e: "en_uuid e = at_envelope a" for e
      proof (rule triple_if [OF again], rule triple_fact [OF promise_lease [of _ _ _ _ _ a e]], assumption, simp, goal_cases)
        case 1
        show ?case
          by (rule unharmed_then [OF unharmed_acquire [OF 1(2)]], rule triple_if [OF again triple_hand_out [OF e]])
      qed
      note rest = this
      show ?case
      proof (rule triple_fact [where b = "\<exists>e. r = Inr (Some e) \<and> en_uuid e = at_envelope a"], blast, elim exE conjE, goal_cases)
        case (1 e)
        show ?case unfolding 1(1) sum.case option.case
          by (rule triple_weaken [OF rest [OF 1(2)]]) auto
      qed
    qed
  qed (simp add: is_ok_def)
qed

lemma triple_poll_items:
  "triple (promise E (named ` set items) F {}) (poll_items c now items acc) (\<lambda>r w. is_ok r \<and> promise E {} F {} w)"
proof (induction items arbitrary: acc)
  case (Cons i items)
  have "triple (promise E (named ` set (i # items)) F {}) (poll_item c now i acc) (\<lambda>r w. \<exists>x. r = Inr x \<and> promise E (named ` set items) F {} w)"
    by (rule triple_weaken [OF triple_poll_item]) (auto simp: is_ok_iff)
  then show ?case unfolding poll_items.simps by (rule triple_then) (rule Cons.IH)
qed (simp add: is_ok_def)

lemma triple_poll: "triple (promise E {} {} {}) (poll_retry c limit) (\<lambda>r. promise E {} {} {})"
  unfolding poll_retry_def
proof (rule triple_require, rule triple_bind [OF triple_this_moment], goal_cases)
  case (1 m)
  then have t: "trim_space (pc_tenant c) \<noteq> []" by simp
  show ?case
  proof (rule triple_then [where M = "\<lambda>items. promise E (named ` set items) {} {}"], goal_cases)
    case 1
    show ?case by (rule triple_weaken [OF triple_pop [OF t]]) auto
  next
    case (2 items)
    show ?case by (rule triple_bind [OF triple_this_moment], rule triple_weaken [OF triple_poll_items]) auto
  qed
qed

subsection \<open>Publishing\<close>

text \<open>The index \<open>uk_event_acl_binding\<close>, and principals that are named.\<close>

definition bindings_ok :: "ef_db \<Rightarrow> bool" where
  "bindings_ok db \<longleftrightarrow> distinct (map (\<lambda>b. (ac_tenant b, ac_topic b, ac_principal b, ac_action b)) (bindings db)) \<and>
     (\<forall>b\<in>set (bindings db). ac_principal b \<noteq> [])"

lemma live_subscribers_filter: "live_subscribers now bs = map ac_principal [b \<leftarrow> bs. ac_action b = ''subscribe'' \<and> ac_status b = 1 \<and>
    \<not> (case ac_expires b of None \<Rightarrow> False | Some e \<Rightarrow> e < now)]"
  by (induction now bs rule: live_subscribers.induct) (auto split: option.splits)

lemma live_subscribers_distinct:
  assumes "bindings_ok db"
  shows "distinct (live_subscribers now (bindings_of t u db))" "[] \<notin> set (live_subscribers now (bindings_of t u db))"
proof -
  have d: "distinct (bindings db)" "inj_on (\<lambda>b. (ac_tenant b, ac_topic b, ac_principal b, ac_action b)) (set (bindings db))"
    using assms by (simp_all add: bindings_ok_def distinct_map)
  show "distinct (live_subscribers now (bindings_of t u db))" unfolding live_subscribers_filter bindings_of_def distinct_map
    using d by (auto simp: inj_on_def)
  show "[] \<notin> set (live_subscribers now (bindings_of t u db))"
    using assms by (auto simp: live_subscribers_filter bindings_of_def bindings_ok_def)
qed

text \<open>An event id that no envelope has and the generator will not draw.\<close>

definition usable :: "string \<Rightarrow> ef_world \<Rightarrow> bool" where
  "usable ev w \<longleftrightarrow> ev \<notin> snd ` envelope_ids (e_db w) \<and> (\<forall>k\<ge>e_calls w. ev \<noteq> e_uuid (e_moments (e_env w) k))"

definition ready_for :: "string \<Rightarrow> ef_world \<Rightarrow> bool" where
  "ready_for ev w \<longleftrightarrow> bindings_ok (e_db w) \<and> usable ev w"

lemma lasting_bindings: "lasting (\<lambda>w. bindings_ok (e_db w))"
  by (simp add: lasting_def adds_def added_def bindings_ok_def)

lemma lasting_ready: "lasting (ready_for ev)"
  by (auto simp: lasting_def ready_for_def adds_def added_def bindings_ok_def usable_def)

lemma triple_upsert_envelope:
  assumes "en_uuid e = nil_uuid"
  shows "triple (\<lambda>w. promise E P F K w \<and> ready_for (en_event e) w) (upsert_by_event_id e) (\<lambda>r w. \<exists>x. r = Inr x \<and> (\<exists>u. x = (Some (e\<lparr>en_uuid := u\<rparr>), False) \<and>
     promise E P F K w \<and> bindings_ok (e_db w) \<and> (u, en_event e) \<in> envelope_ids (e_db w) \<and> (\<forall>a\<in>set (attempts (e_db w)). at_event a \<noteq> en_event e)))"
  unfolding upsert_by_event_id_def
proof (rule triple_attempt [OF triple_call_when])
  fix w r db' assume p: "promise E P F K w" "ready_for (en_event e) w" "insert_envelope (e_uuid (e_moments (e_env w) (e_calls w))) e (e_db w) = (r, db')"
  note D = promiseD [OF p(1)]
  define u where "u = e_uuid (e_moments E (e_calls w))"
  have new: "en_event e \<notin> en_event ` set (envelopes (e_db w))" "bindings_ok (e_db w)" "\<And>k. e_calls w \<le> k \<Longrightarrow> en_event e \<noteq> e_uuid (e_moments E k)"
    using p(2) D(5) by (simp_all add: ready_for_def usable_def envelope_events)
  then have none: "\<not> list_ex (\<lambda>r. en_event r = en_event e) (envelopes (e_db w))"
      "\<not> list_ex (\<lambda>r. en_tenant r = en_tenant e \<and> en_event r = en_event e) (envelopes (e_db w))"
    unfolding list_ex_iff using new(1) by (metis imageI)+
  have db': "r = Inr (e\<lparr>en_uuid := u\<rparr>, 1)" "db' = (e_db w)\<lparr>envelopes := envelopes (e_db w) @ [e\<lparr>en_uuid := u\<rparr>]\<rparr>"
    using p(3) assms none unfolding insert_envelope_def u_def D(5) by (simp_all add: Let_def)
  have row: "row_ok E (e_db w) a \<Longrightarrow> row_ok E db' a" for a by (auto simp: row_ok_def db'(2))
  have rows: "rows_ok E (Suc (e_calls w)) db'"
    using D(2) row new(3) by (auto simp: rows_ok_def fresh_uuids_def db'(2) dest: Suc_leD) (metis Suc_leD)
  have "keeps P F db'" using D(3) by (simp add: keeps_def waits_def accounted_def db'(2))
  moreover have "at_event a \<noteq> en_event e" if "a \<in> set (attempts (e_db w))" for a
    using D(2) that new(1) unfolding rows_ok_def row_ok_def by (metis imageI)
  ultimately show "\<exists>u. r = Inr (e\<lparr>en_uuid := u\<rparr>, 1) \<and> promise E P F K (w\<lparr>e_db := db', e_calls := Suc (e_calls w)\<rparr>) \<and>
      bindings_ok (e_db (w\<lparr>e_db := db', e_calls := Suc (e_calls w)\<rparr>)) \<and>
      (u, en_event e) \<in> envelope_ids (e_db (w\<lparr>e_db := db', e_calls := Suc (e_calls w)\<rparr>)) \<and>
      (\<forall>a\<in>set (attempts (e_db (w\<lparr>e_db := db', e_calls := Suc (e_calls w)\<rparr>))). at_event a \<noteq> en_event e)"
    using rows D(4,5) new(2) db' by (intro exI [of _ u]) (auto simp: promise_def known_def bindings_ok_def envelope_ids_def)
qed (auto simp: triple_def split: prod.splits)

lemma triple_publish_to:
  assumes "tenant \<noteq> []" "distinct subs" "[] \<notin> set subs"
  shows "triple (\<lambda>w. promise E {} {} {} w \<and> (\<forall>s\<in>set subs. new_attempt (first_attempt tenant e s) w)) (publish_to tenant e ack subs)
    (\<lambda>r. promise E {} {} {})"
  using assms(2,3)
proof (induction subs)
  case (Cons s subs)
  let ?a = "first_attempt tenant e s"
  let ?C = "\<lambda>w. \<forall>s\<in>set subs. new_attempt (first_attempt tenant e s) w"
  have a: "at_uuid ?a = nil_uuid" "at_status ?a = ''pending''" "at_tenant ?a \<noteq> []" "at_subscriber ?a \<noteq> []"
    using assms(1) Cons.prems by (auto simp: first_attempt_def)
  have last: "lasting ?C" using lasting_new by (simp add: lasting_def)
  have stored: "triple (\<lambda>w. (promise E {} {} {} w \<and> new_attempt ?a w) \<and> ?C w) (upsert_attempt ?a) (\<lambda>r w. (\<exists>x. r = Inr x \<and>
    (\<exists>u. x = Some (?a\<lparr>at_uuid := u\<rparr>) \<and> promise E {u} {} {?a\<lparr>at_uuid := u\<rparr>} w)) \<and> ?C w)"
  proof (rule triple_does [OF _ adds_upsert_attempt [where S = "{attempt_key ?a}" and T = "{}"]], rule triple_weaken [OF triple_upsert_attempt [OF a]])
    fix w w' assume w: "promise E {} {} {} w \<and> new_attempt ?a w" "adds {attempt_key ?a} {} w w'" "?C w"
    show "?C w'"
    proof
      fix q assume q: "q \<in> set subs"
      then have "attempt_key (first_attempt tenant e q) \<notin> {attempt_key ?a}"
        using Cons.prems(1) by (auto simp: attempt_key_def first_attempt_def)
      then show "new_attempt (first_attempt tenant e q) w'"
        using new_attempt_stable w q by blast
    qed
  qed auto
  show ?case unfolding publish_to.simps
  proof (rule triple_weaken [OF triple_attempt [OF stored]])
    fix x
    have sched: "triple (promise E {u} {} {?a\<lparr>at_uuid := u\<rparr>}) (schedule \<lparr>so_tenant = tenant, so_subscriber = s, so_event = en_event e, so_envelope = en_uuid e,
        so_attempt = n, so_base = 0, so_metadata = [(''attempt_uuid'', u), (''ack_timeout_sec'', itoa ack)]\<rparr>) (\<lambda>r w. \<exists>x. r = Inr x \<and> promise E {} {} {} w)" for u n
    proof (rule triple_weaken [OF triple_schedule [where u = u]])
      show "\<And>r w. \<exists>x. r = Inr x \<and> promise E ({u} - {u}) {} {?a\<lparr>at_uuid := u\<rparr>} w \<Longrightarrow> \<exists>x. r = Inr x \<and> promise E {} {} {} w"
        by (auto intro: promise_mono)
    qed (use assms(1) in \<open>auto simp: first_attempt_def\<close>)
    have rest: "triple (\<lambda>w. promise E {u} {} {?a\<lparr>at_uuid := u\<rparr>} w \<and> ?C w) (attempt (schedule \<lparr>so_tenant = tenant, so_subscriber = s, so_event = en_event e, so_envelope = en_uuid e,
        so_attempt = n, so_base = 0, so_metadata = [(''attempt_uuid'', u), (''ack_timeout_sec'', itoa ack)]\<rparr>) (\<lambda>_. publish_to tenant e ack subs)) (\<lambda>r. promise E {} {} {})" for u n
      by (rule lasting_then [OF last sched adds_schedule Cons.IH]) (use Cons.prems in auto)
    show "triple (\<lambda>w. (\<exists>y. Inr x = Inr y \<and> (\<exists>u. y = Some (?a\<lparr>at_uuid := u\<rparr>) \<and> promise E {u} {} {?a\<lparr>at_uuid := u\<rparr>} w)) \<and> ?C w)
       (case x of None \<Rightarrow> raise nil_attempt
       | Some a \<Rightarrow> attempt (schedule \<lparr>so_tenant = tenant, so_subscriber = s, so_event = en_event e, so_envelope = en_uuid e,
          so_attempt = at_no a, so_base = 0, so_metadata = [(''attempt_uuid'', at_uuid a), (''ack_timeout_sec'', itoa ack)]\<rparr>)
         (\<lambda>_. publish_to tenant e ack subs)) (\<lambda>r. promise E {} {} {})"
    proof (rule triple_fact [where b = "\<exists>u. x = Some (?a\<lparr>at_uuid := u\<rparr>)"], blast, elim exE, goal_cases)
      case (1 u)
      have u: "at_uuid (?a\<lparr>at_uuid := u\<rparr>) = u" by simp
      show ?case unfolding 1(1) option.case u
        by (rule triple_weaken [OF rest [of u]]) (auto simp: first_attempt_def)
    qed
  qed auto
qed simp

lemma adds_collect: "does (adds S T) (collect_subscribers tenant topic)"
  unfolding collect_subscribers_def by (intro adds.logic adds_read adds_settings adds_this_moment)

lemma triple_collect:
  "triple (\<lambda>w. promise E P F K w \<and> bindings_ok (e_db w)) (collect_subscribers tenant topic)
     (\<lambda>r w. \<exists>x. r = Inr x \<and> (distinct x \<and> [] \<notin> set x \<and> promise E P F K w))"
  unfolding collect_subscribers_def
proof (rule lasting_bind [OF lasting_bindings _ adds_settings], rule triple_weaken [OF triple_settings], assumption, erule conjunct2, rule triple_if, goal_cases)
  case (2 env)
  have read: "triple (\<lambda>w. promise E P F K w \<and> bindings_ok (e_db w)) (ef_read (bindings_of tenant topic))
      (\<lambda>r w. \<exists>rows. r = Inr rows \<and> ((\<exists>db. bindings_ok db \<and> rows = bindings_of tenant topic db) \<and> promise E P F K w))"
    unfolding ef_read_def by (rule triple_call_when) (auto simp: promise_def intro: rows_ok_later)
  show ?case
    by (rule triple_then [OF read], rule triple_pre, rule triple_bind [OF triple_this_moment]) (auto simp: live_subscribers_distinct)
qed simp

lemma triple_publish_envelope:
  assumes "tenant \<noteq> []"
  shows "triple (\<lambda>w. promise E {} {} {} w \<and> ready_for event w) (publish_envelope req tenant acl_tenant event t) (\<lambda>r. promise E {} {} {})"
  unfolding publish_envelope_def Let_def
proof (rule lasting_bind [OF lasting_ready _ adds_settings], rule triple_weaken [OF triple_settings], assumption, erule conjunct2,
    rule lasting_bind [OF lasting_ready triple_this_moment adds_this_moment], goal_cases)
  case (1 env m)
  let ?e = "envelope_for req tenant event t env (e_now m)"
  have e: "en_uuid ?e = nil_uuid" "en_event ?e = event" by (simp_all add: envelope_for_def Let_def)
  let ?C = "\<lambda>u w. (u, event) \<in> envelope_ids (e_db w) \<and> (\<forall>a\<in>set (attempts (e_db w)). at_event a \<noteq> event)"
  have new: "new_attempt (first_attempt tenant (?e\<lparr>en_uuid := u\<rparr>) s) w" if "?C u w" for u s w
    using that e by (auto simp: new_attempt_iff first_attempt_def attempt_keys_def attempt_key_def)
  have last: "lasting (\<lambda>w. \<forall>s\<in>X. new_attempt (first_attempt tenant e s) w)" for e X using lasting_new by (simp add: lasting_def)
  have subs: "triple (\<lambda>w. (promise E {} {} {} w \<and> bindings_ok (e_db w)) \<and> (\<forall>s. new_attempt (first_attempt tenant (?e\<lparr>en_uuid := u\<rparr>) s) w))
      (attempt (collect_subscribers acl_tenant (tp_uuid t)) (\<lambda>subs. publish_to tenant (?e\<lparr>en_uuid := u\<rparr>) ack subs)) (\<lambda>r. promise E {} {} {})" for u ack
  proof (rule triple_then [where M = "\<lambda>x w. (distinct x \<and> [] \<notin> set x) \<and> (promise E {} {} {} w \<and> (\<forall>s\<in>set x. new_attempt (first_attempt tenant (?e\<lparr>en_uuid := u\<rparr>) s) w))"], goal_cases)
    case 1
    show ?case
      by (rule triple_weaken [OF triple_does [OF triple_collect adds_collect [of "{}" "{}"], where C = "\<lambda>w. \<forall>s. new_attempt (first_attempt tenant (?e\<lparr>en_uuid := u\<rparr>) s) w"]])
        (auto intro: new_attempt_stable)
  next
    case (2 x)
    show ?case by (rule triple_pre, rule triple_publish_to [OF assms]) simp_all
  qed
  show ?case
  proof (rule triple_weaken [OF triple_then [OF triple_upsert_envelope [OF e(1)]]])
    fix x
    show "triple (\<lambda>w. \<exists>u. x = (Some (?e\<lparr>en_uuid := u\<rparr>), False) \<and> promise E {} {} {} w \<and> bindings_ok (e_db w) \<and>
        (u, en_event ?e) \<in> envelope_ids (e_db w) \<and> (\<forall>a\<in>set (attempts (e_db w)). at_event a \<noteq> en_event ?e))
      (case x of (stored, existed) \<Rightarrow> if existed then returns () else
       case stored of None \<Rightarrow> raise nil_attempt
       | Some e' \<Rightarrow> attempt (collect_subscribers acl_tenant (tp_uuid t)) (\<lambda>subs. publish_to tenant e' (en_ack_timeout ?e) subs)) (\<lambda>r. promise E {} {} {})"
    proof (rule triple_fact [where b = "\<exists>u. x = (Some (?e\<lparr>en_uuid := u\<rparr>), False)"], blast, elim exE, goal_cases)
      case (1 u)
      show ?case unfolding 1(1) prod.case option.case if_False
      proof (rule triple_weaken [OF subs [of u]], goal_cases)
        case (1 w)
        then show ?case using e(2) by (auto intro: new)
      qed assumption
    qed
  qed (use e in auto)
qed

lemma adds_may_publish: "does (adds S T) (may_publish tenant t who)"
  unfolding may_publish_def by (intro adds.logic adds_read adds_settings adds_this_moment)

lemma triple_may_publish: "triple (promise E P F K) (may_publish tenant t who) (\<lambda>r. promise E P F K)"
  unfolding may_publish_def
proof (rule triple_bind [OF triple_settings], rule triple_pre, rule triple_if, goal_cases)
  case (2 env)
  show ?case by (rule triple_bind [OF triple_this_moment], rule triple_then [OF triple_count], rule triple_require) simp_all
qed simp

lemma triple_event_id:
  "triple (\<lambda>w. promise E P F K w \<and> (bindings_ok (e_db w) \<and> (b \<or> usable ev w))) this_moment
     (\<lambda>m w. promise E P F K w \<and> ready_for (if b then e_uuid m else ev) w)"
  unfolding triple_def
proof (intro allI impI)
  fix w assume w: "promise E P F K w \<and> (bindings_ok (e_db w) \<and> (b \<or> usable ev w))"
  then have p: "promise E P F K w" by simp
  note D = promiseD [OF p]
  have "usable (e_uuid (e_moments (e_env w) (e_calls w))) (w\<lparr>e_calls := Suc (e_calls w)\<rparr>)"
    using D(1,2) by (auto simp: usable_def envelope_events [symmetric] D(5) rows_ok_def fresh_uuids_def runs_alone_def dest: injD)
  moreover have "usable ev w \<Longrightarrow> usable ev (w\<lparr>e_calls := Suc (e_calls w)\<rparr>)" by (simp add: usable_def)
  ultimately show "case run_state this_moment w of (m, w) \<Rightarrow> promise E P F K w \<and> ready_for (if b then e_uuid m else ev) w"
    using w rows_ok_later [OF D(2)] by (auto simp: promise_def ready_for_def this_moment_def)
qed

lemma triple_result:
  "(\<And>x. r = Inr x \<Longrightarrow> triple A (f x) B) \<Longrightarrow> (\<And>e w. A w \<Longrightarrow> B (Inl e) w) \<Longrightarrow> triple A (attempt (State_Monad.return r) f) B"
  by (cases r) simp_all

lemma triple_publish:
  "triple (\<lambda>w. promise E {} {} {} w \<and> (bindings_ok (e_db w) \<and> (blank (pr_event req) \<or> usable (trim_space (pr_event req)) w)))
    (publish_event req) (\<lambda>r. promise E {} {} {})"
  unfolding publish_event_def
proof (rule triple_result, goal_cases)
  case (1 tenant)
  then have tenant: "tenant \<noteq> []" by (auto simp: resolve_tenant_key_def split: if_splits)
  have last: "lasting (\<lambda>w. bindings_ok (e_db w) \<and> (blank (pr_event req) \<or> usable (trim_space (pr_event req)) w))"
    using lasting_bindings lasting_ready by (auto simp: lasting_def ready_for_def)
  show ?case
  proof (rule triple_require, rule lasting_bind [OF last _ adds_settings], rule triple_weaken [OF triple_settings], assumption, erule conjunct2,
      rule triple_bind [OF triple_event_id], goal_cases)
    case (1 env m)
    let ?ev = "if blank (pr_event req) then e_uuid m else trim_space (pr_event req)"
    show ?case unfolding Let_def
    proof (rule triple_result, rule triple_result, clarify, rule triple_require,
        rule lasting_then [OF lasting_ready triple_count adds_read], rule triple_result,
        rule triple_attempt [OF lasting_triple [OF lasting_ready triple_may_publish adds_may_publish]], goal_cases)
      case 1
      show ?case by (rule triple_publish_envelope [OF tenant])
    qed auto
  qed auto
qed simp

subsection \<open>Every run of the service\<close>

definition same_bindings :: "ef_world \<Rightarrow> ef_world \<Rightarrow> bool" where
  "same_bindings w w' \<longleftrightarrow> runs_alone (e_env w) \<longrightarrow> e_env w' = e_env w \<and> bindings (e_db w') = bindings (e_db w)"

interpretation same_bindings: call_logic same_bindings
  by unfold_locales (auto simp: same_bindings_def)

lemma same_bindings_call:
  assumes "\<And>m db. bindings (snd (f m db)) = bindings db"
  shows "does same_bindings (ef_call f)"
proof (rule doesI)
  fix w x w' assume run: "run_state (ef_call f) w = (x, w')"
  obtain r db' where f: "f (e_moments (e_env w) (e_calls w)) (e_db w) = (r, db')" by fastforce
  have "bindings db' = bindings (e_db w)" using assms [of "e_moments (e_env w) (e_calls w)" "e_db w"] f by simp
  then show "same_bindings w w'" using run f by (auto simp: same_bindings_def runs_alone_def ef_call_def Let_def)
qed

lemma same_bindings_plain: "does same_bindings settings" "does same_bindings this_moment"
  by (simp_all add: does_def same_bindings_def settings_def this_moment_def)

lemma same_bindings_calls:
  "does same_bindings (ef_read g)" "does same_bindings (update_attempt u f)" "does same_bindings (update_envelope u f')"
  "does same_bindings (create_dead_letter d)" "does same_bindings (key_command k h)"
  "does same_bindings (ef_call (\<lambda>m. insert_envelope (fresh m) e))" "does same_bindings (ef_call (\<lambda>m. insert_attempt (fresh m) a))"
  "does same_bindings (ef_call (\<lambda>m db. (Inr (), retries_changed t q db)))"
  unfolding ef_read_def update_attempt_def update_envelope_def create_dead_letter_def key_command_def
  by (rule same_bindings_call, auto simp: insert_envelope_def insert_attempt_def retries_changed_def Let_def split: prod.splits)+

lemmas same_bindings_rules = same_bindings.logic same_bindings_plain same_bindings_calls

lemma same_bindings_leases: "does same_bindings (acquire_lease l)" "does same_bindings (release_lease l)"
  unfolding acquire_lease_def release_lease_def redis_set_nx_def redis_expire_def redis_add_def redis_del_def
  by (intro same_bindings_rules)+

lemma same_bindings_queue: "does same_bindings (schedule opts)" "does same_bindings (pop_due_retries t now limit)"
  unfolding schedule_def schedule_retry_item_def pop_due_retries_def
  by (intro same_bindings_rules)+

lemma same_bindings_upserts: "does same_bindings (upsert_attempt a)" "does same_bindings (upsert_by_event_id e)"
  unfolding upsert_attempt_def upsert_by_event_id_def by (intro same_bindings_rules)+

lemma same_bindings_publish: "does same_bindings (publish_event req)"
proof -
  have "does same_bindings (publish_to tenant e ack subs)" for tenant e ack subs
    by (induction subs) (auto intro!: same_bindings_rules same_bindings_queue same_bindings_upserts simp: )
  then show ?thesis
    unfolding publish_event_def publish_envelope_def may_publish_def collect_subscribers_def
    by (intro same_bindings_rules same_bindings_upserts)
qed

lemma same_bindings_ack: "does same_bindings (ack_delivery d sub)"
  unfolding ack_delivery_def addressed_def by (intro same_bindings_rules same_bindings_leases)

lemma same_bindings_nack: "does same_bindings (nack_delivery d sub why)"
  unfolding nack_delivery_def addressed_def give_up_def try_again_def push_to_dlq_def
  by (intro same_bindings_rules same_bindings_leases same_bindings_upserts same_bindings_queue)

lemma same_bindings_poll: "does same_bindings (poll_retry c limit)"
proof -
  have "does same_bindings (poll_item c now i acc)" for now i acc
    unfolding poll_item_def find_polled_def reschedule_attempt_def hand_out_def put_back_def handle_version_incompatible_def
      ignoring_def push_to_dlq_def
    by (intro same_bindings_rules same_bindings_leases same_bindings_queue)
  then have "does same_bindings (poll_items c now items acc)" for now items acc
    by (induction items arbitrary: acc) (auto intro!: same_bindings_rules)
  then show ?thesis unfolding poll_retry_def by (intro same_bindings_rules same_bindings_queue)
qed

text \<open>
  A service that starts without events and handles one request after another. An event id is
  published once, and an attempt is refused once.
\<close>

definition ef_start :: "ef_world \<Rightarrow> bool" where
  "ef_start w \<longleftrightarrow> runs_alone (e_env w) \<and> bindings_ok (e_db w) \<and> envelopes (e_db w) = [] \<and> attempts (e_db w) = []"

inductive ef_reachable :: "ef_world \<Rightarrow> bool" where
  started: "ef_start w \<Longrightarrow> ef_reachable w"
| published: "ef_reachable w \<Longrightarrow> blank (pr_event req) \<or> usable (trim_space (pr_event req)) w \<Longrightarrow>
    run_state (publish_event req) w = (p, w') \<Longrightarrow> ef_reachable w'"
| acknowledged: "ef_reachable w \<Longrightarrow> run_state (ack_delivery d sub) w = (r, w') \<Longrightarrow> ef_reachable w'"
| refused: "ef_reachable w \<Longrightarrow> first_refusal d w \<Longrightarrow> run_state (nack_delivery d sub why) w = (q, w') \<Longrightarrow> ef_reachable w'"
| polled: "ef_reachable w \<Longrightarrow> run_state (poll_retry c limit) w = (ds, w') \<Longrightarrow> ef_reachable w'"

lemma promise_after:
  assumes "promise E {} {} {} w \<and> bindings_ok (e_db w)" "run_state m w = (r, w')" "does same_bindings m"
    "triple (\<lambda>w. promise E {} {} {} w \<and> C w) m (\<lambda>r. promise E {} {} {})" "C w"
  shows "promise E {} {} {} w' \<and> bindings_ok (e_db w')"
  using doesD [OF assms(3,2)] tripleD [OF assms(4) _ assms(2)] assms(1,5) promiseD(1) [of E "{}" "{}" "{}" w] promiseD(5) [of E "{}" "{}" "{}" w]
  by (auto simp: same_bindings_def bindings_ok_def)

lemma reachable_promise: "ef_reachable w \<Longrightarrow> \<exists>E. promise E {} {} {} w \<and> bindings_ok (e_db w)"
proof (induction rule: ef_reachable.induct)
  case (started w)
  then have "promise (e_env w) {} {} {} w" by (simp add: promise_def ef_start_def rows_ok_def fresh_uuids_def keeps_def)
  then show ?case using started by (auto simp: ef_start_def)
next
  case (published w req p w')
  then obtain E where "promise E {} {} {} w \<and> bindings_ok (e_db w)" by blast
  note p = this
  from promise_after [OF p published(3) same_bindings_publish triple_publish] show ?case using p published(2) by blast
next
  case (acknowledged w d sub r w')
  then obtain E where "promise E {} {} {} w \<and> bindings_ok (e_db w)" by blast
  from promise_after [OF this acknowledged(2) same_bindings_ack, of "\<lambda>_. True"] show ?case by (auto simp: triple_ack)
next
  case (refused w d sub why q w')
  then obtain E where "promise E {} {} {} w \<and> bindings_ok (e_db w)" by blast
  note p = this
  from promise_after [OF p refused(3) same_bindings_nack triple_nack] show ?case using refused(2) by blast
next
  case (polled w c limit ds w')
  then obtain E where "promise E {} {} {} w \<and> bindings_ok (e_db w)" by blast
  from promise_after [OF this polled(2) same_bindings_poll, of "\<lambda>_. True"] show ?case by (auto simp: triple_poll)
qed

text \<open>C24: no delivery is forgotten by a service that runs by itself, without other clients and failing calls and with
  dead letters enabled: after any sequence of published events, acknowledgements, refusals and polls,
  in which an event id is published once and an attempt is refused once, every attempt that is pending
  has an item in its tenant's retry queue that names it, every attempt that failed is followed by the next
  one or its event is among the dead letters, and every attempt's envelope is stored.
\<close>

theorem no_delivery_forgotten:
  assumes "ef_reachable w" "a \<in> set (attempts (e_db w))"
  shows "(at_status a = ''pending'' \<longrightarrow> waits a (e_db w)) \<and> (at_status a = ''failed'' \<longrightarrow> accounted a (e_db w)) \<and>
    (\<exists>e\<in>set (envelopes (e_db w)). en_uuid e = at_envelope a \<and> en_event e = at_event a)"
proof -
  obtain E where p: "promise E {} {} {} w" using reachable_promise [OF assms(1)] by blast
  show ?thesis using promiseD(2,3) [OF p] assms(2) by (auto simp: keeps_def rows_ok_def row_ok_def)
qed

end
