(* ===== verification/EventOutcomes.thy ===== *)
theory EventOutcomes imports EventSafety begin

section \<open>What becomes of a refusal\<close>

text \<open>
  What a refusal answers and leaves behind, with the delays of retries, and what becomes of an
  attempt that is refused a second time, which the runs of \<open>EventSafety\<close> exclude.
\<close>

subsection \<open>Running by itself\<close>

lemma run_call: "runs_alone (e_env w) \<Longrightarrow> run_state (ef_call f) w =
    (let (r, db') = f (e_moments (e_env w) (e_calls w)) (e_db w) in (r, w\<lparr>e_db := db', e_calls := Suc (e_calls w)\<rparr>))"
  by (simp add: ef_call_def runs_alone_def Let_def split: prod.splits)

lemma run_ef_read: "runs_alone (e_env w) \<Longrightarrow> run_state (ef_read f) w = (Inr (f (e_db w)), w\<lparr>e_calls := Suc (e_calls w)\<rparr>)"
  by (simp add: ef_read_def run_call)

lemma run_settings: "run_state settings w = (e_env w, w)"
  by (simp add: settings_def)

lemma run_this_moment: "run_state this_moment w = (e_moments (e_env w) (e_calls w), w\<lparr>e_calls := Suc (e_calls w)\<rparr>)"
  by (simp add: this_moment_def)

lemma run_attempt: "run_state (attempt m f) w = (case run_state m w of (Inl e, w') \<Rightarrow> (Inl e, w') | (Inr x, w') \<Rightarrow> run_state (f x) w')"
  by (simp add: attempt_def run_state_bind split: prod.splits sum.splits)

lemmas alone_runs = run_call run_ef_read run_settings run_this_moment run_attempt run_state_bind

text \<open>Leases concern their own keys only.\<close>

definition leases_only :: "ef_world \<Rightarrow> ef_world \<Rightarrow> bool" where
  "leases_only w w' \<longleftrightarrow> runs_alone (e_env w) \<longrightarrow> e_env w' = e_env w \<and> (\<exists>ks. e_db w' = (e_db w)\<lparr>lease_keys := ks\<rparr>) \<and> e_calls w \<le> e_calls w'"

interpretation leases_only: call_logic leases_only
proof
  show "leases_only w w" for w by (auto simp: leases_only_def intro: exI [of _ "lease_keys (e_db w)"])
  show "leases_only u v \<Longrightarrow> leases_only v w \<Longrightarrow> leases_only u w" for u v w by (auto simp: leases_only_def)
qed

lemma leases_only_key: "does leases_only (key_command k f)"
  unfolding key_command_def by (rule doesI) (auto simp: leases_only_def ef_call_def Let_def runs_alone_def split: prod.splits)

lemma leases_only_release: "does leases_only (release_lease l)"
  unfolding release_lease_def redis_del_def redis_add_def redis_expire_def Let_def
  by (intro leases_only.logic leases_only_key)

lemma run_release:
  assumes "runs_alone (e_env w)" "run_state (release_lease l) w = (r, w')"
  shows "\<exists>ks. \<exists>n\<ge>e_calls w. w' = w\<lparr>e_db := (e_db w)\<lparr>lease_keys := ks\<rparr>, e_calls := n\<rparr>"
proof -
  obtain ks where ks: "e_env w' = e_env w" "e_db w' = (e_db w)\<lparr>lease_keys := ks\<rparr>" "e_calls w \<le> e_calls w'"
    using doesD [OF leases_only_release assms(2)] assms(1) by (auto simp: leases_only_def)
  then show ?thesis by (intro exI [of _ ks] exI [of _ "e_calls w'"]) simp
qed

subsection \<open>The delay of a retry\<close>

lemma schedule_run:
  assumes "runs_alone (e_env w)" "so_tenant opts \<noteq> []"
  defines "att \<equiv> max 1 (so_attempt opts)" and "n \<equiv> e_calls w"
  defines "m \<equiv> e_moments (e_env w) n"
  defines "d \<equiv> backoff_delay (e_out_of_range (e_env w)) att (so_base opts)"
  shows "\<exists>item due. run_state (schedule opts) w = (Inr item, w\<lparr>e_db := retries_changed (so_tenant opts) (AList.update due (unix_milli (ri_execute_at due))) (e_db w),
      e_calls := n + 3\<rparr>) \<and> ri_attempt item = att \<and> ri_backoff item = d + random_jitter (e_random m) (d div 4) \<and>
      ri_execute_at item = e_now m + ri_backoff item \<and> ri_metadata due = so_metadata opts"
proof -
  define item where "item = \<lparr>ri_event = so_event opts, ri_envelope = so_envelope opts, ri_subscriber = so_subscriber opts,
     ri_tenant = so_tenant opts, ri_attempt = att, ri_execute_at = e_now m + (d + random_jitter (e_random m) (d div 4)),
     ri_backoff = d + random_jitter (e_random m) (d div 4), ri_metadata = so_metadata opts\<rparr>"
  define due where "due = (if is_zero (ri_execute_at item) then item\<lparr>ri_execute_at := e_now (e_moments (e_env w) (Suc n))\<rparr> else item)"
  have a: "(if so_attempt opts \<le> 0 then 1 else so_attempt opts) = att" by (simp add: att_def)
  have "run_state (schedule opts) w = (Inr item, w\<lparr>e_db := retries_changed (ri_tenant due) (AList.update due (unix_milli (ri_execute_at due))) (e_db w),
      e_calls := n + 3\<rparr>)"
    unfolding schedule_def a
    using assms(1,2) by (simp add: schedule_retry_item_def require_def alone_runs Let_def numeral_3_eq_3 n_def m_def d_def item_def due_def)
  moreover have "ri_tenant due = so_tenant opts" "ri_metadata due = so_metadata opts" by (simp_all add: due_def item_def)
  ultimately show ?thesis by (intro exI [of _ item] exI [of _ due]) (simp add: item_def)
qed

lemma random_jitter_bounds: "0 \<le> b \<Longrightarrow> 0 \<le> random_jitter r b \<and> random_jitter r b \<le> b \<and> (0 < b \<longrightarrow> random_jitter r b < b)"
  by (auto simp: random_jitter_def intro: less_imp_le)

lemma backoff_delay_exact:
  assumes "1 \<le> att" "att \<le> 29" "base \<le> default_max_delay"
  shows "backoff_delay out att base = (if att = 1 \<and> base = 0 then 0
    else min ((if base \<le> 0 then default_base_delay else base) * 2 ^ nat (att - 1)) default_max_delay)"
proof -
  let ?b = "if base \<le> 0 then default_base_delay else base"
  have b: "0 < ?b" "?b \<le> 30000000000"
    using assms(3) by (auto simp: default_base_delay_def default_max_delay_def millisecond_ns_def second_ns_def)
  have "(2 :: int) ^ nat (att - 1) \<le> 2 ^ 28" using assms(2) by (intro power_increasing) auto
  then have "?b * 2 ^ nat (att - 1) \<le> 30000000000 * 2 ^ 28" using b by (intro mult_mono) auto
  moreover have "0 \<le> ?b * 2 ^ nat (att - 1)" using b by simp
  ultimately have "to_duration out (?b * 2 ^ nat (att - 1)) = ?b * 2 ^ nat (att - 1)"
    unfolding to_duration_def min_int64_def max_int64_def by simp
  then show ?thesis by (simp add: backoff_delay_def Let_def min_def)
qed

subsection \<open>The outcome of a refusal\<close>

text \<open>What a refusal finds: the attempt, its envelope, and the subscriber it was sent to.\<close>

definition found_by :: "string \<Rightarrow> string \<Rightarrow> delivery_attempt \<Rightarrow> event_envelope \<Rightarrow> ef_world \<Rightarrow> bool" where
  "found_by d sub a e w \<longleftrightarrow> e_parse_uuid (e_env w) d = Some (at_uuid a) \<and> a \<in> set (attempts (e_db w)) \<and>
     find_envelope (at_envelope a) (e_db w) = Some e \<and> (sub = [] \<or> equal_fold sub (at_subscriber a))"

lemma find_own_attempt: "rows_ok E n db \<Longrightarrow> a \<in> set (attempts db) \<Longrightarrow> find_attempt (at_uuid a) db = Some a"
  by (cases "find_attempt (at_uuid a) db")
    (auto simp: find_attempt_def find_None_iff find_Some_iff rows_ok_def distinct_map dest: inj_onD)

lemma addressed_run:
  assumes "promise E P F K w" "found_by d sub a e w"
  shows "run_state (addressed d sub) w = (Inr (a, e), w\<lparr>e_calls := e_calls w + 2\<rparr>)"
proof -
  have "runs_alone (e_env w)" using promiseD(1,5) [OF assms(1)] by simp
  then show ?thesis using assms(2) find_own_attempt [OF promiseD(2) [OF assms(1)], of a]
    by (simp add: addressed_def found_by_def alone_runs require_def)
qed

definition after_refusal :: "delivery_attempt \<Rightarrow> string \<Rightarrow> instant \<Rightarrow> (string \<Rightarrow> (int \<times> instant option) option) \<Rightarrow> nat \<Rightarrow> ef_world \<Rightarrow> ef_world" where
  "after_refusal a why now ks n w = w\<lparr>e_db := (e_db w)\<lparr>attempts :=
     map (\<lambda>r. if at_uuid r = at_uuid a then refused_by now ''nack'' why r else r) (attempts (e_db w)), lease_keys := ks\<rparr>, e_calls := n\<rparr>"

lemma nack_run:
  assumes "promise E P F K w" "found_by d sub a e w"
  shows "\<exists>now ks. \<exists>n\<ge>e_calls w. run_state (nack_delivery d sub why) w =
    run_state (if attempt_limit E e < at_no a + 1 then give_up a e why else try_again a e (attempt_limit E e) why) (after_refusal a why now ks n w)"
proof -
  have E: "runs_alone (e_env w)" "e_env w = E" using promiseD(1,5) [OF assms(1)] by simp_all
  let ?now = "e_now (e_moments (e_env w) (e_calls w + 2))"
  let ?w = "w\<lparr>e_db := (e_db w)\<lparr>attempts := map (\<lambda>r. if at_uuid r = at_uuid a then refused_by ?now ''nack'' why r else r) (attempts (e_db w))\<rparr>,
      e_calls := e_calls w + 4\<rparr>"
  obtain r w' where rel: "run_state (release_lease (lease_of a e)) ?w = (r, w')" by fastforce
  moreover have "runs_alone (e_env ?w)" using E by simp
  ultimately obtain ks n where n: "e_calls ?w \<le> n" "w' = ?w\<lparr>e_db := (e_db ?w)\<lparr>lease_keys := ks\<rparr>, e_calls := n\<rparr>"
    using run_release by blast
  have "run_state (nack_delivery d sub why) w = run_state (if attempt_limit E e < at_no a + 1 then give_up a e why else try_again a e (attempt_limit E e) why) w'"
    unfolding nack_delivery_def run_attempt addressed_run [OF assms] prod.case sum.case
    using rel E by (simp add: alone_runs update_attempt_def numeral_eq_Suc cong: if_cong)
  moreover have "w' = after_refusal a why ?now ks n w" by (simp add: n(2) after_refusal_def)
  ultimately show ?thesis using n(1) by (intro exI [of _ ?now] exI [of _ ks] exI [of _ n]) simp
qed

lemma give_up_run:
  assumes "runs_alone (e_env w)"
  shows "\<exists>w'. run_state (give_up a e why) w = (Inl RetryExhausted, w') \<and>
    (\<exists>l\<in>set (dead_letters (e_db w')). \<exists>u. l = (letter_for e why)\<lparr>dl_uuid := u\<rparr>) \<and>
    envelopes (e_db w') = map (\<lambda>r. if en_uuid r = at_envelope a then r\<lparr>en_status := ''failed'', en_last_error := why\<rparr> else r) (envelopes (e_db w))"
proof -
  have "e_dlq (e_env w)" using assms by (simp add: runs_alone_def)
  then show ?thesis using assms
    by (auto simp: give_up_def push_to_dlq_def create_dead_letter_def update_envelope_def alone_runs intro: exI [of _ "dl_uuid (letter_for e why)"])
qed

lemma try_again_run:
  assumes w: "runs_alone (e_env w)" and t: "at_tenant a \<noteq> []"
  defines "d \<equiv> backoff_delay (e_out_of_range (e_env w)) (max 1 (at_no a + 1)) retry_base" and "u \<equiv> e_uuid (e_moments (e_env w) (e_calls w))"
  defines "rows \<equiv> attempts (snd (insert_attempt u (next_attempt_of a) (e_db w)))"
  shows "\<exists>p w' due s. run_state (try_again a e limit why) w = (Inr p, w') \<and> rp_max p = to_int32 limit \<and>
    rp_remaining p = to_int32 (max 0 (limit - at_no a)) \<and> (\<exists>x. rp_delay p = d + random_jitter x (d div 4)) \<and>
    attempts (e_db w') = rows \<and> named due = u \<and>
    retries (e_db w') = (retries (e_db w))(at_tenant a := AList.update due s (retries (e_db w) (at_tenant a)))"
proof -
  let ?b = "(next_attempt_of a)\<lparr>at_uuid := u\<rparr>"
  let ?o = "attempt_options a e (at_no a + 1) retry_base u"
  obtain db where ins: "insert_attempt u (next_attempt_of a) (e_db w) = (Inr (?b, 1), db)" "retries db = retries (e_db w)"
    by (cases "list_ex (same_attempt (next_attempt_of a)) (attempts (e_db w))")
      (auto simp: insert_attempt_def Let_def next_attempt_of_def nil_uuid_def)
  let ?w = "w\<lparr>e_db := db, e_calls := Suc (e_calls w)\<rparr>"
  have o: "so_tenant ?o = at_tenant a" "so_attempt ?o = at_no a + 1" "so_base ?o = retry_base" "map_of (so_metadata ?o) ''attempt_uuid'' = Some u"
    by (simp_all add: attempt_options_def)
  have "runs_alone (e_env ?w)" "so_tenant ?o \<noteq> []" using w t o by simp_all
  from schedule_run [OF this] obtain item due x where sched: "run_state (schedule ?o) ?w = (Inr item, ?w\<lparr>e_db := retries_changed (at_tenant a)
      (AList.update due (unix_milli (ri_execute_at due))) db, e_calls := Suc (e_calls w) + 3\<rparr>)"
      "ri_backoff item = d + random_jitter x (d div 4)" "ri_metadata due = so_metadata ?o"
    by (auto simp: o d_def)
  have up: "run_state (upsert_attempt (next_attempt_of a)) w = (Inr (Some ?b), ?w)"
    using w ins(1) by (simp add: upsert_attempt_def alone_runs u_def)
  have "named due = u" using sched(3) o(4) by (simp add: named_def attribute_def)
  moreover have "rows = attempts db" by (simp add: rows_def ins)
  ultimately show ?thesis
    using w sched(2) ins(2) unfolding try_again_def run_attempt up prod.case sum.case option.case
    by (auto simp: sched(1) update_envelope_def alone_runs retries_changed_def)
qed

lemma after_refusal_rows:
  "attempts (e_db (after_refusal a why now ks n w)) = map (\<lambda>r. if at_uuid r = at_uuid a then refused_by now ''nack'' why r else r) (attempts (e_db w))"
  "retries (e_db (after_refusal a why now ks n w)) = retries (e_db w)" "e_env (after_refusal a why now ks n w) = e_env w"
  "e_calls (after_refusal a why now ks n w) = n"
  by (simp_all add: after_refusal_def)

lemma after_refusal_keys: "attempt_key ` set (attempts (e_db (after_refusal a why now ks n w))) = attempt_key ` set (attempts (e_db w))"
proof -
  have f: "attempt_key (if C then refused_by now ''nack'' why r else r) = attempt_key r" for C r
    by (simp add: attempt_key_def refused_by_def)
  show ?thesis unfolding after_refusal_rows set_map image_image f ..
qed

lemma delays: "retry_base = 5 * second_ns" "default_max_delay = 30 * second_ns"
  by (simp_all add: retry_base_def default_ack_timeout_def default_max_delay_def second_ns_def)

lemma quarter: "j < k \<Longrightarrow> 4 * k \<le> d \<Longrightarrow> d \<le> m \<Longrightarrow> 4 * (d + j) < 5 * (m :: int)"
  by presburger

lemma retry_delay:
  fixes out :: "int \<Rightarrow> duration"
  assumes "0 \<le> no" "no < 29"
  defines "d \<equiv> backoff_delay out (max 1 (no + 1)) retry_base" and "doubled \<equiv> min (retry_base * 2 ^ nat no) default_max_delay"
  shows "doubled \<le> d + random_jitter x (d div 4) \<and> 4 * (d + random_jitter x (d div 4)) < 5 * doubled"
proof -
  have b: "0 < retry_base" "retry_base \<le> default_max_delay" "4 \<le> retry_base" "4 \<le> default_max_delay"
    by (simp_all add: retry_base_def default_ack_timeout_def default_max_delay_def second_ns_def)
  then have d: "d = doubled"
    using backoff_delay_exact [of "max 1 (no + 1)" retry_base out] assms(1,2) by (simp add: d_def doubled_def max_def)
  have "retry_base * 1 \<le> retry_base * 2 ^ nat no" using b(1) by (intro mult_left_mono) simp_all
  then have "4 \<le> retry_base * 2 ^ nat no" using b(3) by linarith
  then have "4 \<le> d" using b(4) by (simp add: d doubled_def)
  then have pos: "0 < d div 4" by simp
  then have j: "0 \<le> random_jitter x (d div 4)" "random_jitter x (d div 4) < d div 4"
    using random_jitter_bounds [of "d div 4" x] by simp_all
  have "4 * (d + random_jitter x (d div 4)) < 5 * d" by (rule quarter [OF j(2) _ order_refl]) simp
  then show ?thesis using j(1) by (simp add: d)
qed

text \<open>C25: refusing a delivery for the first time, below its 29th attempt and in a service that runs by itself, answers
  for it: while the limit allows another attempt, the answer is a plan with what remains of the limit and a delay of
  five seconds doubled with each attempt, at most 30 seconds, plus less than a quarter of that, and the next
  attempt is pending with an item in the queue; beyond the limit the answer is \<open>RetryExhausted\<close> and the event,
  with its payload and the reason, is a dead letter.
\<close>

theorem nack_outcome:
  assumes "ef_reachable w" "found_by d sub a e w" "first_refusal d w" "1 \<le> at_no a" "at_no a < 29"
    and "run_state (nack_delivery d sub why) w = (r, w')"
  shows "if attempt_limit (e_env w) e < at_no a + 1
    then r = Inl RetryExhausted \<and> (\<exists>l\<in>set (dead_letters (e_db w')). dl_event l = en_event e \<and> dl_payload l = en_payload e \<and> dl_error l = why)
    else \<exists>p b. r = Inr p \<and> rp_max p = to_int32 (attempt_limit (e_env w) e) \<and> rp_remaining p = to_int32 (attempt_limit (e_env w) e - at_no a) \<and>
      (let d = min (5 * second_ns * 2 ^ nat (at_no a)) (30 * second_ns) in d \<le> rp_delay p \<and> 4 * rp_delay p < 5 * d) \<and>
      b \<in> set (attempts (e_db w')) \<and> follows a b \<and> at_status b = ''pending'' \<and> waits b (e_db w')"
proof -
  obtain E where p: "promise E {} {} {} w" using reachable_promise [OF assms(1)] by blast
  then have E: "e_env w = E" "runs_alone E" "rows_ok E (e_calls w) (e_db w)" by (simp_all add: promiseD)
  obtain E' where p': "promise E' {} {} {} w'"
    using reachable_promise [OF ef_reachable.refused [OF assms(1,3,6)]] by blast
  obtain now ks n where n: "run_state (nack_delivery d sub why) w = run_state (if attempt_limit E e < at_no a + 1 then give_up a e why
      else try_again a e (attempt_limit E e) why) (after_refusal a why now ks n w)" "e_calls w \<le> n"
    using nack_run [OF p assms(2)] by blast
  let ?w = "after_refusal a why now ks n w" let ?b = "next_attempt_of a"
  have alone: "runs_alone (e_env ?w)" using E by (simp add: after_refusal_rows)
  have a: "a \<in> set (attempts (e_db w))" "e_parse_uuid E d = Some (at_uuid a)" using assms(2) E(1) by (simp_all add: found_by_def)
  have t: "at_tenant a \<noteq> []" using a E(3) by (simp add: rows_ok_def row_ok_def)
  show ?thesis
  proof (cases "attempt_limit E e < at_no a + 1")
    case True
    then obtain l u where "r = Inl RetryExhausted" "l \<in> set (dead_letters (e_db w'))" "l = (letter_for e why)\<lparr>dl_uuid := u\<rparr>"
      using give_up_run [OF alone, of a e why] n(1) assms(6) E(1) by auto
    then show ?thesis using True E(1) by (auto simp: letter_for_def intro!: bexI [of _ l])
  next
    case False
    have "attempt_key ?b \<notin> attempt_key ` set (attempts (e_db ?w))"
      using assms(3) a E(1) by (simp add: first_refusal_def after_refusal_keys)
    then have "\<not> list_ex (same_attempt ?b) (attempts (e_db ?w))" unfolding list_ex_iff same_attempt_key by (metis imageI)
    then have ins: "attempts (snd (insert_attempt u ?b (e_db ?w))) = attempts (e_db ?w) @ [?b\<lparr>at_uuid := u\<rparr>]" for u
      by (simp add: insert_attempt_def Let_def next_attempt_of_def)
    define u where "u = e_uuid (e_moments (e_env ?w) (e_calls ?w))"
    obtain q w2 x where try_again: "run_state (try_again a e (attempt_limit E e) why) ?w = (Inr q, w2)"
        "rp_max q = to_int32 (attempt_limit E e)" "rp_remaining q = to_int32 (max 0 (attempt_limit E e - at_no a))"
        "rp_delay q = backoff_delay (e_out_of_range (e_env ?w)) (max 1 (at_no a + 1)) retry_base +
           random_jitter x (backoff_delay (e_out_of_range (e_env ?w)) (max 1 (at_no a + 1)) retry_base div 4)"
        "attempts (e_db w2) = attempts (e_db ?w) @ [?b\<lparr>at_uuid := u\<rparr>]"
      using try_again_run [OF alone t, of e "attempt_limit E e" why] unfolding ins u_def by metis
    then have q: "r = Inr q" "?b\<lparr>at_uuid := u\<rparr> \<in> set (attempts (e_db w'))" using n(1) assms(6) False by simp_all
    have "waits (?b\<lparr>at_uuid := u\<rparr>) (e_db w')"
      using promiseD(3) [OF p'] q(2) by (auto simp: keeps_def next_attempt_of_def)
    moreover have "follows a (?b\<lparr>at_uuid := u\<rparr>)" "at_status (?b\<lparr>at_uuid := u\<rparr>) = ''pending''"
      by (simp_all add: follows_def next_attempt_of_def)
    ultimately show ?thesis using False q try_again(2-4) retry_delay [of "at_no a" "e_out_of_range (e_env ?w)" x, unfolded delays] assms(4,5) E(1)
      by (auto simp: max_def Let_def delays intro!: exI [of _ "?b\<lparr>at_uuid := u\<rparr>"])
  qed
qed

text \<open>An item that names another attempt changes nothing for this one.\<close>

lemma named_update:
  assumes "named due \<noteq> u"
  shows "(\<exists>p\<in>set (AList.update due s q). named (fst p) = u) \<longleftrightarrow> (\<exists>p\<in>set q. named (fst p) = u)"
  using assms by (induction q) auto

text \<open>C26: refusing an attempt that already has a successor, as when the call is repeated after a lost answer, resets
  the successor and schedules nothing for it: whatever became of it, handed out or acknowledged, its row is
  pending again and the answer promises a retry, but the queue holds an item that names it exactly when it held one
  before, since the item that is scheduled names the UUID of a row that was never stored. A successor that had
  left the queue is stranded.
\<close>

theorem second_refusal_strands:
  assumes "ef_reachable w" "found_by d sub a e w" "b \<in> set (attempts (e_db w))" "follows a b"
    and "at_no a + 1 \<le> attempt_limit (e_env w) e" "run_state (nack_delivery d sub why) w = (r, w')"
  shows "(\<exists>p. r = Inr p) \<and> (\<exists>b'\<in>set (attempts (e_db w')). identity b' = identity b \<and> at_status b' = ''pending'' \<and>
    (waits b' (e_db w') \<longleftrightarrow> waits b (e_db w)))"
proof -
  obtain E where p: "promise E {} {} {} w" using reachable_promise [OF assms(1)] by blast
  then have E: "e_env w = E" "runs_alone E" "rows_ok E (e_calls w) (e_db w)" by (simp_all add: promiseD)
  obtain now ks n where n: "run_state (nack_delivery d sub why) w = run_state (if attempt_limit E e < at_no a + 1 then give_up a e why
      else try_again a e (attempt_limit E e) why) (after_refusal a why now ks n w)" "e_calls w \<le> n"
    using nack_run [OF p assms(2)] by blast
  let ?w = "after_refusal a why now ks n w" let ?b = "next_attempt_of a"
  have alone: "runs_alone (e_env ?w)" using E by (simp add: after_refusal_rows)
  have a: "a \<in> set (attempts (e_db w))" using assms(2) by (simp add: found_by_def)
  have t: "at_tenant a \<noteq> []" using a E(3) by (simp add: rows_ok_def row_ok_def)
  have same: "same_attempt ?b b" using assms(4) by (simp add: same_attempt_def follows_def next_attempt_of_def)
  have ab: "at_uuid b \<noteq> at_uuid a"
    using E(3) a assms(3,4) by (auto simp: rows_ok_def distinct_map follows_def dest: inj_onD)
  then have bw: "b \<in> set (attempts (e_db ?w))" using assms(3) by (force simp: after_refusal_rows)
  define u where "u = e_uuid (e_moments E n)"
  let ?r = "b\<lparr>at_status := at_status ?b, at_latency := at_latency ?b, at_error_code := at_error_code ?b,
     at_nack_reason := at_nack_reason ?b, at_last_attempt := at_last_attempt ?b, at_acked := at_acked ?b\<rparr>"
  have ex: "list_ex (same_attempt ?b) (attempts (e_db ?w))" using bw same by (auto simp: list_ex_iff)
  have "?r \<in> set (attempts (snd (insert_attempt u ?b (e_db ?w))))"
    using bw same ex by (force simp: insert_attempt_def Let_def)
  then obtain q due s where q: "r = Inr q" "?r \<in> set (attempts (e_db w'))" "named due = u"
      "retries (e_db w') = (retries (e_db w))(at_tenant a := AList.update due s (retries (e_db w) (at_tenant a)))"
    using try_again_run [OF alone t, of e "attempt_limit E e" why] n(1) assms(5,6) E(1) by (auto simp: after_refusal_rows u_def)
  have "u \<noteq> at_uuid b" using E(3) assms(3) n(2) by (auto simp: rows_ok_def fresh_uuids_def u_def)
  then have "waits ?r (e_db w') \<longleftrightarrow> waits b (e_db w)" using q(3,4) by (simp add: waits_def named_update)
  then show ?thesis using q(1,2) by (auto simp: identity_def next_attempt_of_def intro!: bexI [of _ ?r])
qed

subsection \<open>An event that is published again\<close>

text \<open>
  What publishing does to a delivery \<open>b\<close> that is stored: its row stays, nothing is scheduled for it, and it is
  pending (\<open>Z\<close>) once its subscriber's turn has come.
\<close>

definition resets :: "ef_env \<Rightarrow> delivery_attempt \<Rightarrow> bool \<Rightarrow> bool \<Rightarrow> ef_world \<Rightarrow> bool" where
  "resets E b W Z w \<longleftrightarrow> e_env w = E \<and> (\<forall>k\<ge>e_calls w. e_uuid (e_moments E k) \<noteq> at_uuid b) \<and> (waits b (e_db w) \<longleftrightarrow> W) \<and>
     (\<exists>r\<in>set (attempts (e_db w)). identity r = identity b \<and> (Z \<longrightarrow> at_status r = ''pending''))"

lemma resets_same:
  "resets E b W Z w \<Longrightarrow> attempts db = attempts (e_db w) \<Longrightarrow> retries db = retries (e_db w) \<Longrightarrow> e_calls w \<le> n \<Longrightarrow>
    resets E b W Z (w\<lparr>e_db := db, e_calls := n\<rparr>)"
  by (auto simp: resets_def waits_def)

lemma same_attempt_identity: "identity r = identity b \<Longrightarrow> same_attempt a r = same_attempt a b"
  by (auto simp: same_attempt_def identity_def)

lemma resets_upsert:
  assumes "runs_alone E" "at_uuid a = nil_uuid" "at_status a = ''pending''"
  shows "triple (resets E b W Z) (upsert_attempt a) (\<lambda>r w. \<exists>x. r = Inr x \<and>
    (\<exists>u. x = Some (a\<lparr>at_uuid := u\<rparr>) \<and> u \<noteq> at_uuid b \<and> resets E b W (Z \<or> same_attempt a b) w))"
  unfolding triple_def
proof (intro allI impI)
  fix w assume w: "resets E b W Z w"
  define u where "u = e_uuid (e_moments E (e_calls w))"
  define db where "db = snd (insert_attempt u a (e_db w))"
  have E: "e_env w = E" "u \<noteq> at_uuid b" "\<forall>k\<ge>Suc (e_calls w). e_uuid (e_moments E k) \<noteq> at_uuid b" "waits b (e_db w) \<longleftrightarrow> W"
    using w by (auto simp: resets_def u_def)
  obtain r where r: "r \<in> set (attempts (e_db w))" "identity r = identity b" "Z \<longrightarrow> at_status r = ''pending''"
    using w by (auto simp: resets_def)
  have ins: "insert_attempt u a (e_db w) = (Inr (a\<lparr>at_uuid := u\<rparr>, 1), db)" "retries db = retries (e_db w)"
    using assms(2) by (auto simp: db_def insert_attempt_def Let_def)
  have "\<exists>r'\<in>set (attempts db). identity r' = identity b \<and> (Z \<or> same_attempt a b \<longrightarrow> at_status r' = ''pending'')"
  proof (cases "same_attempt a b")
    case True
    then have same: "same_attempt a r" using same_attempt_identity [OF r(2)] by simp
    let ?r = "r\<lparr>at_status := at_status a, at_latency := at_latency a, at_error_code := at_error_code a,
      at_nack_reason := at_nack_reason a, at_last_attempt := at_last_attempt a, at_acked := at_acked a\<rparr>"
    have "list_ex (same_attempt a) (attempts (e_db w))" using same r(1) by (auto simp: list_ex_iff)
    then have "?r \<in> set (attempts db)" using r(1) same by (force simp: db_def insert_attempt_def Let_def)
    moreover have "identity ?r = identity b" using r(2) by (simp add: identity_def)
    ultimately show ?thesis using assms(3) by (intro bexI [of _ ?r]) simp_all
  next
    case False
    then have "\<not> same_attempt a r" using same_attempt_identity [OF r(2)] by simp
    then have "r \<in> set (attempts db)" using r(1) by (auto simp: db_def insert_attempt_def Let_def)
    then show ?thesis using r(2,3) False by (intro bexI [of _ r]) simp_all
  qed
  moreover have "waits b db \<longleftrightarrow> W" using E(4) ins(2) by (simp add: waits_def)
  moreover have "run_state (upsert_attempt a) w = (Inr (Some (a\<lparr>at_uuid := u\<rparr>)), w\<lparr>e_db := db, e_calls := Suc (e_calls w)\<rparr>)"
    using assms(1) E(1) ins(1) by (simp add: upsert_attempt_def alone_runs u_def)
  ultimately show "case run_state (upsert_attempt a) w of (r, w) \<Rightarrow> \<exists>x. r = Inr x \<and>
      (\<exists>u. x = Some (a\<lparr>at_uuid := u\<rparr>) \<and> u \<noteq> at_uuid b \<and> resets E b W (Z \<or> same_attempt a b) w)"
    using E by (auto simp: resets_def)
qed

lemma resets_schedule:
  assumes "runs_alone E" "so_tenant opts \<noteq> []" "map_of (so_metadata opts) ''attempt_uuid'' = Some u" "u \<noteq> at_uuid b"
  shows "triple (resets E b W Z) (schedule opts) (\<lambda>r w. \<exists>x. r = Inr x \<and> resets E b W Z w)"
  unfolding triple_def
proof (intro allI impI)
  fix w assume w: "resets E b W Z w"
  then have "runs_alone (e_env w)" using assms(1) by (simp add: resets_def)
  from schedule_run [OF this assms(2)] obtain item due where run: "run_state (schedule opts) w = (Inr item,
      w\<lparr>e_db := retries_changed (so_tenant opts) (AList.update due (unix_milli (ri_execute_at due))) (e_db w), e_calls := e_calls w + 3\<rparr>)"
      "ri_metadata due = so_metadata opts" by blast
  have "named due \<noteq> at_uuid b" using run(2) assms(3,4) by (simp add: named_def attribute_def)
  then have "waits b (retries_changed t (AList.update due s) db) \<longleftrightarrow> waits b db" for t s db
    by (simp add: waits_def retries_changed_def named_update)
  then show "case run_state (schedule opts) w of (r, w) \<Rightarrow> \<exists>x. r = Inr x \<and> resets E b W Z w"
    using w run(1) by (auto simp: resets_def retries_changed_def)
qed

lemma resets_publish_to:
  assumes "runs_alone E" "tenant \<noteq> []" "at_tenant b = tenant" "at_event b = en_event e" "at_no b = 1"
  shows "triple (resets E b W Z) (publish_to tenant e ack subs) (\<lambda>r. resets E b W (Z \<or> at_subscriber b \<in> set subs))"
proof (induction subs arbitrary: Z)
  case (Cons s subs)
  let ?a = "first_attempt tenant e s"
  have a: "at_uuid ?a = nil_uuid" "at_status ?a = ''pending''" "same_attempt ?a b \<longleftrightarrow> at_subscriber b = s"
    using assms by (auto simp: first_attempt_def same_attempt_def)
  let ?Z = "Z \<or> at_subscriber b = s"
  have rest: "triple (resets E b W ?Z) (attempt (schedule \<lparr>so_tenant = tenant, so_subscriber = s, so_event = en_event e, so_envelope = en_uuid e,
        so_attempt = n, so_base = 0, so_metadata = [(''attempt_uuid'', u), (''ack_timeout_sec'', itoa ack)]\<rparr>) (\<lambda>_. publish_to tenant e ack subs))
      (\<lambda>r. resets E b W (Z \<or> at_subscriber b \<in> set (s # subs)))" if "u \<noteq> at_uuid b" for u n
  proof (rule triple_then [OF resets_schedule [OF assms(1), where u = u]])
    show "triple (resets E b W ?Z) (publish_to tenant e ack subs) (\<lambda>r. resets E b W (Z \<or> at_subscriber b \<in> set (s # subs)))"
      using Cons.IH [of ?Z] by (simp add: disj_assoc)
  qed (use assms(2) that in simp_all)
  show ?case unfolding publish_to.simps
  proof (rule triple_then [OF resets_upsert [OF assms(1) a(1,2)]], unfold a(3))
    fix x
    show "triple (\<lambda>w. \<exists>u. x = Some (?a\<lparr>at_uuid := u\<rparr>) \<and> u \<noteq> at_uuid b \<and> resets E b W ?Z w)
       (case x of None \<Rightarrow> raise nil_attempt
       | Some a \<Rightarrow> attempt (schedule \<lparr>so_tenant = tenant, so_subscriber = s, so_event = en_event e, so_envelope = en_uuid e,
          so_attempt = at_no a, so_base = 0, so_metadata = [(''attempt_uuid'', at_uuid a), (''ack_timeout_sec'', itoa ack)]\<rparr>)
         (\<lambda>_. publish_to tenant e ack subs)) (\<lambda>r. resets E b W (Z \<or> at_subscriber b \<in> set (s # subs)))"
    proof (rule triple_fact [where b = "\<exists>u. x = Some (?a\<lparr>at_uuid := u\<rparr>) \<and> u \<noteq> at_uuid b"], blast, elim exE conjE, goal_cases)
      case (1 u)
      have u: "at_uuid (?a\<lparr>at_uuid := u\<rparr>) = u" by simp
      show ?case unfolding 1(1) option.case u
        by (rule triple_weaken [OF rest [OF 1(2)]]) auto
    qed
  qed
qed simp

lemma live_binding:
  "q \<in> set bs \<Longrightarrow> ac_action q = ''subscribe'' \<Longrightarrow> ac_status q = 1 \<Longrightarrow> ac_expires q = None \<Longrightarrow> ac_principal q \<in> set (live_subscribers now bs)"
  by (auto simp: live_subscribers_filter)

text \<open>A binding that lets a subscriber take a topic's events, for ever.\<close>

definition subscribes :: "string \<Rightarrow> string \<Rightarrow> string \<Rightarrow> ef_db \<Rightarrow> bool" where
  "subscribes tenant topic sub db \<longleftrightarrow> (\<exists>q\<in>set (bindings db). ac_tenant q = tenant \<and> ac_topic q = topic \<and> ac_principal q = sub \<and>
     ac_action q = ''subscribe'' \<and> ac_status q = 1 \<and> ac_expires q = None)"

lemma republish_envelope:
  assumes "runs_alone E" "e_acl E" "tenant \<noteq> []" "resets E b W False w" "at_tenant b = tenant" "at_event b = event" "at_no b = 1"
    and "\<exists>e\<in>set (envelopes (e_db w)). en_event e = event" "subscribes acl_tenant (tp_uuid t) (at_subscriber b) (e_db w)"
    and "run_state (publish_envelope req tenant acl_tenant event t) w = (Inr (), w')"
  shows "resets E b W True w'"
proof -
  have E: "e_env w = E" using assms(4) by (simp add: resets_def)
  define m where "m = e_moments E (e_calls w)"
  define e where "e = envelope_for req tenant event t E (e_now m)"
  have e: "en_uuid e = nil_uuid" "en_event e = event" "en_tenant e = tenant" by (simp_all add: e_def envelope_for_def Let_def)
  define v where "v = e_uuid (e_moments E (Suc (e_calls w)))"
  obtain x db where ins: "insert_envelope v e (e_db w) = (x, db)" by fastforce
  have same: "attempts db = attempts (e_db w)" "retries db = retries (e_db w)" "bindings db = bindings (e_db w)"
    using ins by (auto simp: insert_envelope_def Let_def split: if_splits)
  have up: "run_state (upsert_by_event_id e) (w\<lparr>e_calls := Suc (e_calls w)\<rparr>) = (case x of Inl err \<Rightarrow> (Inl err, w\<lparr>e_db := db, e_calls := e_calls w + 2\<rparr>)
      | Inr (e', n) \<Rightarrow> if n = 0 then (Inr (find_envelope_by_event tenant event db, True), w\<lparr>e_db := db, e_calls := e_calls w + 3\<rparr>)
          else (Inr (Some e', False), w\<lparr>e_db := db, e_calls := e_calls w + 2\<rparr>))"
    using assms(1) E ins e by (simp add: upsert_by_event_id_def alone_runs v_def split: sum.split prod.split)
  have rest: "run_state (publish_envelope req tenant acl_tenant event t) w = run_state (attempt (upsert_by_event_id e) (\<lambda>(stored, existed). if existed then returns () else
       case stored of None \<Rightarrow> raise nil_attempt
       | Some e' \<Rightarrow> attempt (collect_subscribers acl_tenant (tp_uuid t)) (\<lambda>subs. publish_to tenant e' (en_ack_timeout e) subs))) (w\<lparr>e_calls := Suc (e_calls w)\<rparr>)"
    unfolding publish_envelope_def run_state_bind run_settings run_this_moment prod.case Let_def E m_def [symmetric] e_def [symmetric] by simp
  obtain e' where x: "x = Inr (e', 1)" "en_event e' = event"
    using ins assms(8,10) rest up e by (auto simp: insert_envelope_def Let_def list_ex_iff run_attempt split: if_splits)
  define n where "n = e_calls w + 2"
  let ?subs = "live_subscribers (e_now (e_moments E (Suc n))) (bindings_of acl_tenant (tp_uuid t) (e_db w))"
  have "run_state (collect_subscribers acl_tenant (tp_uuid t)) (w\<lparr>e_db := db, e_calls := n\<rparr>) = (Inr ?subs, w\<lparr>e_db := db, e_calls := n + 2\<rparr>)"
    using assms(1,2) E by (simp add: collect_subscribers_def alone_runs bindings_of_def same)
  then have to: "run_state (publish_to tenant e' (en_ack_timeout e) ?subs) (w\<lparr>e_db := db, e_calls := n + 2\<rparr>) = (Inr (), w')"
    using assms(10) unfolding rest run_attempt up x n_def by (simp add: run_attempt)
  have "at_subscriber b \<in> set ?subs"
    using assms(9) unfolding subscribes_def live_subscribers_filter by (force simp: bindings_of_def)
  moreover have "resets E b W False (w\<lparr>e_db := db, e_calls := n + 2\<rparr>)"
    by (rule resets_same [OF assms(4) same(1,2)]) (simp add: n_def)
  ultimately show ?thesis
    using tripleD [OF resets_publish_to [OF assms(1,3,5) _ assms(7), of e' W False] _ to] assms(6) x(2) by simp
qed

lemma publish_event_run:
  assumes "runs_alone (e_env w)" "\<not> blank (pr_event req)" "run_state (publish_event req) w = (Inr (), w')"
    and "parse_topic_name (e_parse_uuid (e_env w)) (trim_space (pr_topic req)) = Inr (topic_tenant, namespace, name)"
    and "find_topic_by_composite (trim_space (pr_tenant req)) namespace name (e_db w) = Some t"
  shows "trim_space (pr_tenant req) \<noteq> [] \<and> (\<exists>n\<ge>e_calls w. run_state (publish_envelope req (trim_space (pr_tenant req))
    (if tp_tenant t = [] then trim_space (pr_tenant req) else tp_tenant t) (trim_space (pr_event req)) t) (w\<lparr>e_calls := n\<rparr>) = (Inr (), w'))"
proof -
  have tenant: "trim_space (pr_tenant req) \<noteq> []" "resolve_tenant_key (pr_tenant req) = Inr (trim_space (pr_tenant req))"
    using assms(3) by (auto simp: publish_event_def resolve_tenant_key_def run_attempt split: if_splits)
  have may: "\<exists>r. \<exists>n\<ge>k. run_state (may_publish a t who) (w\<lparr>e_calls := k\<rparr>) = (r, w\<lparr>e_calls := n\<rparr>)" for a who k
    using assms(1) by (auto simp: may_publish_def alone_runs require_def intro: exI [of _ "Suc (Suc k)"])
  obtain r n where "Suc (Suc (e_calls w)) \<le> n" "run_state (may_publish (if tp_tenant t = [] then trim_space (pr_tenant req) else tp_tenant t) t
      (trim_space (attribute (pr_attributes req) ''principal_id''))) (w\<lparr>e_calls := Suc (Suc (e_calls w))\<rparr>) = (r, w\<lparr>e_calls := n\<rparr>)"
    using may by blast
  then show ?thesis using assms tenant
    by (auto simp: publish_event_def alone_runs require_def topic_accepts_def Let_def split: if_splits sum.splits intro!: exI [of _ n])
qed


end
