(* ===== verification/EventRuns.thy ===== *)
theory EventRuns imports EventOutcomes begin

section \<open>An order on its way\<close>

text \<open>
  A quiet service with one topic and one subscriber, and what it does with one event: published, handed
  out, refused and handed out again. These runs show that the theorems of \<open>EventSafety\<close> and
  \<open>EventOutcomes\<close> apply, and one more way in which a delivery is lost: a poll that fails.
\<close>

definition quiet_moment :: "nat \<Rightarrow> ef_moment" where
  "quiet_moment k = \<lparr>e_others = (\<lambda>db. db), e_now = int k * (10 * second_ns), e_uuid = replicate (Suc k) CHR ''u'', e_random = 0, e_fault = None\<rparr>"

definition quiet_env :: ef_env where
  "quiet_env = \<lparr>e_moments = quiet_moment, e_max_retry = 3, e_fallback = True, e_dlq = True, e_acl = True, e_usage_guard = None,
     e_parse_uuid = Some, e_digest = (\<lambda>s. s), e_out_of_range = (\<lambda>_. 0), e_item_text = ri_event\<rparr>"

definition orders_topic :: topic_row where
  "orders_topic = \<lparr>tp_uuid = ''t'', tp_scope_type = ''tenant'', tp_scope = ''acme'', tp_tenant = ''acme'', tp_namespace = ''shop'',
     tp_name = ''orders'', tp_full = ''shop.orders'', tp_versioning = ''any'', tp_max_retry = 2, tp_ack_timeout = 600\<rparr>"

definition quiet_world :: ef_world where
  "quiet_world = \<lparr>e_db = \<lparr>envelopes = [], attempts = [], dead_letters = [], topics = [orders_topic],
       bindings = [\<lparr>ac_tenant = ''acme'', ac_topic = ''t'', ac_principal = ''billing'', ac_action = ''subscribe'', ac_expires = None, ac_status = 1\<rparr>],
       retries = (\<lambda>_. []), lease_keys = (\<lambda>_. None)\<rparr>,
     e_calls = 0, e_env = quiet_env\<rparr>"

definition order_placed :: publish_request where
  "order_placed = \<lparr>pr_tenant = ''acme'', pr_topic = ''shop.orders'', pr_event = ''o1'', pr_trace = [], pr_version = [], pr_payload = [],
     pr_format = [], pr_idempotency = [], pr_attributes = []\<rparr>"

lemma quiet_start: "ef_start quiet_world"
proof -
  have "nil_uuid \<noteq> replicate (Suc k) CHR ''u''" for k by (simp add: nil_uuid_def)
  moreover have "inj (\<lambda>k. replicate (Suc k) CHR ''u'')" by (auto intro!: injI dest: arg_cong [of _ _ length])
  ultimately show ?thesis
    by (simp add: ef_start_def runs_alone_def bindings_ok_def quiet_world_def quiet_env_def quiet_moment_def del: replicate_Suc) metis
qed

lemma quiet_texts:
  "trim_space ''acme'' = ''acme''" "trim_space ''shop.orders'' = ''shop.orders''" "trim_space ''o1'' = ''o1''" "trim_space [] = []"
  "split_on CHR ''.'' ''shop.orders'' = [''shop'', ''orders'']" "trim_space ''shop'' = ''shop''"
  by code_simp+

lemma quiet_parse: "parse_topic_name f ''shop.orders'' = Inr ([], ''shop'', ''orders'')"
  by (simp add: parse_topic_name_def quiet_texts Let_def)

lemmas quiet_defs = quiet_world_def quiet_env_def quiet_moment_def orders_topic_def order_placed_def

lemmas ef_runs = run_state_bind attempt_def require_def ef_call_def ef_read_def settings_def this_moment_def Let_def

definition billing :: poll_context where
  "billing = \<lparr>pc_tenant = ''acme'', pc_subscriber = [], pc_topics = [], pc_mode = [], pc_versions = []\<rparr>"

lemmas publish_runs = publish_event_def resolve_tenant_key_def quiet_texts quiet_parse accepts_new_usage_def
     find_topic_by_composite_def topic_owner_def topic_rank_def sort_key_def topic_accepts_def may_publish_def
     publish_envelope_def envelope_for_def attribute_def upsert_by_event_id_def insert_envelope_def collect_subscribers_def bindings_of_def
     upsert_attempt_def insert_attempt_def first_attempt_def schedule_def schedule_retry_item_def retries_changed_def
     backoff_delay_def random_jitter_def unix_milli_def default_version_def default_format_def same_attempt_def

lemmas poll_runs = poll_retry_def pop_due_retries_def due_items_def poll_item_def find_polled_def find_attempt_def find_envelope_def
  acquire_lease_def lease_of_def redis_set_nx_def redis_add_def redis_expire_def redis_del_def key_command_def live_value_def
  lease_instance_key_def lease_counter_key_def hand_out_def update_attempt_def find_topic_def topic_filter_def compatibility_of_def
  accepted_versions_def delivery_of_def delivery_headers_def add_delivery_def attempt_limit_def

lemmas ack_runs = ack_delivery_def addressed_def acked_def count_active_def update_envelope_def release_lease_def

lemmas quiet_numbers = is_zero_def zero_time_def second_ns_def millisecond_ns_def default_ack_timeout_def

lemma quiet_negotiated: "compatible (negotiate ''any'' ''v1'' [])" "trim_space ''any'' = ''any''" "to_lower ''any'' = ''any''"
  by code_simp+

definition order_envelope :: event_envelope where
  "order_envelope = \<lparr>en_uuid = ''uuuu'', en_tenant = ''acme'', en_topic = ''t'', en_event = ''o1'', en_idempotency = [], en_version = ''v1'',
     en_format = ''json'', en_digest = ''{}'', en_payload = ''{}'', en_headers = [], en_published_by = [], en_published_at = 20 * second_ns,
     en_status = ''pending'', en_retry_count = 0, en_max_retry = 2, en_ack_timeout = 600, en_trace = [], en_last_error = []\<rparr>"

definition order_attempt :: delivery_attempt where
  "order_attempt = \<lparr>at_uuid = ''uuuuuuu'', at_tenant = ''acme'', at_envelope = ''uuuu'', at_event = ''o1'', at_subscriber = ''billing'', at_no = 1,
     at_status = ''delivering'', at_latency = 0, at_error_code = [], at_nack_reason = [], at_last_attempt = Some (130 * second_ns),
     at_acked = None, at_trace = []\<rparr>"

definition delivering_world :: ef_world where
  "delivering_world = quiet_world\<lparr>e_db := (e_db quiet_world)\<lparr>envelopes := [order_envelope], attempts := [order_attempt],
     lease_keys := [''event:lease:acme:billing:uuuuuuu'' \<mapsto> (1, Some (760 * second_ns)), ''event:lease:acme:billing'' \<mapsto> (1, Some (780 * second_ns))]\<rparr>,
     e_calls := 21\<rparr>"

lemma quiet_queue: "(\<lambda>_. [])(t := []) = (\<lambda>_. [])"
  by auto

lemma delivering_run:
  "snd (run_state (do { _ \<leftarrow> publish_event order_placed; poll_retry billing 10 }) quiet_world) = delivering_world"
  by (simp add: quiet_defs ef_runs publish_runs quiet_numbers poll_runs billing_def nil_uuid_def quiet_negotiated
    delivering_world_def order_envelope_def order_attempt_def quiet_queue)

lemma delivering_reachable: "ef_reachable delivering_world"
proof -
  obtain r w where w: "run_state (publish_event order_placed) quiet_world = (r, w)" by fastforce
  obtain ds w' where w': "run_state (poll_retry billing 10) w = (ds, w')" by fastforce
  have "usable (trim_space (pr_event order_placed)) quiet_world"
    by (simp add: usable_def quiet_defs envelope_ids_def quiet_texts Cons_replicate_eq)
  then have "ef_reachable w" using started [OF quiet_start] w by (blast intro: published)
  then have "ef_reachable w'" using w' by (rule polled)
  then show ?thesis using delivering_run w w' by (simp add: run_state_bind)
qed

lemmas nack_runs = nack_delivery_def addressed_def refused_by_def release_lease_def give_up_def try_again_def next_attempt_of_def
  attempt_options_def retry_base_def to_int32_def

lemmas delay_numbers = default_base_delay_def to_duration_def min_int64_def max_int64_def default_max_delay_def

lemmas quiet_runs = quiet_defs ef_runs publish_runs quiet_numbers poll_runs billing_def nil_uuid_def quiet_negotiated ack_runs nack_runs
  delay_numbers quiet_queue

definition refused_attempt :: delivery_attempt where
  "refused_attempt = order_attempt\<lparr>at_status := ''failed'', at_error_code := ''nack'', at_nack_reason := ''busy'', at_last_attempt := Some (230 * second_ns)\<rparr>"

definition second_attempt :: delivery_attempt where
  "second_attempt = order_attempt\<lparr>at_uuid := replicate 29 CHR ''u'', at_no := 2, at_status := ''pending'', at_last_attempt := None\<rparr>"

definition refused_world :: ef_world where
  "refused_world = delivering_world\<lparr>e_db := (e_db delivering_world)\<lparr>
     envelopes := [order_envelope\<lparr>en_retry_count := 1, en_last_error := ''busy''\<rparr>], attempts := [refused_attempt, second_attempt],
     retries := (\<lambda>_. [])(''acme'' := [(\<lparr>ri_event = ''o1'', ri_envelope = ''uuuu'', ri_subscriber = ''billing'', ri_tenant = ''acme'', ri_attempt = 2,
       ri_execute_at = 300 * second_ns, ri_backoff = 10 * second_ns,
       ri_metadata = [(''attempt_uuid'', replicate 29 CHR ''u''), (''ack_timeout_sec'', itoa 600)]\<rparr>, 300000)]),
     lease_keys := (\<lambda>_. None)\<rparr>, e_calls := 33\<rparr>"

lemma refused_run:
  "run_state (nack_delivery ''uuuuuuu'' ''billing'' ''busy'') delivering_world =
     (Inr \<lparr>rp_max = 2, rp_remaining = 1, rp_delay = 10 * second_ns\<rparr>, refused_world)"
  by (simp add: quiet_runs delivering_world_def order_envelope_def order_attempt_def refused_world_def refused_attempt_def second_attempt_def)

lemma quiet_uuid: "replicate 29 CHR ''u'' \<noteq> ''uuuuuuu''" "replicate 29 CHR ''u'' \<noteq> nil_uuid" "replicate 29 CHR ''u'' \<noteq> []"
    "''uuuu'' \<noteq> replicate 34 CHR ''u''" "''uuuuuuu'' \<noteq> replicate 37 CHR ''u''"
  by code_simp+

definition redelivered_world :: ef_world where
  "redelivered_world = refused_world\<lparr>e_db := (e_db refused_world)\<lparr>
     attempts := [refused_attempt, second_attempt\<lparr>at_status := ''delivering'', at_last_attempt := Some (360 * second_ns)\<rparr>], retries := (\<lambda>_. []),
     lease_keys := [''event:lease:acme:billing:'' @ replicate 29 CHR ''u'' \<mapsto> (1, Some (990 * second_ns)), ''event:lease:acme:billing'' \<mapsto> (1, Some (1010 * second_ns))]\<rparr>,
     e_calls := 44\<rparr>"

lemma redelivered_run: "snd (run_state (poll_retry billing 10) refused_world) = redelivered_world"
  by (simp add: quiet_runs delivering_world_def order_envelope_def order_attempt_def refused_world_def refused_attempt_def second_attempt_def
    redelivered_world_def quiet_uuid [unfolded nil_uuid_def] not_sym [OF quiet_uuid(1)])

lemma delivering_rows: "attempts (e_db delivering_world) = [order_attempt]" "envelopes (e_db delivering_world) = [order_envelope]"
    "e_env delivering_world = quiet_env"
  by (simp_all add: delivering_world_def quiet_world_def)

lemma refused_first: "first_refusal ''uuuuuuu'' delivering_world"
  by (simp add: first_refusal_def delivering_rows order_attempt_def next_attempt_of_def attempt_key_def)

lemma refused_found: "found_by ''uuuuuuu'' ''billing'' order_attempt order_envelope delivering_world"
  by (simp add: found_by_def delivering_rows order_attempt_def order_envelope_def find_envelope_def quiet_env_def)

lemma refused_reachable: "ef_reachable refused_world"
  by (rule ef_reachable.refused [OF delivering_reachable refused_first refused_run])

lemma redelivered_reachable: "ef_reachable redelivered_world"
  using ef_reachable.polled [OF refused_reachable] redelivered_run by (metis prod.collapse)

theorem no_delivery_forgotten_witness: "waits second_attempt (e_db refused_world) \<and> accounted refused_attempt (e_db refused_world)"
proof -
  have a: "second_attempt \<in> set (attempts (e_db refused_world))" "refused_attempt \<in> set (attempts (e_db refused_world))"
    by (simp_all add: refused_world_def)
  show ?thesis using no_delivery_forgotten [OF refused_reachable a(1)] no_delivery_forgotten [OF refused_reachable a(2)]
    by (simp add: second_attempt_def refused_attempt_def)
qed

theorem nack_outcome_witness: "\<exists>b. b \<in> set (attempts (e_db refused_world)) \<and> follows order_attempt b \<and> at_status b = ''pending'' \<and> waits b (e_db refused_world)"
proof -
  have "1 \<le> at_no order_attempt" "at_no order_attempt < 29" "\<not> attempt_limit (e_env delivering_world) order_envelope < at_no order_attempt + 1"
    by (simp_all add: order_attempt_def attempt_limit_def order_envelope_def)
  then show ?thesis using nack_outcome [OF delivering_reachable refused_found refused_first _ _ refused_run] by auto
qed

theorem second_refusal_strands_witness:
  "\<exists>b'\<in>set (attempts (e_db (snd (run_state (nack_delivery ''uuuuuuu'' ''billing'' ''busy'') redelivered_world)))).
     at_no b' = 2 \<and> at_status b' = ''pending'' \<and> \<not> waits b' (e_db (snd (run_state (nack_delivery ''uuuuuuu'' ''billing'' ''busy'') redelivered_world)))"
proof -
  let ?b = "second_attempt\<lparr>at_status := ''delivering'', at_last_attempt := Some (360 * second_ns)\<rparr>"
  obtain r w' where run: "run_state (nack_delivery ''uuuuuuu'' ''billing'' ''busy'') redelivered_world = (r, w')" by fastforce
  have "found_by ''uuuuuuu'' ''billing'' refused_attempt (order_envelope\<lparr>en_retry_count := 1, en_last_error := ''busy''\<rparr>) redelivered_world"
    by (simp add: found_by_def redelivered_world_def refused_world_def delivering_world_def refused_attempt_def order_attempt_def order_envelope_def
      find_envelope_def quiet_world_def quiet_env_def)
  moreover have "?b \<in> set (attempts (e_db redelivered_world))" "follows refused_attempt ?b"
      "at_no refused_attempt + 1 \<le> attempt_limit (e_env redelivered_world) (order_envelope\<lparr>en_retry_count := 1, en_last_error := ''busy''\<rparr>)"
    by (simp_all add: redelivered_world_def follows_def refused_attempt_def second_attempt_def order_attempt_def attempt_limit_def order_envelope_def)
  moreover have "\<not> waits ?b (e_db redelivered_world)" by (simp add: redelivered_world_def waits_def)
  ultimately show ?thesis using second_refusal_strands [OF redelivered_reachable _ _ _ _ run] run
    by (fastforce simp: identity_def second_attempt_def)
qed

text \<open>The event's delivery is handed out when the event is published again.\<close>

lemma delivering_republished:
  "fst (run_state (publish_event order_placed) delivering_world) = Inr ()"
  by (simp add: quiet_runs delivering_world_def order_envelope_def order_attempt_def)


definition faulty_env :: ef_env where
  "faulty_env = quiet_env\<lparr>e_moments := (\<lambda>k. (quiet_moment k)\<lparr>e_fault := (if k = 14 then Some (''connection reset'', False) else None)\<rparr>)\<rparr>"

text \<open>
  The items of a poll leave the queue before any of them is handled: a statement that fails on the
  first of them ends the poll with an error, and its delivery stays pending with nothing in the queue.
\<close>

theorem failed_poll_loses_items:
  "case run_state (do { p \<leftarrow> publish_event order_placed; ds \<leftarrow> poll_retry billing 10; State_Monad.return (p, ds) }) (quiet_world\<lparr>e_env := faulty_env\<rparr>) of
    (results, w) \<Rightarrow> results = (Inr (), Inl (StoreError ''connection reset'')) \<and>
      map at_status (attempts (e_db w)) = [''pending''] \<and> retries (e_db w) ''acme'' = []"
  by (simp add: quiet_runs faulty_env_def)

end
