(* ===== verification/Spec2Isabelle.thy ===== *)
theory Spec2Isabelle
  imports Cron RuntimeCron VersionNegotiation DriverSelection RingBuffers AgentLiveness AgentWorker
    AgentArchive ModelPool TaskLeases WorkflowScenarios PayloadMapping EventRuns
begin

text \<open>
  PowerX is the backend of an operating base for AI agents and plugins, written in Go
  (\<open>src/backend\<close>): it runs agents and workflows for many tenants on several server processes,
  which share a PostgreSQL database and a Redis server. This library models the parts that carry
  its own logic, and proves what they promise. Names of files below are relative to
  \<open>src/backend\<close>.

  \<^bold>\<open>The parts.\<close>

  \<^item> \<^bold>\<open>Agent runs\<close> (\<open>internal/service/agent_run\<close>). A run is admitted, gets a plan of tasks that
    depend on each other, and is driven by \<open>ReconcilePlan\<close>, which queues tasks whose dependencies
    have completed, skips those that cannot run, and ends the run. Queued tasks enter the run's
    outbox, \<open>DispatchPending\<close> hands them to the task bus, and workers lease, start, execute and
    complete them. All state of a run is in Redis keys of one hash slot, changed by optimistic
    transactions (\<open>WATCH\<close>, read, \<open>MULTI\<close>).
    \<open>AgentRun\<close> has the data, the keys as one record and the retry loop of a transaction;
    \<open>AgentStore\<close> \<open>store.go\<close> and \<open>admission.go\<close>; \<open>AgentPlan\<close> \<open>validPlan\<close>, over the depth-first search
    of \<open>DepthFirst\<close>; \<open>AgentTask\<close> the task mutations and execution receipts; \<open>AgentSchedule\<close>
    the planning operations, \<open>QueueTask\<close> and \<open>Cancel\<close>; \<open>AgentCalls\<close> the world in which programs call the
    store; \<open>AgentReconcile\<close> the reconciler, dispatcher and recovery; \<open>AgentWorker\<close> the two
    workers; \<open>AgentArchive\<close> the archive of ended runs and the expiry of their keys.
    \<open>AgentReachable\<close> has one rule per operation (\<open>run_step\<close>) and the invariant; \<open>AgentSafety\<close>,
    \<open>AgentProgress\<close> and \<open>AgentLiveness\<close> the properties that follow.
  \<^item> \<^bold>\<open>Workflows\<close> (\<open>internal/service/workflow\<close>, with the rows and repositories of
    \<open>pkg/corex/db/persistence\<close>). A definition is a graph of steps; the service creates, revises and
    publishes definitions, starts instances, and lets operators and reviewers act on them; runners
    lease the queued step records, execute their nodes and queue what follows.
    \<open>WorkflowValue\<close> has the dynamically typed values, \<open>WorkflowGraph\<close> the executors and the
    validator, \<open>WorkflowStore\<close> the rows and one function per SQL statement, \<open>WorkflowRunner\<close>
    \<open>runner.go\<close>, \<open>WorkflowService\<close> \<open>service.go\<close> and the dispatch to agents, \<open>WorkflowControl\<close>
    control, failures, compensation and human review, \<open>PayloadMapping\<close> the payload mappings over a
    store of shared maps. \<open>WorkflowSafety\<close>, \<open>WorkflowServiceSafety\<close>, \<open>WorkflowDrain\<close>, \<open>WorkflowLaunch\<close>,
    \<open>WorkflowDefinitions\<close> and \<open>WorkflowScenarios\<close> hold the properties.
  \<^item> \<^bold>\<open>Shared limits in Redis\<close>: \<open>ExecutionCapacity\<close> (how many tasks a tenant and a run execute at
    once), \<open>ModelPool\<close> (slots of a model deployment, given out in ticket order) and \<open>TaskLeases\<close>
    (\<open>pkg/event_bus/redis_lease.go\<close>, the lease of a delivery), over the sorted sets of \<open>RedisKeys\<close>.
  \<^item> \<^bold>\<open>Event fabric and schedulers\<close>: \<open>Cron\<close> and \<open>RuntimeCron\<close> (the two copies of the cron parser and
    search), \<open>VersionNegotiation\<close>, \<open>DriverSelection\<close>; and the delivery of events
    (\<open>delivery/service.go\<close>, \<open>backoff_scheduler.go\<close>, \<open>dlq/service.go\<close>, \<open>redis_retry.go\<close>): an event that is
    published gets an envelope and one attempt per subscriber, whose items wait in a tenant's retry queue until a
    poll leases them and hands them out; a refusal schedules the next attempt or makes a dead
    letter. \<open>EventStore\<close> has the rows, the queue and the leases, \<open>EventDelivery\<close> the operations,
    \<open>EventPromise\<close> and \<open>EventSafety\<close> the invariant, \<open>EventOutcomes\<close> and \<open>EventRuns\<close> what
    becomes of refusals and of repeated calls.
  \<^item> \<^bold>\<open>Logs\<close>: \<open>RingBuffers\<close>, the two byte rings that keep the tail of a log.

  \<open>GoBase\<close> and \<open>GoTime\<close> have what the code uses of the Go library: strings with white space and
  case, \<open>Atoi\<close> and \<open>Itoa\<close>, 64-bit integers, instants and the calendar.

  \<^bold>\<open>How code becomes definitions.\<close> A struct is a record and keeps its fields, but for columns nobody
  reads. An error is the left side of a sum, a nil pointer is \<open>None\<close>. An operation on the run store
  is a transaction, its checks and its writes on one snapshot of the keys; \<open>operations_atomic\<close> justifies
  this against any interference of other clients. Programs of several calls are in the state
  monad over a world that counts calls; each call meets the surroundings of its number: what
  other processes did to the shared state until then, the clock, and whether the call fails, with
  or without effect. A theorem over all such worlds therefore holds for every interleaving and
  every fault. Only the promise of event delivery is stated for a service that runs alone and without
  faults: what a fault does to it is \<open>failed_poll_loses_items\<close>. \<open>CallLogic\<close> has the rules for programs that stay within a relation.

  \<^bold>\<open>Interfaces.\<close> Locales state what one part needs of another, and are interpreted on the model's
  definitions: \<open>optimistic_tx\<close> (what an operation must read for its transaction to be atomic, interpreted for
  every operation of the run store), \<open>observer\<close> (what a program adds to a log of the world,
  interpreted for executions and for acknowledgements), \<open>call_logic\<close> (a relation that programs stay
  within, interpreted for the statements of the workflow tables, the logs and the rows of event delivery), \<open>recent_log\<close> and
  \<open>bounded_log\<close> (what a log ring promises), and \<open>sorted_set\<close> (what the scripts need of Redis).

  \<^bold>\<open>What is shown.\<close> For agent runs: plans are accepted exactly when they are acyclic and within the
  limits; every operation moves every task along one life cycle; a task starts after its
  dependencies, under one live lease, is executed at most once and its end is final; a stale
  worker is locked out; the reconciler ends within its turns and its verdict is right; the
  dispatcher loses nothing; a worker acknowledges after its outcome is stored; keys expire only
  after a complete report is in the archive. For workflows: the validator accepts exactly the graphs it
  should; a record is leased once and executed at most once; no operation returns it to the queue
  and its states are five; a started workflow runs each of its steps once and succeeds; what a
  definition stores is what it will run; mappings are exact unless their targets overlap. For the
  limits: the quota and the pool are never exceeded, slots go in ticket order, a lost lease
  never returns. For cron: the parser denotes the calendar set, and the search finds its first
  instant. For events: a pending attempt always has its item in the queue and a failed one a successor or a
  dead letter, and a refusal's answer is exact. The \<open>error\<close> properties state behaviour that the code's comments, names or callers do not
  expect; each is proved of the same definitions.

  \<^bold>\<open>Bounds and fuel.\<close> A store transaction tries 5 times and a worker's retry 10, as in the code. The
  reconciler has the code's 4096 turns; 2n+1 suffice for the at most 1000 tasks of a plan. The
  dispatcher's loop has one turn for each outbox entry. The depth-first searches have as fuel the
  number of nodes, which \<open>visit_all_decides\<close> shows is never what decides. \<open>DrainDueSteps\<close> has the
  caller's iterations or 50, and as many as the workflow has steps suffice. A lease takes 1 to 100
  records, 10 by default. The cron search has the code's limit of minutes.

  \<^bold>\<open>Parameters.\<close> Redis sorted sets (what is assumed of them is the locale \<open>sorted_set\<close>), SHA-256, the
  JSON texts of stored values, the generator of UUIDs, the object store of the archive, zones of the time zone
  database, the executor or planner a worker calls, the node adapters, the check of
  tool grants and the guard of plugin usage, the parser of UUIDs, conversions from floats that are out of range, the external retry queue, and the texts of error values. The order of a Go map's range is that of an association list
  over which the theorems quantify.

  \<^bold>\<open>Not modelled.\<close> Identity, authentication and permissions (SQL filters and a third-party policy
  engine), plugins and their supervision (processes and proxies), the agent runtime and model
  drivers (prompts and HTTP), knowledge spaces, media and the administration of tables, backup and
  recovery (shell commands), transport, configuration and the web front end. Within the modelled parts: the paged
  listings of rows, metrics, traces and audit records, the registration of topics and bindings, the start-up checks of the Redis server, the goroutines
  that call the workers, the delay of a workflow retry, and case mapping outside ASCII.
\<close>

end
